(* ===== verification/Prelude.thy ===== *)
theory Prelude
  imports Main "HOL-Library.Word" "HOL-Library.Code_Target_Nat"
begin

text \<open>
  Shared vocabulary of the development: the fixed-width integer types of
  src/src/def.h, the byte strings of the C code, fatal errors, 64-bit wrap-around
  on natural numbers, and the small lemmas on lists, options and words that several
  components use.

  A byte (C \<open>char\<close>, \<open>u8\<close> in file data) is the HOL type \<open>char\<close>, which has exactly
  256 values; \<open>of_char\<close> reads it as an unsigned number.  A C string is the list of
  its bytes without the terminating NUL.  \<open>slog(ERROR, ...)\<close> of src/src/slog.c ends
  the process with exit code 100: a function that can reach it returns a sum whose
  left side is \<open>Fatal\<close> with the message's format string.
\<close>

unbundle bit_operations_syntax

section \<open>Types\<close>

type_synonym u8 = "8 word"
type_synonym u16 = "16 word"
type_synonym u32 = "32 word"
type_synonym u64 = "64 word"

type_synonym bytes = "char list"

datatype fatal = Fatal string

type_synonym 'a result = "fatal + 'a"

abbreviation code :: "char \<Rightarrow> nat" where
  "code c \<equiv> of_char c"

named_theorems safe_intro \<open>facts that put an index inside its buffer\<close>
named_theorems inv_simps \<open>unfolding rules of the components' invariants\<close>

section \<open>Wrap-around of unsigned arithmetic\<close>

definition add64 :: "nat \<Rightarrow> nat \<Rightarrow> nat" where
  "add64 a b = (a + b) mod 2 ^ 64"

definition mul64 :: "nat \<Rightarrow> nat \<Rightarrow> nat" where
  "mul64 a b = (a * b) mod 2 ^ 64"

definition u64_max :: nat where
  "u64_max = 2 ^ 64 - 1"

lemma add64_exact [simp]: "a + b < 2 ^ 64 \<Longrightarrow> add64 a b = a + b"
  by (simp add: add64_def)

lemma mul64_exact [simp]: "a * b < 2 ^ 64 \<Longrightarrow> mul64 a b = a * b"
  by (simp add: mul64_def)

section \<open>Little-endian integers\<close>

text \<open>\<open>memcpy\<close> from file bytes into a host integer: the host is little-endian.\<close>

fun le_val :: "bytes \<Rightarrow> nat" where
  "le_val [] = 0"
| "le_val (b # bs) = code b + 256 * le_val bs"

fun le_bytes :: "nat \<Rightarrow> nat \<Rightarrow> bytes" where
  "le_bytes 0 n = []"
| "le_bytes (Suc w) n = char_of (n mod 256) # le_bytes w (n div 256)"

lemma code_le [simp]: "code c \<le> 255"
  using nat_of_char_less_256 [of c] by linarith

lemma length_le_bytes [simp]: "length (le_bytes w n) = w"
  by (induction w arbitrary: n) auto

lemma le_bytes_Nil_iff [simp]: "le_bytes w n = [] \<longleftrightarrow> w = 0"
  by (metis length_0_conv length_le_bytes)

lemma le_val_le_bytes: "le_val (le_bytes w n) = n mod 256 ^ w"
proof (induction w arbitrary: n)
  case 0
  then show ?case by simp
next
  case (Suc w)
  have "n mod (256 * 256 ^ w) = 256 * (n div 256 mod 256 ^ w) + n mod 256"
    by (rule mod_mult2_eq)
  with Suc.IH [of "n div 256"] show ?case by simp
qed

lemma le_val_le_bytes_id [simp]: "n < 256 ^ w \<Longrightarrow> le_val (le_bytes w n) = n"
  by (simp add: le_val_le_bytes)

lemma le_bytes_add: "le_bytes (a + b) n = le_bytes a n @ le_bytes b (n div 256 ^ a)"
  by (induction a arbitrary: n) (auto simp: div_mult2_eq)

lemma le_val_bound: "le_val bs < 256 ^ length bs"
proof (induction bs)
  case Nil
  then show ?case by simp
next
  case (Cons b bs)
  have "code b + 256 * le_val bs < 256 + 256 * le_val bs"
    by simp
  also have "\<dots> \<le> 256 * 256 ^ length bs"
    using Cons.IH by simp
  finally show ?case by simp
qed

section \<open>Lists\<close>

lemma take_drop_append [simp]:
  "length pre = p \<Longrightarrow> take (length x) (drop p (pre @ x @ suf)) = x"
  by auto

lemma nth_append_pre [simp]: "length pre = p \<Longrightarrow> (pre @ x # suf) ! p = x"
  by (auto simp: nth_append)

lemma take_add_append: "length a = k \<Longrightarrow> take (k + j) (a @ b) = a @ take j b"
  and drop_add_append: "length a = k \<Longrightarrow> drop (k + j) (a @ b) = drop j b"
  by auto

lemma length_concat_ge: "\<forall>x \<in> set xs. x \<noteq> [] \<Longrightarrow> length xs \<le> length (concat xs)"
proof (induction xs)
  case (Cons x xs)
  then have "1 \<le> length x" and "length xs \<le> length (concat xs)" by (auto simp: Suc_le_eq)
  then have "Suc (length xs) \<le> length x + length (concat xs)" by linarith
  then show ?case by simp
qed simp

lemma find_SomeD: "find P xs = Some x \<Longrightarrow> P x \<and> x \<in> set xs"
  by (auto simp: find_Some_iff)

lemma mod_add_cancel_less:
  assumes "a < n" and "b < n" and "(h + a) mod n = (h + b) mod (n::nat)"
  shows "a = b"
proof -
  have "(int h + int a) mod int n = (int h + int b) mod int n"
    using assms(3) by (metis of_nat_add zmod_int)
  then have "(int a - int b) mod int n = 0"
    by (simp add: mod_eq_dvd_iff)
  then have "int n dvd int a - int b" by presburger
  moreover have "\<bar>int a - int b\<bar> < int n" using assms(1,2) by auto
  ultimately show ?thesis
    using zdvd_imp_le [of "int n" "\<bar>int a - int b\<bar>"] by fastforce
qed

lemma unat_and_mask: "unat (w AND (2 ^ k - 1) :: 64 word) = unat w mod 2 ^ k"
  by (metis mask_eq_exp_minus_1 take_bit_eq_mask take_bit_eq_mod unsigned_take_bit_eq)

section \<open>Fatal errors\<close>

definition rbind :: "'a result \<Rightarrow> ('a \<Rightarrow> 'b result) \<Rightarrow> 'b result" where
  "rbind r k = (case r of Inl e \<Rightarrow> Inl e | Inr x \<Rightarrow> k x)"

lemma rbind_simps [simp]: "rbind (Inl e) k = Inl e" "rbind (Inr x) k = k x"
  by (simp_all add: rbind_def)

lemma rbind_Inr_iff [simp]: "rbind r k = Inr y \<longleftrightarrow> (\<exists>x. r = Inr x \<and> k x = Inr y)"
  by (cases r) auto

definition die_unless :: "bool \<Rightarrow> string \<Rightarrow> unit result" where
  "die_unless b msg = (if b then Inr () else Inl (Fatal msg))"

lemma die_unless_Inr_iff [simp]: "die_unless b msg = Inr u \<longleftrightarrow> b"
  by (simp add: die_unless_def)

section \<open>Decimal numbers\<close>

text \<open>\<open>%d\<close> and \<open>%u\<close> of \<open>printf\<close>, and the digit loops that read them back.\<close>

fun dec :: "nat \<Rightarrow> string" where
  "dec n = (if n < 10 then [char_of (48 + n)] else dec (n div 10) @ [char_of (48 + n mod 10)])"

declare dec.simps [simp del]

definition is_digit :: "char \<Rightarrow> bool" where
  "is_digit c \<longleftrightarrow> 48 \<le> code c \<and> code c \<le> 57"

definition digit_of :: "char \<Rightarrow> nat" where
  "digit_of c = code c - 48"

definition dec_value :: "string \<Rightarrow> nat" where
  "dec_value s = foldl (\<lambda>n c. n * 10 + digit_of c) 0 s"

lemma digit_char [simp]: "n < 10 \<Longrightarrow> is_digit (char_of (48 + n))" "n < 10 \<Longrightarrow> digit_of (char_of (48 + n)) = n"
  by (simp_all add: is_digit_def digit_of_def)

lemma dec_digits: "list_all is_digit (dec n)"
  by (induction n rule: dec.induct) (subst dec.simps, simp)

lemma dec_value_dec [simp]: "dec_value (dec n) = n"
proof (induction n rule: dec.induct)
  case (1 n)
  then show ?case by (subst dec.simps) (simp add: dec_value_def)
qed

lemma dec_nonempty [simp]: "dec n \<noteq> []"
  by (subst dec.simps) simp

lemma foldl_mod:
  "foldl (\<lambda>n c. (n * 10 + f c) mod m) (a mod m) s = foldl (\<lambda>n c. n * 10 + f c) a s mod (m :: nat)"
proof (induction s arbitrary: a)
  case Nil
  then show ?case by simp
next
  case (Cons c s)
  have "(a mod m * 10 + f c) mod m = (a * 10 + f c) mod m"
    by (metis mod_add_left_eq mod_mult_left_eq)
  with Cons show ?case by simp
qed

lemma takeWhile_dec:
  "(s = [] \<or> \<not> is_digit (hd s)) \<Longrightarrow> takeWhile is_digit (dec n @ s) = dec n"
  using dec_digits [of n] by (cases s) (auto simp: takeWhile_append list_all_iff)

lemma dropWhile_dec:
  "(s = [] \<or> \<not> is_digit (hd s)) \<Longrightarrow> dropWhile is_digit (dec n @ s) = s"
  using dec_digits [of n] by (cases s) (auto simp: dropWhile_append list_all_iff)

lemma sum_list_map_update:
  fixes f :: "'a \<Rightarrow> 'b::comm_monoid_add"
  shows "i < length xs \<Longrightarrow> sum_list (List.map f (xs[i := x])) + f (xs ! i) = sum_list (List.map f xs) + f x"
proof (induction xs arbitrary: i)
  case (Cons a xs)
  then show ?case by (cases i) (auto simp: ac_simps)
qed simp

end
