(* ===== verification/CUtils.thy ===== *)
theory CUtils
  imports Prelude
begin

text \<open>
  src/src/utils.c: the power-of-two rounding, the byte hash and the key comparisons
  that the model loader and the tokenizer tables use.  A \<open>Key\<close> (def.h) is a length
  byte and a pointer into the mapped file; here it is the byte string it denotes.
\<close>

unbundle bit_operations_syntax

type_synonym key = bytes

section \<open>next_pow2\<close>

text \<open>The loop \<open>while (p < n) p <<= 1\<close> on a 64-bit \<open>p\<close>.  It need not end, so it is an
  option: \<open>None\<close> is the endless loop.\<close>

partial_function (option) next_pow2_from :: "nat \<Rightarrow> nat \<Rightarrow> nat option" where
  "next_pow2_from p n = (if p < n then next_pow2_from (2 * p mod 2 ^ 64) n else Some p)"

definition next_pow2 :: "nat \<Rightarrow> nat option" where
  "next_pow2 n = next_pow2_from 1 n"

lemma next_pow2_from_run:
  assumes "n \<le> 2 ^ 63" and "k \<le> 63" and "k = 0 \<or> 2 ^ (k - 1) < n"
  shows "\<exists>j \<le> 63. next_pow2_from (2 ^ k) n = Some (2 ^ j) \<and> n \<le> 2 ^ j
    \<and> (j = 0 \<or> 2 ^ (j - 1) < n)"
  using assms(2,3)
proof (induction "63 - k" arbitrary: k)
  case 0
  then have "k = 63" by simp
  with assms(1) have "next_pow2_from (2 ^ k) n = Some (2 ^ k)"
    by (simp add: next_pow2_from.simps)
  with 0 \<open>k = 63\<close> assms(1) show ?case by (intro exI [of _ k]) simp
next
  case (Suc d)
  show ?case
  proof (cases "2 ^ k < n")
    case True
    have "k < 63" using Suc.hyps(2) by simp
    then have "2 * (2::nat) ^ k mod 2 ^ 64 = 2 ^ Suc k"
      using power_strict_increasing [of "Suc k" 64 "2::nat"] by simp
    then have eq: "next_pow2_from (2 ^ k) n = next_pow2_from (2 ^ Suc k) n"
      using True by (subst next_pow2_from.simps) simp
    from \<open>k < 63\<close> Suc.hyps True show ?thesis
      unfolding eq by (intro Suc.hyps(1)) auto
  next
    case False
    then have "next_pow2_from (2 ^ k) n = Some (2 ^ k)"
      by (simp add: next_pow2_from.simps)
    with False Suc.prems show ?thesis by (intro exI [of _ k]) simp
  qed
qed

lemma next_pow2_Some:
  assumes "n \<le> 2 ^ 63"
  obtains j where "j \<le> 63" and "next_pow2 n = Some (2 ^ j)" and "n \<le> 2 ^ j"
    and "j = 0 \<or> 2 ^ (j - 1) < n"
  using next_pow2_from_run [OF assms, of 0] by (auto simp: next_pow2_def)

text \<open>Past \<open>2 ^ 63\<close> the shifted value drops to zero and the loop never ends.\<close>

lemma next_pow2_from_big:
  assumes ret: "next_pow2_from p n = Some r" and "2 ^ 63 < n"
    and "p = 0 \<or> (\<exists>k \<le> 63. p = 2 ^ k)"
  shows False
proof -
  have "n > 2 ^ 63 \<longrightarrow> (p = 0 \<or> (\<exists>k \<le> 63. p = 2 ^ k)) \<longrightarrow> False"
  proof (rule next_pow2_from.raw_induct
      [where P = "\<lambda>p n r. n > 2 ^ 63 \<longrightarrow> (p = 0 \<or> (\<exists>k \<le> 63. p = 2 ^ k)) \<longrightarrow> False",
        OF _ ret], intro impI)
    fix f :: "nat \<Rightarrow> nat \<Rightarrow> nat option" and p n r :: nat
    assume IH: "\<And>p n r. f p n = Some r \<Longrightarrow>
        n > 2 ^ 63 \<longrightarrow> (p = 0 \<or> (\<exists>k \<le> 63. p = 2 ^ k)) \<longrightarrow> False"
      and eq: "(if p < n then f (2 * p mod 2 ^ 64) n else Some p) = Some r"
      and n: "n > 2 ^ 63" and p: "p = 0 \<or> (\<exists>k \<le> 63. p = 2 ^ k)"
    have "p \<le> 2 ^ 63"
      using p power_increasing [of _ 63 "2::nat"] by auto
    with n have "p < n" by simp
    with eq have ret': "f (2 * p mod 2 ^ 64) n = Some r" by simp
    have "2 * p mod 2 ^ 64 = 0 \<or> (\<exists>k \<le> 63. 2 * p mod 2 ^ 64 = 2 ^ k)"
    proof (cases "p = 2 ^ 63 \<or> p = 0")
      case True
      then show ?thesis by auto
    next
      case False
      with p obtain k where k: "k < 63" "p = 2 ^ k"
        using nat_less_le by blast
      then have "2 * p mod 2 ^ 64 = 2 ^ Suc k"
        using power_strict_increasing [of "Suc k" 64 "2::nat"] by simp
      with k show ?thesis by (metis Suc_leI)
    qed
    with IH [OF ret'] n show False by blast
  qed
  with assms show False by blast
qed

section \<open>hash_bytes\<close>

text \<open>FNV-1a over the bytes; \<open>*\<close> wraps at 64 bits.\<close>

definition hash_bytes :: "bytes \<Rightarrow> u64" where
  "hash_bytes bs =
     fold (\<lambda>b h. (h XOR of_char b) * 1099511628211) bs 1469598103934665603"

section \<open>Keys\<close>

definition key_eq :: "key \<Rightarrow> key \<Rightarrow> bool" where
  "key_eq k1 k2 \<longleftrightarrow> length k1 = length k2 \<and> take (length k1) k1 = take (length k1) k2"

definition key_streq :: "key \<Rightarrow> string \<Rightarrow> bool" where
  "key_streq k s \<longleftrightarrow> length k = length s \<and> take (length s) k = take (length s) s"

lemma key_eq_iff [simp]: "key_eq k1 k2 \<longleftrightarrow> k1 = k2"
  by (auto simp: key_eq_def)

lemma key_streq_iff [simp]: "key_streq k s \<longleftrightarrow> k = s"
  by (auto simp: key_streq_def)

section \<open>Numbers from text\<close>

text \<open>C's \<open>strtol(s, &end, 10)\<close> on a 64-bit \<open>long\<close>: the value, saturated at the ends of the
  range, what is left at \<open>end\<close> (all of \<open>s\<close> when there is no number) and whether \<open>errno\<close>
  became \<open>ERANGE\<close>.\<close>

definition is_space :: "char \<Rightarrow> bool" where
  "is_space c \<longleftrightarrow> code c = 32 \<or> (9 \<le> code c \<and> code c \<le> 13)"

definition clamp_long :: "int \<Rightarrow> int" where
  "clamp_long v = max (- (2 ^ 63)) (min (2 ^ 63 - 1) v)"

definition strtol :: "string \<Rightarrow> int \<times> string \<times> bool" where
  "strtol s =
     (let t = dropWhile is_space s;
          u = (if t \<noteq> [] \<and> (hd t = CHR ''-'' \<or> hd t = CHR ''+'') then tl t else t);
          n = int (dec_value (takeWhile is_digit u));
          v = (if t \<noteq> [] \<and> hd t = CHR ''-'' then - n else n) in
      if takeWhile is_digit u = [] then (0, s, False)
      else (clamp_long v, dropWhile is_digit u, clamp_long v \<noteq> v))"

definition parse_int :: "string \<Rightarrow> int result" where
  "parse_int s =
     (let (v, stop, erange) = strtol s in
      if s = [] \<or> stop \<noteq> [] \<or> v > 2147483647 \<or> v < -2147483648
      then Inl (Fatal ''Bad int string value: %s.'') else Inr v)"

definition parse_long :: "string \<Rightarrow> int result" where
  "parse_long s =
     (let (v, stop, erange) = strtol s in
      if s = [] \<or> stop \<noteq> [] \<or> erange then Inl (Fatal ''Bad long string value: %s.'') else Inr v)"

definition atoi :: "string \<Rightarrow> int" where
  "atoi s = (fst (strtol s) + 2 ^ 31) mod 2 ^ 32 - 2 ^ 31"

definition print_int :: "int \<Rightarrow> string" where
  "print_int i = (if i < 0 then CHR ''-'' # dec (nat (- i)) else dec (nat i))"

lemma dec_hd: "is_digit (hd (dec n))"
  using dec_digits [of n] dec_nonempty [of n] by (cases "dec n") auto

lemma digit_not_space: "is_digit c \<Longrightarrow> \<not> is_space c \<and> c \<noteq> CHR ''-'' \<and> c \<noteq> CHR ''+''"
  by (auto simp: is_digit_def is_space_def)

lemma strtol_print:
  assumes "s = [] \<or> \<not> is_digit (hd s)"
  shows "strtol (print_int i @ s) = (clamp_long i, s, clamp_long i \<noteq> i)"
proof -
  note d = dec_hd digit_not_space [OF dec_hd]
  have hd_app: "hd (dec n @ s) = hd (dec n)" for n by simp
  have drop_dec: "dropWhile is_space (dec n @ s) = dec n @ s" for n
    using d [of n] dec_nonempty [of n] by (cases "dec n") auto
  have minus: "\<not> is_space (CHR ''-'')" by (simp add: is_space_def)
  show ?thesis
  proof (cases "i < 0")
    case True
    then show ?thesis using minus
      by (simp add: strtol_def print_int_def Let_def takeWhile_dec [OF assms] dropWhile_dec [OF assms])
  next
    case False
    then show ?thesis using d [of "nat i"]
      by (simp add: strtol_def print_int_def Let_def drop_dec hd_app takeWhile_dec [OF assms] dropWhile_dec [OF assms])
  qed
qed

lemma clamp_long_id: "- (2 ^ 63) \<le> v \<Longrightarrow> v < 2 ^ 63 \<Longrightarrow> clamp_long v = v"
  by (simp add: clamp_long_def)

lemma atoi_print:
  assumes "s = [] \<or> \<not> is_digit (hd s)" and "n < 2 ^ 31"
  shows "atoi (dec n @ s) = int n"
  using strtol_print [OF assms(1), of "int n"] assms(2)
  by (simp add: atoi_def print_int_def clamp_long_id)

lemma print_int_nonempty [simp]: "print_int i \<noteq> []"
  by (simp add: print_int_def)


end
