(* ===== verification/TokenTable.thy ===== *)
theory TokenTable
  imports CUtils
begin

text \<open>
  The open-addressing hash table of src/src/core.c (\<open>tokenizer_table_init\<close>,
  \<open>tokenizer_table_put\<close>, \<open>tokenizer_table_get\<close>) that maps token pieces to ids and
  merge strings to ranks.  Probing is linear and has no bound of its own, so it is an
  option: \<open>None\<close> is an endless probe.  The abstract contract is the locale
  \<open>dictionary\<close>; the table is proved to implement it, probes included.
\<close>

unbundle bit_operations_syntax

section \<open>State\<close>

record tk_entry =
  te_key :: key
  te_value :: int
  te_used :: bool

record tk_table =
  tt_entry :: "tk_entry list"
  tt_cap :: nat
  tt_used :: nat

definition tk_empty_entry :: tk_entry where
  "tk_empty_entry = \<lparr>te_key = [], te_value = 0, te_used = False\<rparr>"

section \<open>Operations\<close>

definition tokenizer_table_init :: "nat \<Rightarrow> tk_table option" where
  "tokenizer_table_init expected =
     (case next_pow2 (add64 (mul64 expected 2) 16) of
        None \<Rightarrow> None
      | Some c \<Rightarrow> Some \<lparr>tt_entry = replicate c tk_empty_entry, tt_cap = c, tt_used = 0\<rparr>)"

text \<open>\<open>mask_ix m n\<close> is the C expression \<open>n & mask\<close> as an index.\<close>

definition mask_ix :: "nat \<Rightarrow> u64 \<Rightarrow> nat" where
  "mask_ix cap w = unat (w AND (of_nat cap - 1))"

definition tk_home :: "nat \<Rightarrow> key \<Rightarrow> nat" where
  "tk_home cap k = mask_ix cap (hash_bytes k)"

text \<open>The loop shared by put and get: stop at the first slot that is unused or holds
  the key.\<close>

partial_function (option) tk_probe :: "tk_entry list \<Rightarrow> nat \<Rightarrow> key \<Rightarrow> nat \<Rightarrow> nat option" where
  "tk_probe es cap k i =
     (if te_used (es ! i)
      then if key_eq (te_key (es ! i)) k then Some i
           else tk_probe es cap k (mask_ix cap (of_nat i + 1))
      else Some i)"

definition tokenizer_table_put :: "tk_table \<Rightarrow> key \<Rightarrow> int \<Rightarrow> tk_table option" where
  "tokenizer_table_put t k v =
     (case tk_probe (tt_entry t) (tt_cap t) k (tk_home (tt_cap t) k) of
        None \<Rightarrow> None
      | Some i \<Rightarrow>
          if te_used (tt_entry t ! i)
          then Some (t\<lparr>tt_entry := (tt_entry t)[i := (tt_entry t ! i)\<lparr>te_value := v\<rparr>]\<rparr>)
          else Some (t\<lparr>tt_entry := (tt_entry t)[i := \<lparr>te_key = k, te_value = v, te_used = True\<rparr>],
                       tt_used := tt_used t + 1\<rparr>))"

definition tokenizer_table_get :: "tk_table \<Rightarrow> key \<Rightarrow> int option option" where
  "tokenizer_table_get t k =
     (if tt_cap t = 0 then Some None
      else case tk_probe (tt_entry t) (tt_cap t) k (tk_home (tt_cap t) k) of
             None \<Rightarrow> None
           | Some i \<Rightarrow>
               if te_used (tt_entry t ! i) then Some (Some (te_value (tt_entry t ! i)))
               else Some None)"

section \<open>The dictionary contract\<close>

locale dictionary =
  fixes lookup :: "'t \<Rightarrow> 'k \<Rightarrow> 'v option option"
    and insert :: "'t \<Rightarrow> 'k \<Rightarrow> 'v \<Rightarrow> 't option"
    and room :: "'t \<Rightarrow> nat"
    and inv :: "'t \<Rightarrow> bool"
    and abs :: "'t \<Rightarrow> 'k \<Rightarrow> 'v option"
  assumes lookup_abs: "inv t \<Longrightarrow> lookup t k = Some (abs t k)"
    and insert_abs: "inv t \<Longrightarrow> 0 < room t \<Longrightarrow>
      \<exists>t'. insert t k v = Some t' \<and> inv t' \<and> abs t' = (abs t)(k \<mapsto> v)
         \<and> room t \<le> room t' + 1"

text \<open>A loop of insertions, as the vocabulary loader runs it.\<close>

fun insert_all :: "('t \<Rightarrow> 'k \<Rightarrow> 'v \<Rightarrow> 't option) \<Rightarrow> 't \<Rightarrow> ('k \<times> 'v) list \<Rightarrow> 't option" where
  "insert_all ins t [] = Some t"
| "insert_all ins t ((k, v) # kvs) =
     (case ins t k v of None \<Rightarrow> None | Some t' \<Rightarrow> insert_all ins t' kvs)"

context dictionary
begin

lemma insert_all_abs:
  "inv t \<Longrightarrow> length kvs \<le> room t \<Longrightarrow>
   \<exists>t'. insert_all insert t kvs = Some t' \<and> inv t' \<and> abs t' = abs t ++ map_of (rev kvs)
      \<and> room t \<le> room t' + length kvs"
proof (induction kvs arbitrary: t)
  case Nil
  then show ?case by simp
next
  case (Cons kv kvs)
  obtain k v where kv: "kv = (k, v)" by force
  from Cons.prems have "0 < room t" by simp
  from insert_abs [OF Cons.prems(1) this, of k v] obtain t1 where
    t1: "insert t k v = Some t1" "inv t1" "abs t1 = (abs t)(k \<mapsto> v)" "room t \<le> room t1 + 1"
    by blast
  from Cons.prems(2) t1(4) have "length kvs \<le> room t1" by simp
  from Cons.IH [OF t1(2) this] obtain t2 where
    "insert_all insert t1 kvs = Some t2" "inv t2" "abs t2 = abs t1 ++ map_of (rev kvs)"
    "room t1 \<le> room t2 + length kvs" by blast
  with t1 show ?case by (simp add: kv)
qed

lemma lookup_insert_all:
  assumes "inv t" and "length kvs \<le> room t"
  shows "\<exists>t'. insert_all insert t kvs = Some t' \<and> inv t'
    \<and> lookup t' k = Some (case map_of (rev kvs) k of None \<Rightarrow> abs t k | Some v \<Rightarrow> Some v)"
  using insert_all_abs [OF assms] lookup_abs
  by (metis map_add_def)

end

section \<open>Probing\<close>

lemma mask_ix_pow2:
  assumes "k \<le> 63"
  shows "mask_ix (2 ^ k) w = unat w mod 2 ^ k"
  by (simp add: mask_ix_def unat_and_mask)

lemma mask_ix_next:
  assumes "k \<le> 63" and "i < 2 ^ k"
  shows "mask_ix (2 ^ k) (of_nat i + 1) = (i + 1) mod 2 ^ k"
proof -
  have "(2::nat) ^ k \<le> 2 ^ 63" using assms(1) by (rule power_increasing) simp
  with assms(2) have "i + 1 < 2 ^ 64" by simp
  then have "unat (of_nat (i + 1) :: u64) = i + 1"
    by (simp only: unat_of_nat) simp
  then show ?thesis using mask_ix_pow2 [OF assms(1), of "of_nat (i + 1)"]
    by (simp add: add.commute)
qed

lemma tk_home_less: "k \<le> 63 \<Longrightarrow> tk_home (2 ^ k) key < 2 ^ k"
  by (simp add: tk_home_def mask_ix_pow2)

text \<open>\<open>tk_reach es n h key d\<close>: the first \<open>d\<close> slots of the probe sequence of \<open>key\<close> from
  \<open>h\<close> are in use by other keys.\<close>

definition tk_reach :: "tk_entry list \<Rightarrow> nat \<Rightarrow> nat \<Rightarrow> key \<Rightarrow> nat \<Rightarrow> bool" where
  "tk_reach es n h key d \<longleftrightarrow>
     (\<forall>e < d. te_used (es ! ((h + e) mod n)) \<and> te_key (es ! ((h + e) mod n)) \<noteq> key)"

lemma tk_probe_reach:
  assumes k: "k \<le> 63" and n: "n = 2 ^ k"
    and reach: "tk_reach es n h key d"
    and stop: "\<not> te_used (es ! ((h + d) mod n)) \<or> te_key (es ! ((h + d) mod n)) = key"
    and "c \<le> d"
  shows "tk_probe es n key ((h + c) mod n) = Some ((h + d) mod n)"
  using \<open>c \<le> d\<close>
proof (induction "d - c" arbitrary: c)
  case 0
  then have "c = d" by simp
  with stop show ?case by (subst tk_probe.simps) auto
next
  case (Suc m)
  then have "c < d" by simp
  with reach have used: "te_used (es ! ((h + c) mod n))" and ne: "te_key (es ! ((h + c) mod n)) \<noteq> key"
    by (auto simp: tk_reach_def)
  have "(h + c) mod n < n" by (simp add: n)
  then have "mask_ix n (of_nat ((h + c) mod n) + 1) = (h + Suc c) mod n"
    using mask_ix_next [OF k] by (simp add: n mod_Suc_eq)
  with used ne have "tk_probe es n key ((h + c) mod n) = tk_probe es n key ((h + Suc c) mod n)"
    by (subst tk_probe.simps) simp
  also have "\<dots> = Some ((h + d) mod n)"
    using Suc.hyps \<open>c < d\<close> by (intro Suc.hyps(1)) auto
  finally show ?case .
qed

section \<open>Invariant and abstraction\<close>

definition tk_used_slots :: "tk_entry list \<Rightarrow> nat set" where
  "tk_used_slots es = {i. i < length es \<and> te_used (es ! i)}"

text \<open>Every stored key is found by probing from its home slot.\<close>

definition tk_placed :: "tk_entry list \<Rightarrow> nat \<Rightarrow> bool" where
  "tk_placed es n \<longleftrightarrow>
     (\<forall>j \<in> tk_used_slots es. \<exists>d < n. j = (tk_home n (te_key (es ! j)) + d) mod n
        \<and> tk_reach es n (tk_home n (te_key (es ! j))) (te_key (es ! j)) d)"

definition tk_inv :: "tk_table \<Rightarrow> bool" where
  [inv_simps]: "tk_inv t \<longleftrightarrow>
     (\<exists>k \<le> 63. tt_cap t = 2 ^ k) \<and> length (tt_entry t) = tt_cap t
     \<and> tt_used t = card (tk_used_slots (tt_entry t)) \<and> tt_used t < tt_cap t
     \<and> tk_placed (tt_entry t) (tt_cap t)"

definition tk_abs :: "tk_table \<Rightarrow> key \<Rightarrow> int option" where
  "tk_abs t key =
     map_option te_value (find (\<lambda>e. te_used e \<and> te_key e = key) (tt_entry t))"

definition tk_room :: "tk_table \<Rightarrow> nat" where
  "tk_room t = tt_cap t - 1 - tt_used t"

lemma finite_tk_used_slots [simp]: "finite (tk_used_slots es)"
  by (simp add: tk_used_slots_def)

lemma tk_same_key_same_slot:
  assumes "tk_placed es n" and "i \<in> tk_used_slots es" and "j \<in> tk_used_slots es"
    and "te_key (es ! i) = te_key (es ! j)"
  shows "i = j"
proof -
  let ?key = "te_key (es ! i)" let ?h = "tk_home n ?key"
  from assms(1,2) obtain d where d: "i = (?h + d) mod n" "tk_reach es n ?h ?key d"
    by (auto simp: tk_placed_def)
  from assms(1,3,4) obtain e where e: "j = (?h + e) mod n" "tk_reach es n ?h ?key e"
    by (auto simp: tk_placed_def)
  have "\<not> d < e"
    using d(1) e(2) assms(4) by (metis tk_reach_def)
  moreover have "\<not> e < d"
    using e(1) d(2) assms(4) by (metis tk_reach_def)
  ultimately show ?thesis using d(1) e(1) by simp
qed

lemma tk_abs_at:
  assumes "tk_placed (tt_entry t) n" and "i \<in> tk_used_slots (tt_entry t)"
  shows "tk_abs t (te_key (tt_entry t ! i)) = Some (te_value (tt_entry t ! i))"
proof -
  let ?es = "tt_entry t" let ?P = "\<lambda>e. te_used e \<and> te_key e = te_key (?es ! i)"
  have i: "i < length ?es" "?P (?es ! i)" using assms(2) by (auto simp: tk_used_slots_def)
  then have "find ?P ?es \<noteq> None" unfolding find_None_iff using nth_mem by blast
  then obtain e where e: "find ?P ?es = Some e" by blast
  then obtain j where j: "j < length ?es" "?P (?es ! j)" "e = ?es ! j"
    unfolding find_Some_iff by blast
  then have "j = i"
    using tk_same_key_same_slot [OF assms(1) _ assms(2), of j] by (auto simp: tk_used_slots_def)
  with e j show ?thesis by (simp add: tk_abs_def)
qed

lemma tk_abs_None_iff:
  "tk_abs t key = None \<longleftrightarrow> (\<forall>i \<in> tk_used_slots (tt_entry t). te_key (tt_entry t ! i) \<noteq> key)"
  by (auto simp: tk_abs_def find_None_iff tk_used_slots_def in_set_conv_nth)

lemma tk_free_slot:
  assumes "tk_inv t"
  shows "\<exists>j < tt_cap t. \<not> te_used (tt_entry t ! j)"
proof (rule ccontr)
  assume "\<not> ?thesis"
  with assms have "tk_used_slots (tt_entry t) = {..< tt_cap t}"
    by (auto simp: tk_used_slots_def inv_simps)
  then have "card (tk_used_slots (tt_entry t)) = tt_cap t" by simp
  moreover have "tt_used t = card (tk_used_slots (tt_entry t))" and "tt_used t < tt_cap t"
    using assms unfolding tk_inv_def by blast+
  ultimately show False by linarith
qed

text \<open>The probe from home always stops: at the key's slot, or at a free slot with the
  whole way there occupied by other keys.\<close>

lemma tk_probe_stops:
  assumes inv: "tk_inv t"
  defines "n \<equiv> tt_cap t" and "es \<equiv> tt_entry t"
  shows "\<exists>d < n. tk_reach es n (tk_home n key) key d
     \<and> (\<not> te_used (es ! ((tk_home n key + d) mod n)) \<or> te_key (es ! ((tk_home n key + d) mod n)) = key)
     \<and> tk_probe es n key (tk_home n key) = Some ((tk_home n key + d) mod n)"
proof -
  let ?h = "tk_home n key"
  let ?stop = "\<lambda>d. \<not> te_used (es ! ((?h + d) mod n)) \<or> te_key (es ! ((?h + d) mod n)) = key"
  from inv obtain k where k: "k \<le> 63" "n = 2 ^ k" by (auto simp: n_def inv_simps)
  have h: "?h < n" using tk_home_less k by simp
  from tk_free_slot [OF inv] obtain j where j: "j < n" "\<not> te_used (es ! j)"
    by (auto simp: n_def es_def)
  define c where "c = (if ?h \<le> j then j - ?h else n - ?h + j)"
  have "(?h + c) mod n = j" and "c < n" using h j(1) by (auto simp: c_def)
  with j have "?stop c" by simp
  define d where "d = (LEAST d. ?stop d)"
  have d: "?stop d" and "d \<le> c"
    unfolding d_def using \<open>?stop c\<close> by (rule LeastI, rule Least_le)
  have reach: "tk_reach es n ?h key d"
    unfolding tk_reach_def d_def using not_less_Least [of _ ?stop] by blast
  have "tk_probe es n key ((?h + 0) mod n) = Some ((?h + d) mod n)"
    by (rule tk_probe_reach [OF k reach d]) simp
  with h d reach \<open>d \<le> c\<close> \<open>c < n\<close> show ?thesis
    by (intro exI [of _ d]) auto
qed

section \<open>Correctness\<close>

lemma tk_init_inv:
  assumes "expected \<le> 2 ^ 62 - 8"
  obtains t where "tokenizer_table_init expected = Some t" and "tk_inv t"
    and "\<And>k. tk_abs t k = None" and "expected \<le> tk_room t"
proof -
  have e: "expected * 2 + 16 \<le> 2 ^ 63" using assms by simp
  then have add: "add64 (mul64 expected 2) 16 = expected * 2 + 16" by simp
  from next_pow2_Some [OF e] obtain j where j: "j \<le> 63"
    "next_pow2 (expected * 2 + 16) = Some (2 ^ j)" "expected * 2 + 16 \<le> 2 ^ j" by metis
  let ?t = "\<lparr>tt_entry = replicate (2 ^ j) tk_empty_entry, tt_cap = 2 ^ j, tt_used = 0\<rparr>"
  have slots: "tk_used_slots (replicate (2 ^ j) tk_empty_entry) = {}"
    by (auto simp: tk_used_slots_def tk_empty_entry_def)
  have "tokenizer_table_init expected = Some ?t"
    using j(2) add by (simp add: tokenizer_table_init_def)
  moreover have "tk_inv ?t"
    using j(1) slots by (auto simp: inv_simps tk_placed_def)
  moreover have "tk_abs ?t k = None" for k
    by (simp add: tk_abs_None_iff slots)
  moreover have "expected \<le> tk_room ?t" using j(3) by (simp add: tk_room_def)
  ultimately show thesis by (rule that)
qed

lemma tk_get_abs:
  assumes "tk_inv t"
  shows "tokenizer_table_get t key = Some (tk_abs t key)"
proof -
  let ?n = "tt_cap t" let ?es = "tt_entry t" let ?h = "tk_home ?n key"
  from tk_probe_stops [OF assms, of key] obtain d where d: "d < ?n" "tk_reach ?es ?n ?h key d"
    "\<not> te_used (?es ! ((?h + d) mod ?n)) \<or> te_key (?es ! ((?h + d) mod ?n)) = key"
    and p: "tk_probe ?es ?n key ?h = Some ((?h + d) mod ?n)" by blast
  let ?i = "(?h + d) mod ?n"
  have pos: "0 < ?n" and len: "length ?es = ?n" and pl: "tk_placed ?es ?n"
    using assms by (auto simp: inv_simps)
  have i: "?i < length ?es" using pos len by simp
  show ?thesis
  proof (cases "te_used (?es ! ?i)")
    case True
    with d(3) i have "tk_abs t key = Some (te_value (?es ! ?i))"
      using tk_abs_at [OF pl, of ?i] by (simp add: tk_used_slots_def)
    with True p pos show ?thesis by (simp add: tokenizer_table_get_def)
  next
    case False
    have "te_key (?es ! j) \<noteq> key" if j: "j \<in> tk_used_slots ?es" for j
    proof
      assume key: "te_key (?es ! j) = key"
      with pl j obtain e where e: "j = (?h + e) mod ?n" "tk_reach ?es ?n ?h key e"
        unfolding tk_placed_def by metis
      have "\<not> d < e" using e(2) False by (auto simp: tk_reach_def)
      moreover have "\<not> e < d" using d(2) e(1) key by (auto simp: tk_reach_def)
      ultimately have "e = d" by simp
      with e(1) j False show False by (simp add: tk_used_slots_def)
    qed
    then have "tk_abs t key = None" by (simp add: tk_abs_None_iff)
    with False p pos show ?thesis by (simp add: tokenizer_table_get_def)
  qed
qed

text \<open>Storing into a slot that was free keeps every other key reachable.\<close>

lemma tk_reach_update:
  assumes "tk_reach es n h key d"
    and "\<And>e. e < d \<Longrightarrow> (h + e) mod n = i \<Longrightarrow> te_used x \<and> te_key x \<noteq> key"
    and "i < length es"
  shows "tk_reach (es[i := x]) n h key d"
  using assms by (auto simp: tk_reach_def nth_list_update)

lemma tk_put_update:
  fixes v :: int
  assumes inv: "tk_inv t" and p: "tk_probe (tt_entry t) (tt_cap t) key (tk_home (tt_cap t) key) = Some i"
    and i: "i < tt_cap t" and used: "te_used (tt_entry t ! i)" and key: "te_key (tt_entry t ! i) = key"
  defines "t' \<equiv> t\<lparr>tt_entry := (tt_entry t)[i := (tt_entry t ! i)\<lparr>te_value := v\<rparr>]\<rparr>"
  shows "tokenizer_table_put t key v = Some t'" and "tk_inv t'"
    and "tk_abs t' = (tk_abs t)(key \<mapsto> v)" and "tk_room t' = tk_room t"
proof -
  let ?es = "tt_entry t" let ?es' = "tt_entry t'" let ?n = "tt_cap t"
  show "tokenizer_table_put t key v = Some t'"
    using p used by (simp add: tokenizer_table_put_def t'_def)
  have len: "length ?es = ?n" using inv by (simp add: inv_simps)
  have same: "te_used (?es' ! j) = te_used (?es ! j)" "te_key (?es' ! j) = te_key (?es ! j)" for j
    using i len by (auto simp: t'_def nth_list_update)
  have slots: "tk_used_slots ?es' = tk_used_slots ?es"
    using len by (auto simp: tk_used_slots_def same) (simp_all add: t'_def)
  have placed: "tk_placed ?es' ?n"
    using inv by (simp add: tk_placed_def tk_reach_def same slots inv_simps)
  show inv': "tk_inv t'"
    using inv slots placed by (simp add: inv_simps t'_def)
  show "tk_room t' = tk_room t" by (simp add: tk_room_def t'_def)
  show "tk_abs t' = (tk_abs t)(key \<mapsto> v)"
  proof
    fix k
    show "tk_abs t' k = ((tk_abs t)(key \<mapsto> v)) k"
    proof (cases "\<exists>j \<in> tk_used_slots ?es. te_key (?es ! j) = k")
      case True
      then obtain j where j: "j \<in> tk_used_slots ?es" "te_key (?es ! j) = k" by blast
      have pl: "tk_placed ?es ?n" using inv by (simp add: inv_simps)
      have 1: "tk_abs t k = Some (te_value (?es ! j))" using tk_abs_at [OF pl j(1)] j(2) by simp
      have 2: "tk_abs t' k = Some (te_value (?es' ! j))"
        using tk_abs_at [OF placed, of j] j slots same by simp
      have 3: "k = key \<longleftrightarrow> j = i"
        using tk_same_key_same_slot [OF pl j(1), of i] j key used i len
        by (auto simp: tk_used_slots_def)
      show ?thesis
        using 1 2 3 i len by (auto simp: t'_def nth_list_update)
    next
      case False
      then have "tk_abs t k = None" and "tk_abs t' k = None"
        by (auto simp: tk_abs_None_iff slots same)
      moreover have "k \<noteq> key" using False used i len key by (auto simp: tk_used_slots_def)
      ultimately show ?thesis by simp
    qed
  qed
qed

lemma tk_put_fresh:
  fixes v :: int
  assumes inv: "tk_inv t" and room: "0 < tk_room t"
    and d: "d < tt_cap t" "tk_reach (tt_entry t) (tt_cap t) (tk_home (tt_cap t) key) key d"
    and p: "tk_probe (tt_entry t) (tt_cap t) key (tk_home (tt_cap t) key) = Some i"
    and i: "i = (tk_home (tt_cap t) key + d) mod tt_cap t" and unused: "\<not> te_used (tt_entry t ! i)"
  defines "x \<equiv> \<lparr>te_key = key, te_value = v, te_used = True\<rparr>"
  defines "t' \<equiv> t\<lparr>tt_entry := (tt_entry t)[i := x], tt_used := tt_used t + 1\<rparr>"
  shows "tokenizer_table_put t key v = Some t'" and "tk_inv t'"
    and "tk_abs t' = (tk_abs t)(key \<mapsto> v)" and "tk_room t \<le> tk_room t' + 1"
proof -
  let ?es = "tt_entry t" let ?es' = "tt_entry t'" let ?n = "tt_cap t" let ?h = "tk_home ?n key"
  show "tokenizer_table_put t key v = Some t'"
    using p unused by (simp add: tokenizer_table_put_def t'_def x_def)
  have len: "length ?es = ?n" and pos: "0 < ?n" and pl: "tk_placed ?es ?n"
    using inv by (auto simp: inv_simps)
  have il: "i < length ?es" using i pos len by simp
  have es': "?es' = ?es[i := x]" by (simp add: t'_def)
  have none: "tk_abs t key = None"
    using tk_get_abs [OF inv, of key] p unused pos by (simp add: tokenizer_table_get_def)
  have slots: "tk_used_slots ?es' = insert i (tk_used_slots ?es)"
    using il by (auto simp: es' tk_used_slots_def nth_list_update x_def split: if_splits)
  have "i \<notin> tk_used_slots ?es" using unused by (simp add: tk_used_slots_def)
  then have card: "card (tk_used_slots ?es') = tt_used t + 1"
    using inv slots by (simp add: inv_simps)
  have placed: "tk_placed ?es' ?n"
    unfolding tk_placed_def
  proof
    fix j assume j: "j \<in> tk_used_slots ?es'"
    show "\<exists>d < ?n. j = (tk_home ?n (te_key (?es' ! j)) + d) mod ?n
        \<and> tk_reach ?es' ?n (tk_home ?n (te_key (?es' ! j))) (te_key (?es' ! j)) d"
    proof (cases "j = i")
      case True
      have "tk_reach ?es' ?n ?h key d"
        unfolding es' by (rule tk_reach_update [OF d(2) _ il])
          (use d unused i in \<open>auto simp: tk_reach_def\<close>)
      with True il i d(1) show ?thesis by (auto simp: es' x_def)
    next
      case False
      with j slots have ju: "j \<in> tk_used_slots ?es" by simp
      let ?k = "te_key (?es ! j)"
      from pl ju obtain e where e: "e < ?n" "j = (tk_home ?n ?k + e) mod ?n"
        "tk_reach ?es ?n (tk_home ?n ?k) ?k e" by (auto simp: tk_placed_def)
      have "?k \<noteq> key" using none ju by (auto simp: tk_abs_None_iff)
      then have "tk_reach ?es' ?n (tk_home ?n ?k) ?k e"
        unfolding es' by (intro tk_reach_update [OF e(3) _ il]) (auto simp: x_def)
      with False e show ?thesis by (auto simp: es')
    qed
  qed
  show inv': "tk_inv t'"
    using inv room card placed len by (auto simp: inv_simps t'_def tk_room_def)
  show "tk_room t \<le> tk_room t' + 1" by (simp add: tk_room_def t'_def)
  show "tk_abs t' = (tk_abs t)(key \<mapsto> v)"
  proof
    fix k
    have new: "tk_abs t' key = Some v"
      using tk_abs_at [OF placed, unfolded slots, of i] il by (simp add: es' x_def)
    show "tk_abs t' k = ((tk_abs t)(key \<mapsto> v)) k"
    proof (cases "k \<noteq> key \<and> (\<exists>j \<in> tk_used_slots ?es. te_key (?es ! j) = k)")
      case True
      then obtain j where j: "j \<in> tk_used_slots ?es" "te_key (?es ! j) = k" by blast
      with unused have "j \<noteq> i" by (auto simp: tk_used_slots_def)
      with j have "tk_abs t' k = Some (te_value (?es ! j))"
        using tk_abs_at [OF placed, of j] slots by (simp add: es')
      with tk_abs_at [OF pl j(1)] j(2) True show ?thesis by simp
    next
      case False
      show ?thesis
      proof (cases "k = key")
        case False
        with \<open>\<not> (k \<noteq> key \<and> _)\<close> have "tk_abs t k = None" "tk_abs t' k = None"
          using il unfolding tk_abs_None_iff slots
          by (auto simp: es' x_def nth_list_update)
        with False show ?thesis by simp
      qed (simp add: new)
    qed
  qed
qed

lemma tk_put_abs:
  assumes "tk_inv t" and "0 < tk_room t"
  shows "\<exists>t'. tokenizer_table_put t key v = Some t' \<and> tk_inv t'
    \<and> tk_abs t' = (tk_abs t)(key \<mapsto> v) \<and> tk_room t \<le> tk_room t' + 1"
proof -
  let ?n = "tt_cap t" let ?es = "tt_entry t" let ?h = "tk_home ?n key"
  from tk_probe_stops [OF assms(1), of key] obtain d where d: "d < ?n" "tk_reach ?es ?n ?h key d"
    "\<not> te_used (?es ! ((?h + d) mod ?n)) \<or> te_key (?es ! ((?h + d) mod ?n)) = key"
    and p: "tk_probe ?es ?n key ?h = Some ((?h + d) mod ?n)" by blast
  let ?i = "(?h + d) mod ?n"
  have i: "?i < ?n" using d(1) by simp
  show ?thesis
  proof (cases "te_used (?es ! ?i)")
    case True
    with d(3) have key: "te_key (?es ! ?i) = key" by simp
    show ?thesis
      using tk_put_update [OF assms(1) p i True key, of v]
      by (metis le_add1)
  next
    case False
    show ?thesis
      using tk_put_fresh [OF assms d(1,2) p refl False, of v] by blast
  qed
qed

interpretation tk: dictionary tokenizer_table_get tokenizer_table_put tk_room tk_inv tk_abs
  by unfold_locales (rule tk_get_abs, assumption, rule tk_put_abs)

end
