(* ===== verification/GgufCursor.thy ===== *)
theory GgufCursor
  imports CUtils
begin

text \<open>
  The bounds-checked byte cursor of src/src/core.c over the mapped model file:
  \<open>cursor_at\<close>, \<open>cursor_error\<close>, \<open>cursor_has\<close>, \<open>cursor_skip\<close>, \<open>cursor_read\<close>, the typed
  reads, \<open>cursor_key\<close> and the recursive \<open>cursor_skip_value\<close>.  A C function that
  returns \<open>bool\<close> and fills an out-parameter is a \<open>reader\<close>: it returns the value as an
  option together with the new cursor.  The error buffer keeps the first message with
  its offset.

  The locale \<open>gguf_format\<close> is the contract between a reader and the bytes it reads;
  every reader of the file format interprets it.
\<close>

section \<open>State\<close>

record cursor =
  cu_base :: bytes
  cu_size :: nat
  cu_post :: nat
  cu_error :: "(string \<times> nat) option"

type_synonym 'a reader = "cursor \<Rightarrow> 'a option \<times> cursor"

definition cursor_at :: "bytes \<Rightarrow> nat \<Rightarrow> nat \<Rightarrow> cursor" where
  "cursor_at base sz post = \<lparr>cu_base = base, cu_size = sz, cu_post = post, cu_error = None\<rparr>"

section \<open>Operations\<close>

definition cursor_error :: "string \<Rightarrow> cursor \<Rightarrow> cursor" where
  "cursor_error msg c = (if cu_error c = None then c\<lparr>cu_error := Some (msg, cu_post c)\<rparr> else c)"

definition cursor_has :: "nat \<Rightarrow> cursor \<Rightarrow> bool \<times> cursor" where
  "cursor_has n c =
     (if n > cu_size c \<or> add64 (cu_post c) n > cu_size c
      then (False, cursor_error ''Truncated GGUF file'' c)
      else (True, c))"

definition cursor_skip :: "nat \<Rightarrow> unit reader" where
  "cursor_skip n c =
     (case cursor_has n c of
        (False, c1) \<Rightarrow> (None, c1)
      | (True, c1) \<Rightarrow> (Some (), c1\<lparr>cu_post := add64 (cu_post c1) n\<rparr>))"

definition cursor_read :: "nat \<Rightarrow> bytes reader" where
  "cursor_read n c =
     (case cursor_has n c of
        (False, c1) \<Rightarrow> (None, c1)
      | (True, c1) \<Rightarrow> (Some (take n (drop (cu_post c1) (cu_base c1))),
                       c1\<lparr>cu_post := add64 (cu_post c1) n\<rparr>))"

text \<open>\<open>if (!r(c, &x)) return false; ...\<close>\<close>

definition and_then :: "'a reader \<Rightarrow> ('a \<Rightarrow> 'b reader) \<Rightarrow> 'b reader" where
  "and_then r k c = (case r c of (None, c1) \<Rightarrow> (None, c1) | (Some x, c1) \<Rightarrow> k x c1)"

definition done_with :: "'a \<Rightarrow> 'a reader" where
  "done_with x c = (Some x, c)"

definition cursor_u32 :: "nat reader" where
  "cursor_u32 = and_then (cursor_read 4) (\<lambda>bs. done_with (le_val bs))"

definition cursor_u64 :: "nat reader" where
  "cursor_u64 = and_then (cursor_read 8) (\<lambda>bs. done_with (le_val bs))"

definition cursor_i32 :: "int reader" where
  "cursor_i32 = and_then (cursor_read 4) (\<lambda>bs. done_with (sint (of_nat (le_val bs) :: u32)))"

text \<open>The bits of the float; the model never computes with them.\<close>

definition cursor_float :: "u32 reader" where
  "cursor_float = and_then (cursor_read 4) (\<lambda>bs. done_with (of_nat (le_val bs)))"

text \<open>\<open>Key.len\<close> is one byte: the content is cut to \<open>len mod 256\<close> while the cursor moves
  past all of it.\<close>

definition cursor_key_content :: "nat \<Rightarrow> key reader" where
  "cursor_key_content n c =
     (case cursor_has n c of
        (False, c1) \<Rightarrow> (None, c1)
      | (True, c1) \<Rightarrow> (Some (take (n mod 256) (drop (cu_post c1) (cu_base c1))),
                       c1\<lparr>cu_post := add64 (cu_post c1) n\<rparr>))"

definition cursor_key :: "key reader" where
  "cursor_key = and_then cursor_u64 cursor_key_content"

text \<open>\<open>type\<close> is a number: \<open>GGUF_VALUE_UINT8 = 0 ... GGUF_VALUE_FLOAT64 = 12\<close>.\<close>

definition gguf_fixed_size :: "nat \<Rightarrow> nat option" where
  "gguf_fixed_size t =
     (if t = 0 \<or> t = 1 \<or> t = 7 then Some 1
      else if t = 2 \<or> t = 3 then Some 2
      else if t = 4 \<or> t = 5 \<or> t = 6 then Some 4
      else if t = 10 \<or> t = 11 \<or> t = 12 then Some 8
      else None)"

function (sequential)
  cursor_skip_value :: "nat \<Rightarrow> nat \<Rightarrow> unit reader" and
  cursor_skip_items :: "nat \<Rightarrow> nat \<Rightarrow> nat \<Rightarrow> unit reader"
where
  "cursor_skip_value t depth c =
     (if depth > 8 then (None, cursor_error ''Metadata array nesting is too deep'' c)
      else case gguf_fixed_size t of
        Some n \<Rightarrow> cursor_skip n c
      | None \<Rightarrow>
          if t = 8 then and_then cursor_key (\<lambda>_. done_with ()) c
          else if t = 9 then
            (case cursor_u32 c of
               (None, c1) \<Rightarrow> (None, c1)
             | (Some item_type, c1) \<Rightarrow>
                 (case cursor_u64 c1 of
                    (None, c2) \<Rightarrow> (None, c2)
                  | (Some len, c2) \<Rightarrow> cursor_skip_items item_type (depth + 1) len c2))
          else (None, cursor_error ''Unknown GGUF metadata type'' c))"
| "cursor_skip_items t depth 0 c = (Some (), c)"
| "cursor_skip_items t depth (Suc n) c =
     (case cursor_skip_value t depth c of
        (None, c1) \<Rightarrow> (None, c1)
      | (Some _, c1) \<Rightarrow> cursor_skip_items t depth n c1)"
  by pat_completeness auto
termination
  by (relation "measures [
      \<lambda>x. case x of Inl (t, d, c) \<Rightarrow> 9 - d | Inr (t, d, n, c) \<Rightarrow> 9 - d,
      \<lambda>x. case x of Inl _ \<Rightarrow> 0 | Inr _ \<Rightarrow> 1,
      \<lambda>x. case x of Inl _ \<Rightarrow> 0 | Inr (t, d, n, c) \<Rightarrow> n]") auto

declare cursor_skip_value.simps [simp del]

section \<open>Bounds\<close>

text \<open>The cursor stays inside the mapped file.  A file is smaller than \<open>2 ^ 63\<close> bytes
  (\<open>off_t\<close>).\<close>

definition cursor_wf :: "cursor \<Rightarrow> bool" where
  [inv_simps]: "cursor_wf c \<longleftrightarrow>
     cu_size c = length (cu_base c) \<and> cu_size c < 2 ^ 63 \<and> cu_post c \<le> cu_size c"

text \<open>What every reader promises: it stays in the same file and inside it, never moves
  backwards, succeeds without touching the error, fails with an error recorded, and
  never replaces an earlier error.\<close>

definition reader_step :: "cursor \<Rightarrow> 'a option \<Rightarrow> cursor \<Rightarrow> bool" where
  "reader_step c v c' \<longleftrightarrow>
     cu_base c' = cu_base c \<and> cu_size c' = cu_size c
     \<and> cu_post c \<le> cu_post c' \<and> cu_post c' \<le> cu_size c'
     \<and> (v \<noteq> None \<longrightarrow> cu_error c' = cu_error c)
     \<and> (v = None \<longrightarrow> cu_error c' \<noteq> None)
     \<and> (cu_error c \<noteq> None \<longrightarrow> cu_error c' = cu_error c)"

definition reader_ok :: "'a reader \<Rightarrow> bool" where
  "reader_ok r \<longleftrightarrow> (\<forall>c. cursor_wf c \<longrightarrow> reader_step c (fst (r c)) (snd (r c)))"

lemma reader_okI:
  "(\<And>c v c'. cursor_wf c \<Longrightarrow> r c = (v, c') \<Longrightarrow> reader_step c v c') \<Longrightarrow> reader_ok r"
  by (simp add: reader_ok_def)

lemma reader_okD:
  "reader_ok r \<Longrightarrow> cursor_wf c \<Longrightarrow> r c = (v, c') \<Longrightarrow> reader_step c v c' \<and> cursor_wf c'"
  using reader_ok_def [of r]
  by (smt (verit) cursor_wf_def fst_conv reader_step_def snd_conv)

lemma reader_step_trans:
  "reader_step c (Some x) c1 \<Longrightarrow> reader_step c1 v c2 \<Longrightarrow> reader_step c v c2"
  by (auto simp: reader_step_def)

lemma reader_step_None: "reader_step c None c' \<Longrightarrow> reader_step c None c'"
  by (simp add: reader_step_def)

lemma cursor_error_step:
  "cursor_wf c \<Longrightarrow> reader_step c None (cursor_error msg c)"
  by (auto simp: reader_step_def cursor_error_def cursor_wf_def)

lemma cursor_has_cases:
  assumes "cursor_wf c"
  shows "cursor_has n c = (if cu_post c + n \<le> cu_size c then (True, c)
    else (False, cursor_error ''Truncated GGUF file'' c))"
proof (cases "n > cu_size c")
  case True
  with assms show ?thesis by (auto simp: cursor_has_def)
next
  case False
  with assms have "cu_post c + n < 2 ^ 64" by (simp add: inv_simps)
  then show ?thesis using False by (auto simp: cursor_has_def)
qed

lemma cursor_post_add:
  "cursor_wf c \<Longrightarrow> cu_post c + n \<le> cu_size c \<Longrightarrow> add64 (cu_post c) n = cu_post c + n"
  by (simp add: inv_simps)

lemma cursor_skip_ok [safe_intro]: "reader_ok (cursor_skip n)"
  by (rule reader_okI)
    (auto simp: cursor_skip_def cursor_has_cases cursor_post_add cursor_error_step
      split: if_splits, simp add: reader_step_def)

lemma cursor_read_ok [safe_intro]: "reader_ok (cursor_read n)"
  by (rule reader_okI)
    (auto simp: cursor_read_def cursor_has_cases cursor_post_add cursor_error_step
      split: if_splits, simp add: reader_step_def)

lemma cursor_key_content_ok [safe_intro]: "reader_ok (cursor_key_content n)"
  by (rule reader_okI)
    (auto simp: cursor_key_content_def cursor_has_cases cursor_post_add cursor_error_step
      split: if_splits, simp add: reader_step_def)

lemma done_with_ok [safe_intro]: "reader_ok (done_with x)"
  by (rule reader_okI) (auto simp: done_with_def reader_step_def cursor_wf_def)

lemma and_then_ok [safe_intro]:
  assumes "reader_ok r" and "\<And>x. reader_ok (k x)"
  shows "reader_ok (and_then r k)"
proof (rule reader_okI)
  fix c v c' assume wf: "cursor_wf c" and run: "and_then r k c = (v, c')"
  obtain y c1 where r: "r c = (y, c1)" by force
  from reader_okD [OF assms(1) wf r] have s: "reader_step c y c1" "cursor_wf c1" by auto
  show "reader_step c v c'"
  proof (cases y)
    case None
    with r run s(1) show ?thesis by (simp add: and_then_def reader_step_def)
  next
    case (Some x)
    with r run have "k x c1 = (v, c')" by (simp add: and_then_def)
    with reader_okD [OF assms(2) s(2)] reader_step_trans s(1) Some show ?thesis by metis
  qed
qed

lemma cursor_u32_ok [safe_intro]: "reader_ok cursor_u32"
  unfolding cursor_u32_def by (intro safe_intro)

lemma cursor_u64_ok [safe_intro]: "reader_ok cursor_u64"
  unfolding cursor_u64_def by (intro safe_intro)

lemma cursor_i32_ok [safe_intro]: "reader_ok cursor_i32"
  unfolding cursor_i32_def by (intro safe_intro)

lemma cursor_float_ok [safe_intro]: "reader_ok cursor_float"
  unfolding cursor_float_def by (intro safe_intro)

lemma cursor_key_ok [safe_intro]: "reader_ok cursor_key"
  unfolding cursor_key_def by (intro safe_intro)

lemma cursor_skip_step:
  "(cursor_wf c \<longrightarrow> cursor_skip_value t depth c = (v, c') \<longrightarrow> reader_step c v c')"
  "(cursor_wf c \<longrightarrow> cursor_skip_items t depth n c = (v, c') \<longrightarrow> reader_step c v c')"
proof (induction t depth c and t depth n c arbitrary: v c' and v c'
    rule: cursor_skip_value_cursor_skip_items.induct)
  case (1 t depth c)
  show ?case
  proof (intro impI)
    assume wf: "cursor_wf c" and run: "cursor_skip_value t depth c = (v, c')"
    show "reader_step c v c'"
    proof (cases "depth > 8 \<or> gguf_fixed_size t \<noteq> None \<or> t \<noteq> 9")
      case True
      have key: "reader_ok (and_then cursor_key (\<lambda>_. done_with ()))" by (intro safe_intro)
      from True run show ?thesis
        using cursor_error_step [OF wf] reader_okD [OF cursor_skip_ok wf] reader_okD [OF key wf]
        by (auto simp: cursor_skip_value.simps split: if_splits option.splits)
    next
      case False
      obtain y c1 where 1: "cursor_u32 c = (y, c1)" by force
      from reader_okD [OF cursor_u32_ok wf 1] have s1: "reader_step c y c1" "cursor_wf c1" by auto
      show ?thesis
      proof (cases y)
        case None
        with False 1 run s1 show ?thesis
          by (auto simp: cursor_skip_value.simps intro: reader_step_None)
      next
        case (Some ty)
        obtain z c2 where 2: "cursor_u64 c1 = (z, c2)" by force
        from reader_okD [OF cursor_u64_ok s1(2) 2]
        have s2: "reader_step c1 z c2" "cursor_wf c2" by auto
        show ?thesis
        proof (cases z)
          case None
          with s1(1) s2(1) \<open>y = Some ty\<close> have "reader_step c (None :: nat option) c2"
            by (metis reader_step_trans)
          moreover have "v = None" "c' = c2"
            using False 1 2 None \<open>y = Some ty\<close> run by (auto simp: cursor_skip_value.simps)
          ultimately show ?thesis by (simp add: reader_step_None)
        next
          case (Some len)
          with False 1 2 \<open>y = Some ty\<close> run
          have "cursor_skip_items ty (depth + 1) len c2 = (v, c')"
            by (auto simp: cursor_skip_value.simps)
          moreover have "\<not> 8 < depth" "gguf_fixed_size t = None" "t \<noteq> 8" "t = 9"
            using False by (auto simp: gguf_fixed_size_def)
          ultimately have "reader_step c2 v c'"
            using "1.IH" [of "Some ty" c1 ty "Some len" c2 len v c'] 1 2 s2(2) Some \<open>y = Some ty\<close>
            by (metis prod.collapse fst_conv snd_conv)
          with s1(1) s2(1) Some \<open>y = Some ty\<close> show ?thesis by (metis reader_step_trans)
        qed
      qed
    qed
  qed
next
  case (2 t depth c)
  then show ?case by (auto simp: reader_step_def cursor_wf_def)
next
  case (3 t depth n c)
  show ?case
  proof (intro impI)
    assume wf: "cursor_wf c" and run: "cursor_skip_items t depth (Suc n) c = (v, c')"
    obtain y c1 where r: "cursor_skip_value t depth c = (y, c1)" by force
    from "3.IH"(1) wf r have s: "reader_step c y c1" by auto
    with wf have wf1: "cursor_wf c1" by (auto simp: reader_step_def cursor_wf_def)
    show "reader_step c v c'"
    proof (cases y)
      case None
      with r run s show ?thesis by auto
    next
      case (Some u)
      with r run have "cursor_skip_items t depth n c1 = (v, c')" by simp
      with "3.IH"(2) r Some wf1 have "reader_step c1 v c'" by auto
      with s Some show ?thesis by (metis reader_step_trans)
    qed
  qed
qed

lemma cursor_skip_value_ok [safe_intro]: "reader_ok (cursor_skip_value t depth)"
  using cursor_skip_step(1) by (intro reader_okI) blast

lemma cursor_skip_items_ok [safe_intro]: "reader_ok (cursor_skip_items t depth n)"
  using cursor_skip_step(2) by (intro reader_okI) blast

section \<open>The contract of a format\<close>

definition ahead :: "cursor \<Rightarrow> bytes \<Rightarrow> bool" where
  "ahead c bs \<longleftrightarrow> take (length bs) (drop (cu_post c) (cu_base c)) = bs"

definition advance :: "nat \<Rightarrow> cursor \<Rightarrow> cursor" where
  "advance n c = c\<lparr>cu_post := cu_post c + n\<rparr>"

lemma ahead_length:
  assumes "cursor_wf c" and "ahead c bs"
  shows "cu_post c + length bs \<le> cu_size c"
proof -
  have "length bs \<le> length (cu_base c) - cu_post c"
    using assms(2) by (metis ahead_def length_drop length_take min.cobounded1)
  with assms(1) show ?thesis by (auto simp: cursor_wf_def)
qed

lemma advance_wf: "cursor_wf c \<Longrightarrow> ahead c bs \<Longrightarrow> cursor_wf (advance (length bs) c)"
  using ahead_length [of c bs] by (simp add: cursor_wf_def advance_def)

lemma advance_advance [simp]: "advance m (advance n c) = advance (n + m) c"
  by (simp add: advance_def add.assoc)

lemma advance_0 [simp]: "advance 0 c = c"
  by (simp add: advance_def)

lemma advance_sel [simp]: "cu_post (advance n c) = cu_post c + n" "cu_base (advance n c) = cu_base c"
  "cu_size (advance n c) = cu_size c" "cu_error (advance n c) = cu_error c"
  by (simp_all add: advance_def)

lemma ahead_iff: "ahead c bs \<longleftrightarrow> (\<exists>suf. drop (cu_post c) (cu_base c) = bs @ suf)"
  unfolding ahead_def by (metis append_eq_conv_conj append_take_drop_id)

lemma ahead_append: "ahead c (a @ b) \<longleftrightarrow> ahead c a \<and> ahead (advance (length a) c) b"
proof
  assume "ahead c (a @ b)"
  then obtain suf where suf: "drop (cu_post c) (cu_base c) = a @ b @ suf" by (auto simp: ahead_iff)
  then have "drop (length a) (drop (cu_post c) (cu_base c)) = b @ suf" by simp
  then have "drop (cu_post c + length a) (cu_base c) = b @ suf"
    by (simp add: add.commute)
  with suf show "ahead c a \<and> ahead (advance (length a) c) b" by (auto simp: ahead_iff)
next
  assume "ahead c a \<and> ahead (advance (length a) c) b"
  then obtain s1 s2 where s: "drop (cu_post c) (cu_base c) = a @ s1"
    "drop (cu_post c + length a) (cu_base c) = b @ s2" by (auto simp: ahead_iff)
  have "drop (length a) (drop (cu_post c) (cu_base c)) = b @ s2"
    using s(2) by (simp add: add.commute)
  with s(1) have "s1 = b @ s2" by simp
  with s(1) show "ahead c (a @ b)" by (simp add: ahead_iff)
qed

fun read_many :: "'a reader \<Rightarrow> nat \<Rightarrow> 'a list reader" where
  "read_many r 0 c = (Some [], c)"
| "read_many r (Suc n) c =
     (case r c of
        (None, c1) \<Rightarrow> (None, c1)
      | (Some x, c1) \<Rightarrow>
          (case read_many r n c1 of
             (None, c2) \<Rightarrow> (None, c2)
           | (Some xs, c2) \<Rightarrow> (Some (x # xs), c2)))"

locale gguf_format =
  fixes parse :: "'a reader"
    and print :: "'b \<Rightarrow> bytes"
    and value_of :: "'b \<Rightarrow> 'a"
    and valid :: "'b \<Rightarrow> bool"
  assumes parse_ok: "reader_ok parse"
    and parse_print: "cursor_wf c \<Longrightarrow> valid x \<Longrightarrow> ahead c (print x) \<Longrightarrow>
      parse c = (Some (value_of x), advance (length (print x)) c)"

context gguf_format
begin

lemma then_print:
  assumes "cursor_wf c" and "valid x" and "ahead c (print x @ rest)"
  shows "parse c = (Some (value_of x), advance (length (print x)) c)"
    and "ahead (advance (length (print x)) c) rest"
    and "cursor_wf (advance (length (print x)) c)"
  using assms parse_print [of c x] advance_wf [of c "print x"] by (auto simp: ahead_append)

lemma and_then_print:
  assumes "cursor_wf c" and "valid x" and "ahead c (print x @ rest)"
  shows "and_then parse k c = k (value_of x) (advance (length (print x)) c)"
  using then_print(1) [OF assms] by (simp add: and_then_def)

lemma read_many_print:
  "cursor_wf c \<Longrightarrow> \<forall>x \<in> set xs. valid x \<Longrightarrow> ahead c (concat (List.map print xs)) \<Longrightarrow>
   read_many parse (length xs) c
     = (Some (List.map value_of xs), advance (length (concat (List.map print xs))) c)"
proof (induction xs arbitrary: c)
  case Nil
  then show ?case by simp
next
  case (Cons x xs)
  then have "ahead c (print x @ concat (List.map print xs))" by simp
  note step = then_print [OF Cons.prems(1) _ this]
  from step Cons.prems(2) Cons.IH show ?case by simp
qed

lemma read_many_ok: "reader_ok (read_many parse n)"
proof (induction n)
  case 0
  then show ?case by (intro reader_okI) (auto simp: reader_step_def cursor_wf_def)
next
  case (Suc n)
  have "read_many parse (Suc n)
      = and_then parse (\<lambda>x. and_then (read_many parse n) (\<lambda>xs. done_with (x # xs)))"
    by (rule ext) (simp add: and_then_def done_with_def split: prod.splits option.splits)
  then show ?case using parse_ok Suc by (auto intro: safe_intro)
qed

end

section \<open>The formats of the cursor\<close>

lemma cursor_read_ahead:
  assumes "cursor_wf c" and "ahead c bs" and "length bs = n"
  shows "cursor_read n c = (Some bs, advance n c)"
proof -
  have len: "cu_post c + n \<le> cu_size c" using ahead_length [OF assms(1,2)] assms(3) by simp
  show ?thesis
    using assms(2,3) len cursor_post_add [OF assms(1) len]
    by (simp add: cursor_read_def cursor_has_cases [OF assms(1)] ahead_def advance_def)
qed

lemma cursor_skip_ahead:
  assumes "cursor_wf c" and "ahead c bs" and "length bs = n"
  shows "cursor_skip n c = (Some (), advance n c)"
proof -
  have len: "cu_post c + n \<le> cu_size c" using ahead_length [OF assms(1,2)] assms(3) by simp
  show ?thesis
    using len cursor_post_add [OF assms(1) len]
    by (simp add: cursor_skip_def cursor_has_cases [OF assms(1)] advance_def)
qed

interpretation u32_fmt: gguf_format cursor_u32 "le_bytes 4" id "\<lambda>n. n < 2 ^ 32"
proof
  fix c n assume "cursor_wf c" and "n < (2::nat) ^ 32" and "ahead c (le_bytes 4 n)"
  with cursor_read_ahead [of c "le_bytes 4 n" 4]
  show "cursor_u32 c = (Some (id n), advance (length (le_bytes 4 n)) c)"
    by (simp add: cursor_u32_def and_then_def done_with_def)
qed (rule cursor_u32_ok)

interpretation u64_fmt: gguf_format cursor_u64 "le_bytes 8" id "\<lambda>n. n < 2 ^ 64"
proof
  fix c n assume "cursor_wf c" and "n < (2::nat) ^ 64" and "ahead c (le_bytes 8 n)"
  with cursor_read_ahead [of c "le_bytes 8 n" 8]
  show "cursor_u64 c = (Some (id n), advance (length (le_bytes 8 n)) c)"
    by (simp add: cursor_u64_def and_then_def done_with_def)
qed (rule cursor_u64_ok)

definition key_bytes :: "bytes \<Rightarrow> bytes" where
  "key_bytes s = le_bytes 8 (length s) @ s"

lemma cursor_key_print:
  assumes "cursor_wf c" and "length s < 2 ^ 63" and "ahead c (key_bytes s)"
  shows "cursor_key c = (Some (take (length s mod 256) s), advance (length (key_bytes s)) c)"
proof -
  have a: "ahead c (le_bytes 8 (length s) @ s)" using assms(3) by (simp add: key_bytes_def)
  have len: "length s < 2 ^ 64" using assms(2) by simp
  let ?c = "advance 8 c"
  have key: "cursor_key c = cursor_key_content (length s) ?c"
    using u64_fmt.and_then_print [OF assms(1) len a] by (simp add: cursor_key_def)
  from u64_fmt.then_print(2,3) [OF assms(1) len a] have c: "ahead ?c s" "cursor_wf ?c" by simp_all
  have fits: "cu_post ?c + length s \<le> cu_size ?c" using ahead_length [OF c(2,1)] by simp
  obtain suf where "drop (cu_post ?c) (cu_base ?c) = s @ suf" using c(1) by (auto simp: ahead_iff)
  then have "take (length s mod 256) (drop (cu_post ?c) (cu_base ?c)) = take (length s mod 256) s"
    by simp
  then show ?thesis
    using fits cursor_post_add [OF c(2) fits] cursor_has_cases [OF c(2), of "length s"]
    by (simp add: key cursor_key_content_def key_bytes_def advance_def)
qed

interpretation key_fmt: gguf_format cursor_key key_bytes id "\<lambda>s. length s < 256"
proof
  fix c and s :: bytes
  assume c: "cursor_wf c" and len: "length s < 256" and a: "ahead c (key_bytes s)"
  from len have "length s < 2 ^ 63" and "take (length s mod 256) s = s" by simp_all
  with cursor_key_print [OF c _ a] show "cursor_key c = (Some (id s), advance (length (key_bytes s)) c)"
    by simp
qed (rule cursor_key_ok)

section \<open>Metadata values\<close>

text \<open>The values the file format knows, with the bytes that stand for them.\<close>

datatype gvalue = GFixed nat bytes | GStr bytes | GArr nat "gvalue list"

fun gv_type :: "gvalue \<Rightarrow> nat" where
  "gv_type (GFixed t bs) = t"
| "gv_type (GStr s) = 8"
| "gv_type (GArr t vs) = 9"

fun gv_bytes :: "gvalue \<Rightarrow> bytes" where
  "gv_bytes (GFixed t bs) = bs"
| "gv_bytes (GStr s) = key_bytes s"
| "gv_bytes (GArr t vs) = le_bytes 4 t @ le_bytes 8 (length vs) @ concat (List.map gv_bytes vs)"

text \<open>\<open>gv_valid d v\<close>: \<open>v\<close> may stand at array nesting \<open>d\<close>.\<close>

fun gv_valid :: "nat \<Rightarrow> gvalue \<Rightarrow> bool" where
  "gv_valid d (GFixed t bs) \<longleftrightarrow> d \<le> 8 \<and> gguf_fixed_size t = Some (length bs)"
| "gv_valid d (GStr s) \<longleftrightarrow> d \<le> 8 \<and> length s < 2 ^ 63"
| "gv_valid d (GArr t vs) \<longleftrightarrow> d \<le> 8 \<and> t < 2 ^ 32 \<and> length vs < 2 ^ 64
     \<and> (\<forall>v \<in> set vs. gv_type v = t \<and> gv_valid (d + 1) v)"

lemma gguf_fixed_size_8_9 [simp]: "gguf_fixed_size 8 = None" "gguf_fixed_size 9 = None"
  by (simp_all add: gguf_fixed_size_def)

lemma cursor_skip_value_print:
  "cursor_wf c \<Longrightarrow> gv_valid d v \<Longrightarrow> ahead c (gv_bytes v) \<Longrightarrow>
   cursor_skip_value (gv_type v) d c = (Some (), advance (length (gv_bytes v)) c)"
proof (induction v arbitrary: d c)
  case (GFixed t bs)
  then show ?case by (auto simp: cursor_skip_value.simps cursor_skip_ahead)
next
  case (GStr s)
  then show ?case
    by (auto simp: cursor_skip_value.simps cursor_key_print and_then_def done_with_def)
next
  case (GArr t vs)
  have a: "ahead c (le_bytes 4 t @ le_bytes 8 (length vs) @ concat (List.map gv_bytes vs))"
    using GArr.prems(3) by simp
  have t: "t < 2 ^ 32" "length vs < 2 ^ 64" "d \<le> 8" using GArr.prems(2) by auto
  note 1 = u32_fmt.then_print [OF GArr.prems(1) t(1) a]
  note 2 = u64_fmt.then_print [OF 1(3) t(2) 1(2)]
  have items: "cursor_skip_items t (d + 1) (length ws) c'
      = (Some (), advance (length (concat (List.map gv_bytes ws))) c')"
    if "set ws \<subseteq> set vs" and "cursor_wf c'" and "ahead c' (concat (List.map gv_bytes ws))" for ws c'
    using that
  proof (induction ws arbitrary: c')
    case Nil
    then show ?case by simp
  next
    case (Cons w ws)
    then have w: "w \<in> set vs" "gv_type w = t" "gv_valid (d + 1) w"
      using GArr.prems(2) by auto
    have b: "ahead c' (gv_bytes w)" "ahead (advance (length (gv_bytes w)) c') (concat (List.map gv_bytes ws))"
      using Cons.prems(3) by (auto simp: ahead_append)
    have "cursor_skip_value t (d + 1) c' = (Some (), advance (length (gv_bytes w)) c')"
      using GArr.IH [OF w(1) Cons.prems(2) w(3) b(1)] w(2) by simp
    moreover have "cursor_wf (advance (length (gv_bytes w)) c')"
      using advance_wf [OF Cons.prems(2) b(1)] .
    ultimately show ?case using Cons.IH Cons.prems(1) b(2) by simp
  qed
  have "cursor_skip_items t (d + 1) (length vs) (advance 12 c)
      = (Some (), advance (12 + length (concat (List.map gv_bytes vs))) c)"
    using items [of vs "advance 12 c"] 2 by simp
  with 1 2 t show ?case by (simp add: cursor_skip_value.simps)
qed

end
