(* ===== verification/GgufModel.thy ===== *)
theory GgufModel
  imports GgufCursor
begin

text \<open>
  The GGUF file of src/src/core.c: the tensor type table, the metadata and tensor
  sections (\<open>kv_load\<close>, \<open>tensor_load\<close>), the lookups over them and the architecture.
  A file is the list of its bytes; \<open>open\<close>, \<open>fstat\<close> and \<open>mmap\<close> deliver it.  Pointers
  into the mapping (\<open>data\<close>, \<open>Key.content\<close>) are the bytes or offsets they denote.
\<close>

section \<open>Types\<close>

datatype model_arch = ARCH_UNKNOWN | ARCH_LLAMA | ARCH_QWEN2 | ARCH_QWEN3 | ARCH_DEEPSEEK
  | ARCH_FALCON | ARCH_FALCON_H1 | ARCH_GEMMA3

record kv_entry =
  kv_key :: key
  kv_type :: nat
  kv_value_pos :: nat

record array_ref =
  ar_type :: nat
  ar_len :: nat
  ar_data_pos :: nat

record tensor_info =
  ti_key :: key
  ti_dim :: "nat list"
  ti_type :: nat
  ti_offset :: nat
  ti_n_element :: nat
  ti_bytes :: nat
  ti_padded_dim :: nat

definition ti_ndim :: "tensor_info \<Rightarrow> nat" where
  "ti_ndim t = length (ti_dim t)"

record model =
  m_size :: nat
  m_map :: bytes
  m_version :: nat
  m_n_kv :: nat
  m_n_tensor :: nat
  m_alignment :: nat
  m_arch :: model_arch
  m_arch_name :: string
  m_kv :: "kv_entry list"
  m_tensor :: "tensor_info list"

section \<open>Tensor types\<close>

text \<open>\<open>(name, block_elems, block_bytes)\<close>; the gaps of the table have a NULL name.\<close>

definition gguf_types :: "(string \<times> nat \<times> nat) option list" where
  "gguf_types =
    [Some (''f32'', 1, 4), Some (''f16'', 1, 2), Some (''q4_0'', 32, 18), Some (''q4_1'', 32, 20),
     None, None, Some (''q5_0'', 32, 22), Some (''q5_1'', 32, 24), Some (''q8_0'', 32, 34),
     Some (''q8_1'', 32, 40), Some (''q2_k'', 256, 84), Some (''q3_k'', 256, 110),
     Some (''q4_k'', 256, 144), Some (''q5_k'', 256, 176), Some (''q6_k'', 256, 210),
     Some (''q8_k'', 256, 292), Some (''iq2_xxs'', 256, 66), Some (''iq2_xs'', 256, 74),
     Some (''iq3_xxs'', 256, 98), Some (''iq1_s'', 256, 110), Some (''iq4_nl'', 32, 18),
     Some (''iq3_s'', 256, 110), Some (''iq2_s'', 256, 82), Some (''iq4_xs'', 256, 136),
     Some (''i8'', 1, 1), Some (''i16'', 1, 2), Some (''i32'', 1, 4), Some (''i64'', 1, 8),
     Some (''f64'', 1, 8), Some (''iq1_m'', 256, 56), Some (''bf16'', 1, 2)]"

definition tensor_type :: "nat \<Rightarrow> (string \<times> nat \<times> nat) option" where
  "tensor_type t = (if t \<ge> length gguf_types then None else gguf_types ! t)"

definition tensor_bytes :: "nat \<Rightarrow> nat \<Rightarrow> nat option" where
  "tensor_bytes t n_element =
     (case tensor_type t of
        None \<Rightarrow> None
      | Some (_, be, bb) \<Rightarrow>
          if be = 0 then None
          else let blocks = ((n_element + be - 1) mod 2 ^ 64) div be in
               if blocks > u64_max div bb then None else Some (blocks * bb))"

section \<open>Metadata lookups\<close>

definition model_find_kv :: "model \<Rightarrow> string \<Rightarrow> kv_entry option" where
  "model_find_kv m s = find (\<lambda>kv. key_streq (kv_key kv) s) (m_kv m)"

definition model_get_key :: "model \<Rightarrow> string \<Rightarrow> key option" where
  "model_get_key m s =
     (case model_find_kv m s of
        None \<Rightarrow> None
      | Some kv \<Rightarrow> if kv_type kv \<noteq> 8 then None
          else fst (cursor_key (cursor_at (m_map m) (m_size m) (kv_value_pos kv))))"

definition model_get_array :: "model \<Rightarrow> string \<Rightarrow> array_ref option" where
  "model_get_array m s =
     (case model_find_kv m s of
        None \<Rightarrow> None
      | Some kv \<Rightarrow> if kv_type kv \<noteq> 9 then None
          else (case cursor_u32 (cursor_at (m_map m) (m_size m) (kv_value_pos kv)) of
                  (None, _) \<Rightarrow> None
                | (Some t, c1) \<Rightarrow>
                    (case cursor_u64 c1 of
                       (None, _) \<Rightarrow> None
                     | (Some n, c2) \<Rightarrow>
                         Some \<lparr>ar_type = t, ar_len = n, ar_data_pos = cu_post c2\<rparr>)))"

definition model_get_i32 :: "model \<Rightarrow> string \<Rightarrow> int option" where
  "model_get_i32 m s =
     (case model_find_kv m s of
        None \<Rightarrow> None
      | Some kv \<Rightarrow> if kv_type kv \<noteq> 4 then None
          else fst (cursor_i32 (cursor_at (m_map m) (m_size m) (kv_value_pos kv))))"

definition model_get_f32 :: "model \<Rightarrow> string \<Rightarrow> u32 option" where
  "model_get_f32 m s =
     (case model_find_kv m s of
        None \<Rightarrow> None
      | Some kv \<Rightarrow> if kv_type kv \<noteq> 6 then None
          else fst (cursor_float (cursor_at (m_map m) (m_size m) (kv_value_pos kv))))"

text \<open>Two's complement reading of \<open>w\<close> little-endian bytes.\<close>

definition le_sint :: "nat \<Rightarrow> bytes \<Rightarrow> int" where
  "le_sint w bs = (if le_val bs < 2 ^ (8 * w - 1) then int (le_val bs)
                   else int (le_val bs) - 2 ^ (8 * w))"

text \<open>\<open>(size, signed)\<close>; a 64-bit unsigned value is cast to \<open>i64\<close>.\<close>

definition gguf_int_layout :: "nat \<Rightarrow> (nat \<times> bool) option" where
  "gguf_int_layout t =
     (if t = 0 then Some (1, False) else if t = 1 then Some (1, True)
      else if t = 2 then Some (2, False) else if t = 3 then Some (2, True)
      else if t = 4 then Some (4, False) else if t = 5 then Some (4, True)
      else if t = 10 then Some (8, True) else if t = 11 then Some (8, True)
      else None)"

definition model_get_int :: "model \<Rightarrow> string \<Rightarrow> int option" where
  "model_get_int m s =
     (case model_find_kv m s of
        None \<Rightarrow> None
      | Some kv \<Rightarrow>
          (case gguf_int_layout (kv_type kv) of
             None \<Rightarrow> None
           | Some (w, sg) \<Rightarrow>
               (case fst (cursor_read w (cursor_at (m_map m) (m_size m) (kv_value_pos kv))) of
                  None \<Rightarrow> None
                | Some bs \<Rightarrow> Some (if sg then le_sint w bs else int (le_val bs)))))"

definition model_find_tensor :: "model \<Rightarrow> string \<Rightarrow> nat option" where
  "model_find_tensor m name =
     find (\<lambda>i. key_streq (ti_key (m_tensor m ! i)) name) [0 ..< length (m_tensor m)]"

section \<open>Loading the sections\<close>

text \<open>\<open>slog(ERROR, c->error)\<close>: the recorded message, cut to its 125-byte buffer.\<close>

definition cursor_error_text :: "cursor \<Rightarrow> string" where
  "cursor_error_text c =
     (case cu_error c of None \<Rightarrow> [] | Some (msg, p) \<Rightarrow> take 124 (msg @ '' at byte '' @ dec p))"

definition or_die :: "'a option \<times> cursor \<Rightarrow> ('a \<times> cursor) result" where
  "or_die r = (case r of (None, c) \<Rightarrow> Inl (Fatal (cursor_error_text c)) | (Some x, c) \<Rightarrow> Inr (x, c))"

lemma or_die_Inr_iff [simp]: "or_die r = Inr (x, c) \<longleftrightarrow> r = (Some x, c)"
  by (auto simp: or_die_def split: prod.splits option.splits)

lemma or_die_Some [simp]: "or_die (Some x, c) = Inr (x, c)"
  by simp

text \<open>The alignment read goes through \<open>kv->value_pos\<close>, and \<open>kv\<close> is the array: it is
  the value of its first entry, whatever entry is being loaded.\<close>

definition kv_alignment :: "bytes \<Rightarrow> nat \<Rightarrow> kv_entry list \<Rightarrow> nat \<Rightarrow> nat" where
  "kv_alignment base sz kvs al =
     (if key_streq (kv_key (last kvs)) ''general.alignment'' \<and> kv_type (last kvs) = 4
      then (case fst (cursor_u32 (cursor_at base sz (kv_value_pos (hd kvs)))) of
              None \<Rightarrow> al
            | Some a \<Rightarrow> if a \<noteq> 0 then a else al)
      else al)"

fun kv_load_from :: "bytes \<Rightarrow> nat \<Rightarrow> nat \<Rightarrow> kv_entry list \<Rightarrow> nat \<Rightarrow> cursor
    \<Rightarrow> (kv_entry list \<times> nat \<times> cursor) result" where
  "kv_load_from base sz 0 kvs al c = Inr (kvs, al, c)"
| "kv_load_from base sz (Suc n) kvs al c =
     rbind (or_die (cursor_key c)) (\<lambda>(k, c1).
     rbind (or_die (cursor_u32 c1)) (\<lambda>(t, c2).
       let kvs' = kvs @ [\<lparr>kv_key = k, kv_type = t, kv_value_pos = cu_post c2\<rparr>];
           al' = kv_alignment base sz kvs' al in
       rbind (or_die (cursor_skip_value t 0 c2)) (\<lambda>(_, c3).
         kv_load_from base sz n kvs' al' c3)))"

definition kv_load :: "bytes \<Rightarrow> nat \<Rightarrow> nat \<Rightarrow> cursor \<Rightarrow> (kv_entry list \<times> nat \<times> cursor) result" where
  "kv_load base sz n_kv c = kv_load_from base sz n_kv [] 32 c"

fun tensor_dims :: "nat \<Rightarrow> nat \<Rightarrow> cursor \<Rightarrow> (nat list \<times> nat \<times> cursor) result" where
  "tensor_dims 0 n_element c = Inr ([], n_element, c)"
| "tensor_dims (Suc n) n_element c =
     rbind (or_die (cursor_u64 c)) (\<lambda>(d, c1).
     rbind (die_unless (\<not> (d \<noteq> 0 \<and> n_element > u64_max div d)) ''Tensor element count overflow'') (\<lambda>_.
     rbind (tensor_dims n (mul64 n_element d) c1) (\<lambda>(ds, ne, c2).
       Inr (d # ds, ne, c2))))"

definition swap_dims :: "nat list \<Rightarrow> nat list" where
  "swap_dims ds = (if length ds = 2 then [ds ! 1, ds ! 0] else ds)"

definition tensor_padded_dim :: "nat \<Rightarrow> nat list \<Rightarrow> nat" where
  "tensor_padded_dim t ds =
     (if length ds \<ge> 2
      then (case tensor_type t of
              None \<Rightarrow> 0
            | Some (_, be, _) \<Rightarrow>
                if be > 1
                then let lst = ds ! (length ds - 1);
                         pad = mul64 ((lst + be - 1) mod 2 ^ 64 div be) be
                     in if pad \<noteq> lst then pad else 0
                else 0)
      else 0)"

text \<open>One entry of the tensor section.  An unsupported type only logs a warning and
  leaves \<open>bytes\<close> at the 0 of \<open>scalloc\<close>.\<close>

definition tensor_load_entry :: "cursor \<Rightarrow> (tensor_info \<times> cursor) result" where
  "tensor_load_entry c =
     rbind (or_die (cursor_key c)) (\<lambda>(k, c1).
     rbind (or_die (cursor_u32 c1)) (\<lambda>(ndim, c2).
     rbind (die_unless (\<not> (ndim = 0 \<or> ndim > 8))
              ''Tensor has an unsupported number of dimensions: %d'') (\<lambda>_.
     rbind (tensor_dims ndim 1 c2) (\<lambda>(ds, ne, c3).
     rbind (or_die (cursor_u32 c3)) (\<lambda>(t, c4).
     rbind (or_die (cursor_u64 c4)) (\<lambda>(ofs, c5).
       Inr (\<lparr>ti_key = k, ti_dim = swap_dims ds, ti_type = t, ti_offset = ofs, ti_n_element = ne,
             ti_bytes = (case tensor_bytes t ne of None \<Rightarrow> 0 | Some b \<Rightarrow> b),
             ti_padded_dim = tensor_padded_dim t (swap_dims ds)\<rparr>, c5)))))))"

fun tensor_load :: "nat \<Rightarrow> cursor \<Rightarrow> (tensor_info list \<times> cursor) result" where
  "tensor_load 0 c = Inr ([], c)"
| "tensor_load (Suc n) c =
     rbind (tensor_load_entry c) (\<lambda>(t, c1).
     rbind (tensor_load n c1) (\<lambda>(ts, c2). Inr (t # ts, c2)))"

section \<open>Architecture\<close>

definition arch_key_prefix :: "model_arch \<Rightarrow> string" where
  "arch_key_prefix a = (case a of
     ARCH_LLAMA \<Rightarrow> ''llama'' | ARCH_QWEN2 \<Rightarrow> ''qwen2'' | ARCH_QWEN3 \<Rightarrow> ''qwen3''
   | ARCH_DEEPSEEK \<Rightarrow> ''deepseek2'' | ARCH_FALCON \<Rightarrow> ''falcon'' | ARCH_FALCON_H1 \<Rightarrow> ''falcon-h1''
   | ARCH_GEMMA3 \<Rightarrow> ''gemma3'' | _ \<Rightarrow> ''llama'')"

definition arch_of_name :: "string \<Rightarrow> model_arch option" where
  "arch_of_name s =
     (if key_streq s ''llama'' then Some ARCH_LLAMA
      else if key_streq s ''qwen2'' then Some ARCH_QWEN2
      else if key_streq s ''qwen35'' then Some ARCH_QWEN3
      else if key_streq s ''deepseek2'' then Some ARCH_DEEPSEEK
      else if key_streq s ''falcon'' then Some ARCH_FALCON
      else if key_streq s ''falcon-h1'' then Some ARCH_FALCON_H1
      else if key_streq s ''gemma3'' then Some ARCH_GEMMA3
      else None)"

text \<open>\<open>arch_name\<close> is a 32-byte buffer: 31 bytes and the NUL.\<close>

definition model_detect_arch :: "model \<Rightarrow> model result" where
  "model_detect_arch m =
     (case model_get_key m ''general.architecture'' of
        None \<Rightarrow> Inr (m\<lparr>m_arch := ARCH_UNKNOWN\<rparr>)
      | Some name \<Rightarrow>
          (case arch_of_name name of
             None \<Rightarrow> Inl (Fatal ''Unknown architecture: %s, can't to support.'')
           | Some a \<Rightarrow> Inr (m\<lparr>m_arch_name := take 31 name, m_arch := a\<rparr>)))"

section \<open>Layer names\<close>

text \<open>The digit loop: a \<open>u32\<close> accumulator.\<close>

definition layer_number :: "string \<Rightarrow> nat" where
  "layer_number ds = foldl (\<lambda>n c. (n * 10 + digit_of c) mod 2 ^ 32) 0 ds"

definition layer_tensor_parse :: "key \<Rightarrow> (nat \<times> string) option" where
  "layer_tensor_parse k =
     (if length k < 7 \<or> take 4 k \<noteq> ''blk.'' then None
      else let ds = takeWhile is_digit (drop 4 k); rest = dropWhile is_digit (drop 4 k) in
           if rest = [] \<or> hd rest \<noteq> CHR ''.'' then None
           else let s = tl rest; len = length s in
                Some (layer_number ds,
                      if len > 7 \<and> drop (len - 7) s = ''.weight'' then take (len - 7) s else s))"

definition count_layer_step :: "nat \<Rightarrow> key \<Rightarrow> nat" where
  "count_layer_step max_n k =
     (if length k < 5 \<or> take 4 k \<noteq> ''blk.'' then max_n
      else let ds = takeWhile is_digit (drop 4 k); rest = dropWhile is_digit (drop 4 k);
               n = layer_number ds in
           if ds \<noteq> [] \<and> rest \<noteq> [] \<and> hd rest = CHR ''.'' \<and> n \<ge> max_n then n else max_n)"

definition model_count_layers :: "model \<Rightarrow> nat" where
  "model_count_layers m = (foldl count_layer_step 0 (List.map ti_key (m_tensor m)) + 1) mod 2 ^ 32"

section \<open>What the loaded sections hold\<close>

lemma or_die_wf:
  assumes "reader_ok r" and "cursor_wf c" and "or_die (r c) = Inr (x, c')"
  shows "cursor_wf c'" and "cu_base c' = cu_base c" and "cu_size c' = cu_size c"
    and "cu_post c \<le> cu_post c'"
  using reader_okD [OF assms(1,2)] assms(3) by (auto simp: reader_step_def)

lemma kv_load_from_bounds:
  "kv_load_from base sz n kvs al c = Inr (kvs', al', c') \<Longrightarrow> cursor_wf c \<Longrightarrow>
   length kvs' = length kvs + n \<and> take (length kvs) kvs' = kvs \<and> cursor_wf c'
   \<and> cu_base c' = cu_base c \<and> cu_size c' = cu_size c \<and> cu_post c \<le> cu_post c'
   \<and> (al \<noteq> 0 \<longrightarrow> al' \<noteq> 0) \<and> (\<forall>kv \<in> set (drop (length kvs) kvs'). kv_value_pos kv \<le> cu_size c)"
proof (induction n arbitrary: kvs al c)
  case 0
  then show ?case by simp
next
  case (Suc n)
  from Suc.prems(1) obtain k c1 t c2 u c3 where
    1: "or_die (cursor_key c) = Inr (k, c1)" and 2: "or_die (cursor_u32 c1) = Inr (t, c2)"
    and 3: "or_die (cursor_skip_value t 0 c2) = Inr (u, c3)"
    and 4: "kv_load_from base sz n (kvs @ [\<lparr>kv_key = k, kv_type = t, kv_value_pos = cu_post c2\<rparr>])
      (kv_alignment base sz (kvs @ [\<lparr>kv_key = k, kv_type = t, kv_value_pos = cu_post c2\<rparr>]) al) c3
      = Inr (kvs', al', c')"
    by (auto simp: Let_def)
  note w1 = or_die_wf [OF cursor_key_ok Suc.prems(2) 1]
  note w2 = or_die_wf [OF cursor_u32_ok w1(1) 2]
  note w3 = or_die_wf [OF cursor_skip_value_ok w2(1) 3]
  let ?x = "\<lparr>kv_key = k, kv_type = t, kv_value_pos = cu_post c2\<rparr>"
  note IH = Suc.IH [OF 4 w3(1)]
  have al: "al \<noteq> 0 \<Longrightarrow> kv_alignment base sz kvs2 al \<noteq> 0" for kvs2
    by (simp add: kv_alignment_def split: option.splits)
  have "kvs' = (kvs @ [?x]) @ drop (Suc (length kvs)) kvs'"
    using IH append_take_drop_id [of "Suc (length kvs)" kvs'] by simp
  then have "drop (length kvs) kvs' = ?x # drop (Suc (length kvs)) kvs'" and "take (length kvs) kvs' = kvs"
    by (metis append.assoc append_Cons append_Nil append_eq_conv_conj)+
  moreover have "cu_post c2 \<le> cu_size c"
    using w1 w2 by (simp add: cursor_wf_def)
  ultimately show ?case using IH al w1 w2 w3 by auto
qed

definition kv_print :: "bytes \<times> gvalue \<Rightarrow> bytes" where
  "kv_print kv = key_bytes (fst kv) @ le_bytes 4 (gv_type (snd kv)) @ gv_bytes (snd kv)"

definition kv_valid :: "bytes \<times> gvalue \<Rightarrow> bool" where
  "kv_valid kv \<longleftrightarrow> length (fst kv) < 256 \<and> gv_valid 0 (snd kv)"

lemma gv_type_bound: "gv_valid d v \<Longrightarrow> gv_type v < 2 ^ 32"
  by (cases v) (auto simp: gguf_fixed_size_def split: if_splits)

text \<open>An entry of the loaded list describes the value it was written from.\<close>

definition kv_describes :: "bytes \<Rightarrow> kv_entry \<Rightarrow> bytes \<times> gvalue \<Rightarrow> bool" where
  "kv_describes base e kv \<longleftrightarrow> kv_key e = fst kv \<and> kv_type e = gv_type (snd kv)
     \<and> ahead (cursor_at base (length base) (kv_value_pos e)) (gv_bytes (snd kv))"

lemma kv_load_from_step:
  assumes "cursor_wf c" and "kv_valid kv" and "ahead c (kv_print kv @ rest)"
  defines "e \<equiv> \<lparr>kv_key = fst kv, kv_type = gv_type (snd kv),
      kv_value_pos = cu_post c + length (key_bytes (fst kv)) + 4\<rparr>"
  shows "kv_load_from base sz (Suc n) kvs al c
      = kv_load_from base sz n (kvs @ [e]) (kv_alignment base sz (kvs @ [e]) al)
          (advance (length (kv_print kv)) c)"
    and "kv_describes (cu_base c) e kv"
    and "ahead (advance (length (kv_print kv)) c) rest"
    and "cursor_wf (advance (length (kv_print kv)) c)"
proof -
  obtain k v where kv: "kv = (k, v)" by force
  have k: "length k < 256" and v: "gv_valid 0 v" using assms(2) by (auto simp: kv_valid_def kv)
  have a: "ahead c (key_bytes k @ le_bytes 4 (gv_type v) @ gv_bytes v @ rest)"
    using assms(3) by (simp add: kv_print_def kv)
  note 1 = key_fmt.then_print [OF assms(1) k a]
  note 2 = u32_fmt.then_print [OF 1(3) gv_type_bound [OF v] 1(2)]
  have av: "ahead (advance (length (le_bytes 4 (gv_type v))) (advance (length (key_bytes k)) c)) (gv_bytes v)"
    using 2(2) by (simp add: ahead_append)
  note 3 = cursor_skip_value_print [OF 2(3) v av]
  have len: "length (kv_print kv) = length (key_bytes k) + 4 + length (gv_bytes v)"
    by (simp add: kv_print_def kv)
  have len': "length (key_bytes k) + (4 + length (gv_bytes v)) = length (kv_print (k, v))"
    using len by (simp add: kv)
  show "kv_load_from base sz (Suc n) kvs al c
      = kv_load_from base sz n (kvs @ [e]) (kv_alignment base sz (kvs @ [e]) al)
          (advance (length (kv_print kv)) c)"
    using 1(1) 2(1) 3 by (simp add: e_def kv Let_def add.assoc len')
  show "ahead (advance (length (kv_print kv)) c) rest"
    using assms(3) by (simp add: ahead_append)
  show "cursor_wf (advance (length (kv_print kv)) c)"
    using advance_wf [OF assms(1), of "kv_print kv"] assms(3) by (simp add: ahead_append)
  show "kv_describes (cu_base c) e kv"
    using av by (simp add: kv_describes_def e_def kv ahead_def cursor_at_def add.assoc)
qed

definition is_alignment :: "bytes \<times> gvalue \<Rightarrow> bool" where
  "is_alignment kv \<longleftrightarrow> fst kv = ''general.alignment'' \<and> gv_type (snd kv) = 4"

definition alignment_at :: "bytes \<Rightarrow> nat \<Rightarrow> nat \<Rightarrow> nat \<Rightarrow> nat" where
  "alignment_at base sz p al =
     (case fst (cursor_u32 (cursor_at base sz p)) of
        None \<Rightarrow> al | Some a \<Rightarrow> if a \<noteq> 0 then a else al)"

lemma kv_alignment_eq:
  "kv_alignment base sz (kvs @ [e]) al =
     (if kv_key e = ''general.alignment'' \<and> kv_type e = 4
      then alignment_at base sz (kv_value_pos (hd (kvs @ [e]))) al else al)"
  by (simp add: kv_alignment_def alignment_at_def split: option.splits)

lemma alignment_at_again [simp]:
  "alignment_at base sz p (alignment_at base sz p al) = alignment_at base sz p al"
  by (simp add: alignment_at_def split: option.splits)

text \<open>The entries of a metadata section written at offset \<open>p\<close>.\<close>

fun kv_entries :: "nat \<Rightarrow> (bytes \<times> gvalue) list \<Rightarrow> kv_entry list" where
  "kv_entries p [] = []"
| "kv_entries p (kv # kvs) =
     \<lparr>kv_key = fst kv, kv_type = gv_type (snd kv), kv_value_pos = p + length (key_bytes (fst kv)) + 4\<rparr>
     # kv_entries (p + length (kv_print kv)) kvs"

text \<open>Loading a written metadata section gives back its keys, types and value positions;
  the alignment is whatever 32-bit number stands at the first value, as soon as some
  entry is an alignment entry.\<close>

lemma kv_load_from_print:
  "cursor_wf c \<Longrightarrow> \<forall>kv \<in> set kvl. kv_valid kv \<Longrightarrow> ahead c (concat (List.map kv_print kvl) @ rest) \<Longrightarrow>
   kv_load_from base sz (length kvl) kvs al c
     = Inr (kvs @ kv_entries (cu_post c) kvl,
         if \<exists>kv \<in> set kvl. is_alignment kv
         then alignment_at base sz (kv_value_pos (hd (kvs @ kv_entries (cu_post c) kvl))) al else al,
         advance (length (concat (List.map kv_print kvl))) c)
   \<and> list_all2 (kv_describes (cu_base c)) (kv_entries (cu_post c) kvl) kvl"
proof (induction kvl arbitrary: kvs al c)
  case Nil
  then show ?case by simp
next
  case (Cons kv kvl)
  have a: "ahead c (kv_print kv @ concat (List.map kv_print kvl) @ rest)"
    using Cons.prems(3) by simp
  let ?e = "\<lparr>kv_key = fst kv, kv_type = gv_type (snd kv),
      kv_value_pos = cu_post c + length (key_bytes (fst kv)) + 4\<rparr>"
  have valid: "kv_valid kv" using Cons.prems(2) by simp
  note step = kv_load_from_step [OF Cons.prems(1) valid a]
  note es = Cons.IH [OF step(4) _ step(3), of "kvs @ [?e]" "kv_alignment base sz (kvs @ [?e]) al"]
  have hd: "hd ((kvs @ [?e]) @ es) = hd (kvs @ [?e])" for es by (cases kvs) auto
  have al: "kv_alignment base sz (kvs @ [?e]) al =
      (if is_alignment kv then alignment_at base sz (kv_value_pos (hd (kvs @ [?e]))) al else al)"
    by (simp add: kv_alignment_eq is_alignment_def)
  have v: "\<forall>kv \<in> set kvl. kv_valid kv" using Cons.prems(2) by simp
  have p: "cu_post (advance (length (kv_print kv)) c) = cu_post c + length (kv_print kv)"
    "cu_base (advance (length (kv_print kv)) c) = cu_base c" by simp_all
  have app: "kvs @ kv_entries (cu_post c) (kv # kvl)
      = (kvs @ [?e]) @ kv_entries (cu_post c + length (kv_print kv)) kvl" by simp
  have len: "length (concat (List.map kv_print (kv # kvl)))
      = length (kv_print kv) + length (concat (List.map kv_print kvl))" by simp
  have load: "kv_load_from base sz (length (kv # kvl)) kvs al c
      = kv_load_from base sz (length kvl) (kvs @ [?e]) (kv_alignment base sz (kvs @ [?e]) al)
          (advance (length (kv_print kv)) c)"
    using step(1) [of base sz "length kvl" kvs al] by simp
  show ?case
    unfolding load app len hd
    using conjunct1 [OF es [OF v], unfolded p hd] conjunct2 [OF es [OF v], unfolded p] step(2) al
    by (cases "is_alignment kv"; cases "\<exists>kv \<in> set kvl. is_alignment kv") simp_all
qed

lemma kv_load_print:
  assumes "cursor_wf c" and "\<forall>kv \<in> set kvl. kv_valid kv"
    and "ahead c (concat (List.map kv_print kvl) @ rest)"
  shows "kv_load base sz (length kvl) c
     = Inr (kv_entries (cu_post c) kvl,
         if \<exists>kv \<in> set kvl. is_alignment kv
         then alignment_at base sz (kv_value_pos (hd (kv_entries (cu_post c) kvl))) 32 else 32,
         advance (length (concat (List.map kv_print kvl))) c)"
    and "list_all2 (kv_describes (cu_base c)) (kv_entries (cu_post c) kvl) kvl"
  using kv_load_from_print [OF assms, of base sz "[]" 32] by (simp_all add: kv_load_def)

text \<open>The number at a value: an alignment value itself, or the length word of a string.\<close>

lemma alignment_at_fixed:
  assumes "length base < 2 ^ 63" and "p \<le> length base"
    and "ahead (cursor_at base (length base) p) (gv_bytes (GFixed 4 (le_bytes 4 a)))"
    and "0 < a" and "a < 2 ^ 32"
  shows "alignment_at base (length base) p al = a"
proof -
  have wf: "cursor_wf (cursor_at base (length base) p)"
    using assms(1,2) by (simp add: cursor_wf_def cursor_at_def)
  have "ahead (cursor_at base (length base) p) (le_bytes 4 a @ [])" using assms(3) by simp
  from u32_fmt.then_print(1) [OF wf assms(5) this] assms(4) show ?thesis
    by (simp add: alignment_at_def)
qed

lemma le_bytes_8_split: "le_bytes 8 n = le_bytes 4 n @ le_bytes 4 (n div 2 ^ 32)"
  using le_bytes_add [of 4 4 n] by simp

lemma alignment_at_string:
  assumes "length base < 2 ^ 63" and "p \<le> length base"
    and "ahead (cursor_at base (length base) p) (gv_bytes (GStr s))"
    and "s \<noteq> []" and "length s < 2 ^ 32"
  shows "alignment_at base (length base) p al = length s"
proof -
  have wf: "cursor_wf (cursor_at base (length base) p)"
    using assms(1,2) by (simp add: cursor_wf_def cursor_at_def)
  have "ahead (cursor_at base (length base) p) (le_bytes 4 (length s) @ le_bytes 4 (length s div 2 ^ 32) @ s)"
    using assms(3) by (simp add: key_bytes_def le_bytes_8_split)
  from u32_fmt.then_print(1) [OF wf assms(5) this] assms(4) show ?thesis
    by (simp add: alignment_at_def)
qed

section \<open>Tensor entries\<close>

lemma mult_le_u64_iff: "d \<noteq> 0 \<Longrightarrow> (n \<le> u64_max div d) = (n * d \<le> u64_max)"
  by (simp add: less_eq_div_iff_mult_less_eq)

lemma mul64_le: "n * d \<le> u64_max \<Longrightarrow> mul64 n d = n * d"
  by (intro mul64_exact) (simp add: u64_max_def)

lemma tensor_dims_step:
  assumes "\<not> (d \<noteq> 0 \<and> n_element > u64_max div d)"
  shows "mul64 n_element d = n_element * d" and "n_element * d \<le> u64_max"
proof -
  show le: "n_element * d \<le> u64_max"
    using assms mult_le_u64_iff [of d n_element] by (cases "d = 0") (auto simp: not_less)
  show "mul64 n_element d = n_element * d" using mul64_le [OF le] .
qed

lemma tensor_dims_exact:
  "tensor_dims n ne c = Inr (ds, ne', c') \<Longrightarrow> ne \<le> u64_max \<Longrightarrow> cursor_wf c \<Longrightarrow>
   length ds = n \<and> ne' = ne * prod_list ds \<and> ne' \<le> u64_max
   \<and> cursor_wf c' \<and> cu_base c' = cu_base c \<and> cu_size c' = cu_size c"
proof (induction n arbitrary: ne c ds ne' c')
  case 0
  then show ?case by auto
next
  case (Suc n)
  from Suc.prems(1) obtain d c1 ds' where
    1: "or_die (cursor_u64 c) = Inr (d, c1)"
    and g: "\<not> (d \<noteq> 0 \<and> ne > u64_max div d)"
    and 2: "tensor_dims n (mul64 ne d) c1 = Inr (ds', ne', c')" and ds: "ds = d # ds'"
    by (auto split: prod.splits)
  note w = or_die_wf [OF cursor_u64_ok Suc.prems(3) 1]
  note e = tensor_dims_step [OF g]
  from Suc.IH [OF 2 _ w(1)] e have
    "length ds' = n \<and> ne' = ne * d * prod_list ds' \<and> ne' \<le> u64_max
     \<and> cursor_wf c' \<and> cu_base c' = cu_base c1 \<and> cu_size c' = cu_size c1" by simp
  with w ds show ?case by (simp add: mult.assoc)
qed

lemma prod_list_swap_dims [simp]: "prod_list (swap_dims ds) = prod_list ds"
proof (cases "length ds = 2")
  case True
  then obtain a b where "ds = [a, b]"
    by (metis (no_types) One_nat_def Suc_1 length_0_conv length_Suc_conv)
  then show ?thesis by (simp add: swap_dims_def mult.commute)
qed (simp add: swap_dims_def)

lemma length_swap_dims [simp]: "length (swap_dims ds) = length ds"
  by (simp add: swap_dims_def)

definition ti_wf :: "tensor_info \<Rightarrow> bool" where
  [inv_simps]: "ti_wf t \<longleftrightarrow> 1 \<le> ti_ndim t \<and> ti_ndim t \<le> 8
     \<and> ti_n_element t = prod_list (ti_dim t) \<and> ti_n_element t \<le> u64_max
     \<and> ti_bytes t = (case tensor_bytes (ti_type t) (ti_n_element t) of None \<Rightarrow> 0 | Some b \<Rightarrow> b)"

lemma tensor_load_entry_wf:
  assumes "tensor_load_entry c = Inr (t, c')" and "cursor_wf c"
  shows "ti_wf t" and "cursor_wf c'" and "cu_base c' = cu_base c" and "cu_size c' = cu_size c"
proof -
  from assms(1) obtain k c1 ndim c2 ds ne c3 ty c4 ofs where
    1: "or_die (cursor_key c) = Inr (k, c1)" and 2: "or_die (cursor_u32 c1) = Inr (ndim, c2)"
    and n: "\<not> (ndim = 0 \<or> ndim > 8)" and 3: "tensor_dims ndim 1 c2 = Inr (ds, ne, c3)"
    and 4: "or_die (cursor_u32 c3) = Inr (ty, c4)" and 5: "or_die (cursor_u64 c4) = Inr (ofs, c')"
    and t: "t = \<lparr>ti_key = k, ti_dim = swap_dims ds, ti_type = ty, ti_offset = ofs, ti_n_element = ne,
             ti_bytes = (case tensor_bytes ty ne of None \<Rightarrow> 0 | Some b \<Rightarrow> b),
             ti_padded_dim = tensor_padded_dim ty (swap_dims ds)\<rparr>"
    by (auto simp: tensor_load_entry_def split: prod.splits)
  note w1 = or_die_wf [OF cursor_key_ok assms(2) 1]
  note w2 = or_die_wf [OF cursor_u32_ok w1(1) 2]
  have "(1::nat) \<le> u64_max" by (simp add: u64_max_def)
  note d = tensor_dims_exact [OF 3 this w2(1)]
  then have w3: "cursor_wf c3" by simp
  note w4 = or_die_wf [OF cursor_u32_ok w3 4]
  note w5 = or_die_wf [OF cursor_u64_ok w4(1) 5]
  show "ti_wf t" using n d by (simp add: ti_wf_def ti_ndim_def t)
  show "cursor_wf c'" "cu_base c' = cu_base c" "cu_size c' = cu_size c"
    using w1 w2 d w4 w5 by simp_all
qed

lemma tensor_load_wf:
  "tensor_load n c = Inr (ts, c') \<Longrightarrow> cursor_wf c \<Longrightarrow>
   length ts = n \<and> (\<forall>t \<in> set ts. ti_wf t) \<and> cursor_wf c' \<and> cu_base c' = cu_base c \<and> cu_size c' = cu_size c"
proof (induction n arbitrary: c ts c')
  case 0
  then show ?case by auto
next
  case (Suc n)
  from Suc.prems(1) obtain t c1 ts' where
    1: "tensor_load_entry c = Inr (t, c1)" and 2: "tensor_load n c1 = Inr (ts', c')"
    and ts: "ts = t # ts'"
    by (auto split: prod.splits)
  note e = tensor_load_entry_wf [OF 1 Suc.prems(2)]
  from Suc.IH [OF 2 e(2)] e ts show ?case by simp
qed

section \<open>Writing and reading a tensor entry\<close>

record tensor_spec =
  ts_name :: bytes
  ts_dims :: "nat list"
  ts_type :: nat
  ts_offset :: nat

definition tensor_print :: "tensor_spec \<Rightarrow> bytes" where
  "tensor_print s = key_bytes (ts_name s) @ le_bytes 4 (length (ts_dims s))
     @ concat (List.map (le_bytes 8) (ts_dims s)) @ le_bytes 4 (ts_type s) @ le_bytes 8 (ts_offset s)"

text \<open>Every prefix product of the dimensions fits in 64 bits.\<close>

definition dims_fit :: "nat \<Rightarrow> nat list \<Rightarrow> bool" where
  "dims_fit ne ds \<longleftrightarrow> (\<forall>k \<le> length ds. ne * prod_list (take k ds) \<le> u64_max)"

definition tensor_valid :: "tensor_spec \<Rightarrow> bool" where
  "tensor_valid s \<longleftrightarrow> length (ts_name s) < 256 \<and> 1 \<le> length (ts_dims s) \<and> length (ts_dims s) \<le> 8
     \<and> (\<forall>d \<in> set (ts_dims s). d < 2 ^ 64) \<and> dims_fit 1 (ts_dims s)
     \<and> ts_type s < 2 ^ 32 \<and> ts_offset s < 2 ^ 64"

definition tensor_of_spec :: "tensor_spec \<Rightarrow> tensor_info" where
  "tensor_of_spec s =
     (let ds = ts_dims s; ne = prod_list ds in
      \<lparr>ti_key = ts_name s, ti_dim = swap_dims ds, ti_type = ts_type s, ti_offset = ts_offset s,
       ti_n_element = ne,
       ti_bytes = (case tensor_bytes (ts_type s) ne of None \<Rightarrow> 0 | Some b \<Rightarrow> b),
       ti_padded_dim = tensor_padded_dim (ts_type s) (swap_dims ds)\<rparr>)"

lemma all_le_Suc_split: "(\<forall>k \<le> Suc n. P k) \<longleftrightarrow> P 0 \<and> (\<forall>k \<le> n. P (Suc k))"
  by (metis Suc_le_mono bot_nat_0.extremum not0_implies_Suc)

lemma dims_fit_Cons:
  "dims_fit ne (d # ds) \<longleftrightarrow> ne \<le> u64_max \<and> dims_fit (ne * d) ds"
  by (simp add: dims_fit_def all_le_Suc_split mult.assoc)

lemma tensor_dims_print:
  "cursor_wf c \<Longrightarrow> \<forall>d \<in> set ds. d < 2 ^ 64 \<Longrightarrow> dims_fit ne ds \<Longrightarrow>
   ahead c (concat (List.map (le_bytes 8) ds)) \<Longrightarrow>
   tensor_dims (length ds) ne c
     = Inr (ds, ne * prod_list ds, advance (length (concat (List.map (le_bytes 8) ds))) c)"
proof (induction ds arbitrary: ne c)
  case Nil
  then show ?case by simp
next
  case (Cons d ds)
  have a: "ahead c (le_bytes 8 d @ concat (List.map (le_bytes 8) ds))" using Cons.prems(4) by simp
  have d: "d < 2 ^ 64" using Cons.prems(2) by simp
  note 1 = u64_fmt.then_print [OF Cons.prems(1) d a]
  have f: "ne \<le> u64_max" "dims_fit (ne * d) ds" using Cons.prems(3) by (auto simp: dims_fit_Cons)
  then have le: "ne * d \<le> u64_max" by (cases ds) (auto simp: dims_fit_def dest: spec [of _ 0])
  then have g: "\<not> (d \<noteq> 0 \<and> ne > u64_max div d)"
    using mult_le_u64_iff [of d ne] by auto
  have m: "mul64 ne d = ne * d" using mul64_le [OF le] .
  have "tensor_dims (length ds) (ne * d) (advance 8 c)
      = Inr (ds, ne * d * prod_list ds, advance (8 + length (concat (List.map (le_bytes 8) ds))) c)"
    using Cons.IH [OF 1(3) _ f(2) 1(2)] Cons.prems(2) by simp
  with 1(1) g m show ?case by (simp add: die_unless_def mult.assoc)
qed

lemma tensor_load_entry_print:
  assumes "cursor_wf c" and "tensor_valid s" and "ahead c (tensor_print s)"
  shows "tensor_load_entry c = Inr (tensor_of_spec s, advance (length (tensor_print s)) c)"
proof -
  let ?dims = "concat (List.map (le_bytes 8) (ts_dims s))"
  have a: "ahead c (key_bytes (ts_name s) @ le_bytes 4 (length (ts_dims s)) @ ?dims
      @ le_bytes 4 (ts_type s) @ le_bytes 8 (ts_offset s) @ [])"
    using assms(3) by (simp add: tensor_print_def)
  have v: "length (ts_name s) < 256" "length (ts_dims s) < 2 ^ 32" "\<forall>d \<in> set (ts_dims s). d < 2 ^ 64"
    "dims_fit 1 (ts_dims s)" "ts_type s < 2 ^ 32" "ts_offset s < 2 ^ 64"
    "\<not> (length (ts_dims s) = 0 \<or> length (ts_dims s) > 8)"
    using assms(2) by (auto simp: tensor_valid_def)
  note 1 = key_fmt.then_print [OF assms(1) v(1) a]
  note 2 = u32_fmt.then_print [OF 1(3) v(2) 1(2)]
  let ?c2 = "advance (length (le_bytes 4 (length (ts_dims s)))) (advance (length (key_bytes (ts_name s))) c)"
  have d: "ahead ?c2 ?dims" using 2(2) by (simp add: ahead_append)
  note 3 = tensor_dims_print [OF 2(3) v(3,4) d]
  have t3: "ahead (advance (length ?dims) ?c2) (le_bytes 4 (ts_type s) @ le_bytes 8 (ts_offset s) @ [])"
    using 2(2) by (simp add: ahead_append)
  note 4 = u32_fmt.then_print [OF advance_wf [OF 2(3) d] v(5) t3]
  note 5 = u64_fmt.then_print [OF 4(3) v(6) 4(2)]
  show ?thesis
    using 1(1) 2(1) 3 4(1) 5(1) v(7)
    by (simp add: tensor_load_entry_def die_unless_def tensor_of_spec_def tensor_print_def Let_def add.assoc)
qed

lemma tensor_load_print:
  "cursor_wf c \<Longrightarrow> \<forall>s \<in> set ss. tensor_valid s \<Longrightarrow> ahead c (concat (List.map tensor_print ss) @ rest) \<Longrightarrow>
   tensor_load (length ss) c
     = Inr (List.map tensor_of_spec ss, advance (length (concat (List.map tensor_print ss))) c)"
proof (induction ss arbitrary: c)
  case Nil
  then show ?case by simp
next
  case (Cons s ss)
  have a: "ahead c (tensor_print s)" "ahead (advance (length (tensor_print s)) c) (concat (List.map tensor_print ss) @ rest)"
    using Cons.prems(3) by (simp_all add: ahead_append)
  from Cons.prems(2) have v: "tensor_valid s" by simp
  from Cons.IH [OF advance_wf [OF Cons.prems(1) a(1)] _ a(2)] Cons.prems(2)
    tensor_load_entry_print [OF Cons.prems(1) v a(1)]
  show ?case by simp
qed

section \<open>Tensor sizes\<close>

lemma gguf_types_pos:
  assumes "tensor_type t = Some (nm, be, bb)"
  shows "0 < be" and "0 < bb"
proof -
  from assms have "t < length gguf_types" and "gguf_types ! t = Some (nm, be, bb)"
    by (auto simp: tensor_type_def not_le split: if_splits)
  then have "Some (nm, be, bb) \<in> set gguf_types" by (metis nth_mem)
  moreover have "\<forall>x \<in> set gguf_types. case x of None \<Rightarrow> True | Some (_, e, b) \<Rightarrow> 0 < e \<and> 0 < b"
    by (simp add: gguf_types_def)
  ultimately show "0 < be" and "0 < bb" by auto
qed

text \<open>Without wrap-around the byte size holds the block of every element.\<close>

lemma tensor_bytes_holds:
  assumes b: "tensor_bytes t n = Some b" and ty: "tensor_type t = Some (nm, be, bb)"
    and fit: "n + be - 1 < 2 ^ 64" and i: "i < n"
  shows "i div be * bb + bb \<le> b"
proof -
  have pos: "0 < be" using gguf_types_pos [OF ty] by simp
  have b: "b = (n + be - 1) div be * bb"
    using b ty fit pos by (simp add: tensor_bytes_def Let_def split: if_splits)
  have "i div be + 1 = (i + be) div be" using pos div_add_self2 [of be i] by simp
  also have "\<dots> \<le> (n + be - 1) div be" using i by (intro div_le_mono) simp
  finally have "(i div be + 1) * bb \<le> b" unfolding b by (intro mult_le_mono1)
  then show ?thesis by simp
qed

section \<open>Layer names\<close>

lemma layer_number_dec [simp]: "layer_number (dec n) = n mod 2 ^ 32"
  using foldl_mod [of digit_of "2 ^ 32" 0 "dec n"] dec_value_dec [of n]
  by (simp add: layer_number_def dec_value_def)

definition layer_name :: "nat \<Rightarrow> string \<Rightarrow> string" where
  "layer_name l suffix = ''blk.'' @ dec l @ ''.'' @ suffix"

lemma layer_name_parts:
  "take 4 (layer_name l s) = ''blk.''"
  "takeWhile is_digit (drop 4 (layer_name l s)) = dec l"
  "dropWhile is_digit (drop 4 (layer_name l s)) = CHR ''.'' # s"
proof -
  have nd: "\<not> is_digit CHR ''.''" by (simp add: is_digit_def)
  show "take 4 (layer_name l s) = ''blk.''" by (simp add: layer_name_def)
  show "takeWhile is_digit (drop 4 (layer_name l s)) = dec l"
    using takeWhile_dec [of "CHR ''.'' # s" l] nd by (simp add: layer_name_def)
  show "dropWhile is_digit (drop 4 (layer_name l s)) = CHR ''.'' # s"
    using dropWhile_dec [of "CHR ''.'' # s" l] nd by (simp add: layer_name_def)
qed

lemma layer_name_length: "6 \<le> length (layer_name l s)" "s \<noteq> [] \<Longrightarrow> 7 \<le> length (layer_name l s)"
proof -
  have "1 \<le> length (dec l)" by (cases "dec l") auto
  then show "6 \<le> length (layer_name l s)" by (simp add: layer_name_def)
  assume "s \<noteq> []"
  then have "1 \<le> length s" by (cases s) auto
  with \<open>1 \<le> length (dec l)\<close> show "7 \<le> length (layer_name l s)" by (simp add: layer_name_def)
qed

definition strip_weight :: "string \<Rightarrow> string" where
  "strip_weight s = (if length s > 7 \<and> drop (length s - 7) s = ''.weight''
                     then take (length s - 7) s else s)"

lemma strip_weight_weight [simp]: "s \<noteq> [] \<Longrightarrow> strip_weight (s @ ''.weight'') = s"
  by (simp add: strip_weight_def)

text \<open>A written layer tensor name parses back to its layer and suffix.\<close>

lemma layer_tensor_parse_name:
  assumes "s \<noteq> []"
  shows "layer_tensor_parse (layer_name l s) = Some (l mod 2 ^ 32, strip_weight s)"
  using layer_name_parts [of l s] layer_name_length(2) [OF assms, of l]
  by (simp add: layer_tensor_parse_def Let_def strip_weight_def)

text \<open>Every parsed key is counted: its layer is below the count, unless that wrapped.\<close>

lemma count_layer_step_mono: "n \<le> count_layer_step n k"
  by (simp add: count_layer_step_def Let_def)

lemma foldl_count_mono: "n \<le> foldl count_layer_step n ks"
  by (induction ks arbitrary: n) (auto intro: order_trans [OF count_layer_step_mono])

lemma layer_number_bound: "layer_number ds < 2 ^ 32"
proof -
  have "layer_number ds = foldl (\<lambda>n c. n * 10 + digit_of c) 0 ds mod 2 ^ 32"
    using foldl_mod [of digit_of "2 ^ 32" 0 ds] by (simp add: layer_number_def)
  then show ?thesis by simp
qed

lemma count_layers_ge:
  assumes "k \<in> set ks" and "layer_tensor_parse k = Some (l, s)"
    and "takeWhile is_digit (drop 4 k) \<noteq> []"
  shows "l \<le> foldl count_layer_step n ks"
proof -
  from split_list [OF assms(1)] obtain xs ys where ks: "ks = xs @ k # ys" by blast
  have "l \<le> count_layer_step m k" for m
    using assms(2,3) by (auto simp: layer_tensor_parse_def count_layer_step_def Let_def split: if_splits)
  then show ?thesis using foldl_count_mono order_trans by (fastforce simp: ks)
qed

end
