(* ===== verification/ModelWeights.thy ===== *)
theory ModelWeights
  imports GgufModel
begin

text \<open>
  The second half of the loader in src/src/core.c: the architecture's tensor maps, the
  per-layer weight table, the completeness check and \<open>model_load\<close> itself.  A
  \<open>TensorInfo *\<close> into \<open>m->tensor\<close> is the index of its entry; \<open>NULL\<close> is \<open>None\<close>.
\<close>

section \<open>Tensor maps\<close>

datatype tensor_role = TENSOR_TOKEN_EMBD
    | TENSOR_OUTPUT | TENSOR_OUTPUT_NORM | TENSOR_ATTN_NORM | TENSOR_ATTN_Q | TENSOR_ATTN_K
    | TENSOR_ATTN_V | TENSOR_ATTN_Q_BIAS | TENSOR_ATTN_K_BIAS | TENSOR_ATTN_V_BIAS
    | TENSOR_ATTN_QKV | TENSOR_ATTN_OUT | TENSOR_ATTN_GATE | TENSOR_POST_ATTN_NORM
    | TENSOR_FFN_NORM | TENSOR_FFN_POST_NORM | TENSOR_FFN_GATE | TENSOR_FFN_DOWN
    | TENSOR_FFN_UP | TENSOR_SSM_IN | TENSOR_SSM_CONV1D | TENSOR_SSM_ALPHA | TENSOR_SSM_BETA
    | TENSOR_SSM_A | TENSOR_SSM_DT_BIAS | TENSOR_SSM_OUT | TENSOR_SSM_NORM | TENSOR_SSM_D
    | TENSOR_SSM_CONV1D_BIAS | TENSOR_ATTN_Q_NORM | TENSOR_ATTN_K_NORM | TENSOR_OUTPUT_HC_BASE
    | TENSOR_OUTPUT_HC_FN | TENSOR_OUTPUT_HC_SCALE | TENSOR_COUNT

type_synonym tensor_map = "(tensor_role \<times> string \<times> bool) list"

definition llama_tensor_map :: tensor_map where
  "llama_tensor_map =
    [(TENSOR_TOKEN_EMBD, ''token_embd.weight'', True),
     (TENSOR_OUTPUT, ''output.weight'', False),
     (TENSOR_OUTPUT_NORM, ''output_norm.weight'', True)]"

definition qwen2_tensor_map :: tensor_map where
  "qwen2_tensor_map =
    [(TENSOR_TOKEN_EMBD, ''token_embd.weight'', True),
     (TENSOR_OUTPUT, ''output.weight'', False),
     (TENSOR_OUTPUT_NORM, ''output_norm.weight'', True)]"

definition deepseek_tensor_map :: tensor_map where
  "deepseek_tensor_map =
    [(TENSOR_TOKEN_EMBD, ''token_embd.weight'', True),
     (TENSOR_OUTPUT, ''output.weight'', True),
     (TENSOR_OUTPUT_NORM, ''output_norm.weight'', True),
     (TENSOR_OUTPUT_HC_BASE, ''output_hc_base.weight'', True),
     (TENSOR_OUTPUT_HC_FN, ''output_hc_fn.weight'', True),
     (TENSOR_OUTPUT_HC_SCALE, ''output_hc_scale.weight'', True)]"

definition gemma3_tensor_map :: tensor_map where
  "gemma3_tensor_map =
    [(TENSOR_TOKEN_EMBD, ''token_embd.weight'', True),
     (TENSOR_OUTPUT, ''output.weight'', False),
     (TENSOR_OUTPUT_NORM, ''output_norm.weight'', True)]"

definition falcon_h1_tensor_map :: tensor_map where
  "falcon_h1_tensor_map =
    [(TENSOR_TOKEN_EMBD, ''token_embd.weight'', True),
     (TENSOR_OUTPUT, ''output.weight'', False),
     (TENSOR_OUTPUT_NORM, ''output_norm.weight'', True)]"

definition unknown_tensor_map :: tensor_map where
  "unknown_tensor_map =
    [(TENSOR_TOKEN_EMBD, ''token_embd.weight'', True),
     (TENSOR_OUTPUT, ''output.weight'', False),
     (TENSOR_OUTPUT_NORM, ''output_norm.weight'', False)]"

definition llama_layer_map :: tensor_map where
  "llama_layer_map =
    [(TENSOR_ATTN_NORM, ''attn_norm'', True),
     (TENSOR_ATTN_Q, ''attn_q'', True),
     (TENSOR_ATTN_K, ''attn_k'', True),
     (TENSOR_ATTN_V, ''attn_v'', True),
     (TENSOR_ATTN_Q_BIAS, ''attn_q.bias'', False),
     (TENSOR_ATTN_K_BIAS, ''attn_k.bias'', False),
     (TENSOR_ATTN_V_BIAS, ''attn_v.bias'', False),
     (TENSOR_ATTN_OUT, ''attn_output'', True),
     (TENSOR_POST_ATTN_NORM, ''ffn_norm'', True),
     (TENSOR_FFN_GATE, ''ffn_gate'', True),
     (TENSOR_FFN_DOWN, ''ffn_down'', True),
     (TENSOR_FFN_UP, ''ffn_up'', True)]"

definition qwen2_layer_map :: tensor_map where
  "qwen2_layer_map =
    [(TENSOR_ATTN_NORM, ''attn_norm'', True),
     (TENSOR_ATTN_QKV, ''attn_qkv'', False),
     (TENSOR_ATTN_Q, ''attn_q'', False),
     (TENSOR_ATTN_K, ''attn_k'', False),
     (TENSOR_ATTN_V, ''attn_v'', False),
     (TENSOR_ATTN_Q_BIAS, ''attn_q.bias'', False),
     (TENSOR_ATTN_K_BIAS, ''attn_k.bias'', False),
     (TENSOR_ATTN_V_BIAS, ''attn_v.bias'', False),
     (TENSOR_ATTN_OUT, ''attn_output'', False),
     (TENSOR_SSM_OUT, ''ssm_out'', False),
     (TENSOR_ATTN_GATE, ''attn_gate'', False),
     (TENSOR_ATTN_Q_NORM, ''attn_q_norm'', False),
     (TENSOR_ATTN_K_NORM, ''attn_k_norm'', False),
     (TENSOR_SSM_CONV1D, ''ssm_conv1d'', False),
     (TENSOR_SSM_ALPHA, ''ssm_alpha'', False),
     (TENSOR_SSM_BETA, ''ssm_beta'', False),
     (TENSOR_SSM_A, ''ssm_a'', False),
     (TENSOR_SSM_DT_BIAS, ''ssm_dt.bias'', False),
     (TENSOR_SSM_NORM, ''ssm_norm'', False),
     (TENSOR_POST_ATTN_NORM, ''post_attention_norm'', False),
     (TENSOR_POST_ATTN_NORM, ''ffn_norm'', False),
     (TENSOR_FFN_GATE, ''ffn_gate'', True),
     (TENSOR_FFN_DOWN, ''ffn_down'', True),
     (TENSOR_FFN_UP, ''ffn_up'', True)]"

definition deepseek_layer_map :: tensor_map where
  "deepseek_layer_map =
    [(TENSOR_ATTN_NORM, ''attn_norm'', True),
     (TENSOR_ATTN_Q, ''attn_q'', True),
     (TENSOR_ATTN_K, ''attn_k'', True),
     (TENSOR_ATTN_V, ''attn_v'', True),
     (TENSOR_ATTN_Q_BIAS, ''attn_q.bias'', False),
     (TENSOR_ATTN_K_BIAS, ''attn_k.bias'', False),
     (TENSOR_ATTN_V_BIAS, ''attn_v.bias'', False),
     (TENSOR_ATTN_OUT, ''attn_output'', True),
     (TENSOR_FFN_GATE, ''ffn_gate'', True),
     (TENSOR_FFN_DOWN, ''ffn_down'', True),
     (TENSOR_FFN_UP, ''ffn_up'', True)]"

definition gemma3_layer_map :: tensor_map where
  "gemma3_layer_map =
    [(TENSOR_ATTN_NORM, ''attn_norm'', True),
     (TENSOR_ATTN_Q, ''attn_q'', True),
     (TENSOR_ATTN_K, ''attn_k'', True),
     (TENSOR_ATTN_V, ''attn_v'', True),
     (TENSOR_ATTN_Q_NORM, ''attn_q_norm'', False),
     (TENSOR_ATTN_K_NORM, ''attn_k_norm'', False),
     (TENSOR_ATTN_OUT, ''attn_output'', True),
     (TENSOR_POST_ATTN_NORM, ''post_attention_norm'', False),
     (TENSOR_FFN_NORM, ''ffn_norm'', False),
     (TENSOR_FFN_POST_NORM, ''post_ffw_norm'', False),
     (TENSOR_FFN_GATE, ''ffn_gate'', True),
     (TENSOR_FFN_DOWN, ''ffn_down'', True),
     (TENSOR_FFN_UP, ''ffn_up'', True)]"

definition falcon_h1_layer_map :: tensor_map where
  "falcon_h1_layer_map =
    [(TENSOR_ATTN_NORM, ''attn_norm'', True),
     (TENSOR_ATTN_Q, ''attn_q'', True),
     (TENSOR_ATTN_K, ''attn_k'', True),
     (TENSOR_ATTN_V, ''attn_v'', True),
     (TENSOR_ATTN_Q_BIAS, ''attn_q.bias'', False),
     (TENSOR_ATTN_K_BIAS, ''attn_k.bias'', False),
     (TENSOR_ATTN_V_BIAS, ''attn_v.bias'', False),
     (TENSOR_ATTN_OUT, ''attn_output'', True),
     (TENSOR_FFN_NORM, ''ffn_norm'', True),
     (TENSOR_FFN_GATE, ''ffn_gate'', True),
     (TENSOR_FFN_DOWN, ''ffn_down'', True),
     (TENSOR_FFN_UP, ''ffn_up'', True),
     (TENSOR_SSM_IN, ''ssm_in'', True),
     (TENSOR_SSM_CONV1D, ''ssm_conv1d'', True),
     (TENSOR_SSM_CONV1D_BIAS, ''ssm_conv1d.bias'', False),
     (TENSOR_SSM_A, ''ssm_a'', True),
     (TENSOR_SSM_D, ''ssm_d'', True),
     (TENSOR_SSM_DT_BIAS, ''ssm_dt.bias'', True),
     (TENSOR_SSM_NORM, ''ssm_norm'', False),
     (TENSOR_SSM_OUT, ''ssm_out'', True)]"

definition unknown_layer_map :: tensor_map where
  "unknown_layer_map =
    [(TENSOR_ATTN_NORM, ''attn_norm'', False),
     (TENSOR_ATTN_Q, ''attn_q'', False),
     (TENSOR_ATTN_K, ''attn_k'', False),
     (TENSOR_ATTN_V, ''attn_v'', False),
     (TENSOR_ATTN_QKV, ''attn_qkv'', False),
     (TENSOR_ATTN_OUT, ''attn_output'', False),
     (TENSOR_FFN_GATE, ''ffn_gate'', False),
     (TENSOR_FFN_DOWN, ''ffn_down'', False),
     (TENSOR_FFN_UP, ''ffn_up'', False)]"

text \<open>The first entry of the table with the architecture; falcon has none and falls back.\<close>

definition arch_tensor_map :: "model_arch \<Rightarrow> tensor_map" where
  "arch_tensor_map arch =
     (case map_of [(ARCH_LLAMA, llama_tensor_map), (ARCH_QWEN2, qwen2_tensor_map),
                   (ARCH_QWEN3, qwen2_tensor_map), (ARCH_DEEPSEEK, deepseek_tensor_map),
                   (ARCH_FALCON_H1, falcon_h1_tensor_map), (ARCH_GEMMA3, gemma3_tensor_map),
                   (ARCH_UNKNOWN, unknown_tensor_map)] arch of
        Some es \<Rightarrow> es | None \<Rightarrow> unknown_tensor_map)"

definition arch_layer_map :: "model_arch \<Rightarrow> tensor_map" where
  "arch_layer_map arch =
     (case map_of [(ARCH_LLAMA, llama_layer_map), (ARCH_QWEN2, qwen2_layer_map),
                   (ARCH_QWEN3, qwen2_layer_map), (ARCH_DEEPSEEK, deepseek_layer_map),
                   (ARCH_FALCON_H1, falcon_h1_layer_map), (ARCH_GEMMA3, gemma3_layer_map),
                   (ARCH_UNKNOWN, unknown_layer_map)] arch of
        Some es \<Rightarrow> es | None \<Rightarrow> unknown_layer_map)"

section \<open>Weights\<close>

type_synonym layer_weights = "tensor_role \<rightharpoonup> nat"

record weights =
  w_n_layer :: nat
  w_tensors :: "tensor_role \<rightharpoonup> nat"
  w_layers :: "layer_weights list"

text \<open>The inner loop of \<open>layers_weights_load\<close> stops at the first entry with the suffix.\<close>

definition layer_role :: "tensor_map \<Rightarrow> string \<Rightarrow> tensor_role option" where
  "layer_role es suffix = map_option fst (find (\<lambda>(r, s, _). s = suffix) es)"

definition layer_put :: "model \<Rightarrow> tensor_map \<Rightarrow> nat \<Rightarrow> nat \<Rightarrow> layer_weights list \<Rightarrow> layer_weights list" where
  "layer_put m es n_layer i layers =
     (case layer_tensor_parse (ti_key (m_tensor m ! i)) of
        None \<Rightarrow> layers
      | Some (n, suffix) \<Rightarrow>
          if n \<ge> n_layer then layers
          else (case layer_role es suffix of
                  None \<Rightarrow> layers
                | Some r \<Rightarrow> layers[n := (layers ! n)(r \<mapsto> i)]))"

definition layers_weights_load :: "model \<Rightarrow> model_arch \<Rightarrow> nat \<Rightarrow> layer_weights list" where
  "layers_weights_load m arch n_layer =
     fold (layer_put m (arch_layer_map arch) n_layer) [0 ..< length (m_tensor m)]
       (replicate n_layer Map.empty)"

text \<open>One pass of the loop over the non-layer map: the entry is stored even when NULL.\<close>

fun weights_put :: "model \<Rightarrow> tensor_map \<Rightarrow> (tensor_role \<rightharpoonup> nat) \<Rightarrow> (tensor_role \<rightharpoonup> nat) result" where
  "weights_put m [] w = Inr w"
| "weights_put m ((r, name, required) # es) w =
     (let t = model_find_tensor m name in
      rbind (die_unless (\<not> (t = None \<and> required)) ''Required tensor is missing: %s'') (\<lambda>_.
        weights_put m es (w(r := t))))"

definition weights_load :: "model \<Rightarrow> weights result" where
  "weights_load m =
     rbind (weights_put m (arch_tensor_map (m_arch m)) Map.empty) (\<lambda>w.
       let w' = (if w TENSOR_OUTPUT = None \<and> w TENSOR_TOKEN_EMBD \<noteq> None
                 then w(TENSOR_OUTPUT := w TENSOR_TOKEN_EMBD) else w);
           n = model_count_layers m in
       Inr \<lparr>w_n_layer = n, w_tensors = w', w_layers = layers_weights_load m (m_arch m) n\<rparr>)"

section \<open>Completeness check\<close>

definition layer_has :: "model \<Rightarrow> nat \<Rightarrow> string \<Rightarrow> bool" where
  "layer_has m l suffix \<longleftrightarrow>
     list_ex (\<lambda>t. layer_tensor_parse (ti_key t) = Some (l, suffix)) (m_tensor m)"

definition payload_ok :: "model \<Rightarrow> tensor_info \<Rightarrow> bool" where
  "payload_ok m t \<longleftrightarrow> \<not> (ti_offset t > m_size m \<or> ti_bytes t > m_size m - ti_offset t)"

definition model_completeness_check :: "model \<Rightarrow> unit result" where
  "model_completeness_check m =
     rbind (die_unless (case model_get_int m ''split.count'' of None \<Rightarrow> True | Some n \<Rightarrow> \<not> n > 1)
       ''Incomplete model: this file is shard %d of %d (split.count=%d); a split GGUF needs all %d parts to form a complete model.'') (\<lambda>_.
     rbind (die_unless
       (list_all (\<lambda>(r, name, required). \<not> (required \<and> model_find_tensor m name = None))
          (arch_tensor_map (m_arch m)))
       ''Incomplete model: required tensor %s is missing.'') (\<lambda>_.
     rbind (die_unless
       (list_all (\<lambda>l. list_all (\<lambda>(r, suffix, required). required \<longrightarrow> layer_has m l suffix)
                        (arch_layer_map (m_arch m)))
          [0 ..< model_count_layers m])
       ''Incomplete model: required tensor %s is missing.'') (\<lambda>_.
     die_unless (list_all (payload_ok m) (m_tensor m))
       ''Incomplete model: tensor %s (offset=%PRIu64, bytes=%PRIu64) exceeds file size %PRIu64.'')))"

section \<open>model_load\<close>

definition align_up :: "nat \<Rightarrow> nat \<Rightarrow> nat" where
  "align_up al p = (if p mod al \<noteq> 0 then add64 p (al - p mod al) else p)"

definition relocate :: "nat \<Rightarrow> tensor_info \<Rightarrow> tensor_info" where
  "relocate data_base t = t\<lparr>ti_offset := add64 (ti_offset t) data_base\<rparr>"

definition model_load :: "bytes \<Rightarrow> model result" where
  "model_load file =
     rbind (die_unless (\<not> length file < 32) ''Model file is too small to be GGUF.'') (\<lambda>_.
     rbind (or_die (cursor_u32 (cursor_at file (length file) 0))) (\<lambda>(magic, c1).
     rbind (die_unless (magic = 0x46554747) ''Model is not a GGUF file'') (\<lambda>_.
     rbind (or_die (cursor_u32 c1)) (\<lambda>(version, c2).
     rbind (die_unless (version = 3) ''Only GGUF v3 is supported.'') (\<lambda>_.
     rbind (or_die (cursor_u64 c2)) (\<lambda>(n_tensor, c3).
     rbind (or_die (cursor_u64 c3)) (\<lambda>(n_kv, c4).
     rbind (kv_load file (length file) n_kv c4) (\<lambda>(kvs, al, c5).
     rbind (tensor_load n_tensor c5) (\<lambda>(ts, c6).
     rbind (model_detect_arch
       \<lparr>m_size = length file, m_map = file, m_version = version, m_n_kv = n_kv,
        m_n_tensor = n_tensor, m_alignment = al, m_arch = ARCH_UNKNOWN, m_arch_name = [],
        m_kv = kvs, m_tensor = List.map (relocate (align_up al (cu_post c6))) ts\<rparr>) (\<lambda>m.
     rbind (model_completeness_check m) (\<lambda>_. Inr m)))))))))))"

section \<open>The layer table\<close>

lemma layer_maps_distinct: "distinct (List.map (\<lambda>(r, s, _). s) (arch_layer_map arch))"
  by (cases arch) (simp_all add: arch_layer_map_def llama_layer_map_def qwen2_layer_map_def
    deepseek_layer_map_def gemma3_layer_map_def falcon_h1_layer_map_def unknown_layer_map_def)

lemma layer_role_in:
  assumes "distinct (List.map (\<lambda>(r, s, _). s) es)" and "(r, s, b) \<in> set es"
  shows "layer_role es s = Some r"
  using assms by (induction es) (force simp: layer_role_def split: if_splits)+

lemma layer_role_Some: "layer_role es s = Some r \<Longrightarrow> \<exists>b. (r, s, b) \<in> set es"
  by (force simp: layer_role_def find_Some_iff in_set_conv_nth)

lemma length_layer_put [simp]: "length (layer_put m es n i layers) = length layers"
  by (simp add: layer_put_def split: option.splits prod.splits)

lemma length_fold_layer_put [simp]: "length (fold (layer_put m es n) is layers) = length layers"
  by (induction "is" arbitrary: layers) auto

lemma layer_put_at:
  "l < length layers \<Longrightarrow> l < n \<Longrightarrow>
   (layer_put m es n i layers ! l) r =
     (if \<exists>s. layer_tensor_parse (ti_key (m_tensor m ! i)) = Some (l, s) \<and> layer_role es s = Some r
      then Some i else (layers ! l) r)"
  by (cases "l = fst (the (layer_tensor_parse (ti_key (m_tensor m ! i))))")
    (auto simp: layer_put_def split: option.splits)

text \<open>Each layer slot holds the last tensor whose name maps to it.\<close>

lemma fold_layer_put_at:
  "l < length layers \<Longrightarrow> l < n \<Longrightarrow>
   (fold (layer_put m es n) is layers ! l) r =
     (case find (\<lambda>i. \<exists>s. layer_tensor_parse (ti_key (m_tensor m ! i)) = Some (l, s)
                   \<and> layer_role es s = Some r) (rev is) of
        Some i \<Rightarrow> Some i | None \<Rightarrow> (layers ! l) r)"
proof (induction "is" arbitrary: layers rule: rev_induct)
  case Nil
  then show ?case by simp
next
  case (snoc i "is")
  then show ?case using layer_put_at [of l "fold (layer_put m es n) is layers" n m es i r]
    by auto
qed

lemma layers_at:
  "l < n \<Longrightarrow> (layers_weights_load m arch n ! l) r =
     find (\<lambda>i. \<exists>s. layer_tensor_parse (ti_key (m_tensor m ! i)) = Some (l, s)
                  \<and> layer_role (arch_layer_map arch) s = Some r) (rev [0 ..< length (m_tensor m)])"
  by (simp add: layers_weights_load_def fold_layer_put_at split: option.splits)

lemma layers_at_required:
  assumes "l < n" and "(r, s, b) \<in> set (arch_layer_map arch)" and "layer_has m l s"
  shows "(layers_weights_load m arch n ! l) r \<noteq> None"
proof -
  from assms(3) obtain i where "i < length (m_tensor m)"
    "layer_tensor_parse (ti_key (m_tensor m ! i)) = Some (l, s)"
    by (auto simp: layer_has_def list_ex_iff in_set_conv_nth)
  with layer_role_in [OF layer_maps_distinct assms(2)] show ?thesis
    unfolding layers_at [OF assms(1)] by (auto simp: find_None_iff)
qed

lemma layers_at_Some:
  assumes "l < n" and "(layers_weights_load m arch n ! l) r = Some i"
  shows "\<exists>s b. i < length (m_tensor m) \<and> layer_tensor_parse (ti_key (m_tensor m ! i)) = Some (l, s)
    \<and> (r, s, b) \<in> set (arch_layer_map arch)"
proof -
  let ?P = "\<lambda>i. \<exists>s. layer_tensor_parse (ti_key (m_tensor m ! i)) = Some (l, s)
      \<and> layer_role (arch_layer_map arch) s = Some r"
  have f: "find ?P (rev [0 ..< length (m_tensor m)]) = Some i"
    using assms by (simp add: layers_at)
  then have "?P i" and "i \<in> set (rev [0 ..< length (m_tensor m)])"
    using find_SomeD [OF f] by blast+
  then show ?thesis using layer_role_Some [of "arch_layer_map arch" _ r] by fastforce
qed

section \<open>The non-layer table\<close>

lemma weights_put_ok:
  "weights_put m es w = Inr w' \<Longrightarrow> distinct (List.map fst es) \<Longrightarrow>
   (\<forall>(r, name, req) \<in> set es. w' r = model_find_tensor m name \<and> (req \<longrightarrow> w' r \<noteq> None))
   \<and> (\<forall>r. r \<notin> fst ` set es \<longrightarrow> w' r = w r)"
proof (induction es arbitrary: w)
  case Nil
  then show ?case by simp
next
  case (Cons e es)
  obtain r name req where e: "e = (r, name, req)" by (cases e)
  from Cons.prems(1) have g: "\<not> (model_find_tensor m name = None \<and> req)"
    and rest: "weights_put m es (w(r := model_find_tensor m name)) = Inr w'"
    by (auto simp: e Let_def)
  from Cons.IH [OF rest] Cons.prems(2) have
    IH: "\<forall>(r, name, req) \<in> set es. w' r = model_find_tensor m name \<and> (req \<longrightarrow> w' r \<noteq> None)"
    "\<forall>r'. r' \<notin> fst ` set es \<longrightarrow> w' r' = (w(r := model_find_tensor m name)) r'" by auto
  have "r \<notin> fst ` set es" using Cons.prems(2) by (simp add: e)
  with IH g show ?case by (auto simp: e)
qed

lemma tensor_maps_distinct: "distinct (List.map fst (arch_tensor_map arch))"
  by (cases arch) (simp_all add: arch_tensor_map_def llama_tensor_map_def qwen2_tensor_map_def
    deepseek_tensor_map_def gemma3_tensor_map_def falcon_h1_tensor_map_def unknown_tensor_map_def)

section \<open>Loaded models\<close>

text \<open>What \<open>model_load\<close> promises the rest of the program.\<close>

definition model_ok :: "model \<Rightarrow> bool" where
  [inv_simps]: "model_ok m \<longleftrightarrow> m_size m = length (m_map m) \<and> m_version m = 3
     \<and> length (m_kv m) = m_n_kv m \<and> length (m_tensor m) = m_n_tensor m \<and> 0 < m_alignment m
     \<and> (\<forall>kv \<in> set (m_kv m). kv_value_pos kv \<le> m_size m)
     \<and> (\<forall>t \<in> set (m_tensor m). ti_wf t \<and> ti_offset t + ti_bytes t \<le> m_size m)"

lemma payload_ok_iff: "payload_ok m t \<longleftrightarrow> ti_offset t + ti_bytes t \<le> m_size m"
  by (auto simp: payload_ok_def)

lemma completeness_Inr:
  assumes "model_completeness_check m = Inr u"
  shows "\<forall>t \<in> set (m_tensor m). ti_offset t + ti_bytes t \<le> m_size m"
    and "\<forall>(r, name, req) \<in> set (arch_tensor_map (m_arch m)). req \<longrightarrow> model_find_tensor m name \<noteq> None"
    and "\<forall>l < model_count_layers m. \<forall>(r, s, req) \<in> set (arch_layer_map (m_arch m)). req \<longrightarrow> layer_has m l s"
    and "\<forall>n. model_get_int m ''split.count'' = Some n \<longrightarrow> n \<le> 1"
  using assms unfolding model_completeness_check_def
  by (auto simp: list_all_iff payload_ok_iff split: option.splits)

lemma relocate_wf [simp]: "ti_wf (relocate b t) = ti_wf t"
  by (simp add: ti_wf_def relocate_def ti_ndim_def)

lemma cursor_at_wf: "length file < 2 ^ 63 \<Longrightarrow> p \<le> length file \<Longrightarrow> cursor_wf (cursor_at file (length file) p)"
  by (simp add: cursor_wf_def cursor_at_def)

lemma model_load_Inr:
  assumes "model_load file = Inr m"
  obtains c1 c2 c3 c4 c5 c6 al ts m0 n_tensor n_kv kvs where
    "cursor_u32 (cursor_at file (length file) 0) = (Some 0x46554747, c1)"
    "cursor_u32 c1 = (Some 3, c2)" "cursor_u64 c2 = (Some n_tensor, c3)"
    "cursor_u64 c3 = (Some n_kv, c4)" "kv_load file (length file) n_kv c4 = Inr (kvs, al, c5)"
    "tensor_load n_tensor c5 = Inr (ts, c6)"
    "m0 = \<lparr>m_size = length file, m_map = file, m_version = 3, m_n_kv = n_kv,
        m_n_tensor = n_tensor, m_alignment = al, m_arch = ARCH_UNKNOWN, m_arch_name = [],
        m_kv = kvs, m_tensor = List.map (relocate (align_up al (cu_post c6))) ts\<rparr>"
    "model_detect_arch m0 = Inr m" "model_completeness_check m = Inr ()"
  using assms unfolding model_load_def
  by (clarsimp split: prod.splits)

lemma model_detect_arch_keeps:
  "model_detect_arch m0 = Inr m \<Longrightarrow>
   m_size m = m_size m0 \<and> m_map m = m_map m0 \<and> m_version m = m_version m0 \<and> m_kv m = m_kv m0
   \<and> m_tensor m = m_tensor m0 \<and> m_n_kv m = m_n_kv m0 \<and> m_n_tensor m = m_n_tensor m0
   \<and> m_alignment m = m_alignment m0"
  by (auto simp: model_detect_arch_def split: option.splits)

lemma model_load_ok_inv:
  assumes load: "model_load file = Inr m" and len: "length file < 2 ^ 63"
  shows "model_ok m" and "m_map m = file"
proof -
  obtain c1 c2 c3 c4 c5 c6 al ts m0 n_tensor n_kv kvs where
    1: "cursor_u32 (cursor_at file (length file) 0) = (Some 0x46554747, c1)"
    and 2: "cursor_u32 c1 = (Some 3, c2)" and 3: "cursor_u64 c2 = (Some n_tensor, c3)"
    and 4: "cursor_u64 c3 = (Some n_kv, c4)"
    and 5: "kv_load file (length file) n_kv c4 = Inr (kvs, al, c5)"
    and 6: "tensor_load n_tensor c5 = Inr (ts, c6)"
    and m0: "m0 = \<lparr>m_size = length file, m_map = file, m_version = 3, m_n_kv = n_kv,
        m_n_tensor = n_tensor, m_alignment = al, m_arch = ARCH_UNKNOWN, m_arch_name = [],
        m_kv = kvs, m_tensor = List.map (relocate (align_up al (cu_post c6))) ts\<rparr>"
    and 7: "model_detect_arch m0 = Inr m" and 8: "model_completeness_check m = Inr ()"
    by (rule model_load_Inr [OF load])
  note w1 = reader_okD [OF cursor_u32_ok cursor_at_wf [OF len, of 0] 1, simplified]
  note w2 = reader_okD [OF cursor_u32_ok conjunct2 [OF w1] 2]
  note w3 = reader_okD [OF cursor_u64_ok conjunct2 [OF w2] 3]
  note w4 = reader_okD [OF cursor_u64_ok conjunct2 [OF w3] 4]
  have size: "cu_size c4 = length file"
    using w1 w2 w3 w4 by (auto simp: reader_step_def cursor_at_def)
  from 5 have "kv_load_from file (length file) n_kv [] 32 c4 = Inr (kvs, al, c5)"
    by (simp add: kv_load_def)
  from kv_load_from_bounds [OF this conjunct2 [OF w4]] have
    kv: "length kvs = n_kv" "cursor_wf c5" "al \<noteq> 0" "\<forall>kv \<in> set kvs. kv_value_pos kv \<le> length file"
    using size by auto
  from tensor_load_wf [OF 6 kv(2)] have ts: "length ts = n_tensor" "\<forall>t \<in> set ts. ti_wf t" by auto
  note keep = model_detect_arch_keeps [OF 7]
  show "m_map m = file" using keep by (simp add: m0)
  show "model_ok m"
    using keep kv ts completeness_Inr(1) [OF 8] by (auto simp: model_ok_def m0)
qed

section \<open>Writing a file and loading it\<close>

definition gguf_head :: "(bytes \<times> gvalue) list \<Rightarrow> tensor_spec list \<Rightarrow> bytes" where
  "gguf_head kvl ss = le_bytes 4 0x46554747 @ le_bytes 4 3 @ le_bytes 8 (length ss)
     @ le_bytes 8 (length kvl) @ concat (List.map kv_print kvl) @ concat (List.map tensor_print ss)"

definition loaded_alignment :: "bytes \<Rightarrow> (bytes \<times> gvalue) list \<Rightarrow> nat" where
  "loaded_alignment file kvl =
     (if \<exists>kv \<in> set kvl. is_alignment kv
      then alignment_at file (length file) (kv_value_pos (hd (kv_entries 24 kvl))) 32 else 32)"

definition loaded_model :: "bytes \<Rightarrow> (bytes \<times> gvalue) list \<Rightarrow> tensor_spec list \<Rightarrow> model" where
  "loaded_model file kvl ss =
     \<lparr>m_size = length file, m_map = file, m_version = 3, m_n_kv = length kvl,
      m_n_tensor = length ss, m_alignment = loaded_alignment file kvl, m_arch = ARCH_UNKNOWN,
      m_arch_name = [], m_kv = kv_entries 24 kvl,
      m_tensor = List.map (relocate (align_up (loaded_alignment file kvl) (length (gguf_head kvl ss))))
                   (List.map tensor_of_spec ss)\<rparr>"

lemma model_load_print:
  assumes len: "length file < 2 ^ 63" "32 \<le> length file" and fl: "file = gguf_head kvl ss @ data"
    and kv: "\<forall>kv \<in> set kvl. kv_valid kv" and ss: "\<forall>s \<in> set ss. tensor_valid s"
    and n: "length kvl < 2 ^ 64" "length ss < 2 ^ 64"
  shows "model_load file = rbind (model_detect_arch (loaded_model file kvl ss)) (\<lambda>m.
           rbind (model_completeness_check m) (\<lambda>_. Inr m))"
    and "list_all2 (kv_describes file) (kv_entries 24 kvl) kvl"
proof -
  let ?kvb = "concat (List.map kv_print kvl)" and ?tb = "concat (List.map tensor_print ss)"
  let ?c = "cursor_at file (length file) 0"
  have wf: "cursor_wf ?c" using len by (intro cursor_at_wf) auto
  have sel: "cu_base ?c = file" "cu_post ?c = 0" by (simp_all add: cursor_at_def)
  have a: "ahead ?c (le_bytes 4 0x46554747 @ le_bytes 4 3 @ le_bytes 8 (length ss)
      @ le_bytes 8 (length kvl) @ ?kvb @ ?tb)"
    by (simp add: ahead_iff cursor_at_def fl gguf_head_def)
  have "(0x46554747 :: nat) < 2 ^ 32" "(3::nat) < 2 ^ 32" by simp_all
  note 1 = u32_fmt.then_print [OF wf this(1) a]
  note 2 = u32_fmt.then_print [OF 1(3) \<open>(3::nat) < 2 ^ 32\<close> 1(2)]
  note 3 = u64_fmt.then_print [OF 2(3) n(2) 2(2)]
  note 4 = u64_fmt.then_print [OF 3(3) n(1) 3(2)]
  note 5 = kv_load_print(1) [OF 4(3) kv 4(2), of "file" "length file"]
    kv_load_print(2) [OF 4(3) kv 4(2)]
  have "ahead (advance (length ?kvb) (advance 24 ?c)) (?tb @ [])" and w: "cursor_wf (advance (length ?kvb) (advance 24 ?c))"
    using 4(2) advance_wf [OF 4(3), of ?kvb] by (simp_all add: ahead_append)
  note 6 = tensor_load_print [OF w ss this(1)]
  have head: "length (gguf_head kvl ss) = 24 + length ?kvb + length ?tb"
    by (simp add: gguf_head_def)
  show "list_all2 (kv_describes file) (kv_entries 24 kvl) kvl"
    using 5(2) by (simp add: sel)
  have al: "loaded_alignment file kvl = (if \<exists>kv \<in> set kvl. is_alignment kv
      then alignment_at file (length file) (kv_value_pos (hd (kv_entries 24 kvl))) 32 else 32)"
    by (simp add: loaded_alignment_def)
  have kv5: "kv_load file (length file) (length kvl) (advance 24 ?c)
      = Inr (kv_entries 24 kvl, loaded_alignment file kvl, advance (24 + length ?kvb) ?c)"
    using 5(1) by (simp add: sel al)
  show "model_load file = rbind (model_detect_arch (loaded_model file kvl ss)) (\<lambda>m.
      rbind (model_completeness_check m) (\<lambda>_. Inr m))"
    using len(2) 1(1) 2(1) 3(1) 4(1) kv5 6
    by (simp add: model_load_def die_unless_def sel loaded_model_def head add.assoc)
qed

lemma find_kv_print:
  assumes "list_all2 (kv_describes base) es kvl" and "map_of kvl k = Some v"
  shows "\<exists>e. find (\<lambda>e. key_streq (kv_key e) k) es = Some e \<and> kv_describes base e (k, v)"
  using assms
proof (induction es kvl rule: list_all2_induct)
  case Nil
  then show ?case by simp
next
  case (Cons e es kv kvl)
  obtain k' v' where kv: "kv = (k', v')" by force
  from Cons(1) have "kv_key e = k'" by (simp add: kv kv_describes_def)
  with Cons kv show ?case by (auto split: if_splits)
qed

definition model_holds :: "model \<Rightarrow> (bytes \<times> gvalue) list \<Rightarrow> bool" where
  "model_holds m kvl \<longleftrightarrow> m_size m = length (m_map m) \<and> m_size m < 2 ^ 63
     \<and> list_all2 (kv_describes (m_map m)) (m_kv m) kvl"

lemma ahead_pos: "ahead (cursor_at base n p) bs \<Longrightarrow> bs \<noteq> [] \<Longrightarrow> p \<le> length base"
  by (rule ccontr) (auto simp: ahead_def cursor_at_def)

lemma model_get_key_print:
  assumes "model_holds m kvl" and "map_of kvl k = Some (GStr s)" and "length s < 256"
  shows "model_get_key m k = Some s"
proof -
  from find_kv_print [OF _ assms(2)] assms(1) obtain e where
    e: "model_find_kv m k = Some e" "kv_describes (m_map m) e (k, GStr s)"
    by (auto simp: model_holds_def model_find_kv_def)
  let ?c = "cursor_at (m_map m) (m_size m) (kv_value_pos e)"
  have a: "ahead ?c (key_bytes s @ [])" and ty: "kv_type e = 8"
    using e(2) assms(1) by (simp_all add: kv_describes_def model_holds_def)
  have "kv_value_pos e \<le> length (m_map m)"
    by (rule ahead_pos [OF a]) (simp add: key_bytes_def)
  then have "cursor_wf ?c" using assms(1) by (simp add: model_holds_def cursor_at_wf)
  from key_fmt.then_print(1) [OF this assms(3) a] show ?thesis
    using e(1) ty by (simp add: model_get_key_def)
qed

lemma model_get_i32_print:
  assumes "model_holds m kvl" and "map_of kvl k = Some (GFixed 4 (le_bytes 4 n))" and "n < 2 ^ 31"
  shows "model_get_i32 m k = Some (int n)"
proof -
  from find_kv_print [OF _ assms(2)] assms(1) obtain e where
    e: "model_find_kv m k = Some e" "kv_describes (m_map m) e (k, GFixed 4 (le_bytes 4 n))"
    by (auto simp: model_holds_def model_find_kv_def)
  let ?c = "cursor_at (m_map m) (m_size m) (kv_value_pos e)"
  have a: "ahead ?c (le_bytes 4 n)" and ty: "kv_type e = 4"
    using e(2) assms(1) by (simp_all add: kv_describes_def model_holds_def)
  have "kv_value_pos e \<le> length (m_map m)"
    by (rule ahead_pos [OF a]) simp
  then have wf: "cursor_wf ?c" using assms(1) by (simp add: model_holds_def cursor_at_wf)
  have "sint (of_nat n :: u32) = int n"
    using assms(3) by (simp add: signed_of_nat signed_take_bit_int_eq_self)
  then show ?thesis
    using e(1) ty cursor_read_ahead [OF wf a, of 4] assms(3)
    by (simp add: model_get_i32_def cursor_i32_def and_then_def done_with_def)
qed

section \<open>Properties of the loader\<close>

lemma gguf_types_ratio:
  assumes "tensor_type t = Some (nm, be, bb)"
  shows "bb \<le> 8 * be" and "be \<le> 256"
proof -
  from assms have "t < length gguf_types" and "gguf_types ! t = Some (nm, be, bb)"
    by (auto simp: tensor_type_def not_le split: if_splits)
  then have "Some (nm, be, bb) \<in> set gguf_types" by (metis nth_mem)
  moreover have "\<forall>x \<in> set gguf_types. case x of None \<Rightarrow> True | Some (_, e, b) \<Rightarrow> b \<le> 8 * e \<and> e \<le> 256"
    by (simp add: gguf_types_def)
  ultimately show "bb \<le> 8 * be" and "be \<le> 256" by auto
qed

lemma tensor_bytes_total:
  assumes ty: "tensor_type t = Some (nm, be, bb)" and n: "n \<le> 2 ^ 60"
  shows "\<exists>b. tensor_bytes t n = Some b" and "n + be - 1 < 2 ^ 64"
proof -
  note r = gguf_types_ratio [OF ty] and pos = gguf_types_pos [OF ty]
  have fit: "n + be - 1 < 2 ^ 61" using n r(2) by simp
  then show "n + be - 1 < 2 ^ 64" by simp
  let ?b = "(n + be - 1) div be"
  have "?b * bb \<le> ?b * (8 * be)" using r(1) by simp
  also have "\<dots> = 8 * (?b * be)" by simp
  also have "\<dots> \<le> 8 * (n + be - 1)" by (intro mult_le_mono div_times_less_eq_dividend) simp
  also have "\<dots> \<le> u64_max" using fit by (simp add: u64_max_def)
  finally have "?b \<le> u64_max div bb" using mult_le_u64_iff [of bb ?b] pos by simp
  with fit pos show "\<exists>b. tensor_bytes t n = Some b"
    by (simp add: tensor_bytes_def ty Let_def)
qed

lemma payload_inside:
  assumes "model_load img = Inr m" and "length img < 2 ^ 63" and "t \<in> set (m_tensor m)"
    and "tensor_type (ti_type t) = Some (nm, be, bb)" and "ti_n_element t \<le> 2 ^ 60"
    and "i < ti_n_element t"
  shows "ti_offset t + i div be * bb + bb \<le> length img"
proof -
  note inv = model_load_ok_inv [OF assms(1,2)]
  obtain b where b: "tensor_bytes (ti_type t) (ti_n_element t) = Some b"
    using tensor_bytes_total(1) [OF assms(4,5)] by blast
  have "ti_bytes t = b" and "ti_offset t + ti_bytes t \<le> length img"
    using inv assms(3) b by (auto simp: model_ok_def ti_wf_def)
  moreover have "i div be * bb + bb \<le> b"
    by (rule tensor_bytes_holds [OF b assms(4) tensor_bytes_total(2) [OF assms(4,5)] assms(6)])
  ultimately show ?thesis by linarith
qed


text \<open>A two-megabyte element count is fine; a hostile one is not: the block count of a
  \<open>q4_0\<close> tensor of \<open>2 ^ 64 - 1\<close> elements wraps to zero, so its payload is taken as empty,
  and an \<open>i64\<close> tensor of \<open>2 ^ 62\<close> elements gets no size at all and keeps 0 bytes.\<close>

lemma tensor_bytes_wraps: "tensor_bytes 2 (2 ^ 64 - 1) = Some 0" "tensor_bytes 27 (2 ^ 62) = None"
  by code_simp+

lemma weights_put_total:
  "\<forall>(r, name, req) \<in> set es. req \<longrightarrow> model_find_tensor m name \<noteq> None \<Longrightarrow>
   \<exists>w'. weights_put m es w = Inr w'"
  by (induction es arbitrary: w) (auto simp: Let_def die_unless_def)

lemma token_embd_required: "(TENSOR_TOKEN_EMBD, ''token_embd.weight'', True) \<in> set (arch_tensor_map arch)"
  by (cases arch) (simp_all add: arch_tensor_map_def llama_tensor_map_def qwen2_tensor_map_def
    deepseek_tensor_map_def gemma3_tensor_map_def falcon_h1_tensor_map_def unknown_tensor_map_def)

text \<open>C5: the completeness check and the weight tables agree.  After a successful
  \<open>model_load\<close>, \<open>weights_load\<close> never dies, the embedding and output matrices are there
  (the output tied to the embedding when it has none of its own), every required role is
  non-NULL, and every required role of every layer points to a tensor of that layer whose
  suffix the architecture's map gives to the role.\<close>

theorem model_load_weights:
  assumes "model_load img = Inr m"
  shows "\<exists>w. weights_load m = Inr w \<and> w_n_layer w = model_count_layers m
    \<and> w_tensors w TENSOR_TOKEN_EMBD \<noteq> None \<and> w_tensors w TENSOR_OUTPUT \<noteq> None
    \<and> (\<forall>(r, name, req) \<in> set (arch_tensor_map (m_arch m)). req \<longrightarrow> w_tensors w r \<noteq> None)
    \<and> (\<forall>l < w_n_layer w. \<forall>(r, s, req) \<in> set (arch_layer_map (m_arch m)). req \<longrightarrow>
         (\<exists>i s' b. (w_layers w ! l) r = Some i \<and> i < length (m_tensor m)
            \<and> layer_tensor_parse (ti_key (m_tensor m ! i)) = Some (l, s')
            \<and> (r, s', b) \<in> set (arch_layer_map (m_arch m))))"
proof -
  have ok: "model_completeness_check m = Inr ()"
    by (rule model_load_Inr [OF assms]) simp
  note c = completeness_Inr [OF ok]
  let ?map = "arch_tensor_map (m_arch m)" and ?n = "model_count_layers m"
  obtain w where w: "weights_put m ?map Map.empty = Inr w"
    using weights_put_total [OF c(2)] by blast
  define w' where "w' = (if w TENSOR_OUTPUT = None \<and> w TENSOR_TOKEN_EMBD \<noteq> None
      then w(TENSOR_OUTPUT := w TENSOR_TOKEN_EMBD) else w)"
  let ?layers = "layers_weights_load m (m_arch m) ?n"
  have load: "weights_load m = Inr \<lparr>w_n_layer = ?n, w_tensors = w', w_layers = ?layers\<rparr>"
    by (simp add: weights_load_def w w'_def Let_def)
  from weights_put_ok [OF w tensor_maps_distinct] have
    req: "\<forall>(r, name, req) \<in> set ?map. req \<longrightarrow> w r \<noteq> None" by auto
  then have embd: "w TENSOR_TOKEN_EMBD \<noteq> None" using token_embd_required by fast
  have slot: "\<exists>i s' b. (?layers ! l) r = Some i \<and> i < length (m_tensor m)
         \<and> layer_tensor_parse (ti_key (m_tensor m ! i)) = Some (l, s')
         \<and> (r, s', b) \<in> set (arch_layer_map (m_arch m))"
    if l: "l < ?n" and in_map: "(r, s, True) \<in> set (arch_layer_map (m_arch m))" for l r s
  proof -
    have "layer_has m l s" using c(3) l in_map by fast
    from layers_at_required [OF l in_map this] obtain i where i: "(?layers ! l) r = Some i" by blast
    from layers_at_Some [OF l i] i show ?thesis by blast
  qed
  have "\<forall>(r, name, req) \<in> set ?map. req \<longrightarrow> w' r \<noteq> None"
    using req embd by (auto simp: w'_def)
  moreover have "w' TENSOR_TOKEN_EMBD \<noteq> None" "w' TENSOR_OUTPUT \<noteq> None"
    using embd by (auto simp: w'_def)
  moreover have "\<forall>l < ?n. \<forall>(r, s, req) \<in> set (arch_layer_map (m_arch m)). req \<longrightarrow>
      (\<exists>i s' b. (?layers ! l) r = Some i \<and> i < length (m_tensor m)
         \<and> layer_tensor_parse (ti_key (m_tensor m ! i)) = Some (l, s')
         \<and> (r, s', b) \<in> set (arch_layer_map (m_arch m)))"
  proof (intro allI ballI impI)
    fix l x assume l: "l < ?n" and x: "x \<in> set (arch_layer_map (m_arch m))"
    obtain r s req where xs: "x = (r, s, req)" by (cases x)
    show "case x of (r, s, req) \<Rightarrow> req \<longrightarrow> (\<exists>i s' b. (?layers ! l) r = Some i \<and> i < length (m_tensor m)
         \<and> layer_tensor_parse (ti_key (m_tensor m ! i)) = Some (l, s')
         \<and> (r, s', b) \<in> set (arch_layer_map (m_arch m)))"
    proof (cases req)
      case True
      with slot [OF l, of r s] x xs show ?thesis by (simp only: prod.case) simp
    qed (simp add: xs)
  qed
  ultimately show ?thesis using load by simp
qed

text \<open>C4: loading what was written.  For every well-formed header (keys below 256 bytes,
  array nesting within the limit, dimensions without overflow) the cursor stages never
  fail: the outcome is decided by the architecture and completeness checks alone, and an
  accepted model has exactly the written metadata entries (key, type, and a position at
  which the value's bytes stand), and the written tensors with their offsets moved to the
  data section.\<close>

theorem model_load_roundtrip:
  assumes "img = gguf_head kvl ss @ data" and "length img < 2 ^ 63" and "32 \<le> length img"
    and "\<forall>kv \<in> set kvl. kv_valid kv" and "\<forall>s \<in> set ss. tensor_valid s"
    and "length kvl < 2 ^ 64" and "length ss < 2 ^ 64"
  shows "model_load img = rbind (model_detect_arch (loaded_model img kvl ss)) (\<lambda>m.
           rbind (model_completeness_check m) (\<lambda>_. Inr m))
    \<and> (\<forall>m. model_load img = Inr m \<longrightarrow> list_all2 (kv_describes img) (m_kv m) kvl
         \<and> m_tensor m = List.map (relocate (align_up (m_alignment m) (length (gguf_head kvl ss))))
                         (List.map tensor_of_spec ss))"
proof -
  note load = model_load_print [OF assms(2,3,1,4,5,6,7)]
  have "list_all2 (kv_describes img) (m_kv m) kvl
      \<and> m_tensor m = List.map (relocate (align_up (m_alignment m) (length (gguf_head kvl ss))))
                      (List.map tensor_of_spec ss)" if "model_load img = Inr m" for m
  proof -
    from that load(1) have "model_detect_arch (loaded_model img kvl ss) = Inr m" by auto
    from model_detect_arch_keeps [OF this] load(2) show ?thesis by (simp add: loaded_model_def)
  qed
  with load(1) show ?thesis by blast
qed


section \<open>A small file\<close>

text \<open>A one-layer \<open>qwen2\<close> file: its architecture and six tensors.\<close>

definition example_kvs :: "(bytes \<times> gvalue) list" where
  "example_kvs = [(''general.architecture'', GStr ''qwen2'')]"

definition example_tensor :: "string \<Rightarrow> tensor_spec" where
  "example_tensor name = \<lparr>ts_name = name, ts_dims = [2, 1], ts_type = 1, ts_offset = 0\<rparr>"

definition example_names :: "string list" where
  "example_names = [''token_embd.weight'', ''output_norm.weight'', layer_name 0 ''attn_norm.weight'',
      layer_name 0 ''ffn_gate.weight'', layer_name 0 ''ffn_down.weight'', layer_name 0 ''ffn_up.weight'']"

definition example_tensors :: "tensor_spec list" where
  "example_tensors = List.map example_tensor example_names"

definition example_file :: bytes where
  "example_file = gguf_head example_kvs example_tensors @ replicate 40 CHR 0x00"

definition example_base :: nat where
  "example_base = align_up 32 (length (gguf_head example_kvs example_tensors))"

definition example_loaded :: "string \<Rightarrow> tensor_info" where
  "example_loaded name = \<lparr>ti_key = name, ti_dim = [1, 2], ti_type = 1, ti_offset = example_base,
     ti_n_element = 2, ti_bytes = 4, ti_padded_dim = 0\<rparr>"

definition example_model :: model where
  "example_model = \<lparr>m_size = length example_file, m_map = example_file, m_version = 3, m_n_kv = 1,
     m_n_tensor = 6, m_alignment = 32, m_arch = ARCH_QWEN2, m_arch_name = ''qwen2'',
     m_kv = kv_entries 24 example_kvs, m_tensor = List.map example_loaded example_names\<rparr>"

lemma dec_0: "dec 0 = ''0''" by code_simp

lemma example_head: "length (gguf_head example_kvs example_tensors) = 427" 
  by (simp add: gguf_head_def example_kvs_def example_tensors_def example_names_def kv_print_def key_bytes_def
    tensor_print_def example_tensor_def layer_name_def dec_0)

lemma example_valid: "\<forall>kv \<in> set example_kvs. kv_valid kv" "\<forall>s \<in> set example_tensors. tensor_valid s" 
  by (simp_all add: example_kvs_def kv_valid_def example_tensors_def example_names_def tensor_valid_def example_tensor_def
     dims_fit_def all_le_Suc_split u64_max_def layer_name_def dec_0)

lemma example_length: "length example_file = 467" "example_base = 448"
  by (simp_all add: example_file_def example_base_def align_up_def example_head)

lemma example_counts: "length example_kvs = 1" "length example_tensors = 6" "length example_names = 6"
  by (simp_all add: example_kvs_def example_tensors_def example_names_def)

lemma example_alignment: "loaded_alignment example_file example_kvs = 32"
  by (simp add: loaded_alignment_def example_kvs_def is_alignment_def)

lemma example_loaded_eq:
  "relocate (align_up 32 (length (gguf_head example_kvs example_tensors))) (tensor_of_spec (example_tensor name))
   = example_loaded name"
proof -
  have "tensor_type 1 = Some (''f16'', 1, 2)" by (simp add: tensor_type_def gguf_types_def)
  then show ?thesis
    by (simp add: relocate_def tensor_of_spec_def example_tensor_def example_loaded_def swap_dims_def
      tensor_bytes_def u64_max_def tensor_padded_dim_def example_base_def add64_def align_up_def example_head)
qed

lemma example_pre: "loaded_model example_file example_kvs example_tensors
    = example_model\<lparr>m_arch := ARCH_UNKNOWN, m_arch_name := []\<rparr>"
  by (simp add: loaded_model_def example_model_def example_alignment example_counts example_tensors_def
    del: map_map) (simp add: o_def example_loaded_eq [unfolded example_tensors_def])

lemma example_detect: "model_detect_arch (loaded_model example_file example_kvs example_tensors) = Inr example_model"
proof -
  let ?m = "loaded_model example_file example_kvs example_tensors"
  have "model_holds ?m example_kvs"
    using model_load_print(2) [OF _ _ example_file_def example_valid] example_counts
    by (simp add: model_holds_def loaded_model_def example_length)
  from model_get_key_print [OF this, of "''general.architecture''" "''qwen2''"]
  have "model_get_key ?m ''general.architecture'' = Some ''qwen2''"
    by (simp add: example_kvs_def)
  then show ?thesis
    by (simp add: model_detect_arch_def arch_of_name_def) (simp add: example_pre example_model_def)
qed

lemma example_find: "model_find_tensor example_model ''token_embd.weight'' = Some 0"
   "model_find_tensor example_model ''output_norm.weight'' = Some 1"
  by (simp_all add: model_find_tensor_def example_model_def example_names_def example_loaded_def upt_rec)

lemma example_parse:
  "layer_tensor_parse (layer_name 0 (s @ ''.weight'')) = Some (0, s)" if "s \<noteq> []" for s
  using that layer_tensor_parse_name [of "s @ ''.weight''" 0] by simp

lemma example_has: "layer_has example_model 0 ''attn_norm''" "layer_has example_model 0 ''ffn_gate''"
  "layer_has example_model 0 ''ffn_down''" "layer_has example_model 0 ''ffn_up''"
  using example_parse [of "''attn_norm''"] example_parse [of "''ffn_gate''"]
    example_parse [of "''ffn_down''"] example_parse [of "''ffn_up''"]
  by (simp_all add: layer_has_def example_model_def example_names_def example_loaded_def)

lemma example_layers: "model_count_layers example_model = 1"
proof -
  have "layer_number (dec 0) = 0" by (simp only: layer_number_dec) simp
  then have c: "count_layer_step 0 (layer_name 0 (s @ ''.weight'')) = 0" for s
     using layer_name_parts [of 0 "s @ ''.weight''"] by (simp add: count_layer_step_def Let_def)
  show ?thesis using c [of "''attn_norm''"] c [of "''ffn_gate''"] c [of "''ffn_down''"] c [of "''ffn_up''"]
   by (simp add: model_count_layers_def example_model_def example_names_def example_loaded_def count_layer_step_def [of _ "''token_embd.weight''"]
        count_layer_step_def [of _ "''output_norm.weight''"])
qed

lemma example_complete: "model_completeness_check example_model = Inr ()"
proof -
  have "model_get_int example_model ''split.count'' = None"
    by (simp add: model_get_int_def model_find_kv_def example_model_def example_kvs_def)
  moreover have "m_arch example_model = ARCH_QWEN2" by (simp add: example_model_def)
  moreover have "list_all (payload_ok example_model) (m_tensor example_model)"
    by (simp add: list_all_iff payload_ok_iff example_model_def example_loaded_def example_length)
  ultimately show ?thesis
    by (simp add: model_completeness_check_def die_unless_def arch_tensor_map_def arch_layer_map_def qwen2_tensor_map_def
       qwen2_layer_map_def example_find example_layers example_has)
qed

lemma example_load: "model_load example_file = Inr example_model"
  using model_load_print(1) [OF _ _ example_file_def example_valid] example_counts
  by (simp add: example_length example_detect example_complete)


lemma model_load_weights_witness:
  "\<exists>w i. weights_load example_model = Inr w \<and> w_n_layer w = 1
     \<and> (w_layers w ! 0) TENSOR_FFN_UP = Some i"
proof -
  have "(TENSOR_FFN_UP, ''ffn_up'', True) \<in> set (arch_layer_map (m_arch example_model))"
    by (simp add: example_model_def arch_layer_map_def qwen2_layer_map_def)
  with model_load_weights [OF example_load] show ?thesis by (fastforce simp: example_layers)
qed

lemma model_load_roundtrip_witness:
  "list_all2 (kv_describes example_file) (m_kv example_model) example_kvs"
  using model_load_roundtrip [OF example_file_def _ _ example_valid] example_load
  by (simp add: example_counts example_length)

text \<open>The file of a writer that stores its architecture first: the alignment entry says 64.\<close>

definition aligned_file :: bytes where
  "aligned_file = concat (List.map kv_print
     [(''general.architecture'', GStr ''qwen2''), (''general.alignment'', GFixed 4 (le_bytes 4 64))])"


end
