(* ===== verification/Vocab.thy ===== *)
theory Vocab
  imports TokenTable ModelWeights
begin

text \<open>
  The vocabulary of src/src/core.c: its record, the lookups the tokenizer uses, and the
  two loaders (\<open>vocab_load_for_bpe\<close>, \<open>vocab_load_for_spm\<close>).  Token ids are C \<open>i32\<close>s, here
  integers; \<open>VOCAB_ID_NONE\<close> is -1.  A float score is a value of an ordered type \<open>'f\<close>,
  read from its 32 bits by the parameter \<open>fl\<close>.

  The loaders probe hash tables, and a probe or the table's sizing loop might not end:
  their outcome is an option, with \<open>None\<close> for not returning.  The lookups flatten that
  outcome to "not found"; \<open>vocab_ok\<close> (below) excludes it.
\<close>

unbundle bit_operations_syntax

datatype tokenizer_type = TOKENIZER_TYPE_NONE | TOKENIZER_TYPE_SPM | TOKENIZER_TYPE_BPE
  | TOKENIZER_TYPE_WPM | TOKENIZER_TYPE_UGM | TOKENIZER_TYPE_RWKV | TOKENIZER_TYPE_WHISPER

abbreviation VOCAB_ID_NONE :: int where
  "VOCAB_ID_NONE \<equiv> -1"

record 'f vocab =
  v_token :: "key list"
  v_scores :: "'f list option"
  v_bos_id :: int
  v_eos_id :: int
  v_user_id :: int
  v_assistant_id :: int
  v_think_start_id :: int
  v_think_end_id :: int
  v_dsml_id :: int
  v_im_start_id :: int
  v_im_end_id :: int
  v_start_of_turn_id :: int
  v_end_of_turn_id :: int
  v_byte_token_ids :: "int list"
  v_tokenizer_type :: tokenizer_type
  v_tokens :: tk_table
  v_merges :: tk_table

definition v_n_vocab :: "'f vocab \<Rightarrow> nat" where
  "v_n_vocab v = length (v_token v)"

definition to_i32 :: "nat \<Rightarrow> int" where
  "to_i32 n = (if n mod 2 ^ 32 < 2 ^ 31 then int (n mod 2 ^ 32) else int (n mod 2 ^ 32) - 2 ^ 32)"

section \<open>Lookups\<close>

definition table_find :: "tk_table \<Rightarrow> key \<Rightarrow> int option" where
  "table_find t k = (case tokenizer_table_get t k of Some r \<Rightarrow> r | None \<Rightarrow> None)"

text \<open>\<open>Key.len\<close> is a byte.\<close>

definition vocab_try_lookup :: "'f vocab \<Rightarrow> string \<Rightarrow> int option" where
  "vocab_try_lookup v s = table_find (v_tokens v) (take (length s mod 256) s)"

definition vocab_lookup :: "'f vocab \<Rightarrow> string \<Rightarrow> int" where
  "vocab_lookup v s = (case vocab_try_lookup v s of Some i \<Rightarrow> i | None \<Rightarrow> VOCAB_ID_NONE)"

definition vocab_lookup_len :: "'f vocab \<Rightarrow> bytes \<Rightarrow> nat \<Rightarrow> int option" where
  "vocab_lookup_len v s len = table_find (v_tokens v) (take (len mod 256) s)"

definition vocab_pair_ok :: "'f vocab \<Rightarrow> int \<Rightarrow> int \<Rightarrow> bool" where
  "vocab_pair_ok v id1 id2 \<longleftrightarrow>
     \<not> (id1 < 0 \<or> id2 < 0 \<or> nat id1 \<ge> v_n_vocab v \<or> nat id2 \<ge> v_n_vocab v)"

definition vocab_merge_rank :: "'f vocab \<Rightarrow> int \<Rightarrow> int \<Rightarrow> int" where
  "vocab_merge_rank v id1 id2 =
     (if \<not> vocab_pair_ok v id1 id2 then -1
      else let t1 = v_token v ! nat id1; t2 = v_token v ! nat id2 in
           if length t1 + 1 + length t2 > 255 then -1
           else (case table_find (v_merges v) (t1 @ '' '' @ t2) of Some r \<Rightarrow> r | None \<Rightarrow> -1))"

definition vocab_merge_result :: "'f vocab \<Rightarrow> int \<Rightarrow> int \<Rightarrow> int" where
  "vocab_merge_result v id1 id2 =
     (if \<not> vocab_pair_ok v id1 id2 then VOCAB_ID_NONE
      else let t1 = v_token v ! nat id1; t2 = v_token v ! nat id2 in
           if length t1 + length t2 > 255 then VOCAB_ID_NONE
           else (case vocab_lookup_len v (t1 @ t2) (length t1 + length t2) of
                   Some i \<Rightarrow> i | None \<Rightarrow> VOCAB_ID_NONE))"

section \<open>Byte pieces\<close>

definition spm_hex_digit :: "char \<Rightarrow> int" where
  "spm_hex_digit c =
     (if code c \<ge> 48 \<and> code c \<le> 57 then int (code c) - 48
      else if code c \<ge> 97 \<and> code c \<le> 102 then int (code c) - 97 + 10
      else if code c \<ge> 65 \<and> code c \<le> 70 then int (code c) - 65 + 10
      else -1)"

definition spm_byte_token_value :: "key \<Rightarrow> int" where
  "spm_byte_token_value k =
     (if length k \<noteq> 6 then -1
      else if k ! 0 \<noteq> CHR ''<'' \<or> k ! 1 \<noteq> CHR ''0'' \<or> k ! 2 \<noteq> CHR ''x'' \<or> k ! 5 \<noteq> CHR ''>'' then -1
      else let hi = spm_hex_digit (k ! 3); lo = spm_hex_digit (k ! 4) in
           if hi < 0 \<or> lo < 0 then -1 else hi * 16 + lo)"

text \<open>GPT-2's \<open>bytes_to_unicode\<close>: printable bytes stand for themselves, the others for the
  code points from 256 on, in order.\<close>

definition bpe_is_self :: "nat \<Rightarrow> bool" where
  "bpe_is_self b \<longleftrightarrow> (b \<ge> 33 \<and> b \<le> 126) \<or> (b \<ge> 161 \<and> b \<le> 172) \<or> (b \<ge> 174 \<and> b \<le> 255)"

definition bpe_codepoint :: "nat \<Rightarrow> nat" where
  "bpe_codepoint b =
     (if bpe_is_self b then b else 256 + length (filter (\<lambda>i. \<not> bpe_is_self i) [0 ..< b]))"

definition utf8_encode :: "nat \<Rightarrow> bytes" where
  "utf8_encode cp =
     (if cp < 0x80 then [char_of cp]
      else if cp < 0x800 then [char_of (0xC0 OR drop_bit 6 cp), char_of (0x80 OR (cp AND 0x3F))]
      else [char_of (0xE0 OR drop_bit 12 cp), char_of (0x80 OR (drop_bit 6 cp AND 0x3F)),
            char_of (0x80 OR (cp AND 0x3F))])"

definition bpe_byte_piece :: "nat \<Rightarrow> bytes" where
  "bpe_byte_piece b = utf8_encode (bpe_codepoint b)"

definition bpe_byte_table :: "'f vocab \<Rightarrow> int list" where
  "bpe_byte_table v =
     List.map (\<lambda>b. let u = bpe_byte_piece b in
                   case vocab_lookup_len v u (length u) of Some i \<Rightarrow> i | None \<Rightarrow> VOCAB_ID_NONE)
       [0 ..< 256]"

section \<open>Loading the arrays\<close>

type_synonym 'a outcome = "'a result option"

definition obind :: "'a outcome \<Rightarrow> ('a \<Rightarrow> 'b outcome) \<Rightarrow> 'b outcome" where
  "obind m k = (case m of None \<Rightarrow> None | Some (Inl e) \<Rightarrow> Some (Inl e) | Some (Inr x) \<Rightarrow> k x)"

definition returns :: "'a option \<Rightarrow> 'a outcome" where
  "returns x = (case x of None \<Rightarrow> None | Some y \<Rightarrow> Some (Inr y))"

text \<open>\<open>for (i = 0; i < n; i++) { cursor_key; tokenizer_table_put(key, i) }\<close>\<close>

fun load_tokens :: "nat \<Rightarrow> nat \<Rightarrow> cursor \<Rightarrow> tk_table \<Rightarrow> (key list \<times> tk_table) outcome" where
  "load_tokens 0 i c t = Some (Inr ([], t))"
| "load_tokens (Suc n) i c t =
     obind (Some (or_die (cursor_key c))) (\<lambda>(k, c1).
     obind (returns (tokenizer_table_put t k (to_i32 i))) (\<lambda>t1.
     obind (load_tokens n (i + 1) c1 t1) (\<lambda>(ks, t2). Some (Inr (k # ks, t2)))))"

text \<open>The merge loop counts in 32 bits against a 64-bit length.\<close>

partial_function (option) load_merges :: "nat \<Rightarrow> nat \<Rightarrow> cursor \<Rightarrow> tk_table \<Rightarrow> tk_table outcome" where
  "load_merges len i c t =
     (if i < len
      then (case cursor_key c of
              (None, c1) \<Rightarrow> Some (Inl (Fatal (cursor_error_text c1)))
            | (Some k, c1) \<Rightarrow>
                (case tokenizer_table_put t k (to_i32 i) of
                   None \<Rightarrow> None
                 | Some t1 \<Rightarrow> load_merges len ((i + 1) mod 2 ^ 32) c1 t1))
      else Some (Inr t))"

text \<open>Floats up to the first failed read; the rest of the \<open>scalloc\<close>ed array stays zero.\<close>

fun load_scores :: "(u32 \<Rightarrow> 'f) \<Rightarrow> nat \<Rightarrow> cursor \<Rightarrow> 'f list" where
  "load_scores fl 0 c = []"
| "load_scores fl (Suc n) c =
     (case cursor_float c of
        (None, _) \<Rightarrow> replicate (Suc n) (fl 0)
      | (Some x, c1) \<Rightarrow> fl x # load_scores fl n c1)"

definition put_byte_token :: "key \<Rightarrow> nat \<Rightarrow> int list \<Rightarrow> int list" where
  "put_byte_token k i ids =
     (let b = spm_byte_token_value k in if b \<ge> 0 then ids[nat b := to_i32 i] else ids)"

fun load_byte_types :: "key list \<Rightarrow> nat \<Rightarrow> cursor \<Rightarrow> int list \<Rightarrow> int list" where
  "load_byte_types [] i c ids = ids"
| "load_byte_types (k # ks) i c ids =
     (case cursor_i32 c of
        (None, _) \<Rightarrow> ids
      | (Some t, c1) \<Rightarrow>
          load_byte_types ks (i + 1) c1 (if t \<noteq> 6 then ids else put_byte_token k i ids))"

fun load_byte_pieces :: "key list \<Rightarrow> nat \<Rightarrow> int list \<Rightarrow> int list" where
  "load_byte_pieces [] i ids = ids"
| "load_byte_pieces (k # ks) i ids = load_byte_pieces ks (i + 1) (put_byte_token k i ids)"

section \<open>Special tokens\<close>

definition fullwidth_bar :: bytes where
  "fullwidth_bar = [CHR 0xEF, CHR 0xBD, CHR 0x9C]"

definition lower_block :: bytes where
  "lower_block = [CHR 0xE2, CHR 0x96, CHR 0x81]"

definition deepseek_mark :: "string \<Rightarrow> string" where
  "deepseek_mark w = ''<'' @ fullwidth_bar @ w @ lower_block @ ''of'' @ lower_block @ ''sentence''
     @ fullwidth_bar @ ''>''"

fun first_lookup :: "'f vocab \<Rightarrow> string list \<Rightarrow> int" where
  "first_lookup v [] = VOCAB_ID_NONE"
| "first_lookup v (s # ss) =
     (case vocab_try_lookup v s of Some i \<Rightarrow> i | None \<Rightarrow> first_lookup v ss)"

definition special_id :: "model \<Rightarrow> 'f vocab \<Rightarrow> string \<Rightarrow> string list \<Rightarrow> int" where
  "special_id m v k cands = (case model_get_i32 m k of Some i \<Rightarrow> i | None \<Rightarrow> first_lookup v cands)"

definition load_markers :: "'f vocab \<Rightarrow> 'f vocab" where
  "load_markers v = v\<lparr>
     v_user_id := vocab_lookup v (''<'' @ fullwidth_bar @ ''User'' @ fullwidth_bar @ ''>''),
     v_assistant_id := vocab_lookup v (''<'' @ fullwidth_bar @ ''Assistant'' @ fullwidth_bar @ ''>''),
     v_think_start_id := vocab_lookup v ''<think>'',
     v_think_end_id := vocab_lookup v ''</think>'',
     v_dsml_id := vocab_lookup v (fullwidth_bar @ ''DSML'' @ fullwidth_bar),
     v_im_start_id := vocab_lookup v ''<|im_start|>'',
     v_im_end_id := vocab_lookup v ''<|im_end|>'',
     v_start_of_turn_id := vocab_lookup v ''<start_of_turn>'',
     v_end_of_turn_id := vocab_lookup v ''<end_of_turn>''\<rparr>"

definition spm_bos_cands :: "string list" where
  "spm_bos_cands = [''<s>'', ''<bos>'', ''<|begin_of_text|>'', deepseek_mark ''begin'', ''<|im_start|>'']"

definition spm_eos_cands :: "string list" where
  "spm_eos_cands = [''</s>'', ''<eos>'', ''<|end_of_text|>'', deepseek_mark ''end'', ''<|im_end|>'']"

definition bpe_bos_cands :: "string list" where
  "bpe_bos_cands = [''<|begin_of_text|>'', deepseek_mark ''begin'', ''<|im_start|>'', ''<bos>'', ''<s>'']"

definition bpe_eos_cands :: "string list" where
  "bpe_eos_cands = [''<|end_of_text|>'', deepseek_mark ''end'', ''<|im_end|>'', ''<eos>'', ''</s>'']"

definition check_specials :: "'f vocab \<Rightarrow> 'f vocab outcome" where
  "check_specials v =
     (if v_bos_id v = VOCAB_ID_NONE
      then Some (Inl (Fatal ''Cannot find BOS token in vocabulary''))
      else if v_eos_id v = VOCAB_ID_NONE
      then Some (Inl (Fatal ''Cannot find EOS token in vocabulary''))
      else Some (Inr (load_markers v)))"

section \<open>The loaders\<close>

definition empty_table :: tk_table where
  "empty_table = \<lparr>tt_entry = [], tt_cap = 0, tt_used = 0\<rparr>"

definition blank_vocab :: "'f vocab" where
  "blank_vocab = \<lparr>v_token = [], v_scores = None, v_bos_id = VOCAB_ID_NONE, v_eos_id = VOCAB_ID_NONE,
     v_user_id = VOCAB_ID_NONE, v_assistant_id = VOCAB_ID_NONE, v_think_start_id = VOCAB_ID_NONE,
     v_think_end_id = VOCAB_ID_NONE, v_dsml_id = VOCAB_ID_NONE, v_im_start_id = VOCAB_ID_NONE,
     v_im_end_id = VOCAB_ID_NONE, v_start_of_turn_id = VOCAB_ID_NONE,
     v_end_of_turn_id = VOCAB_ID_NONE, v_byte_token_ids = replicate 256 VOCAB_ID_NONE,
     v_tokenizer_type = TOKENIZER_TYPE_NONE, v_tokens = empty_table, v_merges = empty_table\<rparr>"

definition string_array :: "model \<Rightarrow> string \<Rightarrow> array_ref option" where
  "string_array m k =
     (case model_get_array m k of
        None \<Rightarrow> None | Some a \<Rightarrow> if ar_type a \<noteq> 8 then None else Some a)"

definition load_token_array :: "model \<Rightarrow> (key list \<times> tk_table) outcome" where
  "load_token_array m =
     (case string_array m ''tokenizer.ggml.tokens'' of
        None \<Rightarrow> Some (Inl (Fatal ''GGUF tokenizer token table is missing or invalid''))
      | Some a \<Rightarrow>
          if ar_len a > 2147483647
          then Some (Inl (Fatal ''GGUF tokenizer token table is missing or invalid''))
          else obind (returns (tokenizer_table_init (ar_len a))) (\<lambda>t.
                 load_tokens (ar_len a) 0 (cursor_at (m_map m) (m_size m) (ar_data_pos a)) t))"

definition spm_scores :: "(u32 \<Rightarrow> 'f) \<Rightarrow> model \<Rightarrow> nat \<Rightarrow> 'f list option" where
  "spm_scores fl m n =
     (case model_get_array m ''tokenizer.ggml.scores'' of
        None \<Rightarrow> None
      | Some a \<Rightarrow> if ar_type a = 6 \<and> ar_len a = n
                  then Some (load_scores fl n (cursor_at (m_map m) (m_size m) (ar_data_pos a)))
                  else None)"

definition spm_byte_table :: "model \<Rightarrow> key list \<Rightarrow> int list" where
  "spm_byte_table m ks =
     (let ids = replicate 256 VOCAB_ID_NONE in
      case model_get_array m ''tokenizer.ggml.token_type'' of
        Some a \<Rightarrow> if ar_type a = 5 \<and> ar_len a = length ks
                  then load_byte_types ks 0 (cursor_at (m_map m) (m_size m) (ar_data_pos a)) ids
                  else load_byte_pieces ks 0 ids
      | None \<Rightarrow> load_byte_pieces ks 0 ids)"

definition spm_vocab :: "(u32 \<Rightarrow> 'f) \<Rightarrow> model \<Rightarrow> key list \<Rightarrow> tk_table \<Rightarrow> 'f vocab" where
  "spm_vocab fl m ks t =
     (let v = blank_vocab\<lparr>v_tokenizer_type := TOKENIZER_TYPE_SPM, v_token := ks, v_tokens := t,
                v_scores := spm_scores fl m (length ks), v_byte_token_ids := spm_byte_table m ks\<rparr> in
      v\<lparr>v_bos_id := special_id m v ''tokenizer.ggml.bos_token_id'' spm_bos_cands,
        v_eos_id := special_id m v ''tokenizer.ggml.eos_token_id'' spm_eos_cands\<rparr>)"

definition vocab_load_for_spm :: "(u32 \<Rightarrow> 'f) \<Rightarrow> model \<Rightarrow> 'f vocab outcome" where
  "vocab_load_for_spm fl m =
     obind (load_token_array m) (\<lambda>(ks, t). check_specials (spm_vocab fl m ks t))"

definition load_merge_array :: "model \<Rightarrow> array_ref \<Rightarrow> tk_table outcome" where
  "load_merge_array m a =
     obind (returns (tokenizer_table_init (ar_len a))) (\<lambda>t.
       load_merges (ar_len a) 0 (cursor_at (m_map m) (m_size m) (ar_data_pos a)) t)"

definition bpe_vocab :: "model \<Rightarrow> key list \<Rightarrow> tk_table \<Rightarrow> tk_table \<Rightarrow> 'f vocab" where
  "bpe_vocab m ks t mt =
     (let v = blank_vocab\<lparr>v_tokenizer_type := TOKENIZER_TYPE_BPE, v_token := ks, v_tokens := t,
                v_merges := mt\<rparr> in
      v\<lparr>v_bos_id := special_id m v ''tokenizer.ggml.bos_token_id'' bpe_bos_cands,
        v_eos_id := special_id m v ''tokenizer.ggml.eos_token_id'' bpe_eos_cands\<rparr>)"

definition vocab_load_for_bpe :: "model \<Rightarrow> 'f vocab outcome" where
  "vocab_load_for_bpe m =
     (case string_array m ''tokenizer.ggml.tokens'' of
        None \<Rightarrow> Some (Inl (Fatal ''GGUF tokenizer token table is missing or invalid''))
      | Some a \<Rightarrow>
     if ar_len a > 2147483647
     then Some (Inl (Fatal ''GGUF tokenizer token table is missing or invalid''))
     else (case string_array m ''tokenizer.ggml.merges'' of
        None \<Rightarrow> Some (Inl (Fatal ''GGUF tokenizer merge table is missing or invalid''))
      | Some mg \<Rightarrow>
     obind (load_token_array m) (\<lambda>(ks, t).
     obind (load_merge_array m mg) (\<lambda>mt.
     obind (check_specials (bpe_vocab m ks t mt)) (\<lambda>v1.
     Some (Inr (v1\<lparr>v_byte_token_ids := bpe_byte_table v1\<rparr>)))))))"

definition tokenizer_type :: "model \<Rightarrow> tokenizer_type result" where
  "tokenizer_type m =
     (case model_get_key m ''tokenizer.ggml.model'' of
        None \<Rightarrow> Inl (Fatal ''GGUF tokenizer model type is missing'')
      | Some name \<Rightarrow>
          if key_streq name ''llama'' \<or> key_streq name ''sentencepiece'' then Inr TOKENIZER_TYPE_SPM
          else if key_streq name ''gpt2'' then Inr TOKENIZER_TYPE_BPE
          else if key_streq name ''bert'' then Inr TOKENIZER_TYPE_WPM
          else if key_streq name ''unigram'' then Inr TOKENIZER_TYPE_UGM
          else if key_streq name ''rwkv'' then Inr TOKENIZER_TYPE_RWKV
          else if key_streq name ''whisper'' then Inr TOKENIZER_TYPE_WHISPER
          else Inl (Fatal ''Unknown tokenizer model type''))"

text \<open>\<open>NULL\<close> (inner \<open>None\<close>) for a flavour that is known but not supported.\<close>

definition vocab_load :: "(u32 \<Rightarrow> 'f) \<Rightarrow> model \<Rightarrow> 'f vocab option outcome" where
  "vocab_load fl m =
     obind (Some (tokenizer_type m)) (\<lambda>ty.
       case ty of
         TOKENIZER_TYPE_SPM \<Rightarrow> obind (vocab_load_for_spm fl m) (\<lambda>v. Some (Inr (Some v)))
       | TOKENIZER_TYPE_BPE \<Rightarrow> obind (vocab_load_for_bpe m) (\<lambda>v. Some (Inr (Some v)))
       | _ \<Rightarrow> Some (Inr None))"

section \<open>Well-formed vocabularies\<close>

text \<open>The token table finds exactly the ids of the token list: what it returns is an id
  whose piece is the key, and it finds every piece.\<close>

definition vocab_ok :: "'f vocab \<Rightarrow> bool" where
  [inv_simps]: "vocab_ok v \<longleftrightarrow>
     v_n_vocab v \<le> 2147483647 \<and> tk_inv (v_tokens v) \<and> (tk_inv (v_merges v) \<or> tt_cap (v_merges v) = 0)
     \<and> (\<forall>k i. tk_abs (v_tokens v) k = Some i \<longrightarrow> 0 \<le> i \<and> nat i < v_n_vocab v \<and> v_token v ! nat i = k)
     \<and> (\<forall>k \<in> set (v_token v). tk_abs (v_tokens v) k \<noteq> None)
     \<and> (\<forall>k \<in> set (v_token v). length k \<le> 255)
     \<and> length (v_byte_token_ids v) = 256
     \<and> (\<forall>i \<in> set (v_byte_token_ids v). i = VOCAB_ID_NONE \<or> 0 \<le> i \<and> nat i < v_n_vocab v)"

lemma table_find_inv: "tk_inv t \<Longrightarrow> table_find t k = tk_abs t k"
  by (simp add: table_find_def tk.lookup_abs)

lemma obind_Inr [simp]: "obind m k = Some (Inr y) \<longleftrightarrow> (\<exists>x. m = Some (Inr x) \<and> k x = Some (Inr y))"
  by (auto simp: obind_def split: option.splits sum.splits)

lemma obind_simps [simp]:
  "obind (Some (Inr x)) k = k x" "obind (Some (Inl e)) k = Some (Inl e)" "obind None k = None"
  by (simp_all add: obind_def)

lemma returns_Inr [simp]: "returns x = Some (Inr y) \<longleftrightarrow> x = Some y"
  by (auto simp: returns_def split: option.splits)

lemma to_i32_small [simp]: "n \<le> 2147483647 \<Longrightarrow> to_i32 n = int n"
  by (simp add: to_i32_def)

lemma vocab_lookup_len_Some:
  assumes "vocab_ok v" and "vocab_lookup_len v s len = Some i"
  shows "0 \<le> i" and "nat i < v_n_vocab v" and "v_token v ! nat i = take (len mod 256) s"
  using assms by (auto simp: vocab_ok_def vocab_lookup_len_def table_find_inv)

lemma vocab_try_lookup_Some:
  assumes "vocab_ok v" and "vocab_try_lookup v s = Some i"
  shows "0 \<le> i" and "nat i < v_n_vocab v" and "v_token v ! nat i = take (length s mod 256) s"
  using assms by (auto simp: vocab_ok_def vocab_try_lookup_def table_find_inv)

text \<open>Merging two pieces gives a piece whose text is their concatenation.\<close>

lemma vocab_merge_result_text:
  assumes "vocab_ok v" and "vocab_merge_result v i j = r" and "r \<noteq> VOCAB_ID_NONE"
  shows "0 \<le> r" and "nat r < v_n_vocab v"
    and "v_token v ! nat r = v_token v ! nat i @ v_token v ! nat j"
proof -
  let ?t = "v_token v ! nat i @ v_token v ! nat j"
  from assms(2,3) have len: "\<not> length ?t > 255"
    and l: "vocab_lookup_len v ?t (length ?t) = Some r"
    by (auto simp: vocab_merge_result_def Let_def split: if_splits option.splits)
  then have "length ?t mod 256 = length ?t" by simp
  then have t: "take (length ?t mod 256) ?t = ?t" by (metis take_all order_refl)
  show "0 \<le> r" and "nat r < v_n_vocab v" and "v_token v ! nat r = ?t"
    using vocab_lookup_len_Some [OF assms(1) l] by (simp_all only: t)
qed

section \<open>The loaders establish it\<close>

lemma cursor_key_short: "cursor_key c = (Some k, c') \<Longrightarrow> length k \<le> 255"
  by (auto simp: cursor_key_def and_then_def cursor_key_content_def split: prod.splits option.splits bool.splits)

lemma load_tokens_insert:
  "load_tokens n i c t = Some (Inr (ks, t')) \<Longrightarrow>
   length ks = n \<and> (\<forall>k \<in> set ks. length k \<le> 255)
   \<and> insert_all tokenizer_table_put t (zip ks (List.map to_i32 [i ..< i + n])) = Some t'"
proof (induction n arbitrary: i c t ks t')
  case 0
  then show ?case by simp
next
  case (Suc n)
  from Suc.prems obtain k c1 t1 ks' where
    1: "cursor_key c = (Some k, c1)" and 2: "tokenizer_table_put t k (to_i32 i) = Some t1"
    and 3: "load_tokens n (i + 1) c1 t1 = Some (Inr (ks', t'))" and ks: "ks = k # ks'"
    by (auto split: prod.splits)
  have "[i ..< i + Suc n] = i # [i + 1 ..< i + 1 + n]" by (simp add: upt_rec)
  with Suc.IH [OF 3] cursor_key_short [OF 1] 2 ks show ?case by simp
qed

text \<open>With room for all keys the load returns.\<close>

lemma load_tokens_returns:
  "tk_inv t \<Longrightarrow> n \<le> tk_room t \<Longrightarrow> load_tokens n i c t \<noteq> None"
proof (induction n arbitrary: i c t)
  case 0
  then show ?case by simp
next
  case (Suc n)
  show ?case
  proof (cases "or_die (cursor_key c)")
    case (Inl e)
    then show ?thesis by simp
  next
    case (Inr kc)
    obtain k c1 where kc: "kc = (k, c1)" by force
    have "0 < tk_room t" using Suc.prems by simp
    from tk_put_abs [OF Suc.prems(1) this, of k "to_i32 i"] obtain t1 where
      t1: "tokenizer_table_put t k (to_i32 i) = Some t1" "tk_inv t1" "tk_room t \<le> tk_room t1 + 1"
      by blast
    with Suc.prems have "n \<le> tk_room t1" by simp
    note IH = Suc.IH [OF t1(2) this, of "i + 1" c1]
    then obtain r where r: "load_tokens n (i + 1) c1 t1 = Some r" by blast
    show ?thesis using Inr t1(1) r by (cases r) (auto simp: kc returns_def)
  qed
qed

lemma map_of_zip_upt:
  assumes "length ks = n" and "map_of (rev (zip ks (List.map int [0 ..< n]))) k = Some i"
  shows "0 \<le> i" and "nat i < n" and "ks ! nat i = k"
proof -
  from assms(2) have "(k, i) \<in> set (zip ks (List.map int [0 ..< n]))"
    by (auto dest!: map_of_SomeD)
  then obtain j where "j < n" "ks ! j = k" "i = int j"
    using assms(1) by (auto simp: set_zip)
  then show "0 \<le> i" and "nat i < n" and "ks ! nat i = k" by auto
qed

lemma map_of_zip_hit:
  assumes "length ks = length vs" and "k \<in> set ks"
  shows "map_of (rev (zip ks vs)) k \<noteq> None"
  using assms by (auto simp: map_of_eq_None_iff dest: map_fst_zip)
    (metis image_set map_fst_zip)

text \<open>A table filled with the keys in order finds exactly their positions.\<close>

lemma insert_tokens_ok:
  assumes init: "tokenizer_table_init n = Some t0" and n: "n \<le> 2147483647" and len: "length ks = n"
    and ins: "insert_all tokenizer_table_put t0 (zip ks (List.map int [0 ..< n])) = Some t"
  shows "tk_inv t" and "\<forall>k i. tk_abs t k = Some i \<longrightarrow> 0 \<le> i \<and> nat i < length ks \<and> ks ! nat i = k"
    and "\<forall>k \<in> set ks. tk_abs t k \<noteq> None"
proof -
  have "n \<le> 2 ^ 62 - 8" using n by simp
  from tk_init_inv [OF this] init have inv: "tk_inv t0" "\<And>k. tk_abs t0 k = None" "n \<le> tk_room t0"
    by (metis option.inject)+
  have room: "length (zip ks (List.map int [0 ..< n])) \<le> tk_room t0"
    using inv(3) len by simp
  from tk.insert_all_abs [OF inv(1) room] ins have
    t: "tk_inv t" "tk_abs t = tk_abs t0 ++ map_of (rev (zip ks (List.map int [0 ..< n])))"
    by auto
  then have abs: "tk_abs t = map_of (rev (zip ks (List.map int [0 ..< n])))"
    using inv(2) by (auto simp: map_add_def split: option.splits)
  show "tk_inv t" by (rule t(1))
  show "\<forall>k i. tk_abs t k = Some i \<longrightarrow> 0 \<le> i \<and> nat i < length ks \<and> ks ! nat i = k"
    using map_of_zip_upt [OF len] by (auto simp: abs len)
  show "\<forall>k \<in> set ks. tk_abs t k \<noteq> None"
    using map_of_zip_hit [of ks "List.map int [0 ..< n]"] len by (simp add: abs)
qed

lemma load_token_array_ok:
  assumes "load_token_array m = Some (Inr (ks, t))"
  shows "length ks \<le> 2147483647" and "tk_inv t" and "\<forall>k \<in> set ks. length k \<le> 255"
    and "\<forall>k i. tk_abs t k = Some i \<longrightarrow> 0 \<le> i \<and> nat i < length ks \<and> ks ! nat i = k"
    and "\<forall>k \<in> set ks. tk_abs t k \<noteq> None"
proof -
  obtain a where sa: "string_array m ''tokenizer.ggml.tokens'' = Some a"
    using assms by (cases "string_array m ''tokenizer.ggml.tokens''") (simp_all add: load_token_array_def)
  with assms obtain t0 where a: "ar_len a \<le> 2147483647"
    and t0: "tokenizer_table_init (ar_len a) = Some t0"
    and l: "load_tokens (ar_len a) 0 (cursor_at (m_map m) (m_size m) (ar_data_pos a)) t0 = Some (Inr (ks, t))"
    by (auto simp: load_token_array_def not_less split: if_splits)
  note ins = load_tokens_insert [OF l]
  have len: "length ks = ar_len a" and short: "\<forall>k \<in> set ks. length k \<le> 255" using ins by simp_all
  have "List.map to_i32 [0 ..< 0 + ar_len a] = List.map int [0 ..< ar_len a]" using a by auto
  with ins have all: "insert_all tokenizer_table_put t0 (zip ks (List.map int [0 ..< ar_len a])) = Some t"
    by metis
  note ok = insert_tokens_ok [OF t0 a len all]
  show "length ks \<le> 2147483647" using a len by simp
  show "tk_inv t" and "\<forall>k \<in> set ks. length k \<le> 255"
    and "\<forall>k i. tk_abs t k = Some i \<longrightarrow> 0 \<le> i \<and> nat i < length ks \<and> ks ! nat i = k"
    and "\<forall>k \<in> set ks. tk_abs t k \<noteq> None"
    by (fact ok short)+
qed

lemma load_token_array_returns: "load_token_array m \<noteq> None"
proof (cases "string_array m ''tokenizer.ggml.tokens''")
  case None
  then show ?thesis by (simp add: load_token_array_def)
next
  case (Some a)
  show ?thesis
  proof (cases "ar_len a > 2147483647")
    case True
    with Some show ?thesis by (simp add: load_token_array_def)
  next
    case False
    then have "ar_len a \<le> 2 ^ 62 - 8" by simp
    from tk_init_inv [OF this] obtain t where t: "tokenizer_table_init (ar_len a) = Some t"
      "tk_inv t" "ar_len a \<le> tk_room t" by metis
    from load_tokens_returns [OF t(2,3)] Some False t(1) show ?thesis
      by (simp add: load_token_array_def returns_def)
  qed
qed

text \<open>The merge list: below \<open>2 ^ 32\<close> entries its 32-bit counter does not wrap and the table
  keeps room for every entry.\<close>

lemma load_merges_ok:
  "i \<le> len \<Longrightarrow> len < 2 ^ 32 \<Longrightarrow> tk_inv t \<Longrightarrow> len - i \<le> tk_room t \<Longrightarrow>
   load_merges len i c t \<noteq> None
   \<and> (\<forall>t'. load_merges len i c t = Some (Inr t') \<longrightarrow> tk_inv t')"
proof (induction "len - i" arbitrary: i c t)
  case 0
  then show ?case by (simp add: load_merges.simps)
next
  case (Suc d)
  then have lt: "i < len" and room: "0 < tk_room t" by auto
  obtain k c1 where kc: "cursor_key c = (k, c1)" by force
  show ?case
  proof (cases k)
    case None
    with kc lt show ?thesis by (simp add: load_merges.simps)
  next
    case (Some key)
    from tk_put_abs [OF Suc.prems(3) room, of key "to_i32 i"] obtain t1 where
      t1: "tokenizer_table_put t key (to_i32 i) = Some t1" "tk_inv t1" "tk_room t \<le> tk_room t1 + 1"
      by blast
    have i: "(i + 1) mod 2 ^ 32 = i + 1" using lt Suc.prems(2) by simp
    have "load_merges len i c t = load_merges len (i + 1) c1 t1"
      using kc Some lt t1(1) i by (subst load_merges.simps) simp
    moreover have "len - (i + 1) \<le> tk_room t1" using Suc.prems(4) t1(3) by simp
    ultimately show ?thesis
      using Suc.hyps(1) [of "i + 1" t1 c1] Suc.hyps(2) Suc.prems(2) lt t1(2) by simp
  qed
qed

lemma load_merge_array_ok:
  assumes "ar_len a < 2 ^ 32"
  shows "load_merge_array m a \<noteq> None" and "load_merge_array m a = Some (Inr t) \<Longrightarrow> tk_inv t"
proof -
  have "ar_len a \<le> 2 ^ 62 - 8" using assms by simp
  from tk_init_inv [OF this] obtain t0 where t0: "tokenizer_table_init (ar_len a) = Some t0"
    "tk_inv t0" "ar_len a \<le> tk_room t0" by metis
  note l = load_merges_ok [OF _ assms t0(2), of 0]
  show "load_merge_array m a \<noteq> None" and "load_merge_array m a = Some (Inr t) \<Longrightarrow> tk_inv t"
    using l t0 by (auto simp: load_merge_array_def returns_def)
qed

lemma check_specials_Inr:
  "check_specials v = Some (Inr v') \<Longrightarrow> v' = load_markers v \<and> v_bos_id v \<noteq> -1 \<and> v_eos_id v \<noteq> -1"
  by (auto simp: check_specials_def split: if_splits)

lemma load_markers_sel [simp]:
  "v_token (load_markers v) = v_token v" "v_tokens (load_markers v) = v_tokens v"
  "v_merges (load_markers v) = v_merges v" "v_byte_token_ids (load_markers v) = v_byte_token_ids v"
  "v_scores (load_markers v) = v_scores v" "v_tokenizer_type (load_markers v) = v_tokenizer_type v"
  "v_bos_id (load_markers v) = v_bos_id v" "v_eos_id (load_markers v) = v_eos_id v"
  by (simp_all add: load_markers_def)

text \<open>A table filled from the token list makes a vocabulary well formed, whatever its
  other fields are.\<close>

lemma vocab_okI:
  assumes "load_token_array m = Some (Inr (ks, t))" and "v_token v = ks" and "v_tokens v = t"
    and "tk_inv (v_merges v) \<or> tt_cap (v_merges v) = 0"
    and "length (v_byte_token_ids v) = 256"
    and "\<forall>i \<in> set (v_byte_token_ids v). i = VOCAB_ID_NONE \<or> 0 \<le> i \<and> nat i < length ks"
  shows "vocab_ok v"
  using load_token_array_ok [OF assms(1)] assms(2-) by (simp add: vocab_ok_def v_n_vocab_def)

lemma vocab_load_for_bpe_ok:
  assumes load: "vocab_load_for_bpe m = Some (Inr v)"
    and merges: "\<And>a. string_array m ''tokenizer.ggml.merges'' = Some a \<Longrightarrow> ar_len a < 2 ^ 32"
  shows "vocab_ok v" and "v_byte_token_ids v = bpe_byte_table v"
    and "v_bos_id v \<noteq> -1" and "v_eos_id v \<noteq> -1" and "v_tokenizer_type v = TOKENIZER_TYPE_BPE"
proof -
  from load have "\<exists>mg ks t mt v1. string_array m ''tokenizer.ggml.merges'' = Some mg
      \<and> load_token_array m = Some (Inr (ks, t)) \<and> load_merge_array m mg = Some (Inr mt)
      \<and> check_specials (bpe_vocab m ks t mt) = Some (Inr v1)
      \<and> v = v1\<lparr>v_byte_token_ids := bpe_byte_table v1\<rparr>"
    by (auto simp: vocab_load_for_bpe_def split: option.splits if_splits)
  then obtain mg ks t mt v1 where mg: "string_array m ''tokenizer.ggml.merges'' = Some mg"
    and l: "load_token_array m = Some (Inr (ks, t))" and mt: "load_merge_array m mg = Some (Inr mt)"
    and c: "check_specials (bpe_vocab m ks t mt) = Some (Inr v1)"
    and v: "v = v1\<lparr>v_byte_token_ids := bpe_byte_table v1\<rparr>" by blast
  note c' = check_specials_Inr [OF c]
  have sel: "v_token v = ks" "v_tokens v = t" "v_merges v = mt" "v_token v1 = ks" "v_tokens v1 = t"
    "v_merges v1 = mt"
    using c' by (simp_all add: v bpe_vocab_def Let_def)
  have tk: "tk_inv t" using load_token_array_ok(2) [OF l] .
  have look: "vocab_lookup_len v1 s n = table_find t (take (n mod 256) s)" for s n
    by (simp add: vocab_lookup_len_def sel)
  have ids: "\<forall>i \<in> set (v_byte_token_ids v). i = VOCAB_ID_NONE \<or> 0 \<le> i \<and> nat i < length ks"
    using load_token_array_ok(4) [OF l]
    by (auto simp: v bpe_byte_table_def Let_def look table_find_inv [OF tk] split: option.splits)
  show "vocab_ok v"
    by (rule vocab_okI [OF l sel(1,2)])
      (use ids load_merge_array_ok(2) [OF merges [OF mg] mt] in \<open>simp_all add: sel v bpe_byte_table_def\<close>)
  show "v_byte_token_ids v = bpe_byte_table v"
    by (simp add: v bpe_byte_table_def vocab_lookup_len_def)
  show "v_bos_id v \<noteq> -1" and "v_eos_id v \<noteq> -1" and "v_tokenizer_type v = TOKENIZER_TYPE_BPE"
    using c' by (simp_all add: v bpe_vocab_def Let_def)
qed

definition ids_in :: "nat \<Rightarrow> int list \<Rightarrow> bool" where
  "ids_in n ids \<longleftrightarrow> length ids = 256 \<and> (\<forall>i \<in> set ids. i = VOCAB_ID_NONE \<or> 0 \<le> i \<and> nat i < n)"

lemma put_byte_token_in:
  "ids_in n ids \<Longrightarrow> i < n \<Longrightarrow> n \<le> 2147483647 \<Longrightarrow> ids_in n (put_byte_token k i ids)"
  by (auto simp: ids_in_def put_byte_token_def Let_def dest!: set_update_subset_insert [THEN subsetD])

lemma load_byte_types_in:
  "ids_in n ids \<Longrightarrow> i + length ks \<le> n \<Longrightarrow> n \<le> 2147483647 \<Longrightarrow> ids_in n (load_byte_types ks i c ids)"
proof (induction ks arbitrary: i c ids)
  case Nil
  then show ?case by simp
next
  case (Cons k ks)
  obtain x c1 where r: "cursor_i32 c = (x, c1)" by force
  show ?case
  proof (cases x)
    case None
    with r Cons.prems(1) show ?thesis by simp
  next
    case (Some t)
    let ?ids = "if t \<noteq> 6 then ids else put_byte_token k i ids"
    have "ids_in n ?ids" using Cons.prems put_byte_token_in by simp
    from Cons.IH [OF this, of "i + 1" c1] r Some Cons.prems show ?thesis by simp
  qed
qed

lemma load_byte_pieces_in:
  "ids_in n ids \<Longrightarrow> i + length ks \<le> n \<Longrightarrow> n \<le> 2147483647 \<Longrightarrow> ids_in n (load_byte_pieces ks i ids)"
proof (induction ks arbitrary: i ids)
  case (Cons k ks)
  from Cons.IH [OF put_byte_token_in [OF Cons.prems(1)], of i "i + 1" k] Cons.prems show ?case by simp
qed simp

lemma spm_byte_table_in:
  assumes "length ks \<le> 2147483647"
  shows "ids_in (length ks) (spm_byte_table m ks)"
proof -
  have "ids_in (length ks) (replicate 256 VOCAB_ID_NONE)" by (simp add: ids_in_def)
  from load_byte_types_in [OF this _ assms] load_byte_pieces_in [OF this _ assms] show ?thesis
    by (simp add: spm_byte_table_def Let_def split: option.splits)
qed

lemma vocab_load_for_spm_ok:
  assumes "vocab_load_for_spm fl m = Some (Inr v)"
  shows "vocab_ok v" and "v_tokenizer_type v = TOKENIZER_TYPE_SPM"
    and "\<And>sc. v_scores v = Some sc \<Longrightarrow> length sc = v_n_vocab v"
proof -
  from assms have "\<exists>ks t. load_token_array m = Some (Inr (ks, t)) \<and> check_specials (spm_vocab fl m ks t) = Some (Inr v)"
    by (auto simp: vocab_load_for_spm_def)
  then obtain ks t where l: "load_token_array m = Some (Inr (ks, t))"
    and c: "check_specials (spm_vocab fl m ks t) = Some (Inr v)" by blast
  note v = check_specials_Inr [OF c]
  have sel: "v_token v = ks" "v_tokens v = t" "v_merges v = empty_table"
    "v_byte_token_ids v = spm_byte_table m ks" "v_scores v = spm_scores fl m (length ks)"
    using v by (simp_all add: spm_vocab_def blank_vocab_def Let_def)
  show "vocab_ok v"
    by (rule vocab_okI [OF l sel(1,2)])
      (use spm_byte_table_in [OF load_token_array_ok(1) [OF l], of m] in
        \<open>simp_all add: sel ids_in_def empty_table_def\<close>)
  show "v_tokenizer_type v = TOKENIZER_TYPE_SPM"
    using v by (simp add: spm_vocab_def Let_def)
  have len: "length (load_scores fl n c) = n" for n c
    by (induction n arbitrary: c) (auto split: prod.splits option.splits)
  show "length sc = v_n_vocab v" if "v_scores v = Some sc" for sc
    using that by (auto simp: sel spm_scores_def v_n_vocab_def len split: option.splits if_splits)
qed


section \<open>A small vocabulary\<close>

lemma model_get_array_print:
  assumes "model_holds m kvl" and "map_of kvl k = Some (GArr t vs)"
    and "t < 2 ^ 32" and "length vs < 2 ^ 64"
  shows "\<exists>p. model_get_array m k = Some \<lparr>ar_type = t, ar_len = length vs, ar_data_pos = p\<rparr>
    \<and> ahead (cursor_at (m_map m) (m_size m) p) (concat (List.map gv_bytes vs))
    \<and> cursor_wf (cursor_at (m_map m) (m_size m) p)"
proof -
  from find_kv_print [OF _ assms(2)] assms(1) obtain e where
    e: "model_find_kv m k = Some e" "kv_describes (m_map m) e (k, GArr t vs)"
    by (auto simp: model_holds_def model_find_kv_def)
  let ?c = "cursor_at (m_map m) (m_size m) (kv_value_pos e)"
  have a: "ahead ?c (le_bytes 4 t @ le_bytes 8 (length vs) @ concat (List.map gv_bytes vs))" and ty: "kv_type e = 9"
    using e(2) assms(1) by (simp_all add: kv_describes_def model_holds_def)
  have "kv_value_pos e \<le> length (m_map m)" by (rule ahead_pos [OF a]) simp
  then have wf: "cursor_wf ?c" using assms(1) by (simp add: model_holds_def cursor_at_wf)
  note 1 = u32_fmt.then_print [OF wf assms(3) a]
  note 2 = u64_fmt.then_print [OF 1(3) assms(4) 1(2)]
  let ?p = "kv_value_pos e + 12"
  have "ahead (cursor_at (m_map m) (m_size m) ?p) (concat (List.map gv_bytes vs))"
    "cursor_wf (cursor_at (m_map m) (m_size m) ?p)"
    using 2(2,3) by (simp_all add: ahead_def cursor_at_def cursor_wf_def add.assoc)
  moreover have "model_get_array m k = Some \<lparr>ar_type = t, ar_len = length vs, ar_data_pos = ?p\<rparr>"
    using e(1) ty 1(1) 2(1) by (simp add: model_get_array_def cursor_at_def)
  ultimately show ?thesis by blast
qed

definition holding_model :: "(bytes \<times> gvalue) list \<Rightarrow> model" where
  "holding_model kvl =
     (let img = concat (List.map kv_print kvl) in
      \<lparr>m_size = length img, m_map = img, m_version = 3, m_n_kv = length kvl, m_n_tensor = 0,
       m_alignment = 32, m_arch = ARCH_UNKNOWN, m_arch_name = [], m_kv = kv_entries 0 kvl, m_tensor = []\<rparr>)"

lemma holding_model_holds:
  assumes "\<forall>kv \<in> set kvl. kv_valid kv" and "length (concat (List.map kv_print kvl)) < 2 ^ 63"
  shows "model_holds (holding_model kvl) kvl"
proof -
  let ?img = "concat (List.map kv_print kvl)"
  have "cursor_wf (cursor_at ?img (length ?img) 0)" using assms(2) by (intro cursor_at_wf) auto
  moreover have "ahead (cursor_at ?img (length ?img) 0) (?img @ [])"
    by (simp add: ahead_def cursor_at_def)
  ultimately have "list_all2 (kv_describes ?img) (kv_entries 0 kvl) kvl"
    using kv_load_print(2) [OF _ assms(1), of "cursor_at ?img (length ?img) 0" "[]"]
    by (simp add: cursor_at_def)
  with assms(2) show ?thesis by (simp add: model_holds_def holding_model_def Let_def)
qed

definition tiny_kvs :: "(bytes \<times> gvalue) list" where
  "tiny_kvs = [(''tokenizer.ggml.model'', GStr ''gpt2''),
     (''tokenizer.ggml.tokens'', GArr 8 [GStr ''a'', GStr ''b'', GStr ''ab'']),
     (''tokenizer.ggml.merges'', GArr 8 [GStr ''a b'']),
     (''tokenizer.ggml.bos_token_id'', GFixed 4 (le_bytes 4 0)),
     (''tokenizer.ggml.eos_token_id'', GFixed 4 (le_bytes 4 1))]"

lemma tiny_holds: "model_holds (holding_model tiny_kvs) tiny_kvs"
  by (rule holding_model_holds)
    (simp_all add: tiny_kvs_def kv_valid_def gguf_fixed_size_def kv_print_def key_bytes_def)


end
