(* ===== verification/Tokenizer.thy ===== *)
theory Tokenizer
  imports Vocab
begin

text \<open>
  The text encoders of src/src/tokenizer.c (GPT-2 style BPE and SentencePiece) and the
  byte-level decoder of src/src/model/llama.c that inverts the BPE byte mapping.  A C
  buffer with its length is a byte list; the position \<open>text + pos\<close> with \<open>text_len - pos\<close>
  bytes left is the suffix that remains.  Output buffers are lists that the caller's
  capacity cuts.
\<close>

section \<open>Pre-tokenizer\<close>

definition char_category :: "char \<Rightarrow> nat" where
  "char_category c =
     (let uc = code c in
      if uc \<ge> 0x80 then 1
      else if (65 \<le> uc \<and> uc \<le> 90) \<or> (97 \<le> uc \<and> uc \<le> 122) then 1
      else if 48 \<le> uc \<and> uc \<le> 57 then 2
      else if uc = 32 \<or> (9 \<le> uc \<and> uc \<le> 13) then 3
      else 4)"

text \<open>The longest vocabulary piece of 2 to 64 bytes at the text, when it starts with \<open><|\<close>:
  the loop keeps the last hit.\<close>

fun match_special_from :: "'f vocab \<Rightarrow> bytes \<Rightarrow> nat list \<Rightarrow> (int \<times> nat) option \<Rightarrow> (int \<times> nat) option" where
  "match_special_from v text [] best = best"
| "match_special_from v text (len # lens) best =
     match_special_from v text lens
       (case vocab_lookup_len v text len of Some i \<Rightarrow> Some (i, len) | None \<Rightarrow> best)"

definition match_special_token :: "'f vocab \<Rightarrow> bytes \<Rightarrow> (int \<times> nat) option" where
  "match_special_token v text =
     (if length text < 3 then None
      else if text ! 0 \<noteq> CHR ''<'' \<or> text ! 1 \<noteq> CHR ''|'' then None
      else match_special_from v text [2 ..< Suc (min (length text) 64)] None)"

definition contraction_len :: "bytes \<Rightarrow> nat" where
  "contraction_len s =
     (if s ! 0 = CHR 0x27 \<and> 1 < length s
      then (let nxt = s ! 1 in
            if nxt = CHR ''s'' \<or> nxt = CHR ''t'' \<or> nxt = CHR ''m'' \<or> nxt = CHR ''d'' then 2
            else if (nxt = CHR ''r'' \<or> nxt = CHR ''v'') \<and> 2 < length s \<and> s ! 2 = CHR ''e'' then 3
            else if nxt = CHR ''l'' \<and> 2 < length s \<and> s ! 2 = CHR ''l'' then 3
            else 0)
      else 0)"

definition category_run :: "bytes \<Rightarrow> nat" where
  "category_run s =
     (let cat = char_category (hd s) in
      if cat = 1 then length (takeWhile (\<lambda>c. char_category c = 1) s)
      else if cat = 2 then length (takeWhile (\<lambda>c. char_category c = 2) s)
      else length (takeWhile (\<lambda>c. char_category c = 4) s))"

text \<open>Length of the next chunk at a non-empty text: a contraction, a whitespace run (unless
  it is one blank before something else), or a run of one category with the optional
  blank before it.\<close>

definition pretoken_len :: "bytes \<Rightarrow> nat" where
  "pretoken_len s =
     (if contraction_len s > 0 then contraction_len s
      else let ws_len = length (takeWhile (\<lambda>c. char_category c = 3) s) in
        if char_category (hd s) = 3
        then (if ws_len \<noteq> 1 \<or> ws_len \<ge> length s then ws_len else 1 + category_run (tl s))
        else category_run s)"

section \<open>BPE\<close>

text \<open>The symbols of a chunk: the byte tokens that exist, at most 512.\<close>

definition bpe_symbols :: "'f vocab \<Rightarrow> bytes \<Rightarrow> int list" where
  "bpe_symbols v chunk =
     take 512 (filter (\<lambda>i. i \<ge> 0) (List.map (\<lambda>c. v_byte_token_ids v ! code c) chunk))"

text \<open>One scan over the pairs: the leftmost pair of least non-negative rank.\<close>

fun bpe_best :: "'f vocab \<Rightarrow> int list \<Rightarrow> nat \<Rightarrow> int \<times> int \<Rightarrow> int \<times> int" where
  "bpe_best v (a # b # syms) i (best_rank, best_idx) =
     (let rank = vocab_merge_rank v a b in
      bpe_best v (b # syms) (i + 1)
        (if rank \<ge> 0 \<and> rank < best_rank then (rank, int i) else (best_rank, best_idx)))"
| "bpe_best v _ i best = best"

lemma bpe_best_range:
  "snd (bpe_best v syms i (r, b)) = b
   \<or> int i \<le> snd (bpe_best v syms i (r, b)) \<and> snd (bpe_best v syms i (r, b)) + 1 < int (i + length syms)"
proof (induction v syms i "(r, b)" arbitrary: r b rule: bpe_best.induct)
  case (1 v a c syms i r b)
  let ?p = "if 0 \<le> vocab_merge_rank v a c \<and> vocab_merge_rank v a c < r
      then (vocab_merge_rank v a c, int i) else (r, b)"
  have "snd (bpe_best v (c # syms) (i + 1) ?p) = snd ?p
      \<or> int (i + 1) \<le> snd (bpe_best v (c # syms) (i + 1) ?p)
        \<and> snd (bpe_best v (c # syms) (i + 1) ?p) + 1 < int (i + 1 + length (c # syms))"
    using "1.hyps" [OF refl, of "fst ?p" "snd ?p"] by simp
  then show ?case by (auto simp: Let_def)
qed auto

function (sequential) bpe_merge :: "'f vocab \<Rightarrow> int list \<Rightarrow> int list" where
  "bpe_merge v syms =
     (if length syms \<le> 1 then syms
      else let best_idx = snd (bpe_best v syms 0 (2147483647, -1)) in
        if best_idx < 0 then syms
        else let i = nat best_idx; merged = vocab_merge_result v (syms ! i) (syms ! (i + 1)) in
          if merged = VOCAB_ID_NONE then syms
          else bpe_merge v (take i syms @ merged # drop (i + 2) syms))"
  by pat_completeness auto
termination
proof (relation "measure (\<lambda>(v, syms). length syms)")
  fix v :: "'f vocab" and syms x i xa
  assume "\<not> length syms \<le> 1" and x: "x = snd (bpe_best v syms 0 (2147483647, -1))"
    and "\<not> x < 0" and i: "i = nat x"
  then have "i + 1 < length syms"
    using bpe_best_range [of v syms 0 2147483647 "-1"] by auto
  then show "((v, take i syms @ xa # drop (i + 2) syms), (v, syms)) \<in> measure (\<lambda>(v, syms). length syms)"
    by simp
qed simp

declare bpe_merge.simps [simp del]

definition bpe_encode_chunk :: "'f vocab \<Rightarrow> bytes \<Rightarrow> nat \<Rightarrow> int list" where
  "bpe_encode_chunk v chunk max_out = take max_out (bpe_merge v (bpe_symbols v chunk))"

definition special_here :: "'f vocab \<Rightarrow> bytes \<Rightarrow> (int \<times> nat) option" where
  "special_here v s =
     (case match_special_token v s of
        None \<Rightarrow> None | Some (i, len) \<Rightarrow> if i \<ge> 0 then Some (i, len) else None)"

lemma match_special_from_len:
  "match_special_from v text lens best = Some (i, len) \<Longrightarrow> best = Some (i, len) \<or> len \<in> set lens
     \<and> vocab_lookup_len v text len = Some i"
proof (induction lens arbitrary: best)
  case Nil
  then show ?case by simp
next
  case (Cons l lens)
  show ?case
  proof (cases "vocab_lookup_len v text l")
    case None
    with Cons.IH Cons.prems show ?thesis by auto
  next
    case (Some j)
    with Cons.IH [of "Some (j, l)"] Cons.prems show ?thesis by auto
  qed
qed

lemma match_special_token_Some:
  assumes "match_special_token v text = Some (i, len)"
  shows "2 \<le> len" and "len \<le> length text" and "len \<le> 64" and "vocab_lookup_len v text len = Some i"
    and "take 2 text = ''<|''"
proof -
  from assms have s: "3 \<le> length text" "text ! 0 = CHR ''<''" "text ! 1 = CHR ''|''"
    and m: "match_special_from v text [2 ..< Suc (min (length text) 64)] None = Some (i, len)"
    by (auto simp: match_special_token_def split: if_splits)
  from match_special_from_len [OF m] show "2 \<le> len" and "len \<le> length text" and "len \<le> 64"
    and "vocab_lookup_len v text len = Some i" by auto
  from s(1) obtain a b t where "text = a # b # t"
    by (metis Suc_le_length_iff numeral_3_eq_3)
  with s show "take 2 text = ''<|''" by simp
qed

lemma category_run_pos:
  "s \<noteq> [] \<Longrightarrow> char_category (hd s) \<noteq> 3 \<Longrightarrow> 0 < category_run s"
  by (cases s) (auto simp: category_run_def char_category_def Let_def)

lemma category_run_le: "category_run s \<le> length s"
  by (simp add: category_run_def Let_def length_takeWhile_le)

lemma contraction_len_le: "contraction_len s \<le> length s"
  by (simp add: contraction_len_def Let_def)

lemma takeWhile_one:
  assumes "s \<noteq> []" and "length (takeWhile P s) = 1" and "1 < length s"
  shows "\<not> P (hd (tl s))"
proof -
  from assms obtain a b t where s: "s = a # b # t"
    by (metis One_nat_def length_Cons length_greater_0_conv list.exhaust list.size(3) nat_less_le)
  with assms(2) show ?thesis by (auto split: if_splits)
qed

lemma pretoken_len_pos:
  assumes "s \<noteq> []"
  shows "0 < pretoken_len s"
proof -
  have "0 < length (takeWhile (\<lambda>c. char_category c = 3) s)" if "char_category (hd s) = 3"
    using that assms by (cases s) auto
  then show ?thesis
    using category_run_pos [OF assms] by (auto simp: pretoken_len_def Let_def)
qed

lemma pretoken_len_le:
  assumes "s \<noteq> []"
  shows "pretoken_len s \<le> length s"
proof -
  have "1 + category_run (tl s) \<le> length s"
    using assms category_run_le [of "tl s"] by (cases s) auto
  then show ?thesis
    using category_run_le [of s] contraction_len_le [of s]
    by (auto simp: pretoken_len_def Let_def length_takeWhile_le)
qed

function (sequential) tokenize_bpe_from :: "'f vocab \<Rightarrow> bytes \<Rightarrow> int list \<Rightarrow> int list" where
  "tokenize_bpe_from v s symbols =
     (if s = [] \<or> length symbols \<ge> 4096 then symbols
      else case special_here v s of
        Some (sid, slen) \<Rightarrow>
          tokenize_bpe_from v (drop slen s) (symbols @ [sid])
      | None \<Rightarrow>
          let len = pretoken_len s in
          tokenize_bpe_from v (drop len s)
            (symbols @ bpe_encode_chunk v (take len s) (4096 - length symbols)))"
  by pat_completeness auto
termination
proof (relation "measure (\<lambda>(v, s, symbols). length s)")
  fix v :: "'f vocab" and s and symbols :: "int list" and x sid slen
  assume s: "\<not> (s = [] \<or> length symbols \<ge> 4096)" and "special_here v s = Some x"
    and "(sid, slen) = x"
  then have "2 \<le> slen"
    using match_special_token_Some(1) [of v s sid slen]
    by (auto simp: special_here_def split: option.splits if_splits)
  with s show "((v, drop slen s, symbols @ [sid]), v, s, symbols)
      \<in> measure (\<lambda>(v, s, symbols). length s)" by auto
next
  fix v :: "'f vocab" and s and symbols :: "int list" and x
  assume s: "\<not> (s = [] \<or> length symbols \<ge> 4096)" and x: "x = pretoken_len s"
  then show "((v, drop x s, symbols @ bpe_encode_chunk v (take x s) (4096 - length symbols)), v, s, symbols)
      \<in> measure (\<lambda>(v, s, symbols). length s)"
    using pretoken_len_pos [of s] by auto
qed simp

declare tokenize_bpe_from.simps [simp del]

definition tokenize_bpe :: "'f vocab \<Rightarrow> bytes \<Rightarrow> nat \<Rightarrow> int list" where
  "tokenize_bpe v text max_tokens = take max_tokens (tokenize_bpe_from v text [])"

section \<open>SentencePiece\<close>

definition utf8_char_len :: "char \<Rightarrow> nat" where
  "utf8_char_len c =
     (let u = code c in
      if u < 0x80 then 1
      else if u AND 0xE0 = 0xC0 then 2
      else if u AND 0xF0 = 0xE0 then 3
      else if u AND 0xF8 = 0xF0 then 4
      else 1)"

definition spm_normalize :: "bytes \<Rightarrow> bool \<Rightarrow> bytes" where
  "spm_normalize text add_prefix_space =
     (if add_prefix_space then lower_block else [])
     @ concat (List.map (\<lambda>c. if c = CHR '' '' then lower_block else [c]) text)"

lemma utf8_char_len_pos [simp]: "0 < utf8_char_len c"
  by (simp add: utf8_char_len_def Let_def)

fun spm_split :: "bytes \<Rightarrow> bytes list" where
  "spm_split [] = []"
| "spm_split (c # s) =
     (let cl = utf8_char_len c; cl' = (if cl > length (c # s) then 1 else cl) in
      take cl' (c # s) # spm_split (drop (cl' - 1) s))"

text \<open>The scan over the live symbols: the best pair so far with its score.\<close>

fun spm_best :: "('f::ord) vocab \<Rightarrow> 'f list \<Rightarrow> bytes list \<Rightarrow> nat \<Rightarrow> (nat \<times> 'f) option \<Rightarrow> (nat \<times> 'f) option" where
  "spm_best v scores (a # b # syms) i best =
     spm_best v scores (b # syms) (i + 1)
       (let len = length a + length b in
        if len > 255 then best
        else case vocab_lookup_len v (a @ b) len of
               None \<Rightarrow> best
             | Some id' \<Rightarrow>
                 if nat (id' mod 2 ^ 32) \<ge> v_n_vocab v then best
                 else let sc = scores ! nat id' in
                   (case best of
                      None \<Rightarrow> Some (i, sc)
                    | Some (bi, bs) \<Rightarrow>
                        if sc > bs \<or> (sc = bs \<and> i < bi) then Some (i, sc) else best))"
| "spm_best v scores _ i best = best"

lemma spm_best_range:
  "spm_best v scores syms i best = Some (j, s) \<Longrightarrow>
   best = Some (j, s) \<or> i \<le> j \<and> j + 1 < i + length syms"
proof (induction v scores syms i best rule: spm_best.induct)
  case (1 v scores a b syms i best)
  from "1.IH" "1.prems" show ?case
    by (auto simp: Let_def split: if_splits option.splits)
qed auto

function (sequential) spm_merge :: "('f::ord) vocab \<Rightarrow> 'f list \<Rightarrow> bytes list \<Rightarrow> bytes list" where
  "spm_merge v scores syms =
     (case spm_best v scores syms 0 None of
        None \<Rightarrow> syms
      | Some (best, _) \<Rightarrow>
          spm_merge v scores (take best syms @ (syms ! best @ syms ! (best + 1)) # drop (best + 2) syms))"
  by pat_completeness auto
termination
proof (relation "measure (\<lambda>(v, scores, syms). length syms)")
  fix v :: "('f::ord) vocab" and scores syms x best s
  assume "spm_best v scores syms 0 None = Some x" and "(best, s) = x"
  then have "best + 1 < length syms" using spm_best_range [of v scores syms 0 None best s] by auto
  then show "((v, scores, take best syms @ (syms ! best @ syms ! (best + 1)) # drop (best + 2) syms), v, scores, syms)
      \<in> measure (\<lambda>(v, scores, syms). length syms)" by simp
qed simp

declare spm_merge.simps [simp del]

definition spm_emit :: "'f vocab \<Rightarrow> bytes list \<Rightarrow> int list" where
  "spm_emit v syms =
     concat (List.map (\<lambda>s.
       if s = [] then []
       else case vocab_lookup_len v s (length s) of
              Some i \<Rightarrow> [i]
            | None \<Rightarrow> filter (\<lambda>i. i \<ge> 0) (List.map (\<lambda>c. v_byte_token_ids v ! code c) s)) syms)"

definition tokenize_spm :: "('f::ord) vocab \<Rightarrow> bytes \<Rightarrow> nat \<Rightarrow> bool \<Rightarrow> int list" where
  "tokenize_spm v text max_tokens add_prefix_space =
     (case v_scores v of
        None \<Rightarrow> tokenize_bpe v text max_tokens
      | Some scores \<Rightarrow>
          take max_tokens (spm_emit v (spm_merge v scores (spm_split (spm_normalize text add_prefix_space)))))"

definition tokenize :: "('f::ord) vocab \<Rightarrow> bytes \<Rightarrow> nat \<Rightarrow> int list" where
  "tokenize v text max_tokens =
     (if v_tokenizer_type v = TOKENIZER_TYPE_SPM then tokenize_spm v text max_tokens True
      else tokenize_bpe v text max_tokens)"

section \<open>Byte-level decoder\<close>

text \<open>\<open>byte\<close> for a two-byte mapped code point, or None.\<close>

definition decode_pair :: "char \<Rightarrow> char \<Rightarrow> nat option" where
  "decode_pair c1 c2 =
     (let c = code c1; nc = code c2 in
      if 0x80 \<le> nc \<and> nc \<le> 0xBF
      then (if c = 0xC2 then Some nc
            else if c = 0xC3 then Some (nc + 0x40)
            else if c = 0xC4 then
              (if nc \<le> 0xA0 then Some (nc - 0x80)
               else if nc = 0xA1 then Some 0x7F
               else Some (nc - 0x22))
            else if c = 0xC5 then
              (if nc = 0x80 then Some 0x9E
               else if nc = 0x81 then Some 0x9F
               else if nc = 0x82 then Some 0xA0
               else if nc = 0x83 then Some 0xAD
               else None)
            else None)
      else None)"

fun llama_decode :: "bytes \<Rightarrow> nat \<Rightarrow> bytes" where
  "llama_decode [] max_len = []"
| "llama_decode raw 0 = []"
| "llama_decode [c] (Suc n) = [c]"
| "llama_decode (c # c2 # raw) (Suc n) =
     (if 0x21 \<le> code c \<and> code c \<le> 0x7E then c # llama_decode (c2 # raw) n
      else if 0xC2 \<le> code c \<and> code c \<le> 0xC5
      then (case decode_pair c c2 of
              Some b \<Rightarrow> char_of b # llama_decode raw n
            | None \<Rightarrow> c # llama_decode (c2 # raw) n)
      else c # llama_decode (c2 # raw) n)"

section \<open>Byte pieces decode to their bytes\<close>

definition bpe_spell :: "bytes \<Rightarrow> bytes" where
  "bpe_spell bs = concat (List.map (\<lambda>c. bpe_byte_piece (code c)) bs)"

text \<open>The counting loop in closed form.\<close>

definition mapped_codepoint :: "nat \<Rightarrow> nat" where
  "mapped_codepoint b =
     (if b \<le> 32 then 256 + b else if b \<le> 126 then b else if b = 127 then 289
      else if b \<le> 160 then 162 + b else if b = 173 then 323 else b)"

lemma count_non_self:
  "b \<le> 256 \<Longrightarrow> length (filter (\<lambda>i. \<not> bpe_is_self i) [0 ..< b]) =
     (if b \<le> 33 then b else if b \<le> 127 then 33 else if b \<le> 161 then b - 94
      else if b \<le> 173 then 67 else 68)"
proof (induction b)
  case 0
  then show ?case by simp
next
  case (Suc b)
  then have IH: "length (filter (\<lambda>i. \<not> bpe_is_self i) [0 ..< b]) =
     (if b \<le> 33 then b else if b \<le> 127 then 33 else if b \<le> 161 then b - 94
      else if b \<le> 173 then 67 else 68)" by simp
  have "length (filter (\<lambda>i. \<not> bpe_is_self i) [0 ..< Suc b])
      = length (filter (\<lambda>i. \<not> bpe_is_self i) [0 ..< b]) + (if bpe_is_self b then 0 else 1)" by simp
  then show ?case unfolding IH using Suc.prems by (auto simp: bpe_is_self_def)
qed

lemma bpe_codepoint_closed: "b < 256 \<Longrightarrow> bpe_codepoint b = mapped_codepoint b"
  unfolding bpe_codepoint_def mapped_codepoint_def
  by (subst count_non_self, simp) (auto simp: bpe_is_self_def)

definition piece_decodes :: "nat \<Rightarrow> bool" where
  "piece_decodes b \<longleftrightarrow>
     (case utf8_encode (mapped_codepoint b) of
        [c] \<Rightarrow> 0x21 \<le> code c \<and> code c \<le> 0x7E \<and> code c = b
      | [c1, c2] \<Rightarrow> 0xC2 \<le> code c1 \<and> code c1 \<le> 0xC5 \<and> decode_pair c1 c2 = Some b
      | _ \<Rightarrow> False)"

lemma pieces_decode:
  "list_all piece_decodes [0 ..< 64]" "list_all piece_decodes [64 ..< 128]"
  "list_all piece_decodes [128 ..< 192]" "list_all piece_decodes [192 ..< 256]"
  by code_simp+

lemma bpe_byte_piece_cases:
  assumes "b < 256"
  shows "(\<exists>c. bpe_byte_piece b = [c] \<and> 0x21 \<le> code c \<and> code c \<le> 0x7E \<and> code c = b)
   \<or> (\<exists>c1 c2. bpe_byte_piece b = [c1, c2] \<and> 0xC2 \<le> code c1 \<and> code c1 \<le> 0xC5 \<and> decode_pair c1 c2 = Some b)"
proof -
  have "b \<in> set [0 ..< 64] \<or> b \<in> set [64 ..< 128] \<or> b \<in> set [128 ..< 192] \<or> b \<in> set [192 ..< 256]"
    using assms unfolding set_upt atLeastLessThan_iff by linarith
  then have "piece_decodes b" using pieces_decode unfolding list_all_iff by blast
  then show ?thesis
    by (auto simp: piece_decodes_def bpe_byte_piece_def bpe_codepoint_closed [OF assms] split: list.splits)
qed

lemma llama_decode_piece:
  "llama_decode (bpe_byte_piece (code c) @ rest) (Suc n) = c # llama_decode rest n"
proof -
  have c: "(char_of (code c) :: char) = c" by simp
  consider (self) x where "bpe_byte_piece (code c) = [x]" "0x21 \<le> code x" "code x \<le> 0x7E" "code x = code c"
    | (pair) c1 c2 where "bpe_byte_piece (code c) = [c1, c2]" "0xC2 \<le> code c1" "code c1 \<le> 0xC5"
        "decode_pair c1 c2 = Some (code c)"
    using bpe_byte_piece_cases [of "code c"] nat_of_char_less_256 by blast
  then show ?thesis
  proof cases
    case self
    then have "x = c" by (simp add: of_char_eq_iff)
    with self show ?thesis by (cases rest) auto
  next
    case pair
    then show ?thesis using c by simp
  qed
qed

lemma llama_decode_spell: "llama_decode (bpe_spell bs) n = take n bs"
proof (induction bs arbitrary: n)
  case Nil
  then show ?case by (simp add: bpe_spell_def)
next
  case (Cons c bs)
  show ?case
  proof (cases n)
    case 0
    then show ?thesis
      by (cases "bpe_spell (c # bs)") simp_all
  next
    case (Suc m)
    have "bpe_spell (c # bs) = bpe_byte_piece (code c) @ bpe_spell bs" by (simp add: bpe_spell_def)
    with Suc Cons.IH [of m] llama_decode_piece show ?thesis by simp
  qed
qed

lemma bpe_byte_piece_nonempty [simp]: "bpe_byte_piece (code c) \<noteq> []"
  using bpe_byte_piece_cases [of "code c"] nat_of_char_less_256 [of c] by auto

lemma length_bpe_spell: "length bs \<le> length (bpe_spell bs)"
proof (induction bs)
  case (Cons c bs)
  have "1 \<le> length (bpe_byte_piece (code c))"
    by (cases "bpe_byte_piece (code c)") auto
  with Cons show ?case by (simp add: bpe_spell_def)
qed simp

lemma bpe_spell_self:
  "\<forall>c \<in> set s. 33 \<le> code c \<and> code c \<le> 126 \<Longrightarrow> bpe_spell s = s"
proof (induction s)
  case Nil
  then show ?case by (simp add: bpe_spell_def)
next
  case (Cons c s)
  have "bpe_codepoint (code c) = code c" using Cons.prems by (simp add: bpe_codepoint_def bpe_is_self_def)
  then have "bpe_byte_piece (code c) = [c]"
    using Cons.prems by (simp add: bpe_byte_piece_def utf8_encode_def)
  with Cons show ?case by (simp add: bpe_spell_def)
qed

section \<open>What a token list spells\<close>

text \<open>\<open>spells v ids text\<close>: every id is a token, and the pieces are the byte-level
  spellings of consecutive parts of the text.\<close>

definition spells_token :: "'f vocab \<Rightarrow> int \<Rightarrow> bytes \<Rightarrow> bool" where
  "spells_token v i bs \<longleftrightarrow> 0 \<le> i \<and> nat i < v_n_vocab v \<and> v_token v ! nat i = bpe_spell bs"

definition spells :: "'f vocab \<Rightarrow> int list \<Rightarrow> bytes \<Rightarrow> bool" where
  "spells v ids text \<longleftrightarrow> (\<exists>bss. list_all2 (spells_token v) ids bss \<and> concat bss = text)"

lemma spells_Nil [simp]: "spells v [] text \<longleftrightarrow> text = []"
  by (auto simp: spells_def)

lemma spells_append: "spells v a s \<Longrightarrow> spells v b t \<Longrightarrow> spells v (a @ b) (s @ t)"
  unfolding spells_def by (metis concat_append list_all2_appendI)

lemma spells_single: "spells_token v i s \<Longrightarrow> spells v [i] s"
  unfolding spells_def by (intro exI [of _ "[s]"]) simp

lemma spells_token_append:
  "bpe_spell (a @ b) = bpe_spell a @ bpe_spell b"
  by (simp add: bpe_spell_def)

lemma spells_merge:
  assumes ok: "vocab_ok v" and s: "spells v syms text" and i: "i + 1 < length syms"
    and m: "vocab_merge_result v (syms ! i) (syms ! (i + 1)) = r" "r \<noteq> VOCAB_ID_NONE"
  shows "spells v (take i syms @ r # drop (i + 2) syms) text"
proof -
  from s obtain bss where bss: "list_all2 (spells_token v) syms bss" "concat bss = text"
    by (auto simp: spells_def)
  have len: "length bss = length syms" using bss(1) by (simp add: list_all2_lengthD)
  let ?x = "bss ! i @ bss ! (i + 1)"
  have split: "bss = take i bss @ bss ! i # bss ! (i + 1) # drop (i + 2) bss"
    using i len by (metis Cons_nth_drop_Suc Suc_1 Suc_eq_plus1 add_Suc_right add_lessD1 id_take_nth_drop)
  have ti: "spells_token v (syms ! i) (bss ! i)" "spells_token v (syms ! (i + 1)) (bss ! (i + 1))"
    using bss(1) i by (auto simp: list_all2_conv_all_nth)
  note t = vocab_merge_result_text [OF ok m]
  have "spells_token v r ?x"
    using t ti by (simp add: spells_token_def spells_token_append)
  then have "list_all2 (spells_token v) (take i syms @ r # drop (i + 2) syms) (take i bss @ ?x # drop (i + 2) bss)"
    using bss(1) by (intro list_all2_appendI) (auto simp: list_all2_takeI list_all2_dropI)
  moreover have "concat (take i bss @ ?x # drop (i + 2) bss) = text"
    using arg_cong [OF split, of concat] bss(2) by simp
  ultimately show ?thesis unfolding spells_def by blast
qed

lemma bpe_merge_step:
  assumes "\<not> length syms \<le> 1" and "\<not> snd (bpe_best v syms 0 (2147483647, -1)) < 0"
    and "vocab_merge_result v (syms ! nat (snd (bpe_best v syms 0 (2147483647, -1))))
           (syms ! (nat (snd (bpe_best v syms 0 (2147483647, -1))) + 1)) = r"
    and "r \<noteq> VOCAB_ID_NONE"
  defines "i \<equiv> nat (snd (bpe_best v syms 0 (2147483647, -1)))"
  shows "bpe_merge v syms = bpe_merge v (take i syms @ r # drop (i + 2) syms)"
    and "i + 1 < length syms"
proof -
  show "i + 1 < length syms"
    using assms(1,2) bpe_best_range [of v syms 0 2147483647 "-1"] by (auto simp: i_def)
  show "bpe_merge v syms = bpe_merge v (take i syms @ r # drop (i + 2) syms)"
    using assms by (subst bpe_merge.simps) (simp add: Let_def i_def)
qed

lemma bpe_merge_stop:
  assumes "length syms \<le> 1 \<or> snd (bpe_best v syms 0 (2147483647, -1)) < 0
    \<or> vocab_merge_result v (syms ! nat (snd (bpe_best v syms 0 (2147483647, -1))))
           (syms ! (nat (snd (bpe_best v syms 0 (2147483647, -1))) + 1)) = VOCAB_ID_NONE"
  shows "bpe_merge v syms = syms"
  using assms by (subst bpe_merge.simps) (auto simp: Let_def)

text \<open>Merging never changes what is spelled, and never lengthens the list.\<close>

lemma bpe_merge_spells:
  assumes ok: "vocab_ok v"
  shows "spells v syms text \<Longrightarrow> spells v (bpe_merge v syms) text \<and> length (bpe_merge v syms) \<le> length syms"
proof (induction "length syms" arbitrary: syms rule: less_induct)
  case less
  let ?x = "snd (bpe_best v syms 0 (2147483647, -1))"
  let ?r = "vocab_merge_result v (syms ! nat ?x) (syms ! (nat ?x + 1))"
  show ?case
  proof (cases "length syms \<le> 1 \<or> ?x < 0 \<or> ?r = VOCAB_ID_NONE")
    case True
    from bpe_merge_stop [OF True] less.prems show ?thesis by simp
  next
    case False
    then have c: "\<not> length syms \<le> 1" "\<not> ?x < 0" "?r \<noteq> VOCAB_ID_NONE" by auto
    note step = bpe_merge_step [OF c(1,2) refl c(3)]
    let ?s = "take (nat ?x) syms @ ?r # drop (nat ?x + 2) syms"
    have sp: "spells v ?s text" by (rule spells_merge [OF ok less.prems step(2) refl c(3)])
    have len: "length ?s < length syms" using step(2) by simp
    from less.hyps [OF len sp] have h: "spells v (bpe_merge v ?s) text"
      "length (bpe_merge v ?s) \<le> length ?s" by blast+
    have "length (bpe_merge v ?s) \<le> length syms" using h(2) len by linarith
    with h(1) show ?thesis by (simp only: step(1))
  qed
qed

section \<open>Encoding a text\<close>

text \<open>All 256 byte tokens are in the vocabulary.\<close>

definition byte_complete :: "'f vocab \<Rightarrow> bool" where
  "byte_complete v \<longleftrightarrow> (\<forall>b < 256. v_byte_token_ids v ! b \<ge> 0)"

lemma byte_token_spells:
  assumes "vocab_ok v" and "v_byte_token_ids v = bpe_byte_table v" and "byte_complete v"
  shows "spells_token v (v_byte_token_ids v ! code c) [c]"
proof -
  let ?p = "bpe_byte_piece (code c)"
  have b: "code c < 256" by (rule nat_of_char_less_256)
  have len: "length ?p \<le> 2" using bpe_byte_piece_cases [OF b] by auto
  have "v_byte_token_ids v ! code c
      = (case vocab_lookup_len v ?p (length ?p) of Some i \<Rightarrow> i | None \<Rightarrow> VOCAB_ID_NONE)"
    using b by (simp add: assms(2) bpe_byte_table_def Let_def)
  moreover have "v_byte_token_ids v ! code c \<ge> 0" using assms(3) b by (simp add: byte_complete_def)
  ultimately obtain i where i: "vocab_lookup_len v ?p (length ?p) = Some i" "v_byte_token_ids v ! code c = i"
    by (auto split: option.splits)
  have "take (length ?p mod 256) ?p = ?p" using len by simp
  with vocab_lookup_len_Some [OF assms(1) i(1)] i(2) show ?thesis
    by (simp add: spells_token_def bpe_spell_def)
qed

lemma spells_bytes:
  assumes "vocab_ok v" and "v_byte_token_ids v = bpe_byte_table v" and "byte_complete v"
  shows "spells v (List.map (\<lambda>c. v_byte_token_ids v ! code c) s) s"
proof (induction s)
  case Nil
  then show ?case by simp
next
  case (Cons c s)
  from spells_append [OF spells_single [OF byte_token_spells [OF assms, of c]] Cons] show ?case by simp
qed

lemma bpe_symbols_complete:
  assumes "byte_complete v" and "length s \<le> 512"
  shows "bpe_symbols v s = List.map (\<lambda>c. v_byte_token_ids v ! code c) s"
proof -
  have "\<forall>i \<in> set (List.map (\<lambda>c. v_byte_token_ids v ! code c) s). i \<ge> 0"
    using assms(1) nat_of_char_less_256 by (auto simp: byte_complete_def)
  then show ?thesis using assms(2) by (simp add: bpe_symbols_def filter_id_conv)
qed

lemma bpe_encode_chunk_spells:
  assumes "vocab_ok v" and "v_byte_token_ids v = bpe_byte_table v" and "byte_complete v"
    and "length s \<le> 512" and "length s \<le> n"
  shows "spells v (bpe_encode_chunk v s n) s" and "length (bpe_encode_chunk v s n) \<le> length s"
  using bpe_merge_spells [OF assms(1) spells_bytes [OF assms(1-3)], of s] assms(5)
    bpe_symbols_complete [OF assms(3,4)]
  by (simp_all add: bpe_encode_chunk_def)

text \<open>Special pieces are printable ASCII, so they spell themselves.\<close>

definition specials_printable :: "'f vocab \<Rightarrow> bool" where
  "specials_printable v \<longleftrightarrow>
     (\<forall>k \<in> set (v_token v). take 2 k = ''<|'' \<longrightarrow> (\<forall>c \<in> set k. 33 \<le> code c \<and> code c \<le> 126))"

lemma special_here_spells:
  assumes ok: "vocab_ok v" and sp: "specials_printable v" and h: "special_here v s = Some (i, len)"
  shows "spells_token v i (take len s)" and "2 \<le> len" and "len \<le> length s"
proof -
  from h have m: "match_special_token v s = Some (i, len)"
    by (auto simp: special_here_def split: option.splits if_splits)
  note l = match_special_token_Some [OF m]
  show "2 \<le> len" and "len \<le> length s" using l by auto
  note t = vocab_lookup_len_Some [OF ok l(4)]
  have k: "v_token v ! nat i = take len s" using t(3) l(3) by simp
  have "take len s \<in> set (v_token v)" using t(2) k by (metis nth_mem v_n_vocab_def)
  moreover have "take 2 (take len s) = ''<|''" using l(1,5) by (simp add: min_def)
  ultimately have "bpe_spell (take len s) = take len s"
    using sp by (intro bpe_spell_self) (auto simp: specials_printable_def)
  with t k show "spells_token v i (take len s)" by (simp add: spells_token_def)
qed

lemma tokenize_bpe_from_spells:
  assumes v: "vocab_ok v" "v_byte_token_ids v = bpe_byte_table v" "byte_complete v" "specials_printable v"
  shows "spells v symbols done \<Longrightarrow> length symbols + length s \<le> 4096 \<Longrightarrow>
    (\<forall>k < length s. pretoken_len (drop k s) \<le> 512) \<Longrightarrow>
    spells v (tokenize_bpe_from v s symbols) (done @ s)
    \<and> length (tokenize_bpe_from v s symbols) \<le> length symbols + length s"
proof (induction "length s" arbitrary: s symbols "done" rule: less_induct)
  case less
  show ?case
  proof (cases "s = []")
    case True
    with less.prems(1) show ?thesis by (simp add: tokenize_bpe_from.simps)
  next
    case False
    then have room: "\<not> (s = [] \<or> length symbols \<ge> 4096)"
      using less.prems(2) by (cases s) auto
    have chunks: "\<forall>k < length (drop n s). pretoken_len (drop k (drop n s)) \<le> 512" for n
      using less.prems(3) by (auto simp: add.commute)
    show ?thesis
    proof (cases "special_here v s")
      case (Some x)
      obtain i len where x: "x = (i, len)" by force
      note h = special_here_spells [OF v(1,4) Some [unfolded x]]
      have eq: "tokenize_bpe_from v s symbols = tokenize_bpe_from v (drop len s) (symbols @ [i])"
        using room Some x by (subst tokenize_bpe_from.simps) simp
      have sp: "spells v (symbols @ [i]) (done @ take len s)"
        by (rule spells_append [OF less.prems(1) spells_single [OF h(1)]])
      have "length (drop len s) < length s" using h(2,3) by simp
      moreover have "length (symbols @ [i]) + length (drop len s) \<le> length symbols + length s"
        using h(2,3) by simp
      ultimately show ?thesis
        using less.hyps [OF _ sp _ chunks [of len]] less.prems(2) by (simp add: eq)
    next
      case None
      let ?len = "pretoken_len s"
      let ?out = "bpe_encode_chunk v (take ?len s) (4096 - length symbols)"
      have pos: "0 < ?len" and le: "?len \<le> length s" and small: "?len \<le> 512"
        using pretoken_len_pos [OF False] pretoken_len_le [OF False] less.prems(3) False
        by (auto dest: spec [of _ 0])
      have t: "length (take ?len s) \<le> 512" "length (take ?len s) \<le> 4096 - length symbols"
        using small le less.prems(2) by auto
      note c = bpe_encode_chunk_spells [OF v(1-3) t]
      have eq: "tokenize_bpe_from v s symbols = tokenize_bpe_from v (drop ?len s) (symbols @ ?out)"
        using room None by (subst tokenize_bpe_from.simps) (simp add: Let_def)
      have sp: "spells v (symbols @ ?out) (done @ take ?len s)"
        by (rule spells_append [OF less.prems(1) c(1)])
      have "length (drop ?len s) < length s" using pos False by simp
      moreover have "length (symbols @ ?out) + length (drop ?len s) \<le> length symbols + length s"
        using c(2) le by simp
      ultimately show ?thesis
        using less.hyps [OF _ sp _ chunks [of ?len]] less.prems(2) by (simp add: eq)
    qed
  qed
qed

text \<open>Decoding a token: \<open>s->ops.decode\<close> on the token's piece.\<close>

definition decode_token :: "'f vocab \<Rightarrow> nat \<Rightarrow> int \<Rightarrow> bytes" where
  "decode_token v max_len i = llama_decode (v_token v ! nat i) max_len"

lemma spells_decode:
  assumes ok: "vocab_ok v" and s: "spells v ids text" and n: "255 \<le> n"
  shows "concat (List.map (decode_token v n) ids) = text"
proof -
  have one: "decode_token v n i = bs" if t: "spells_token v i bs" for i bs
  proof -
    have "length (v_token v ! nat i) \<le> 255"
      using ok t nth_mem [of "nat i" "v_token v"]
      by (auto simp: vocab_ok_def spells_token_def v_n_vocab_def)
    then have "length bs \<le> n" using t n length_bpe_spell [of bs] by (simp add: spells_token_def)
    with t show ?thesis by (simp add: decode_token_def spells_token_def llama_decode_spell)
  qed
  from s obtain bss where "list_all2 (spells_token v) ids bss" "concat bss = text"
    by (auto simp: spells_def)
  moreover from this(1) have "List.map (decode_token v n) ids = bss"
    by (induction ids bss rule: list_all2_induct) (auto simp: one)
  ultimately show ?thesis by simp
qed

text \<open>C2: encoding then decoding gives the text back.  With a well-formed vocabulary that
  has all 256 byte tokens and printable special tokens, a text of at most 4096 bytes whose
  pre-tokenizer chunks stay within 512 bytes is encoded by \<open>tokenize_bpe\<close> into valid token
  ids, no more of them than bytes, whose pieces decode to exactly that text.  So neither
  the chunk splitting nor any sequence of merges loses, adds or reorders a byte.\<close>

theorem tokenize_bpe_roundtrip:
  assumes "vocab_ok v" and "v_byte_token_ids v = bpe_byte_table v" and "byte_complete v"
    and "specials_printable v" and "length text \<le> 4096" and "length text \<le> max_tokens"
    and "\<forall>k < length text. pretoken_len (drop k text) \<le> 512" and "255 \<le> max_len"
  shows "concat (List.map (decode_token v max_len) (tokenize_bpe v text max_tokens)) = text
    \<and> length (tokenize_bpe v text max_tokens) \<le> length text
    \<and> (\<forall>i \<in> set (tokenize_bpe v text max_tokens). 0 \<le> i \<and> nat i < v_n_vocab v)"
proof -
  let ?ids = "tokenize_bpe_from v text []"
  have s: "spells v ?ids text" and len: "length ?ids \<le> length text"
    using tokenize_bpe_from_spells [OF assms(1-4), of "[]" "[]" "text"] assms(5,7) by simp_all
  then have eq: "tokenize_bpe v text max_tokens = ?ids" using assms(6) by (simp add: tokenize_bpe_def)
  from s obtain bss where bss: "list_all2 (spells_token v) ?ids bss" by (auto simp: spells_def)
  have "0 \<le> i \<and> nat i < v_n_vocab v" if "i \<in> set ?ids" for i
    using bss that by (auto simp: list_all2_conv_all_nth in_set_conv_nth spells_token_def)
  with spells_decode [OF assms(1) s assms(8)] len eq show ?thesis by simp
qed

section \<open>Filled tables\<close>

text \<open>The table of a list of keys, as the loader fills it.\<close>

definition filled_table :: "key list \<Rightarrow> tk_table" where
  "filled_table ks = the (insert_all tokenizer_table_put (the (tokenizer_table_init (length ks)))
     (zip ks (List.map int [0 ..< length ks])))"

lemma filled_table_ok:
  assumes "length ks \<le> 2147483647"
  shows "tk_inv (filled_table ks)"
    and "\<forall>k i. tk_abs (filled_table ks) k = Some i \<longrightarrow> 0 \<le> i \<and> nat i < length ks \<and> ks ! nat i = k"
    and "\<forall>k \<in> set ks. tk_abs (filled_table ks) k \<noteq> None"
proof -
  let ?kvs = "zip ks (List.map int [0 ..< length ks])"
  have "length ks \<le> 2 ^ 62 - 8" using assms by simp
  from tk_init_inv [OF this] obtain t0 where t0: "tokenizer_table_init (length ks) = Some t0" "tk_inv t0"
    "length ks \<le> tk_room t0" by metis
  have "length ?kvs \<le> tk_room t0" using t0(3) by simp
  from tk.insert_all_abs [OF t0(2) this] obtain t where
    ins: "insert_all tokenizer_table_put t0 ?kvs = Some t" by blast
  then have t: "filled_table ks = t" by (simp add: filled_table_def t0(1))
  show "tk_inv (filled_table ks)"
    "\<forall>k i. tk_abs (filled_table ks) k = Some i \<longrightarrow> 0 \<le> i \<and> nat i < length ks \<and> ks ! nat i = k"
    "\<forall>k \<in> set ks. tk_abs (filled_table ks) k \<noteq> None"
    using insert_tokens_ok [OF t0(1) assms refl ins] by (simp_all add: t)
qed

lemma filled_table_find:
  assumes "distinct ks" and "length ks \<le> 2147483647" and "i < length ks"
  shows "table_find (filled_table ks) (ks ! i) = Some (int i)"
proof -
  note ok = filled_table_ok [OF assms(2)]
  have "ks ! i \<in> set ks" using assms(3) by simp
  with ok(3) obtain j where j: "tk_abs (filled_table ks) (ks ! i) = Some j" by blast
  with ok(2) have "0 \<le> j \<and> nat j < length ks \<and> ks ! nat j = ks ! i" by blast
  with assms(1,3) have "nat j = i" and "0 \<le> j" using nth_eq_iff_index_eq by blast+
  then have "j = int i" by simp
  with j show ?thesis by (simp add: table_find_inv [OF ok(1)])
qed

section \<open>A byte vocabulary\<close>

text \<open>The 256 byte tokens alone: the smallest vocabulary that encodes every text.\<close>

definition byte_pieces :: "key list" where
  "byte_pieces = List.map bpe_byte_piece [0 ..< 256]"

definition byte_piece_table :: tk_table where
  "byte_piece_table = filled_table byte_pieces"

definition byte_vocab0 :: "int vocab" where
  "byte_vocab0 = blank_vocab\<lparr>v_token := byte_pieces, v_tokenizer_type := TOKENIZER_TYPE_BPE,
     v_tokens := byte_piece_table\<rparr>"

definition byte_vocab :: "int vocab" where
  "byte_vocab = byte_vocab0\<lparr>v_byte_token_ids := bpe_byte_table byte_vocab0\<rparr>"

lemma length_byte_pieces [simp]: "length byte_pieces = 256"
  by (simp add: byte_pieces_def)

lemma byte_piece_table_ok:
  "tk_inv byte_piece_table"
  "\<forall>k i. tk_abs byte_piece_table k = Some i \<longrightarrow> 0 \<le> i \<and> nat i < 256 \<and> byte_pieces ! nat i = k"
  "\<forall>k \<in> set byte_pieces. tk_abs byte_piece_table k \<noteq> None"
  using filled_table_ok [of byte_pieces] by (simp_all add: byte_piece_table_def)

lemma byte_pieces_in: "k \<in> set byte_pieces \<longleftrightarrow> (\<exists>b < 256. k = bpe_byte_piece b)"
  by (auto simp: byte_pieces_def)

lemma byte_piece_short: "b < 256 \<Longrightarrow> length (bpe_byte_piece b) \<le> 2"
  using bpe_byte_piece_cases [of b] by auto

lemma byte_vocab_sel [simp]:
  "v_token byte_vocab = byte_pieces" "v_tokens byte_vocab = byte_piece_table"
  "v_token byte_vocab0 = byte_pieces" "v_tokens byte_vocab0 = byte_piece_table"
  "v_merges byte_vocab = empty_table" "v_byte_token_ids byte_vocab = bpe_byte_table byte_vocab"
  by (simp_all add: byte_vocab_def byte_vocab0_def blank_vocab_def bpe_byte_table_def vocab_lookup_len_def)

lemma byte_vocab_lookup:
  assumes "b < 256"
  shows "\<exists>i. vocab_lookup_len byte_vocab (bpe_byte_piece b) (length (bpe_byte_piece b)) = Some i
    \<and> 0 \<le> i \<and> nat i < 256"
proof -
  have "length (bpe_byte_piece b) mod 256 = length (bpe_byte_piece b)" using byte_piece_short [OF assms] by simp
  moreover have "bpe_byte_piece b \<in> set byte_pieces" using assms by (auto simp: byte_pieces_in)
  with byte_piece_table_ok(3) have "tk_abs byte_piece_table (bpe_byte_piece b) \<noteq> None" by blast
  ultimately show ?thesis
    using byte_piece_table_ok(2) by (auto simp: vocab_lookup_len_def table_find_inv [OF byte_piece_table_ok(1)])
qed

lemma byte_vocab_ids:
  assumes "b < 256"
  shows "0 \<le> bpe_byte_table byte_vocab ! b \<and> nat (bpe_byte_table byte_vocab ! b) < 256"
  using byte_vocab_lookup [OF assms] assms by (auto simp: bpe_byte_table_def Let_def)

lemma byte_vocab_ok:
  "vocab_ok byte_vocab" "byte_complete byte_vocab" "specials_printable byte_vocab"
proof -
  have len: "length (bpe_byte_table byte_vocab) = 256" by (simp add: bpe_byte_table_def)
  have ids: "\<forall>i \<in> set (bpe_byte_table byte_vocab). 0 \<le> i \<and> nat i < 256"
    using byte_vocab_ids len by (auto simp: in_set_conv_nth)
  show "vocab_ok byte_vocab"
    using byte_piece_table_ok ids len byte_piece_short
    by (fastforce simp: vocab_ok_def v_n_vocab_def byte_pieces_in empty_table_def)
  show "byte_complete byte_vocab" using byte_vocab_ids by (simp add: byte_complete_def)
  show "specials_printable byte_vocab"
    using bpe_byte_piece_cases by (fastforce simp: specials_printable_def byte_pieces_in)
qed

lemma tokenize_bpe_roundtrip_witness:
  "concat (List.map (decode_token byte_vocab 255) (tokenize_bpe byte_vocab ''Hi, it's 42'' 16)) = ''Hi, it's 42''"
proof -
  let ?t = "''Hi, it's 42''"
  have "pretoken_len (drop k ?t) \<le> 512" if "k < length ?t" for k
  proof -
    have "drop k ?t \<noteq> []" using that by simp
    from pretoken_len_le [OF this] have "pretoken_len (drop k ?t) \<le> length ?t - k"
      by (simp only: length_drop)
    also have "\<dots> \<le> 512" by simp
    finally show ?thesis .
  qed
  then have "\<forall>k < length ?t. pretoken_len (drop k ?t) \<le> 512" by blast
  from tokenize_bpe_roundtrip [OF byte_vocab_ok(1) byte_vocab_sel(6) byte_vocab_ok(2,3) _ _ this, of 16 255]
  show ?thesis by simp
qed

section \<open>The merge order\<close>

definition pair_rank :: "'f vocab \<Rightarrow> int list \<Rightarrow> nat \<Rightarrow> int" where
  "pair_rank v syms i = vocab_merge_rank v (syms ! i) (syms ! (i + 1))"

lemma bpe_best_scan:
  assumes "bpe_best v syms i (r, b) = (r', b')"
  shows "(r', b') = (r, b) \<and> (\<forall>j. j + 1 < length syms \<longrightarrow> \<not> (0 \<le> pair_rank v syms j \<and> pair_rank v syms j < r))
    \<or> (\<exists>j. j + 1 < length syms \<and> b' = int (i + j) \<and> r' = pair_rank v syms j \<and> 0 \<le> r' \<and> r' < r
         \<and> (\<forall>k. k + 1 < length syms \<and> 0 \<le> pair_rank v syms k \<longrightarrow> r' \<le> pair_rank v syms k)
         \<and> (\<forall>k < j. 0 \<le> pair_rank v syms k \<longrightarrow> r' < pair_rank v syms k))"
  using assms
proof (induction v syms i "(r, b)" arbitrary: r b rule: bpe_best.induct)
  case (1 v a c syms i r b)
  let ?k = "vocab_merge_rank v a c"
  let ?p = "if 0 \<le> ?k \<and> ?k < r then (?k, int i) else (r, b)"
  have head: "pair_rank v (a # c # syms) 0 = ?k"
    "\<And>j. pair_rank v (a # c # syms) (Suc j) = pair_rank v (c # syms) j"
    by (simp_all add: pair_rank_def)
  have all: "(\<forall>j. j + 1 < length (a # c # syms) \<longrightarrow> P j) \<longleftrightarrow> P 0 \<and> (\<forall>j. j + 1 < length (c # syms) \<longrightarrow> P (Suc j))"
    for P by (auto simp: less_Suc_eq_0_disj)
  have run: "bpe_best v (c # syms) (i + 1) ?p = (r', b')" using "1.prems" by (simp add: Let_def)
  note IH = "1.hyps" [OF refl, of "fst ?p" "snd ?p", unfolded prod.collapse, OF refl run]
  show ?case
  proof (cases "\<exists>j. j + 1 < length (c # syms) \<and> b' = int (i + 1 + j) \<and> r' = pair_rank v (c # syms) j
      \<and> 0 \<le> r' \<and> r' < fst ?p
      \<and> (\<forall>k. k + 1 < length (c # syms) \<and> 0 \<le> pair_rank v (c # syms) k \<longrightarrow> r' \<le> pair_rank v (c # syms) k)
      \<and> (\<forall>k < j. 0 \<le> pair_rank v (c # syms) k \<longrightarrow> r' < pair_rank v (c # syms) k)")
    case True
    then obtain j where j: "j + 1 < length (c # syms)" "b' = int (i + 1 + j)" "r' = pair_rank v (c # syms) j"
      "0 \<le> r'" "r' < fst ?p"
      "\<forall>k. k + 1 < length (c # syms) \<and> 0 \<le> pair_rank v (c # syms) k \<longrightarrow> r' \<le> pair_rank v (c # syms) k"
      "\<forall>k < j. 0 \<le> pair_rank v (c # syms) k \<longrightarrow> r' < pair_rank v (c # syms) k" by blast
    have k: "0 \<le> ?k \<Longrightarrow> r' < ?k" "r' < r" using j(5) by (auto split: if_splits)
    have "\<forall>k < Suc j. 0 \<le> pair_rank v (a # c # syms) k \<longrightarrow> r' < pair_rank v (a # c # syms) k"
      using j(7) k(1) by (auto simp: less_Suc_eq_0_disj head)
    moreover have "\<forall>k. k + 1 < length (a # c # syms) \<longrightarrow> 0 \<le> pair_rank v (a # c # syms) k
        \<longrightarrow> r' \<le> pair_rank v (a # c # syms) k"
      unfolding all head using j(6) k(1) by auto
    ultimately show ?thesis
      using j k(2) by (intro disjI2 exI [of _ "Suc j"]) (auto simp: head)
  next
    case False
    with IH have eq: "(r', b') = ?p"
      and none: "\<forall>j. j + 1 < length (c # syms) \<longrightarrow> \<not> (0 \<le> pair_rank v (c # syms) j \<and> pair_rank v (c # syms) j < fst ?p)"
      by auto
    show ?thesis
    proof (cases "0 \<le> ?k \<and> ?k < r")
      case True
      with eq have r: "r' = ?k" "b' = int i" by auto
      have "\<forall>k. k + 1 < length (a # c # syms) \<longrightarrow> 0 \<le> pair_rank v (a # c # syms) k
          \<longrightarrow> r' \<le> pair_rank v (a # c # syms) k"
        unfolding all head using none True r by auto
      then show ?thesis using True r by (intro disjI2 exI [of _ 0]) (auto simp: head)
    next
      case F: False
      have "\<forall>j. j + 1 < length (a # c # syms) \<longrightarrow>
          \<not> (0 \<le> pair_rank v (a # c # syms) j \<and> pair_rank v (a # c # syms) j < r)"
        unfolding all head using none F by auto
      with eq F show ?thesis by (intro disjI1) auto
    qed
  qed
qed auto

text \<open>C10: the scan of \<open>bpe_encode_chunk\<close> picks the leftmost pair of least rank.  Either no
  adjacent pair has a rank in \<open>[0, INT32_MAX)\<close> and the index stays -1, or the index is a
  pair with such a rank, no other pair has a smaller one, and every pair to its left has a
  larger one or none.\<close>

theorem bpe_best_leftmost:
  shows "(snd (bpe_best v syms 0 (2147483647, -1)) = -1
       \<and> (\<forall>j. j + 1 < length syms \<longrightarrow> \<not> (0 \<le> pair_rank v syms j \<and> pair_rank v syms j < 2147483647)))
    \<or> (\<exists>j. j + 1 < length syms \<and> snd (bpe_best v syms 0 (2147483647, -1)) = int j
         \<and> 0 \<le> pair_rank v syms j \<and> pair_rank v syms j < 2147483647
         \<and> (\<forall>k. k + 1 < length syms \<and> 0 \<le> pair_rank v syms k \<longrightarrow> pair_rank v syms j \<le> pair_rank v syms k)
         \<and> (\<forall>k < j. 0 \<le> pair_rank v syms k \<longrightarrow> pair_rank v syms j < pair_rank v syms k))"
  using bpe_best_scan [of v syms 0 2147483647 "-1", OF prod.collapse [symmetric]] by auto

text \<open>Three tokens and one merge.\<close>

definition tiny_pieces :: "key list" where
  "tiny_pieces = [''a'', ''b'', ''ab'']"

definition tiny_vocab :: "int vocab" where
  "tiny_vocab = blank_vocab\<lparr>v_token := tiny_pieces, v_scores := Some [-3, -2, -1],
     v_tokenizer_type := TOKENIZER_TYPE_BPE,
     v_tokens := filled_table tiny_pieces, v_merges := filled_table [''a b'']\<rparr>"

lemma tiny_rank: "vocab_merge_rank tiny_vocab 0 1 = 0"
  using filled_table_find [of "[''a b'']" 0]
  by (simp add: vocab_merge_rank_def vocab_pair_ok_def v_n_vocab_def tiny_vocab_def blank_vocab_def tiny_pieces_def)

lemma bpe_best_leftmost_witness: "snd (bpe_best tiny_vocab [0, 1] 0 (2147483647, -1)) = 0"
  using bpe_best_leftmost [of tiny_vocab "[0, 1]"] by (auto simp: pair_rank_def tiny_rank)

section \<open>Every encoder emits valid ids\<close>

lemma vocab_byte_ids:
  assumes "vocab_ok v" and "0 \<le> v_byte_token_ids v ! code c"
  shows "nat (v_byte_token_ids v ! code c) < v_n_vocab v"
proof -
  have "code c < length (v_byte_token_ids v)"
    using assms(1) nat_of_char_less_256 [of c] by (simp add: vocab_ok_def)
  then have "v_byte_token_ids v ! code c \<in> set (v_byte_token_ids v)" by (rule nth_mem)
  moreover have "\<forall>i \<in> set (v_byte_token_ids v). i = VOCAB_ID_NONE \<or> 0 \<le> i \<and> nat i < v_n_vocab v"
    using assms(1) by (simp add: vocab_ok_def)
  ultimately show ?thesis using assms(2) by fastforce
qed

definition valid_ids :: "'f vocab \<Rightarrow> int list \<Rightarrow> bool" where
  "valid_ids v ids \<longleftrightarrow> (\<forall>i \<in> set ids. 0 \<le> i \<and> nat i < v_n_vocab v)"

lemma valid_ids_simps [simp]:
  "valid_ids v []" "valid_ids v (a @ b) \<longleftrightarrow> valid_ids v a \<and> valid_ids v b"
  "valid_ids v (i # b) \<longleftrightarrow> (0 \<le> i \<and> nat i < v_n_vocab v) \<and> valid_ids v b"
  by (auto simp: valid_ids_def)

lemma valid_ids_take [intro]: "valid_ids v ids \<Longrightarrow> valid_ids v (take n ids)"
  by (auto simp: valid_ids_def dest: in_set_takeD)

lemma valid_ids_drop [intro]: "valid_ids v ids \<Longrightarrow> valid_ids v (drop n ids)"
  by (auto simp: valid_ids_def dest: in_set_dropD)

lemma byte_ids_valid:
  "vocab_ok v \<Longrightarrow> valid_ids v (filter (\<lambda>i. i \<ge> 0) (List.map (\<lambda>c. v_byte_token_ids v ! code c) s))"
  using vocab_byte_ids by (auto simp: valid_ids_def)

lemma bpe_merge_valid:
  assumes ok: "vocab_ok v"
  shows "valid_ids v syms \<Longrightarrow> valid_ids v (bpe_merge v syms)"
proof (induction "length syms" arbitrary: syms rule: less_induct)
  case less
  let ?x = "snd (bpe_best v syms 0 (2147483647, -1))"
  let ?r = "vocab_merge_result v (syms ! nat ?x) (syms ! (nat ?x + 1))"
  show ?case
  proof (cases "length syms \<le> 1 \<or> ?x < 0 \<or> ?r = VOCAB_ID_NONE")
    case True
    from bpe_merge_stop [OF True] less.prems show ?thesis by simp
  next
    case False
    then have c: "\<not> length syms \<le> 1" "\<not> ?x < 0" "?r \<noteq> VOCAB_ID_NONE" by auto
    note step = bpe_merge_step [OF c(1,2) refl c(3)]
    let ?s = "take (nat ?x) syms @ ?r # drop (nat ?x + 2) syms"
    have v: "valid_ids v ?s" using less.prems vocab_merge_result_text(1,2) [OF ok refl c(3)] by auto
    have len: "length ?s < length syms" using step(2) by simp
    from less.hyps [OF len v] show ?thesis by (simp only: step(1))
  qed
qed

lemma bpe_encode_chunk_valid: "vocab_ok v \<Longrightarrow> valid_ids v (bpe_encode_chunk v s n)"
  unfolding bpe_encode_chunk_def bpe_symbols_def
  by (intro valid_ids_take bpe_merge_valid byte_ids_valid)

lemma special_here_valid:
  assumes "vocab_ok v" and "special_here v s = Some (i, len)"
  shows "0 \<le> i \<and> nat i < v_n_vocab v"
proof -
  from assms(2) have "match_special_token v s = Some (i, len)"
    by (auto simp: special_here_def split: option.splits if_splits)
  from vocab_lookup_len_Some [OF assms(1) match_special_token_Some(4) [OF this]] show ?thesis by simp
qed

lemma tokenize_bpe_from_valid:
  assumes ok: "vocab_ok v"
  shows "valid_ids v symbols \<Longrightarrow> valid_ids v (tokenize_bpe_from v s symbols)"
proof (induction "length s" arbitrary: s symbols rule: less_induct)
  case less
  show ?case
  proof (cases "s = [] \<or> length symbols \<ge> 4096")
    case True
    then show ?thesis using less.prems by (subst tokenize_bpe_from.simps) simp
  next
    case room: False
    show ?thesis
    proof (cases "special_here v s")
      case (Some x)
      obtain i len where x: "x = (i, len)" by force
      have "2 \<le> len" using Some x match_special_token_Some(1) [of v s i len]
        by (auto simp: special_here_def split: option.splits if_splits)
      then have "length (drop len s) < length s" using room by auto
      moreover have "valid_ids v (symbols @ [i])"
        using less.prems special_here_valid [OF ok Some [unfolded x]] by simp
      ultimately show ?thesis
        using less.hyps room Some x by (subst tokenize_bpe_from.simps) simp
    next
      case None
      have "length (drop (pretoken_len s) s) < length s"
        using room pretoken_len_pos [of s] by auto
      moreover have "valid_ids v (symbols @ bpe_encode_chunk v (take (pretoken_len s) s) (4096 - length symbols))"
        using less.prems bpe_encode_chunk_valid [OF ok] by simp
      ultimately show ?thesis
        using less.hyps room None by (subst tokenize_bpe_from.simps) (simp add: Let_def)
    qed
  qed
qed

lemma tokenize_bpe_valid: "vocab_ok v \<Longrightarrow> valid_ids v (tokenize_bpe v text n)"
  unfolding tokenize_bpe_def by (intro valid_ids_take tokenize_bpe_from_valid) simp_all

lemma spm_emit_valid: "vocab_ok v \<Longrightarrow> valid_ids v (spm_emit v syms)"
proof (induction syms)
  case Nil
  then show ?case by (simp add: spm_emit_def)
next
  case (Cons s syms)
  have "valid_ids v (if s = [] then [] else case vocab_lookup_len v s (length s) of Some i \<Rightarrow> [i]
      | None \<Rightarrow> filter (\<lambda>i. i \<ge> 0) (List.map (\<lambda>c. v_byte_token_ids v ! code c) s))"
    using byte_ids_valid [OF Cons.prems, of s] vocab_lookup_len_Some [OF Cons.prems, of s "length s"]
    by (auto split: option.splits)
  with Cons show ?case by (simp add: spm_emit_def)
qed

lemma tokenize_spm_valid: "vocab_ok v \<Longrightarrow> valid_ids v (tokenize_spm v text n sp)"
  by (cases "v_scores v") (simp_all add: tokenize_spm_def tokenize_bpe_valid spm_emit_valid valid_ids_take)

lemma tokenize_valid: "vocab_ok v \<Longrightarrow> valid_ids v (tokenize v text n)"
  by (simp add: tokenize_def tokenize_spm_valid tokenize_bpe_valid)

lemma tokenize_bpe_length: "length (tokenize_bpe v text n) \<le> n"
  by (simp add: tokenize_bpe_def)

lemma tokenize_spm_length: "length (tokenize_spm v text n sp) \<le> n"
  using tokenize_bpe_length by (auto simp: tokenize_spm_def split: option.splits)

lemma tokenize_length: "length (tokenize v text n) \<le> n"
  by (simp add: tokenize_def tokenize_spm_length tokenize_bpe_length)

section \<open>SentencePiece segments\<close>

text \<open>\<open>spm_token v i seg\<close>: the token stands for the segment, as its piece or as the byte
  token of its only byte.\<close>

definition spm_token :: "'f vocab \<Rightarrow> int \<Rightarrow> bytes \<Rightarrow> bool" where
  "spm_token v i seg \<longleftrightarrow> 0 \<le> i \<and> nat i < v_n_vocab v
     \<and> (v_token v ! nat i = seg \<or> (\<exists>c. seg = [c] \<and> i = v_byte_token_ids v ! code c))"

lemma concat_spm_split [simp]: "concat (spm_split s) = s"
proof (induction s rule: spm_split.induct)
  case 1
  then show ?case by simp
next
  case (2 c s)
  define cl where "cl = (if utf8_char_len c > length (c # s) then 1 else utf8_char_len c)"
  have cl: "0 < cl" by (simp add: cl_def)
  have "concat (spm_split (c # s)) = take cl (c # s) @ drop (cl - 1) s"
    using 2 by (simp add: Let_def cl_def)
  also have "drop (cl - 1) s = drop cl (c # s)" using cl by (cases cl) auto
  finally show ?case by simp
qed

lemma spm_split_bounds: "\<forall>p \<in> set (spm_split s). p \<noteq> [] \<and> length p \<le> 4"
proof (induction s rule: spm_split.induct)
  case 1
  then show ?case by simp
next
  case (2 c s)
  have "utf8_char_len c \<le> 4" by (simp add: utf8_char_len_def Let_def)
  with 2 show ?case by (auto simp: Let_def)
qed

lemma spm_best_len:
  "spm_best v scores syms i best = Some (j, sc) \<Longrightarrow>
   best = Some (j, sc) \<or> (\<exists>k. j = i + k \<and> k + 1 < length syms \<and> length (syms ! k) + length (syms ! (k + 1)) \<le> 255)"
proof (induction v scores syms i best rule: spm_best.induct)
  case (1 v scores a b syms i best)
  define best' where "best' = (let len = length a + length b in
        if len > 255 then best
        else case vocab_lookup_len v (a @ b) len of
               None \<Rightarrow> best
             | Some id' \<Rightarrow>
                 if nat (id' mod 2 ^ 32) \<ge> v_n_vocab v then best
                 else let sc = scores ! nat id' in
                   (case best of
                      None \<Rightarrow> Some (i, sc)
                    | Some (bi, bs) \<Rightarrow>
                        if sc > bs \<or> (sc = bs \<and> i < bi) then Some (i, sc) else best))"
  have step: "best' = best \<or> length a + length b \<le> 255 \<and> (\<exists>s. best' = Some (i, s))"
    by (auto simp: best'_def Let_def split: option.splits)
  have "spm_best v scores (b # syms) (i + 1) best' = Some (j, sc)"
    using "1.prems" by (simp add: best'_def)
  with "1.IH" [folded best'_def] have
    "best' = Some (j, sc) \<or> (\<exists>k. j = i + 1 + k \<and> k + 1 < length (b # syms)
       \<and> length ((b # syms) ! k) + length ((b # syms) ! (k + 1)) \<le> 255)" by blast
  then show ?case
  proof
    assume "best' = Some (j, sc)"
    with step show ?thesis by (auto intro!: exI [of _ 0])
  next
    assume "\<exists>k. j = i + 1 + k \<and> k + 1 < length (b # syms)
       \<and> length ((b # syms) ! k) + length ((b # syms) ! (k + 1)) \<le> 255"
    then obtain k where "j = i + 1 + k" "k + 1 < length (b # syms)"
      "length ((b # syms) ! k) + length ((b # syms) ! (k + 1)) \<le> 255" by blast
    then show ?thesis by (intro disjI2 exI [of _ "Suc k"]) simp
  qed
qed auto

lemma list_join:
  assumes "i + 1 < length xs"
  shows "xs = take i xs @ xs ! i # xs ! (i + 1) # drop (i + 2) xs"
  using assms by (metis Cons_nth_drop_Suc Suc_1 Suc_eq_plus1 add_Suc_right add_lessD1 id_take_nth_drop)

definition syms_short :: "bytes list \<Rightarrow> bool" where
  "syms_short syms \<longleftrightarrow> (\<forall>p \<in> set syms. p \<noteq> [] \<and> length p \<le> 255)"

lemma spm_merge_segments:
  "syms_short syms \<Longrightarrow> concat (spm_merge v scores syms) = concat syms \<and> syms_short (spm_merge v scores syms)"
proof (induction "length syms" arbitrary: syms rule: less_induct)
  case less
  show ?case
  proof (cases "spm_best v scores syms 0 None")
    case None
    with less.prems show ?thesis by (simp add: spm_merge.simps)
  next
    case (Some x)
    obtain b sc where x: "x = (b, sc)" by force
    let ?s = "take b syms @ (syms ! b @ syms ! (b + 1)) # drop (b + 2) syms"
    have b: "b + 1 < length syms" "length (syms ! b) + length (syms ! (b + 1)) \<le> 255"
      using spm_best_len [of v scores syms 0 None b sc] Some x by auto
    have eq: "spm_merge v scores syms = spm_merge v scores ?s"
      using Some x by (subst spm_merge.simps) simp
    have len: "length ?s < length syms" using b(1) by simp
    have cat: "concat ?s = concat syms"
      using arg_cong [OF list_join [OF b(1)], of concat] by simp
    have "\<forall>p \<in> set (take b syms) \<union> set (drop (b + 2) syms) \<union> {syms ! b}. p \<noteq> [] \<and> length p \<le> 255"
      using less.prems b(1) by (auto simp: syms_short_def dest: in_set_takeD in_set_dropD)
    then have short: "syms_short ?s" using b(2) by (auto simp: syms_short_def)
    from less.hyps [OF len short] cat show ?thesis by (simp only: eq)
  qed
qed

lemma spm_emit_segments:
  assumes ok: "vocab_ok v" and bc: "byte_complete v"
  shows "syms_short syms \<Longrightarrow> \<exists>segs. list_all2 (spm_token v) (spm_emit v syms) segs \<and> concat segs = concat syms
     \<and> (\<forall>s \<in> set segs. s \<noteq> [])"
proof (induction syms)
  case Nil
  then show ?case by (simp add: spm_emit_def)
next
  case (Cons p syms)
  then obtain segs where segs: "list_all2 (spm_token v) (spm_emit v syms) segs" "concat segs = concat syms"
    "\<forall>s \<in> set segs. s \<noteq> []"
    by (auto simp: syms_short_def)
  have p: "p \<noteq> []" "length p \<le> 255" using Cons.prems by (auto simp: syms_short_def)
  show ?case
  proof (cases "vocab_lookup_len v p (length p)")
    case (Some i)
    have "take (length p mod 256) p = p" using p(2) by simp
    with vocab_lookup_len_Some [OF ok Some] have "spm_token v i p" by (simp add: spm_token_def)
    moreover have "spm_emit v (p # syms) = i # spm_emit v syms"
      using Some p(1) by (simp add: spm_emit_def)
    ultimately show ?thesis using segs p(1) by (intro exI [of _ "p # segs"]) simp
  next
    case None
    let ?ids = "List.map (\<lambda>c. v_byte_token_ids v ! code c) p"
    have ge: "v_byte_token_ids v ! code c \<ge> 0" for c
      using bc nat_of_char_less_256 by (simp add: byte_complete_def)
    have "spm_emit v (p # syms) = ?ids @ spm_emit v syms"
      using None p(1) ge by (simp add: spm_emit_def filter_id_conv)
    moreover have "list_all2 (spm_token v) ?ids (List.map (\<lambda>c. [c]) p)"
      using ge vocab_byte_ids [OF ok ge] by (auto simp: list_all2_conv_all_nth spm_token_def)
    moreover have "concat (List.map (\<lambda>c. [c]) p) = p" by (induction p) auto
    ultimately show ?thesis
      using segs by (intro exI [of _ "List.map (\<lambda>c. [c]) p @ segs"]) (auto intro: list_all2_appendI)
  qed
qed

text \<open>C9: the SentencePiece encoder covers its normalized text.  With a well-formed
  vocabulary that has all byte tokens and with room for the output, the emitted ids cut the
  normalized text (blanks written as U+2581) into consecutive segments, each the piece of
  its id or a single byte with its fallback token: greedy merging and byte fallback lose
  and reorder nothing.\<close>

theorem tokenize_spm_segments:
  assumes "vocab_ok v" and "byte_complete v" and "v_scores v = Some scores"
    and "length (spm_normalize txt sp) \<le> max_tokens"
  shows "\<exists>segs. list_all2 (spm_token v) (tokenize_spm v txt max_tokens sp) segs
    \<and> concat segs = spm_normalize txt sp"
proof -
  let ?syms = "spm_split (spm_normalize txt sp)"
  have "syms_short ?syms" using spm_split_bounds [of "spm_normalize txt sp"] by (auto simp: syms_short_def)
  note m = spm_merge_segments [OF this, of v scores]
  from spm_emit_segments [OF assms(1,2) conjunct2 [OF m]] m obtain segs where
    segs: "list_all2 (spm_token v) (spm_emit v (spm_merge v scores ?syms)) segs"
    "concat segs = spm_normalize txt sp" "\<forall>s \<in> set segs. s \<noteq> []" by auto
  have "length segs \<le> length (concat segs)"
    by (rule length_concat_ge [OF segs(3)])
  then have "length (spm_emit v (spm_merge v scores ?syms)) \<le> max_tokens"
    using segs(2) assms(4) list_all2_lengthD [OF segs(1)] by simp
  then have "tokenize_spm v txt max_tokens sp = spm_emit v (spm_merge v scores ?syms)"
    by (simp add: tokenize_spm_def assms(3))
  with segs show ?thesis by auto
qed

lemma tokenize_spm_segments_witness:
  "\<exists>segs. list_all2 (spm_token (byte_vocab\<lparr>v_scores := Some (replicate 256 0)\<rparr>))
      (tokenize_spm (byte_vocab\<lparr>v_scores := Some (replicate 256 0)\<rparr>) ''a b'' 16 True) segs
    \<and> concat segs = lower_block @ ''a'' @ lower_block @ ''b''"
proof -
  let ?v = "byte_vocab\<lparr>v_scores := Some (replicate 256 0)\<rparr>"
  have "vocab_ok ?v" using byte_vocab_ok(1) by (simp add: vocab_ok_def v_n_vocab_def)
  moreover have "byte_complete ?v" using byte_vocab_ok(2) by (simp add: byte_complete_def)
  moreover have "v_scores ?v = Some (replicate 256 0)" by simp
  moreover have "spm_normalize ''a b'' True = lower_block @ ''a'' @ lower_block @ ''b''"
    by (simp add: spm_normalize_def)
  ultimately show ?thesis
    using tokenize_spm_segments [of ?v "replicate 256 0" "''a b''" True 16] by (simp add: lower_block_def)
qed

end
