(* ===== verification/ChatPrompt.thy ===== *)
theory ChatPrompt
  imports Tokenizer
begin

text \<open>
  The chat templates of src/src/tokenizer.c: ChatML (Qwen, Falcon-H1), Llama 3 and Gemma,
  first turn and continuation.  A template is a list of parts run against one output
  buffer of \<open>max_tokens\<close> entries; \<open>ADD\<close> and \<open>ADD_TEXT\<close> are its two kinds of part.  The
  session contributes its vocabulary and the \<open>no_think\<close> flag.  A message is its bytes;
  \<open>None\<close> is a NULL system prompt.
\<close>

section \<open>Parts\<close>

datatype part = Tok int | Txt bytes | Gem bytes bool

definition gemma_text :: "('f::ord) vocab \<Rightarrow> bytes \<Rightarrow> nat \<Rightarrow> bool \<Rightarrow> int list" where
  "gemma_text v txt max_out prefix_space =
     (if v_tokenizer_type v = TOKENIZER_TYPE_SPM then tokenize_spm v txt max_out prefix_space
      else tokenize_bpe v txt max_out)"

text \<open>\<open>(u32)(id)\<close>: an absent id would become 4294967295.\<close>

definition add_part :: "('f::ord) vocab \<Rightarrow> nat \<Rightarrow> part \<Rightarrow> int list \<Rightarrow> int list" where
  "add_part v max_tokens p tokens =
     (let n = length tokens in
      if n < max_tokens
      then tokens @ (case p of
             Tok i \<Rightarrow> [i mod 2 ^ 32]
           | Txt s \<Rightarrow> tokenize v s (max_tokens - n)
           | Gem s sp \<Rightarrow> gemma_text v s (max_tokens - n) sp)
      else tokens)"

definition add_parts :: "('f::ord) vocab \<Rightarrow> nat \<Rightarrow> part list \<Rightarrow> int list \<Rightarrow> int list" where
  "add_parts v max_tokens ps tokens = fold (add_part v max_tokens) ps tokens"

definition newline_id :: "'f vocab \<Rightarrow> int" where
  "newline_id v = v_byte_token_ids v ! 10"

text \<open>A message that is neither NULL nor empty.\<close>

definition given :: "bytes option \<Rightarrow> bytes option" where
  "given m = (case m of None \<Rightarrow> None | Some s \<Rightarrow> if s = [] then None else Some s)"

section \<open>ChatML\<close>

definition id_or_lookup :: "'f vocab \<Rightarrow> int \<Rightarrow> string \<Rightarrow> int" where
  "id_or_lookup v i s = (if i = VOCAB_ID_NONE then vocab_lookup v s else i)"

definition chatml_add_reasoning :: "'f vocab \<Rightarrow> bool \<Rightarrow> nat \<Rightarrow> int list \<Rightarrow> int list" where
  "chatml_add_reasoning v no_think max_tokens tokens =
     (let think_start = id_or_lookup v (v_think_start_id v) ''<think>'';
          think_end = id_or_lookup v (v_think_end_id v) ''</think>'';
          nl = newline_id v; n = length tokens in
      if think_start = VOCAB_ID_NONE \<or> nl = VOCAB_ID_NONE then tokens
      else if \<not> no_think then
        (if n + 2 > max_tokens then tokens else tokens @ [think_start mod 2 ^ 32, nl mod 2 ^ 32])
      else if think_end = VOCAB_ID_NONE then tokens
      else if n + 6 > max_tokens then tokens
      else tokens @ [think_start mod 2 ^ 32, nl mod 2 ^ 32, nl mod 2 ^ 32,
                     think_end mod 2 ^ 32, nl mod 2 ^ 32, nl mod 2 ^ 32])"

definition chatml_system :: "int \<Rightarrow> int \<Rightarrow> int \<Rightarrow> bytes option \<Rightarrow> part list" where
  "chatml_system im_start im_end nl sys =
     (case given sys of
        None \<Rightarrow> []
      | Some s \<Rightarrow> [Tok im_start, Txt ''system'', Tok nl, Txt s, Tok im_end, Tok nl])"

definition chatml_turn :: "int \<Rightarrow> int \<Rightarrow> int \<Rightarrow> bytes \<Rightarrow> part list" where
  "chatml_turn im_start im_end nl user =
     [Tok im_start, Txt ''user'', Tok nl, Txt user, Tok im_end, Tok nl,
      Tok im_start, Txt ''assistant'', Tok nl]"

definition chatml_prompt :: "('f::ord) vocab \<Rightarrow> bool \<Rightarrow> bytes \<Rightarrow> bytes option \<Rightarrow> nat \<Rightarrow> int list" where
  "chatml_prompt v no_think user sys max_tokens =
     (let im_start = id_or_lookup v (v_im_start_id v) ''<|im_start|>'';
          im_end = id_or_lookup v (v_im_end_id v) ''<|im_end|>''; nl = newline_id v in
      if im_start = VOCAB_ID_NONE \<or> im_end = VOCAB_ID_NONE then []
      else chatml_add_reasoning v no_think max_tokens
             (add_parts v max_tokens
                (chatml_system im_start im_end nl sys @ chatml_turn im_start im_end nl user) []))"

definition chatml_continuation :: "('f::ord) vocab \<Rightarrow> bool \<Rightarrow> bytes \<Rightarrow> nat \<Rightarrow> int list" where
  "chatml_continuation v no_think user max_tokens =
     (let im_start = id_or_lookup v (v_im_start_id v) ''<|im_start|>'';
          im_end = id_or_lookup v (v_im_end_id v) ''<|im_end|>''; nl = newline_id v in
      if im_start = VOCAB_ID_NONE \<or> im_end = VOCAB_ID_NONE then []
      else chatml_add_reasoning v no_think max_tokens
             (add_parts v max_tokens
                ([Tok im_end, Tok nl] @ chatml_turn im_start im_end nl user) []))"

section \<open>Llama 3\<close>

definition llama3_markers :: "'f vocab \<Rightarrow> (int \<times> int \<times> int) option" where
  "llama3_markers v =
     (let start = vocab_lookup v ''<|start_header_id|>''; stop = vocab_lookup v ''<|end_header_id|>'';
          eot = vocab_lookup v ''<|eot_id|>'' in
      if start \<noteq> VOCAB_ID_NONE \<and> stop \<noteq> VOCAB_ID_NONE \<and> eot \<noteq> VOCAB_ID_NONE
      then Some (start, stop, eot) else None)"

definition llama3_header :: "int \<Rightarrow> int \<Rightarrow> int \<Rightarrow> bytes \<Rightarrow> part list" where
  "llama3_header start stop nl role = [Tok start, Txt role, Tok stop, Tok nl, Tok nl]"

definition llama3_turn :: "int \<Rightarrow> int \<Rightarrow> int \<Rightarrow> int \<Rightarrow> bytes \<Rightarrow> part list" where
  "llama3_turn start stop eot nl user =
     llama3_header start stop nl ''user'' @ [Txt user, Tok eot]
     @ llama3_header start stop nl ''assistant''"

definition llama3_chat_prompt :: "('f::ord) vocab \<Rightarrow> bytes \<Rightarrow> bytes option \<Rightarrow> nat \<Rightarrow> int list" where
  "llama3_chat_prompt v user sys max_tokens =
     (case llama3_markers v of
        None \<Rightarrow> []
      | Some (start, stop, eot) \<Rightarrow>
          (let nl = newline_id v in
           add_parts v max_tokens
             ((if v_bos_id v \<noteq> VOCAB_ID_NONE then [Tok (v_bos_id v)] else [])
              @ llama3_header start stop nl ''system''
              @ (case given sys of None \<Rightarrow> [] | Some s \<Rightarrow> [Txt s]) @ [Tok eot]
              @ llama3_turn start stop eot nl user) []))"

definition llama3_chat_continuation :: "('f::ord) vocab \<Rightarrow> bytes \<Rightarrow> nat \<Rightarrow> int list" where
  "llama3_chat_continuation v user max_tokens =
     (case llama3_markers v of
        None \<Rightarrow> []
      | Some (start, stop, eot) \<Rightarrow>
          add_parts v max_tokens (Tok eot # llama3_turn start stop eot (newline_id v) user) [])"

section \<open>Gemma\<close>

definition gemma_newline :: bytes where
  "gemma_newline = [CHR 0x0A]"

definition gemma_turn :: "int \<Rightarrow> int \<Rightarrow> bytes option \<Rightarrow> bytes \<Rightarrow> part list" where
  "gemma_turn st et sys user =
     [Tok st, Gem ''user'' True, Gem gemma_newline False]
     @ (case given sys of
          None \<Rightarrow> [] | Some s \<Rightarrow> [Gem s False, Gem (gemma_newline @ gemma_newline) False])
     @ [Gem user False, Tok et, Gem gemma_newline False, Tok st, Gem ''model'' True,
        Gem gemma_newline False]"

definition gemma_chat_prompt :: "('f::ord) vocab \<Rightarrow> bytes \<Rightarrow> bytes option \<Rightarrow> nat \<Rightarrow> int list" where
  "gemma_chat_prompt v user sys max_tokens =
     (let st = v_start_of_turn_id v; et = v_end_of_turn_id v in
      if st = VOCAB_ID_NONE \<or> et = VOCAB_ID_NONE then []
      else add_parts v max_tokens
             ((if v_bos_id v \<noteq> VOCAB_ID_NONE then [Tok (v_bos_id v)] else [])
              @ gemma_turn st et sys user) [])"

definition gemma_chat_continuation :: "('f::ord) vocab \<Rightarrow> bytes \<Rightarrow> nat \<Rightarrow> int list" where
  "gemma_chat_continuation v user max_tokens =
     (let st = v_start_of_turn_id v; et = v_end_of_turn_id v in
      if st = VOCAB_ID_NONE \<or> et = VOCAB_ID_NONE then []
      else add_parts v max_tokens
             ([Tok et, Gem gemma_newline False] @ gemma_turn st et None user) [])"

section \<open>Bounds and validity\<close>

lemma gemma_text_length: "length (gemma_text v s n sp) \<le> n"
  by (simp add: gemma_text_def tokenize_spm_length tokenize_bpe_length)

lemma add_part_length: "length tokens \<le> n \<Longrightarrow> length (add_part v n p tokens) \<le> n"
  using tokenize_length [of v _ "n - length tokens"] gemma_text_length [of v _ "n - length tokens"]
  by (auto simp: add_part_def Let_def split: part.splits) (metis add_leD2 le_diff_conv2 less_imp_le add.commute)+

lemma add_parts_length: "length tokens \<le> n \<Longrightarrow> length (add_parts v n ps tokens) \<le> n"
  unfolding add_parts_def by (induction ps arbitrary: tokens) (simp_all add: add_part_length)

text \<open>The buffer is used from its start on: a prefix already written shifts the run.\<close>

lemma add_part_shift:
  "add_part v (length pre + n) p (pre @ tokens) = pre @ add_part v n p tokens"
  by (simp add: add_part_def Let_def split: part.splits)

lemma add_parts_shift:
  "add_parts v (length pre + n) ps (pre @ tokens) = pre @ add_parts v n ps tokens"
  unfolding add_parts_def by (induction ps arbitrary: tokens) (simp_all add: add_part_shift)

lemma add_parts_append [simp]:
  "add_parts v n (ps @ qs) tokens = add_parts v n qs (add_parts v n ps tokens)"
  by (simp add: add_parts_def)

lemma reasoning_length:
  "length tokens \<le> n \<Longrightarrow> length (chatml_add_reasoning v no_think n tokens) \<le> n"
  by (auto simp: chatml_add_reasoning_def Let_def)

lemma reasoning_shift:
  "chatml_add_reasoning v no_think (length pre + n) (pre @ tokens)
     = pre @ chatml_add_reasoning v no_think n tokens"
  by (simp add: chatml_add_reasoning_def Let_def)

definition id_ok :: "'f vocab \<Rightarrow> int \<Rightarrow> bool" where
  "id_ok v i \<longleftrightarrow> 0 \<le> i \<and> nat i < v_n_vocab v"

definition part_ok :: "'f vocab \<Rightarrow> part \<Rightarrow> bool" where
  "part_ok v p \<longleftrightarrow> (case p of Tok i \<Rightarrow> id_ok v i | _ \<Rightarrow> True)"

lemma id_ok_mod: "vocab_ok v \<Longrightarrow> id_ok v i \<Longrightarrow> i mod 2 ^ 32 = i"
  by (rule mod_pos_pos_trivial) (auto simp: id_ok_def vocab_ok_def)

lemma add_part_valid:
  "vocab_ok v \<Longrightarrow> part_ok v p \<Longrightarrow> valid_ids v tokens \<Longrightarrow> valid_ids v (add_part v n p tokens)"
  using id_ok_mod [of v] by (auto simp: add_part_def Let_def part_ok_def gemma_text_def tokenize_valid
      tokenize_spm_valid tokenize_bpe_valid id_ok_def split: part.splits)

lemma add_parts_valid:
  "vocab_ok v \<Longrightarrow> list_all (part_ok v) ps \<Longrightarrow> valid_ids v tokens \<Longrightarrow> valid_ids v (add_parts v n ps tokens)"
  unfolding add_parts_def by (induction ps arbitrary: tokens) (simp_all add: add_part_valid)

text \<open>What the templates need of the vocabulary: the markers are ids or absent, and there
  is a newline byte token.\<close>

definition markers_ok :: "'f vocab \<Rightarrow> bool" where
  "markers_ok v \<longleftrightarrow> id_ok v (newline_id v)
     \<and> (\<forall>i \<in> {v_bos_id v, v_think_start_id v, v_think_end_id v, v_im_start_id v, v_im_end_id v,
              v_start_of_turn_id v, v_end_of_turn_id v}. i = VOCAB_ID_NONE \<or> id_ok v i)"

lemma vocab_lookup_ok: "vocab_ok v \<Longrightarrow> vocab_lookup v s = VOCAB_ID_NONE \<or> id_ok v (vocab_lookup v s)"
  using vocab_try_lookup_Some [of v s] by (auto simp: vocab_lookup_def id_ok_def split: option.splits)

lemma id_or_lookup_ok:
  "vocab_ok v \<Longrightarrow> i = VOCAB_ID_NONE \<or> id_ok v i \<Longrightarrow>
   id_or_lookup v i s = VOCAB_ID_NONE \<or> id_ok v (id_or_lookup v i s)"
  using vocab_lookup_ok by (auto simp: id_or_lookup_def)

lemma reasoning_valid:
  assumes ok: "vocab_ok v" and m: "markers_ok v" and t: "valid_ids v tokens"
  shows "valid_ids v (chatml_add_reasoning v no_think n tokens)"
proof -
  let ?s = "id_or_lookup v (v_think_start_id v) ''<think>''" and ?e = "id_or_lookup v (v_think_end_id v) ''</think>''"
  have "?s = VOCAB_ID_NONE \<or> id_ok v ?s" "?e = VOCAB_ID_NONE \<or> id_ok v ?e" "id_ok v (newline_id v)"
    using m id_or_lookup_ok [OF ok] by (auto simp: markers_ok_def)
  with t id_ok_mod [OF ok] show ?thesis
    by (auto simp: chatml_add_reasoning_def Let_def id_ok_def)
qed

lemma part_ok_simps [simp]:
  "part_ok v (Tok i) = id_ok v i" "part_ok v (Txt s) = True" "part_ok v (Gem s b) = True"
  by (simp_all add: part_ok_def)

text \<open>C8: every chat template stays inside its buffer and emits only rows the embedding
  matrix has.  For all three families, first turn and continuation, the result has at most
  \<open>max_tokens\<close> entries whatever the messages are; with a well-formed vocabulary whose
  markers are ids (or absent) and which has a newline byte token, every entry is a valid
  token id.\<close>

theorem chat_templates_safe:
  assumes "vocab_ok v" and "markers_ok v"
    and "out \<in> {chatml_prompt v no_think user sys n, chatml_continuation v no_think user n,
                llama3_chat_prompt v user sys n, llama3_chat_continuation v user n,
                gemma_chat_prompt v user sys n, gemma_chat_continuation v user n}"
  shows "length out \<le> n \<and> valid_ids v out"
proof -
  have nl: "id_ok v (newline_id v)" and bos: "v_bos_id v \<noteq> VOCAB_ID_NONE \<Longrightarrow> id_ok v (v_bos_id v)"
    and st: "v_start_of_turn_id v \<noteq> VOCAB_ID_NONE \<Longrightarrow> id_ok v (v_start_of_turn_id v)"
    and et: "v_end_of_turn_id v \<noteq> VOCAB_ID_NONE \<Longrightarrow> id_ok v (v_end_of_turn_id v)"
    using assms(2) by (auto simp: markers_ok_def)
  let ?is = "id_or_lookup v (v_im_start_id v) ''<|im_start|>''"
    and ?ie = "id_or_lookup v (v_im_end_id v) ''<|im_end|>''"
  have im: "?is \<noteq> VOCAB_ID_NONE \<Longrightarrow> id_ok v ?is" "?ie \<noteq> VOCAB_ID_NONE \<Longrightarrow> id_ok v ?ie"
    using id_or_lookup_ok [OF assms(1)] assms(2) by (auto simp: markers_ok_def)
  have l3: "id_ok v a \<and> id_ok v b \<and> id_ok v c" if "llama3_markers v = Some (a, b, c)" for a b c
    using that vocab_lookup_ok [OF assms(1)] by (auto simp: llama3_markers_def Let_def split: if_splits)
  have run: "length (add_parts v n ps []) \<le> n \<and> valid_ids v (add_parts v n ps [])"
    if "list_all (part_ok v) ps" for ps
    using add_parts_length [of "[]" n v ps] add_parts_valid [OF assms(1) that, of "[]" n] by simp
  have chatml: "length (chatml_add_reasoning v no_think n (add_parts v n ps [])) \<le> n
      \<and> valid_ids v (chatml_add_reasoning v no_think n (add_parts v n ps []))"
    if "list_all (part_ok v) ps" for ps
    using run [OF that] reasoning_length reasoning_valid [OF assms(1,2)] by blast
  from assms(3) consider
      "out = chatml_prompt v no_think user sys n" | "out = chatml_continuation v no_think user n"
    | "out = llama3_chat_prompt v user sys n" | "out = llama3_chat_continuation v user n"
    | "out = gemma_chat_prompt v user sys n" | "out = gemma_chat_continuation v user n" by blast
  then show ?thesis
  proof cases
    case 1
    then show ?thesis
      using chatml [of "chatml_system ?is ?ie (newline_id v) sys @ chatml_turn ?is ?ie (newline_id v) user"] im nl
      by (auto simp: chatml_prompt_def Let_def chatml_system_def chatml_turn_def simp del: add_parts_append
          split: option.splits)
  next
    case 2
    then show ?thesis
      using chatml [of "[Tok ?ie, Tok (newline_id v)] @ chatml_turn ?is ?ie (newline_id v) user"] im nl
      by (auto simp: chatml_continuation_def Let_def chatml_turn_def simp del: add_parts_append)
  next
    case 3
    then show ?thesis using l3 nl bos
      by (auto simp: llama3_chat_prompt_def Let_def llama3_header_def llama3_turn_def simp del: add_parts_append
          intro!: run split: option.splits)
  next
    case 4
    then show ?thesis using l3 nl
      by (auto simp: llama3_chat_continuation_def llama3_header_def llama3_turn_def simp del: add_parts_append
          intro!: run split: option.splits)
  next
    case 5
    then show ?thesis using st et bos
      by (auto simp: gemma_chat_prompt_def Let_def gemma_turn_def simp del: add_parts_append
          intro!: run split: option.splits)
  next
    case 6
    then show ?thesis using st et
      by (auto simp: gemma_chat_continuation_def Let_def gemma_turn_def given_def simp del: add_parts_append
          intro!: run)
  qed
qed

text \<open>C17: a continuation is a first turn behind a closed one.  With room for the closing
  marker, \<open>chatml_continuation\<close> is the assistant's end marker and a newline followed by
  exactly what \<open>chatml_prompt\<close> lays out without a system prompt in the rest of the buffer,
  the reasoning block and every truncation included.\<close>

theorem chatml_continuation_is_prompt:
  assumes "id_or_lookup v (v_im_start_id v) ''<|im_start|>'' \<noteq> VOCAB_ID_NONE"
    and "id_or_lookup v (v_im_end_id v) ''<|im_end|>'' \<noteq> VOCAB_ID_NONE"
  shows "chatml_continuation v no_think user (n + 2) =
    [id_or_lookup v (v_im_end_id v) ''<|im_end|>'' mod 2 ^ 32, newline_id v mod 2 ^ 32]
    @ chatml_prompt v no_think user None n"
proof -
  let ?pre = "[id_or_lookup v (v_im_end_id v) ''<|im_end|>'' mod 2 ^ 32, newline_id v mod 2 ^ 32]"
  have pre: "add_parts v (n + 2) [Tok (id_or_lookup v (v_im_end_id v) ''<|im_end|>''), Tok (newline_id v)] [] = ?pre"
    by (simp add: add_parts_def add_part_def Let_def)
  have sum: "length ?pre + n = n + 2" by simp
  have run: "add_parts v (n + 2) ([Tok (id_or_lookup v (v_im_end_id v) ''<|im_end|>''), Tok (newline_id v)] @ ps) []
      = ?pre @ add_parts v n ps []" for ps
    using add_parts_shift [of v ?pre n ps "[]"] unfolding sum add_parts_append pre append_Nil2 .
  have "chatml_continuation v no_think user (n + 2) =
      chatml_add_reasoning v no_think (n + 2) (?pre @ add_parts v n
        (chatml_turn (id_or_lookup v (v_im_start_id v) ''<|im_start|>'')
          (id_or_lookup v (v_im_end_id v) ''<|im_end|>'') (newline_id v) user) [])"
    unfolding chatml_continuation_def Let_def run using assms by simp
  also have "\<dots> = ?pre @ chatml_prompt v no_think user None n"
    using reasoning_shift [of v no_think ?pre n] assms unfolding sum
    by (simp add: chatml_prompt_def Let_def chatml_system_def given_def)
  finally show ?thesis .
qed

section \<open>Witnesses\<close>

text \<open>The byte vocabulary with the newline token as every marker.\<close>

definition chat_vocab :: "int vocab" where
  "chat_vocab = byte_vocab\<lparr>v_im_start_id := 60, v_im_end_id := 62, v_start_of_turn_id := 60,
     v_end_of_turn_id := 62, v_bos_id := 1\<rparr>"

lemma chat_vocab_ok: "vocab_ok chat_vocab" "markers_ok chat_vocab"
proof -
  show "vocab_ok chat_vocab" using byte_vocab_ok(1) by (simp add: chat_vocab_def vocab_ok_def v_n_vocab_def)
  have "id_ok chat_vocab (newline_id chat_vocab)"
    using byte_vocab_ids [of 10] by (simp add: id_ok_def newline_id_def chat_vocab_def v_n_vocab_def)
  then show "markers_ok chat_vocab"
    by (simp add: markers_ok_def id_ok_def chat_vocab_def v_n_vocab_def byte_vocab_def byte_vocab0_def blank_vocab_def)
qed

lemma chat_templates_safe_witness:
  "length (gemma_chat_prompt chat_vocab ''hi'' None 5) \<le> 5
   \<and> valid_ids chat_vocab (gemma_chat_prompt chat_vocab ''hi'' None 5)"
  by (rule chat_templates_safe [OF chat_vocab_ok, of _ False "''hi''" None 5]) simp

lemma chatml_continuation_is_prompt_witness:
  "chatml_continuation chat_vocab True ''hi'' (6 + 2) =
     [62, newline_id chat_vocab mod 2 ^ 32] @ chatml_prompt chat_vocab True ''hi'' None 6"
proof -
  have "id_or_lookup chat_vocab (v_im_start_id chat_vocab) ''<|im_start|>'' = 60"
    "id_or_lookup chat_vocab (v_im_end_id chat_vocab) ''<|im_end|>'' = 62"
    by (simp_all add: id_or_lookup_def chat_vocab_def)
  with chatml_continuation_is_prompt [of chat_vocab True "''hi''" 6] show ?thesis by simp
qed

text \<open>Without a newline byte token the templates still add it: the id 4294967295.\<close>

lemma chatml_prompt_no_newline:
  assumes "newline_id v = VOCAB_ID_NONE"
    and "id_or_lookup v (v_im_start_id v) ''<|im_start|>'' \<noteq> VOCAB_ID_NONE"
    and "id_or_lookup v (v_im_end_id v) ''<|im_end|>'' \<noteq> VOCAB_ID_NONE"
  shows "4294967295 \<in> set (chatml_continuation v no_think user (n + 2))"
  using chatml_continuation_is_prompt [OF assms(2,3), of no_think user n] by (simp add: assms(1))

end
