(* ===== verification/HttpJson.thy ===== *)
theory HttpJson
  imports Prelude
begin

text \<open>
  src/src/http.c: the request splitter, header lookup and the minimal JSON readers and
  writer of the server.  A NUL-terminated buffer is the list of its bytes before the NUL;
  a pointer into it is the suffix that starts there, so \<open>strstr\<close> returns a suffix and
  reading \<open>*p\<close> at the end sees the NUL (the empty suffix).
\<close>

definition quote :: char where
  "quote = CHR 0x22"

definition backslash :: char where
  "backslash = CHR 0x5C"

fun strstr :: "string \<Rightarrow> string \<Rightarrow> string option" where
  "strstr s pat =
     (if take (length pat) s = pat then Some s
      else case s of [] \<Rightarrow> None | _ # t \<Rightarrow> strstr t pat)"

declare strstr.simps [simp del]

section \<open>Requests\<close>

definition crlf2 :: string where
  "crlf2 = [CHR 0x0D, CHR 0x0A, CHR 0x0D, CHR 0x0A]"

definition crlf :: string where
  "crlf = [CHR 0x0D, CHR 0x0A]"

text \<open>The body is what follows the first blank line; the request is a sized buffer.\<close>

fun http_body :: "bytes \<Rightarrow> bytes option" where
  "http_body req =
     (if length req < 4 then None
      else if take 4 req = crlf2 then Some (drop 4 req)
      else http_body (tl req))"

declare http_body.simps [simp del]

definition to_lower :: "char \<Rightarrow> char" where
  "to_lower c = (if 65 \<le> code c \<and> code c \<le> 90 then char_of (code c + 32) else c)"

text \<open>\<open>strncasecmp(line, name, n) == 0 && line[n] == ':'\<close>\<close>

definition header_matches :: "string \<Rightarrow> string \<Rightarrow> bool" where
  "header_matches line name \<longleftrightarrow>
     List.map to_lower (take (length name) line) = List.map to_lower name
     \<and> drop (length name) line \<noteq> [] \<and> hd (drop (length name) line) = CHR '':''"

text \<open>\<open>line < end\<close>: a pointer further left has the longer suffix.  The next line always
  starts further right, so the last test only shows that the walk ends.\<close>

function http_header_from :: "string \<Rightarrow> string \<Rightarrow> string \<Rightarrow> string" where
  "http_header_from line stop name =
     (if \<not> length stop < length line then []
      else if header_matches line name
      then dropWhile (\<lambda>c. c = CHR '' '') (drop (length name + 1) line)
      else case strstr line crlf of
             None \<Rightarrow> []
           | Some next \<Rightarrow> if length (drop 2 next) < length line
                          then http_header_from (drop 2 next) stop name else [])"
  by pat_completeness auto
termination by (relation "measure (\<lambda>(line, stop, name). length line)") auto

definition http_header :: "string \<Rightarrow> string \<Rightarrow> string" where
  "http_header buf name =
     (case strstr buf crlf2 of
        None \<Rightarrow> []
      | Some stop \<Rightarrow>
          (case strstr buf crlf of
             None \<Rightarrow> []
           | Some line \<Rightarrow> http_header_from (drop 2 line) stop name))"

section \<open>Reading JSON\<close>

definition is_ws :: "char \<Rightarrow> bool" where
  "is_ws c \<longleftrightarrow> code c = 32 \<or> code c = 9 \<or> code c = 10 \<or> code c = 13"

text \<open>The scan to the closing quote: what is left at the quote or at the end.\<close>

fun json_str_end :: "string \<Rightarrow> string" where
  "json_str_end [] = []"
| "json_str_end (c # s) =
     (if c = quote then c # s
      else if c = backslash \<and> s \<noteq> [] then json_str_end (tl s)
      else json_str_end s)"

lemma json_str_end_suffix: "\<exists>pre. s = pre @ json_str_end s"
proof (induction s rule: json_str_end.induct)
  case 1
  then show ?case by simp
next
  case (2 c s)
  show ?case
  proof (cases "c = quote")
    case True
    then show ?thesis by (intro exI [of _ "[]"]) simp
  next
    case False
    show ?thesis
    proof (cases "c = backslash \<and> s \<noteq> []")
      case True
      with "2.IH"(1) False obtain pre where "tl s = pre @ json_str_end (tl s)" by blast
      with True False show ?thesis by (intro exI [of _ "c # hd s # pre"]) (cases s, auto)
    next
      case F: False
      with "2.IH"(2) False obtain pre where "s = pre @ json_str_end s" by blast
      with F False show ?thesis by (intro exI [of _ "c # pre"]) auto
    qed
  qed
qed

lemma length_json_str_end: "length (json_str_end s) \<le> length s"
  using json_str_end_suffix [of s] by (metis le_add2 length_append)

lemma strstr_suffix: "strstr s pat = Some t \<Longrightarrow> \<exists>pre. s = pre @ t \<and> take (length pat) t = pat"
proof (induction s)
  case Nil
  then show ?case by (subst (asm) strstr.simps) (auto split: if_splits)
next
  case (Cons c s)
  show ?case
  proof (cases "take (length pat) (c # s) = pat")
    case True
    with Cons.prems show ?thesis by (subst (asm) strstr.simps) (auto intro: exI [of _ "[]"])
  next
    case False
    with Cons.prems have "strstr s pat = Some t" by (subst (asm) strstr.simps) simp
    with Cons.IH obtain pre where "s = pre @ t" "take (length pat) t = pat" by blast
    then show ?thesis by (intro exI [of _ "c # pre"]) simp
  qed
qed

lemma strstr_length: "strstr s pat = Some t \<Longrightarrow> length pat \<le> length t \<and> length t \<le> length s"
proof -
  assume "strstr s pat = Some t"
  from strstr_suffix [OF this] obtain pre where "s = pre @ t" "take (length pat) t = pat" by blast
  moreover from this(2) have "length pat \<le> length t" by (metis length_take min.cobounded1)
  ultimately show ?thesis by simp
qed

text \<open>The search loop: each \<open>continue\<close> goes on from where the failed attempt stopped.
  The result is the suffix at the value and the value's length.\<close>

function json_find :: "string \<Rightarrow> string \<Rightarrow> (string \<times> nat) option" where
  "json_find s pat =
     (if pat = [] then None
      else case strstr s pat of
        None \<Rightarrow> None
      | Some p \<Rightarrow>
          let p1 = dropWhile is_ws (drop (length pat) p) in
          if p1 = [] \<or> hd p1 \<noteq> CHR '':'' then json_find p1 pat
          else let p2 = dropWhile is_ws (tl p1) in
            if p2 = [] \<or> hd p2 \<noteq> quote then json_find p2 pat
            else let start = tl p2; pos = json_str_end start in
              if pos = [] \<or> hd pos \<noteq> quote then json_find pos pat
              else Some (start, length start - length pos))"
  by pat_completeness auto
termination
proof (relation "measure (\<lambda>(s, pat). length s)", goal_cases)
  case 1
  then show ?case by simp
next
  case (2 s pat p p1)
  have "length p1 \<le> length p - length pat" using 2(3) length_dropWhile_le [of is_ws "drop (length pat) p"] by simp
  moreover have "0 < length pat" using 2(1) by simp
  ultimately show ?case using strstr_length [OF 2(2)] unfolding in_measure prod.case by linarith
next
  case (3 s pat p p1 p2)
  have "length p1 \<le> length p - length pat" using 3(3) length_dropWhile_le [of is_ws "drop (length pat) p"] by simp
  moreover have "length p2 \<le> length p1"
    using 3(5) length_dropWhile_le [of is_ws "tl p1"] by simp
  moreover have "0 < length pat" using 3(1) by simp
  ultimately show ?case using strstr_length [OF 3(2)] unfolding in_measure prod.case by linarith
next
  case (4 s pat p p1 p2 start pos)
  have "length p1 \<le> length p - length pat" using 4(3) length_dropWhile_le [of is_ws "drop (length pat) p"] by simp
  moreover have "length p2 \<le> length p1"
    using 4(5) length_dropWhile_le [of is_ws "tl p1"] by simp
  moreover have "length pos \<le> length p2"
    using 4(7,8) length_json_str_end [of start] by simp
  moreover have "0 < length pat" using 4(1) by simp
  ultimately show ?case using strstr_length [OF 4(2)] unfolding in_measure prod.case by linarith
qed

declare json_find.simps [simp del]

definition json_key :: "string \<Rightarrow> string" where
  "json_key key = quote # key @ [quote]"

definition json_get_string :: "string \<Rightarrow> string \<Rightarrow> (string \<times> nat) option" where
  "json_get_string json key =
     (if length (json_key key) \<ge> 128 then None else json_find json (json_key key))"

text \<open>The first occurrence of the key that is followed by a colon decides.\<close>

function json_find_true :: "string \<Rightarrow> string \<Rightarrow> bool" where
  "json_find_true s pat =
     (if pat = [] then False
      else case strstr s pat of
        None \<Rightarrow> False
      | Some p \<Rightarrow>
          let p1 = dropWhile is_ws (drop (length pat) p) in
          if p1 = [] \<or> hd p1 \<noteq> CHR '':'' then json_find_true p1 pat
          else take 4 (dropWhile is_ws (tl p1)) = ''true'')"
  by pat_completeness auto
termination
proof (relation "measure (\<lambda>(s, pat). length s)", goal_cases)
  case 1
  then show ?case by simp
next
  case (2 s pat p p1)
  have "length p1 \<le> length p - length pat" using 2(3) length_dropWhile_le [of is_ws "drop (length pat) p"] by simp
  moreover have "0 < length pat" using 2(1) by simp
  ultimately show ?case using strstr_length [OF 2(2)] unfolding in_measure prod.case by linarith
qed

declare json_find_true.simps [simp del]

definition json_get_bool :: "string \<Rightarrow> string \<Rightarrow> bool" where
  "json_get_bool json key =
     (if length (json_key key) \<ge> 128 then False else json_find_true json (json_key key))"

section \<open>Escapes\<close>

text \<open>\<open>\\u\<close> becomes a question mark and skips four bytes; the increments of \<open>i\<close> in
  the loop are the bytes dropped here.\<close>

fun json_unescape :: "bytes \<Rightarrow> bytes" where
  "json_unescape [] = []"
| "json_unescape [c] = [c]"
| "json_unescape (c # d # s) =
     (if c = backslash
      then (if d = CHR ''n'' then CHR 0x0A # json_unescape s
            else if d = CHR ''r'' then CHR 0x0D # json_unescape s
            else if d = CHR ''t'' then CHR 0x09 # json_unescape s
            else if d = CHR ''u'' then CHR ''?'' # json_unescape (drop 4 s)
            else d # json_unescape s)
      else c # json_unescape (d # s))"

definition hex_digit :: "nat \<Rightarrow> char" where
  "hex_digit n = (if n < 10 then char_of (48 + n) else char_of (87 + n))"

definition json_escape_char :: "char \<Rightarrow> bytes" where
  "json_escape_char c =
     (let u = code c in
      if c = quote then [backslash, quote]
      else if c = backslash then [backslash, backslash]
      else if u = 10 then [backslash, CHR ''n'']
      else if u = 13 then [backslash, CHR ''r'']
      else if u = 9 then [backslash, CHR ''t'']
      else if u = 8 then [backslash, CHR ''b'']
      else if u = 12 then [backslash, CHR ''f'']
      else if u < 0x20
      then [backslash, CHR ''u'', CHR ''0'', CHR ''0'', hex_digit (u div 16), hex_digit (u mod 16)]
      else [c])"

fun json_escape_from :: "nat \<Rightarrow> nat \<Rightarrow> bytes \<Rightarrow> bytes" where
  "json_escape_from out_len w [] = []"
| "json_escape_from out_len w (c # s) =
     (if w + 6 < out_len
      then json_escape_char c @ json_escape_from out_len (w + length (json_escape_char c)) s
      else [])"

definition json_escape_str :: "nat \<Rightarrow> bytes \<Rightarrow> bytes" where
  "json_escape_str out_len s = json_escape_from out_len 0 s"

lemma json_escape_char_length: "1 \<le> length (json_escape_char c)" "length (json_escape_char c) \<le> 6"
  by (simp_all add: json_escape_char_def Let_def)

lemma json_escape_from_bound:
  "w < out_len \<Longrightarrow> w + length (json_escape_from out_len w s) < out_len"
proof (induction out_len w s rule: json_escape_from.induct)
  case (2 out_len w c s)
  show ?case
  proof (cases "w + 6 < out_len")
    case True
    then have "w + length (json_escape_char c) < out_len" using json_escape_char_length(2) [of c] by simp
    from "2.IH" [OF True this] True show ?thesis by simp
  qed (use "2.prems" in simp)
qed simp

lemma json_escape_from_prefix:
  "\<exists>k \<le> length s. json_escape_from out_len w s = concat (List.map json_escape_char (take k s))
     \<and> (k < length s \<longrightarrow> out_len \<le> w + length (concat (List.map json_escape_char (take k s))) + 6)"
proof (induction out_len w s rule: json_escape_from.induct)
  case (2 out_len w c s)
  show ?case
  proof (cases "w + 6 < out_len")
    case True
    from "2.IH" [OF True] obtain k where "k \<le> length s"
      "json_escape_from out_len (w + length (json_escape_char c)) s = concat (List.map json_escape_char (take k s))"
      "k < length s \<longrightarrow> out_len \<le> w + length (json_escape_char c) + length (concat (List.map json_escape_char (take k s))) + 6"
      by blast
    with True show ?thesis by (intro exI [of _ "Suc k"]) auto
  next
    case False
    then show ?thesis by (intro exI [of _ 0]) simp
  qed
qed simp

text \<open>Escaped text is scanned to its very end: no quote in it is taken for the closing one.\<close>

lemma json_escape_char_scan:
  "json_str_end (json_escape_char c @ rest) = json_str_end rest"
proof -
  have h: "hex_digit n \<noteq> quote \<and> hex_digit n \<noteq> backslash" if "n < 16" for n
  proof -
    have "n \<in> set [0 ..< 16]" using that by simp
    moreover have "list_all (\<lambda>n. hex_digit n \<noteq> quote \<and> hex_digit n \<noteq> backslash) [0 ..< 16]" by code_simp
    ultimately show ?thesis unfolding list_all_iff by blast
  qed
  have "code c div 16 < 16"
    using nat_of_char_less_256 [of c] by (intro less_mult_imp_div_less) simp
  then show ?thesis
    using h [of "code c div 16"] h [of "code c mod 16"]
    by (auto simp: json_escape_char_def Let_def quote_def backslash_def)
qed

lemma json_escape_scan:
  "json_str_end (concat (List.map json_escape_char s) @ rest) = json_str_end rest"
  by (induction s) (simp_all add: json_escape_char_scan)

section \<open>Properties\<close>

text \<open>C13: the request body is found exactly.  \<open>http_body\<close> answers with the bytes behind the
  first blank line of the buffer, and with NULL exactly when there is none.\<close>

theorem http_body_correct:
  "http_body req = Some b \<longleftrightarrow>
     (\<exists>h. req = h @ crlf2 @ b \<and> (\<forall>k < length h. take 4 (drop k req) \<noteq> crlf2))"
proof (induction req)
  case Nil
  then show ?case by (subst http_body.simps) (simp add: crlf2_def)
next
  case (Cons c s)
  let ?R = "\<lambda>req h. req = h @ crlf2 @ b \<and> (\<forall>k < length h. take 4 (drop k req) \<noteq> crlf2)"
  have len: "length crlf2 = 4" by (simp add: crlf2_def)
  show ?case
  proof (cases "take 4 (c # s) = crlf2")
    case True
    then have l: "\<not> length (c # s) < 4" using len by (metis length_take min_less_iff_conj not_less_iff_gr_or_eq)
    have "http_body (c # s) = Some (drop 4 (c # s))"
      using True l by (subst http_body.simps) simp
    moreover have "(\<exists>h. ?R (c # s) h) \<longleftrightarrow> ?R (c # s) []"
      using True by (metis drop0 length_0_conv list.size(3) neq0_conv)
    moreover have "?R (c # s) [] \<longleftrightarrow> drop 4 (c # s) = b"
      using True len append_take_drop_id [of 4 "c # s"] by (metis append_Nil append_eq_conv_conj less_nat_zero_code list.size(3))
    ultimately show ?thesis by simp
  next
    case False
    have step: "http_body (c # s) = http_body s"
    proof (cases "length (c # s) < 4")
      case True
      then have "length s < 4" by simp
      with True show ?thesis by (subst (1 2) http_body.simps) simp
    next
      case F: False
      with False show ?thesis by (subst http_body.simps) simp
    qed
    have "(\<exists>h. ?R (c # s) h) \<longleftrightarrow> (\<exists>h. ?R s h)"
    proof
      assume "\<exists>h. ?R (c # s) h"
      then obtain h where h: "?R (c # s) h" by blast
      then have "h \<noteq> []" using False len by auto
      then obtain h' where h': "h = c # h'" using h by (cases h) auto
      have "\<forall>k < length h'. take 4 (drop k s) \<noteq> crlf2"
        using h by (auto simp: h' dest: spec [of _ "Suc _"])
      with h h' show "\<exists>h. ?R s h" by auto
    next
      assume "\<exists>h. ?R s h"
      then obtain h where h: "?R s h" by blast
      have "\<forall>k < length (c # h). take 4 (drop k (c # s)) \<noteq> crlf2"
        using h False by (auto simp: less_Suc_eq_0_disj)
      with h show "\<exists>h. ?R (c # s) h" by (intro exI [of _ "c # h"]) auto
    qed
    with Cons.IH step show ?thesis by simp
  qed
qed

lemma http_body_correct_witness:
  "http_body (''GET / HTTP/1.1'' @ crlf2 @ ''{}'') = Some ''{}''"
proof -
  have "\<forall>k < length ''GET / HTTP/1.1''. take 4 (drop k (''GET / HTTP/1.1'' @ crlf2 @ ''{}'')) \<noteq> crlf2"
  proof -
    have "list_all (\<lambda>k. take 4 (drop k (''GET / HTTP/1.1'' @ crlf2 @ ''{}'')) \<noteq> crlf2) [0 ..< 14]"
      by code_simp
    then show ?thesis by (simp add: list_all_iff)
  qed
  then show ?thesis
    unfolding http_body_correct by blast
qed

text \<open>C14: a JSON string written by the server ends where it should.  However long the text
  and however small the buffer, the escaped text stays below the buffer's size, and put
  between quotes after its key it is read back by \<open>json_get_string\<close> as exactly that value:
  no byte of the text can close the string early.\<close>

theorem json_escape_delimited:
  assumes "0 < out_len" and "length key < 126"
  shows "length (json_escape_str out_len s) < out_len
    \<and> json_get_string (json_key key @ '':'' @ [quote] @ json_escape_str out_len s @ quote # rest) key
      = Some (json_escape_str out_len s @ quote # rest, length (json_escape_str out_len s))"
proof
  show "length (json_escape_str out_len s) < out_len"
    using json_escape_from_bound [of 0 out_len s] assms(1) by (simp add: json_escape_str_def)
  let ?e = "json_escape_str out_len s"
  obtain k where e: "?e = concat (List.map json_escape_char (take k s))"
    using json_escape_from_prefix [of s out_len 0] by (auto simp: json_escape_str_def)
  have stop: "json_str_end (?e @ quote # rest) = quote # rest"
    unfolding e json_escape_scan by simp
  let ?json = "json_key key @ '':'' @ [quote] @ ?e @ quote # rest"
  have "strstr ?json (json_key key) = Some ?json" by (subst strstr.simps) simp
  moreover have "json_key key \<noteq> []" by (simp add: json_key_def)
  moreover have "\<not> is_ws CHR '':''" "\<not> is_ws quote" by (simp_all add: is_ws_def quote_def)
  ultimately have "json_find ?json (json_key key) = Some (?e @ quote # rest, length ?e)"
    using stop by (subst json_find.simps) (simp add: Let_def)
  moreover have "length (json_key key) < 128" using assms(2) by (simp add: json_key_def)
  ultimately show "json_get_string ?json key = Some (?e @ quote # rest, length ?e)"
    by (simp add: json_get_string_def)
qed

lemma json_escape_delimited_witness:
  "length (json_escape_str 32 [quote, backslash]) < 32
   \<and> json_get_string (json_key ''content'' @ '':'' @ [quote] @ json_escape_str 32 [quote, backslash] @ quote # ''}'') ''content''
     = Some (json_escape_str 32 [quote, backslash] @ quote # ''}'', length (json_escape_str 32 [quote, backslash]))"
  using json_escape_delimited [of 32 "''content''" "[quote, backslash]" "''}''"] by simp

text \<open>The bytes the two functions agree on: all but \<open>\\b\<close>, \<open>\\f\<close> and the control bytes
  that need \<open>\\u\<close>.\<close>

definition json_plain :: "char \<Rightarrow> bool" where
  "json_plain c \<longleftrightarrow> code c \<ge> 32 \<or> code c = 9 \<or> code c = 10 \<or> code c = 13"

lemma char_by_code: "code c = n \<Longrightarrow> c = char_of n"
  by (metis char_of_char)

lemma json_unescape_char:
  assumes "json_plain c"
  shows "json_unescape (json_escape_char c @ rest) = c # json_unescape rest"
proof -
  have bs: "json_unescape (backslash # d # s) = x # json_unescape s"
    if "d = CHR ''n'' \<and> x = CHR 0x0A \<or> d = CHR ''r'' \<and> x = CHR 0x0D \<or> d = CHR ''t'' \<and> x = CHR 0x09
      \<or> x = d \<and> (d = quote \<or> d = backslash)" for d x s
    using that by (auto simp: quote_def backslash_def)
  have plain: "json_unescape (c # rest) = c # json_unescape rest" if "c \<noteq> backslash"
    using that by (cases rest) simp_all
  have ws: "(CHR 0x0A :: char) = char_of (10::nat)" "(CHR 0x0D :: char) = char_of (13::nat)"
    "(CHR 0x09 :: char) = char_of (9::nat)" by code_simp+
  consider (special) "c = quote \<or> c = backslash" | (nl) "c = CHR 0x0A" | (cr) "c = CHR 0x0D" | (tab) "c = CHR 0x09"
    | (other) "c \<noteq> quote" "c \<noteq> backslash" "32 \<le> code c"
    using assms char_by_code [of c 10] char_by_code [of c 13] char_by_code [of c 9]
    unfolding json_plain_def ws by blast
  then show ?thesis
  proof cases
    case special
    then show ?thesis by (auto simp: json_escape_char_def Let_def bs simp del: json_unescape.simps)
  next
    case other
    then have "json_escape_char c = [c]" by (simp add: json_escape_char_def Let_def)
    then show ?thesis using plain other(2) by simp
  qed (simp_all add: json_escape_char_def quote_def backslash_def)
qed

text \<open>C15: escaping and unescaping are inverse.  A text without \<open>\\b\<close>, \<open>\\f\<close> and the other
  control bytes that survives \<open>json_escape_str\<close> whole (six bytes of room per byte and seven
  spare) comes back unchanged from \<open>json_unescape\<close>.\<close>

theorem json_escape_roundtrip:
  assumes "list_all json_plain s" and "6 * length s + 7 \<le> out_len"
  shows "json_unescape (json_escape_str out_len s) = s"
proof -
  obtain k where k: "json_escape_str out_len s = concat (List.map json_escape_char (take k s))"
    "k \<le> length s"
    "k < length s \<longrightarrow> out_len \<le> length (concat (List.map json_escape_char (take k s))) + 6"
    using json_escape_from_prefix [of s out_len 0] by (auto simp: json_escape_str_def)
  have bound: "length (concat (List.map json_escape_char t)) \<le> 6 * length t" for t
    using json_escape_char_length(2) by (induction t) (auto intro: add_mono)
  have "k = length s"
  proof (rule ccontr)
    assume "k \<noteq> length s"
    with k(2,3) have "out_len \<le> 6 * length (take k s) + 6" using bound [of "take k s"] by linarith
    with \<open>k \<noteq> length s\<close> k(2) assms(2) show False by simp
  qed
  with k(1) have e: "json_escape_str out_len s = concat (List.map json_escape_char s)" by simp
  from assms(1) have "json_unescape (concat (List.map json_escape_char s)) = s"
    by (induction s) (simp_all add: json_unescape_char)
  then show ?thesis by (simp add: e)
qed

lemma json_escape_roundtrip_witness:
  "json_unescape (json_escape_str 64 (quote # ''ok''  @ [backslash, CHR 0x0A])) = quote # ''ok''  @ [backslash, CHR 0x0A]"
proof -
  have "list_all json_plain (quote # ''ok''  @ [backslash, CHR 0x0A])"
    by (simp add: json_plain_def quote_def backslash_def)
  from json_escape_roundtrip [OF this, of 64] show ?thesis by simp
qed

text \<open>The writer's \<open>\\b\<close>, \<open>\\f\<close> and \<open>\\u\<close> escapes are not understood by the reader.\<close>

lemma json_unescape_loses:
  "json_unescape (json_escape_str 64 [CHR 0x08]) = ''b''"
  "json_unescape (json_escape_str 64 [CHR 0x0C]) = ''f''"
  "json_unescape (json_escape_str 64 [CHR 0x01]) = ''?''"
  by code_simp+

end
