(* ===== verification/ServerRequest.thy ===== *)
theory ServerRequest
  imports HttpJson
begin

text \<open>
  The request handler of src/src/server.c: how \<open>handle_request\<close> finds the messages in a
  request body, how it generates, and how it cuts the streamed text at UTF-8 boundaries.
  A pointer into the body is the suffix that starts there.  The model's forward pass and
  the sampler are parameters of the generation loop.
\<close>

unbundle bit_operations_syntax

section \<open>UTF-8 boundaries\<close>

definition utf8_need :: "char \<Rightarrow> nat" where
  "utf8_need c =
     (let u = code c in
      if u < 0x80 then 1
      else if u AND 0xE0 = 0xC0 then 2
      else if u AND 0xF0 = 0xE0 then 3
      else if u AND 0xF8 = 0xF0 then 4
      else 0)"

lemma utf8_need_le: "utf8_need c \<le> 4"
  by (simp add: utf8_need_def Let_def)

text \<open>A byte that starts no sequence (\<open>need = 0\<close>) is passed over alone.\<close>

fun utf8_complete_prefix :: "bytes \<Rightarrow> nat" where
  "utf8_complete_prefix [] = 0"
| "utf8_complete_prefix (c # s) =
     (let need = utf8_need c in
      if need = 0 then 1 + utf8_complete_prefix s
      else if need > length (c # s) then 0
      else need + utf8_complete_prefix (drop (need - 1) s))"

lemma utf8_prefix_le: "utf8_complete_prefix s \<le> length s"
proof (induction s rule: utf8_complete_prefix.induct)
  case (2 c s)
  show ?case
  proof (cases "utf8_need c = 0 \<or> utf8_need c > length (c # s)")
    case True
    with 2 show ?thesis by (auto simp: Let_def)
  next
    case False
    then have "utf8_complete_prefix (drop (utf8_need c - 1) s) \<le> length s - (utf8_need c - 1)"
      using "2.IH"(2) by fastforce
    with False show ?thesis by (simp add: Let_def, linarith?)
  qed
qed simp

lemma utf8_held_back: "length s \<le> utf8_complete_prefix s + 3"
proof (induction s rule: utf8_complete_prefix.induct)
  case (2 c s)
  show ?case
  proof (cases "utf8_need c = 0 \<or> utf8_need c > length (c # s)")
    case True
    with 2 utf8_need_le [of c] show ?thesis by (auto simp: Let_def)
  next
    case False
    then have "length s - (utf8_need c - 1) \<le> utf8_complete_prefix (drop (utf8_need c - 1) s) + 3"
      using "2.IH"(2) by fastforce
    with False show ?thesis by (simp add: Let_def, linarith?)
  qed
qed simp

text \<open>A complete part decides nothing about what follows it.\<close>

lemma utf8_prefix_append:
  "utf8_complete_prefix a = length a \<Longrightarrow> utf8_complete_prefix (a @ b) = length a + utf8_complete_prefix b"
proof (induction a rule: utf8_complete_prefix.induct)
  case 1
  then show ?case by simp
next
  case (2 c s)
  show ?case
  proof (cases "utf8_need c = 0")
    case True
    with 2 show ?thesis by (simp add: Let_def)
  next
    case False
    then have n: "\<not> utf8_need c > length (c # s)" using "2.prems" by (auto simp: Let_def)
    with False "2.prems" have "utf8_complete_prefix (drop (utf8_need c - 1) s) = length (drop (utf8_need c - 1) s)"
      by (simp add: Let_def, linarith?)
    with "2.IH"(2) [OF refl False n] have
      "utf8_complete_prefix (drop (utf8_need c - 1) s @ b) = length s - (utf8_need c - 1) + utf8_complete_prefix b"
      by simp
    moreover have "drop (utf8_need c - 1) (s @ b) = drop (utf8_need c - 1) s @ b" using n by simp
    ultimately show ?thesis using False n by (simp add: Let_def)
  qed
qed

lemma utf8_prefix_take:
  "utf8_complete_prefix (take (utf8_complete_prefix s) s) = length (take (utf8_complete_prefix s) s)"
proof (induction s rule: utf8_complete_prefix.induct)
  case 1
  then show ?case by simp
next
  case (2 c s)
  show ?case
  proof (cases "utf8_need c = 0 \<or> utf8_need c > length (c # s)")
    case True
    with 2 show ?thesis by (auto simp: Let_def)
  next
    case False
    then obtain m where m: "utf8_need c = Suc m" "m \<le> length s" by (cases "utf8_need c") auto
    let ?d = "drop m s"
    have t: "take (utf8_complete_prefix (c # s)) (c # s) = c # take m s @ take (utf8_complete_prefix ?d) ?d"
      using m by (simp add: Let_def take_add)
    have "utf8_complete_prefix (take (utf8_complete_prefix ?d) ?d) = length (take (utf8_complete_prefix ?d) ?d)"
      using "2.IH"(2) [OF refl] False m by simp
    then show ?thesis unfolding t using m by (simp add: Let_def)
  qed
qed

lemma utf8_prefix_rest:
  "utf8_complete_prefix (drop (utf8_complete_prefix s) s @ b) + utf8_complete_prefix s
     = utf8_complete_prefix (s @ b)"
proof -
  let ?k = "utf8_complete_prefix s"
  have "utf8_complete_prefix (s @ b) = length (take ?k s) + utf8_complete_prefix (drop ?k s @ b)"
    by (metis append.assoc append_take_drop_id utf8_prefix_append utf8_prefix_take)
  then show ?thesis using utf8_prefix_le [of s] by simp
qed

section \<open>The stream\<close>

text \<open>One decoded piece: it is appended to what was held back (the merge buffer has 2056
  bytes), the complete prefix goes out, the rest is held back.\<close>

definition stream_piece :: "bytes \<Rightarrow> bytes \<Rightarrow> bytes \<times> bytes" where
  "stream_piece pending piece =
     (let merged = pending @ take (2056 - length pending) piece;
          emit = utf8_complete_prefix merged in
      (take emit merged, drop emit merged))"

fun stream_pieces :: "bytes \<Rightarrow> bytes list \<Rightarrow> bytes list \<times> bytes" where
  "stream_pieces pending [] = ([], pending)"
| "stream_pieces pending (p # ps) =
     (let (out, pending') = stream_piece pending p; (outs, last) = stream_pieces pending' ps in
      (out # outs, last))"

lemma stream_piece_cut:
  assumes "length pending \<le> 3" and "length p \<le> 2047"
  shows "stream_piece pending p =
    (take (utf8_complete_prefix (pending @ p)) (pending @ p), drop (utf8_complete_prefix (pending @ p)) (pending @ p))"
  using assms by (simp add: stream_piece_def Let_def)

lemma stream_pieces_text:
  "length pending \<le> 3 \<Longrightarrow> \<forall>p \<in> set ps. length p \<le> 2047 \<Longrightarrow> utf8_complete_prefix pending = 0 \<Longrightarrow>
   stream_pieces pending ps = (outs, rest) \<Longrightarrow>
   concat outs = take (utf8_complete_prefix (pending @ concat ps)) (pending @ concat ps)
   \<and> rest = drop (utf8_complete_prefix (pending @ concat ps)) (pending @ concat ps)"
proof (induction ps arbitrary: pending outs rest)
  case Nil
  then show ?case by simp
next
  case (Cons p ps)
  let ?m = "pending @ p" let ?k = "utf8_complete_prefix ?m" let ?tail = "drop ?k ?m"
  have cut: "stream_piece pending p = (take ?k ?m, ?tail)"
    using Cons.prems by (intro stream_piece_cut) auto
  obtain outs' where o: "stream_pieces ?tail ps = (outs', rest)" "outs = take ?k ?m # outs'"
    using Cons.prems(4) cut by (cases "stream_pieces ?tail ps") auto
  have short: "length ?tail \<le> 3" using utf8_held_back [of ?m] by simp
  have zero: "utf8_complete_prefix ?tail = 0"
    using utf8_prefix_rest [of ?m "[]"] by simp
  have total: "utf8_complete_prefix (?tail @ concat ps) + ?k = utf8_complete_prefix (?m @ concat ps)"
    by (rule utf8_prefix_rest)
  have le: "?k \<le> length ?m" by (rule utf8_prefix_le)
  have app: "pending @ concat (p # ps) = take ?k ?m @ ?tail @ concat ps"
    by (metis append.assoc append_take_drop_id concat.simps(2))
  from Cons.IH [OF short _ zero o(1)] Cons.prems(2) have
    IH: "concat outs' = take (utf8_complete_prefix (?tail @ concat ps)) (?tail @ concat ps)"
    "rest = drop (utf8_complete_prefix (?tail @ concat ps)) (?tail @ concat ps)" by auto
  have k: "utf8_complete_prefix (pending @ concat (p # ps)) = ?k + utf8_complete_prefix (?tail @ concat ps)"
    using total by simp
  have lt: "length (take ?k ?m) = ?k" using le by simp
  have "take (utf8_complete_prefix (pending @ concat (p # ps))) (pending @ concat (p # ps))
      = take ?k ?m @ take (utf8_complete_prefix (?tail @ concat ps)) (?tail @ concat ps)"
    unfolding k by (subst app) (rule take_add_append [OF lt])
  moreover have "drop (utf8_complete_prefix (pending @ concat (p # ps))) (pending @ concat (p # ps))
      = drop (utf8_complete_prefix (?tail @ concat ps)) (?tail @ concat ps)"
    unfolding k by (subst app) (rule drop_add_append [OF lt])
  ultimately show ?case unfolding o(2) by (simp only: IH concat.simps)
qed

section \<open>Choosing the messages\<close>

text \<open>\<open>p - k\<close>, not left of the body's start.\<close>

definition look_back :: "string \<Rightarrow> string \<Rightarrow> nat \<Rightarrow> string" where
  "look_back body p k = drop (length body - (length p + k)) body"

definition pick_system :: "string \<Rightarrow> bytes option" where
  "pick_system body =
     (case json_get_string body ''content'' of
        None \<Rightarrow> None
      | Some (raw, slen) \<Rightarrow>
          if strstr (look_back body raw 40) (json_key ''system'') \<noteq> None
          then Some (json_unescape (take (if slen < 1023 then slen else 1023) raw))
          else None)"

lemma json_find_shorter:
  "json_find s pat = Some (start, n) \<Longrightarrow> length start < length s"
proof (induction s pat rule: json_find.induct)
  case (1 s pat)
  from "1.prems" obtain p where pat: "pat \<noteq> []" and p: "strstr s pat = Some p"
    by (subst (asm) json_find.simps) (auto split: if_splits option.splits)
  let ?p1 = "dropWhile is_ws (drop (length pat) p)" let ?p2 = "dropWhile is_ws (tl ?p1)"
  let ?pos = "json_str_end (tl ?p2)"
  have lens: "length ?p1 < length s" "length ?p2 \<le> length ?p1" "length ?pos \<le> length (tl ?p2)"
    using strstr_length [OF p] pat length_dropWhile_le [of is_ws "drop (length pat) p"]
      length_dropWhile_le [of is_ws "tl ?p1"] length_json_str_end [of "tl ?p2"]
    by (auto simp: Suc_le_eq [symmetric] length_greater_0_conv [symmetric] simp del: length_greater_0_conv)
  have eq: "json_find s pat =
      (if ?p1 = [] \<or> hd ?p1 \<noteq> CHR '':'' then json_find ?p1 pat
       else if ?p2 = [] \<or> hd ?p2 \<noteq> quote then json_find ?p2 pat
       else if ?pos = [] \<or> hd ?pos \<noteq> quote then json_find ?pos pat
       else Some (tl ?p2, length (tl ?p2) - length ?pos))"
    using pat p by (subst json_find.simps) (simp add: Let_def)
  show ?case
  proof (cases "?p1 = [] \<or> hd ?p1 \<noteq> CHR '':''")
    case True
    have e: "json_find s pat = json_find ?p1 pat" unfolding eq by (rule if_P [OF True])
    from "1.IH"(1) [OF pat p refl True "1.prems" [unfolded e]] lens(1) show ?thesis by linarith
  next
    case F1: False
    have eq1: "json_find s pat = (if ?p2 = [] \<or> hd ?p2 \<noteq> quote then json_find ?p2 pat
       else if ?pos = [] \<or> hd ?pos \<noteq> quote then json_find ?pos pat
       else Some (tl ?p2, length (tl ?p2) - length ?pos))" unfolding eq by (rule if_not_P [OF F1])
    show ?thesis
    proof (cases "?p2 = [] \<or> hd ?p2 \<noteq> quote")
      case True
      have e: "json_find s pat = json_find ?p2 pat" unfolding eq1 by (rule if_P [OF True])
      from "1.IH"(2) [OF pat p refl F1 refl True "1.prems" [unfolded e]] lens show ?thesis by linarith
    next
      case F2: False
      have eq2: "json_find s pat = (if ?pos = [] \<or> hd ?pos \<noteq> quote then json_find ?pos pat
         else Some (tl ?p2, length (tl ?p2) - length ?pos))" unfolding eq1 by (rule if_not_P [OF F2])
      have tl2: "length (tl ?p2) \<le> length ?p2" by simp
      show ?thesis
      proof (cases "?pos = [] \<or> hd ?pos \<noteq> quote")
        case True
        have e: "json_find s pat = json_find ?pos pat" unfolding eq2 by (rule if_P [OF True])
        from "1.IH"(3) [OF pat p refl F1 refl F2 refl refl True "1.prems" [unfolded e]] lens tl2 show ?thesis by linarith
      next
        case False
        have "json_find s pat = Some (tl ?p2, length (tl ?p2) - length ?pos)"
          unfolding eq2 by (rule if_not_P [OF False])
        with "1.prems" have "start = tl ?p2" by simp
        then have "length start = length (tl ?p2)" by (rule arg_cong)
        with lens tl2 show ?thesis by linarith
      qed
    qed
  qed
qed

text \<open>The loop over all \<open>content\<close> fields.  \<open>scan += clen + 2\<close> steps over the value, its
  closing quote and one byte more; when the body ends with that quote the pointer passes
  the terminating NUL, and the next \<open>strstr\<close> reads outside the buffer: \<open>None\<close>.\<close>

function scan_user :: "string \<Rightarrow> string \<Rightarrow> (string \<times> nat) option \<Rightarrow> (string \<times> nat) option option" where
  "scan_user body scan last_user =
     (case json_get_string scan ''content'' of
        None \<Rightarrow> Some last_user
      | Some (raw, clen) \<Rightarrow>
          let last_user' = (if strstr (look_back body raw 60) (json_key ''user'') \<noteq> None
                            then Some (raw, clen) else last_user) in
          if clen + 2 > length raw then None
          else scan_user body (drop (clen + 2) raw) last_user')"
  by pat_completeness auto
termination
proof (relation "measure (\<lambda>(body, scan, last). length scan)", goal_cases)
  case 1
  then show ?case by simp
next
  case (2 body scan last_user x raw clen last_user')
  then have "json_find scan (json_key ''content'') = Some (raw, clen)"
    by (auto simp: json_get_string_def split: if_splits)
  from json_find_shorter [OF this] 2 show ?case by simp
qed

declare scan_user.simps [simp del]

definition pick_user :: "string \<Rightarrow> bytes option" where
  "pick_user body =
     (case scan_user body body None of
        None \<Rightarrow> None
      | Some None \<Rightarrow> Some []
      | Some (Some (raw, n)) \<Rightarrow> Some (json_unescape (take (if n < 4095 then n else 4095) raw)))"

section \<open>Generating\<close>

text \<open>The token loop: \<open>exec\<close> is \<open>graph_execute\<close> on one token (\<open>None\<close> when it fails),
  \<open>sample\<close> draws from the logits it left, \<open>n_tokens\<close> is the session's fill.  The result is
  the tokens \<open>n_gen\<close> counts (each goes through \<open>stream_piece\<close> when the vocabulary has its
  text), the last token drawn and the final state.\<close>

fun generate :: "('s \<Rightarrow> 't \<Rightarrow> 's option) \<Rightarrow> ('s \<Rightarrow> 't \<times> 's) \<Rightarrow> ('s \<Rightarrow> nat) \<Rightarrow> nat \<Rightarrow> 't \<Rightarrow> nat \<Rightarrow> 't \<Rightarrow> 's
    \<Rightarrow> 't list \<times> 't \<times> 's" where
  "generate exec sample n_tokens ctx_size eos 0 next s = ([], next, s)"
| "generate exec sample n_tokens ctx_size eos (Suc fuel) next s =
     (if next = eos then ([], next, s)
      else if n_tokens s \<ge> ctx_size then ([next], next, s)
      else (case exec s next of
              None \<Rightarrow> ([next], next, s)
            | Some s1 \<Rightarrow>
                (let (next', s2) = sample s1;
                     (out, last_tok, s3) = generate exec sample n_tokens ctx_size eos fuel next' s2 in
                 (next # out, last_tok, s3))))"

definition finish_reason :: "'t \<Rightarrow> 't \<Rightarrow> string" where
  "finish_reason eos last_tok = (if last_tok = eos then ''stop'' else ''length'')"

section \<open>Properties\<close>



lemma json_unescape_length: "length (json_unescape s) \<le> length s"
proof (induction s rule: json_unescape.induct)
  case (3 c d s)
  then have "length (json_unescape (drop 4 s)) \<le> length s" if "c = backslash" "d = CHR ''u''"
    using that by fastforce
  with 3 show ?case by (auto simp: le_SucI)
qed simp_all

text \<open>C16: the generation loop is bounded and stops at the end token.  Whatever the forward
  pass and the sampler do, at most \<open>max_tokens\<close> tokens are emitted, the end token is never
  among them, and \<open>stop\<close> is reported exactly when the last token drawn is the end token;
  with a forward pass that adds one token per call and a sampler that adds none the session
  never grows past its context.\<close>

theorem generate_bounded:
  assumes "generate exec sample n_tokens ctx_size eos max_tokens next s = (out, last_tok, s')"
    and "\<And>s t s1. exec s t = Some s1 \<Longrightarrow> n_tokens s1 = n_tokens s + 1"
    and "\<And>s t s2. sample s = (t, s2) \<Longrightarrow> n_tokens s2 = n_tokens s"
    and "n_tokens s \<le> ctx_size"
  shows "length out \<le> max_tokens \<and> eos \<notin> set out \<and> n_tokens s' \<le> ctx_size
    \<and> (finish_reason eos last_tok = ''stop'' \<longleftrightarrow> last_tok = eos) \<and> n_tokens s' \<le> n_tokens s + length out"
  using assms(1,4)
proof (induction max_tokens arbitrary: "next" s out)
  case 0
  then show ?case by (auto simp: finish_reason_def)
next
  case (Suc fuel)
  show ?case
  proof (cases "next = eos \<or> n_tokens s \<ge> ctx_size \<or> exec s next = None")
    case True
    with Suc.prems show ?thesis by (auto simp: finish_reason_def split: if_splits)
  next
    case False
    then obtain s1 where s1: "exec s next = Some s1" by blast
    obtain t s2 where s2: "sample s1 = (t, s2)" by force
    obtain out' last_tok' s3 where r: "generate exec sample n_tokens ctx_size eos fuel t s2 = (out', last_tok', s3)"
      by (cases "generate exec sample n_tokens ctx_size eos fuel t s2") auto
    have n: "n_tokens s2 = n_tokens s + 1" using assms(2) [OF s1] assms(3) [OF s2] by simp
    have eq: "out = next # out'" "last_tok = last_tok'" "s' = s3"
      using Suc.prems(1) False s1 s2 r by (auto simp: Let_def)
    from Suc.IH [of t s2 out'] r n False eq show ?thesis by auto
  qed
qed

lemma generate_bounded_witness:
  "length (fst (generate (\<lambda>n t. Some (n + 1)) (\<lambda>n. (if n = 5 then 0 else 7, n)) id 8 (0::nat) 10 7 (2::nat))) \<le> 10
   \<and> 0 \<notin> set (fst (generate (\<lambda>n t. Some (n + 1)) (\<lambda>n. (if n = 5 then 0 else 7, n)) id 8 (0::nat) 10 7 (2::nat)))"
proof -
  let ?g = "generate (\<lambda>n t. Some (n + 1)) (\<lambda>n. (if n = 5 then 0 else 7, n)) id 8 (0::nat) 10 7 (2::nat)"
  have "?g = (fst ?g, fst (snd ?g), snd (snd ?g))" by simp
  from generate_bounded [OF this] show ?thesis by simp
qed

text \<open>A body that ends with the closing quote of a \<open>content\<close> value sends the scan past the
  end of its buffer.\<close>

definition quoted :: "string \<Rightarrow> string" where
  "quoted s = quote # s @ [quote]"

lemma scan_user_overrun: "pick_user (quoted ''content'' @ '':'' @ quoted ''x'') = None"
  by code_simp

text \<open>The look-back for the role searches to the end of the body: a user message that comes
  before a system message is taken for the system prompt.\<close>

lemma pick_system_forward:
  "pick_system (quoted ''role'' @ '':'' @ quoted ''user'' @ '','' @ quoted ''content'' @ '':'' @ quoted ''hi'' @ '','' @
     quoted ''role'' @ '':'' @ quoted ''system'') = Some ''hi''"
  by code_simp

end
