(* ===== verification/WorkerPool.thy ===== *)
theory WorkerPool
  imports Prelude "HOL-Library.Multiset"
begin

text \<open>The request worker pool (\<open>server.c\<close>): the ring of 256 waiting jobs, the critical
  sections of the accepting thread and of the workers, and the whole pool as a step
  relation over the threads' states, condition variable included.  A job waits, runs or is
  handled exactly once, in the order the jobs were accepted; no wakeup is lost; and a stop
  request drains the queue before the last worker leaves.\<close>

section \<open>The interface of a job queue\<close>

locale queue =
  fixes full :: "'q \<Rightarrow> bool" and enq :: "'q \<Rightarrow> 'j \<Rightarrow> 'q" and deq :: "'q \<Rightarrow> ('j \<times> 'q) option"
    and contents :: "'q \<Rightarrow> 'j list" and wf :: "'q \<Rightarrow> bool"
  assumes enq_wf: "wf q \<Longrightarrow> \<not> full q \<Longrightarrow> wf (enq q j)"
    and enq_contents: "wf q \<Longrightarrow> \<not> full q \<Longrightarrow> contents (enq q j) = contents q @ [j]"
    and deq_None: "wf q \<Longrightarrow> (deq q = None) = (contents q = [])"
    and deq_Some: "wf q \<Longrightarrow> deq q = Some (j, q') \<Longrightarrow> wf q' \<and> contents q = j # contents q'"
begin

text \<open>A history of attempts to enqueue (\<open>Some j\<close>, refused when full) and to dequeue
  (\<open>None\<close>): what was accepted and what came out.\<close>

fun history :: "'j option list \<Rightarrow> 'q \<Rightarrow> 'j list \<times> 'j list \<times> 'q" where
  "history [] q = ([], [], q)"
| "history (Some j # ops) q =
     (if full q then history ops q
      else (let (ins, outs, q') = history ops (enq q j) in (j # ins, outs, q')))"
| "history (None # ops) q =
     (case deq q of
        None \<Rightarrow> history ops q
      | Some (j, q1) \<Rightarrow> (let (ins, outs, q') = history ops q1 in (ins, j # outs, q')))"

lemma history_fifo:
  "wf q \<Longrightarrow> history ops q = (ins, outs, q') \<Longrightarrow> wf q' \<and> contents q @ ins = outs @ contents q'"
proof (induction ops q arbitrary: ins outs q' rule: history.induct)
  case (2 j ops q)
  then show ?case
    by (auto simp: enq_contents enq_wf split: if_splits prod.splits)
next
  case (3 ops q)
  then show ?case
    by (auto split: option.splits prod.splits dest: deq_Some)
qed auto

end

section \<open>The ring\<close>

record job =
  job_fd :: int
  job_body :: bytes

record worker_pool =
  wp_queue :: "job list"
  wp_head :: nat
  wp_tail :: nat
  wp_count :: nat
  wp_stop :: bool

abbreviation JOB_QUEUE_CAP :: nat where
  "JOB_QUEUE_CAP \<equiv> 256"

definition no_job :: job where
  "no_job = \<lparr>job_fd = 0, job_body = []\<rparr>"

text \<open>The zeroed pool of \<open>worker_pool_create\<close>.\<close>

definition worker_pool_create :: worker_pool where
  "worker_pool_create =
     \<lparr>wp_queue = replicate JOB_QUEUE_CAP no_job, wp_head = 0, wp_tail = 0, wp_count = 0, wp_stop = False\<rparr>"

definition pool_enq :: "worker_pool \<Rightarrow> job \<Rightarrow> worker_pool" where
  "pool_enq p j = p\<lparr>wp_queue := (wp_queue p)[wp_tail p := j],
     wp_tail := (wp_tail p + 1) mod JOB_QUEUE_CAP, wp_count := wp_count p + 1\<rparr>"

definition worker_pool_submit :: "worker_pool \<Rightarrow> job \<Rightarrow> bool \<times> worker_pool" where
  "worker_pool_submit p j =
     (if wp_stop p \<or> wp_count p = JOB_QUEUE_CAP then (False, p) else (True, pool_enq p j))"

definition pool_deq :: "worker_pool \<Rightarrow> (job \<times> worker_pool) option" where
  "pool_deq p =
     (if wp_count p = 0 then None
      else Some (wp_queue p ! wp_head p,
        p\<lparr>wp_head := (wp_head p + 1) mod JOB_QUEUE_CAP, wp_count := wp_count p - 1\<rparr>))"

text \<open>What a worker holding the lock does: wait on the condition, leave, or take the
  oldest job.\<close>

datatype worker_action = Wait | Quit | Take job worker_pool

definition worker_take :: "worker_pool \<Rightarrow> worker_action" where
  "worker_take p =
     (if wp_count p = 0 \<and> \<not> wp_stop p then Wait
      else case pool_deq p of None \<Rightarrow> Quit | Some (j, p') \<Rightarrow> Take j p')"

definition worker_pool_stop :: "worker_pool \<Rightarrow> worker_pool" where
  "worker_pool_stop p = p\<lparr>wp_stop := True\<rparr>"

definition pool_wf :: "worker_pool \<Rightarrow> bool" where
  "pool_wf p \<longleftrightarrow> length (wp_queue p) = JOB_QUEUE_CAP \<and> wp_head p < JOB_QUEUE_CAP
     \<and> wp_count p \<le> JOB_QUEUE_CAP \<and> wp_tail p = (wp_head p + wp_count p) mod JOB_QUEUE_CAP"

definition pool_jobs :: "worker_pool \<Rightarrow> job list" where
  "pool_jobs p = List.map (\<lambda>i. wp_queue p ! ((wp_head p + i) mod JOB_QUEUE_CAP)) [0..<wp_count p]"

lemma length_pool_jobs [simp]: "length (pool_jobs p) = wp_count p"
  by (simp add: pool_jobs_def)

lemma ring_slots_differ:
  fixes h :: nat
  assumes "h < m" and "i < n" and "n < m"
  shows "(h + i) mod m \<noteq> (h + n) mod m"
proof
  assume "(h + i) mod m = (h + n) mod m"
  then have "m dvd (h + n) - (h + i)" using assms mod_eq_dvd_iff_nat [of "h + i" "h + n" m] by auto
  then have "m dvd n - i" by simp
  then show False using assms by (auto dest: dvd_imp_le)
qed

lemma pool_enq_jobs:
  assumes "pool_wf p" and "wp_count p \<noteq> JOB_QUEUE_CAP"
  shows "pool_jobs (pool_enq p j) = pool_jobs p @ [j]"
proof (rule nth_equalityI)
  show "length (pool_jobs (pool_enq p j)) = length (pool_jobs p @ [j])"
    by (simp add: pool_enq_def)
  fix i assume i: "i < length (pool_jobs (pool_enq p j))"
  have c: "wp_count p < JOB_QUEUE_CAP" using assms by (simp add: pool_wf_def)
  have "(wp_head p + i) mod JOB_QUEUE_CAP = wp_tail p \<longleftrightarrow> i = wp_count p"
    using i assms c ring_slots_differ [of "wp_head p" JOB_QUEUE_CAP i "wp_count p"]
    by (auto simp: pool_wf_def pool_enq_def less_Suc_eq)
  with i assms c show "pool_jobs (pool_enq p j) ! i = (pool_jobs p @ [j]) ! i"
    by (auto simp: pool_jobs_def pool_enq_def pool_wf_def nth_append nth_list_update simp del: upt_Suc)
qed

lemma pool_deq_jobs:
  assumes "pool_wf p" and "pool_deq p = Some (j, p')"
  shows "pool_jobs p = j # pool_jobs p'"
proof (rule nth_equalityI)
  have c: "wp_count p \<noteq> 0" and j: "j = wp_queue p ! wp_head p"
    and p': "p' = p\<lparr>wp_head := (wp_head p + 1) mod JOB_QUEUE_CAP, wp_count := wp_count p - 1\<rparr>"
    using assms by (auto simp: pool_deq_def split: if_splits)
  show "length (pool_jobs p) = length (j # pool_jobs p')" using c by (simp add: p')
  fix i assume i: "i < length (pool_jobs p)"
  show "pool_jobs p ! i = (j # pool_jobs p') ! i"
  proof (cases i)
    case 0
    then show ?thesis using assms(1) c j by (simp add: pool_jobs_def pool_wf_def)
  next
    case (Suc k)
    then have "((wp_head p + 1) mod JOB_QUEUE_CAP + k) mod JOB_QUEUE_CAP = (wp_head p + i) mod JOB_QUEUE_CAP"
      by (simp add: mod_add_left_eq)
    with Suc i show ?thesis by (simp add: pool_jobs_def p')
  qed
qed

lemma pool_deq_wf:
  assumes "pool_wf p" and "pool_deq p = Some (j, p')"
  shows "pool_wf p'"
proof -
  have "(wp_head p + wp_count p) mod JOB_QUEUE_CAP
      = ((wp_head p + 1) mod JOB_QUEUE_CAP + (wp_count p - 1)) mod JOB_QUEUE_CAP" if c: "wp_count p \<noteq> 0"
  proof -
    obtain k where "wp_count p = Suc k" using c not0_implies_Suc by blast
    then show ?thesis by (simp add: mod_add_left_eq)
  qed
  with assms show ?thesis by (auto simp: pool_deq_def pool_wf_def split: if_splits)
qed

lemma pool_enq_wf: "pool_wf p \<Longrightarrow> wp_count p \<noteq> JOB_QUEUE_CAP \<Longrightarrow> pool_wf (pool_enq p j)"
  by (auto simp: pool_wf_def pool_enq_def mod_Suc_eq)

lemma pool_create_wf: "pool_wf worker_pool_create" and pool_create_jobs: "pool_jobs worker_pool_create = []"
  by (simp_all add: worker_pool_create_def pool_wf_def pool_jobs_def)

lemma pool_deq_None: "(pool_deq p = None) = (pool_jobs p = [])"
  by (simp add: pool_deq_def pool_jobs_def)

interpretation ring: queue "\<lambda>p. wp_count p = JOB_QUEUE_CAP" pool_enq pool_deq pool_jobs pool_wf
  by unfold_locales
    (auto simp: pool_enq_wf pool_enq_jobs pool_deq_None dest: pool_deq_wf pool_deq_jobs)

section \<open>The threads\<close>

text \<open>A worker is about to take the lock, blocked in \<open>pthread_cond_wait\<close>, running a job or
  gone.  \<open>ps_accepted\<close>, \<open>ps_taken\<close> and \<open>ps_handled\<close> record what happened so far.\<close>

datatype worker_state = Ready | Blocked | Running job | Gone

record pool_system =
  ps_pool :: worker_pool
  ps_workers :: "worker_state list"
  ps_accepted :: "job list"
  ps_taken :: "job list"
  ps_handled :: "job list"

definition pool_start :: "nat \<Rightarrow> pool_system" where
  "pool_start n = \<lparr>ps_pool = worker_pool_create, ps_workers = replicate n Ready,
     ps_accepted = [], ps_taken = [], ps_handled = []\<rparr>"

definition wake_all :: "worker_state list \<Rightarrow> worker_state list" where
  "wake_all ws = List.map (\<lambda>w. if w = Blocked then Ready else w) ws"

text \<open>What the workers do on their own.\<close>

inductive worker_step :: "pool_system \<Rightarrow> pool_system \<Rightarrow> bool" where
  wait: "i < length (ps_workers s) \<Longrightarrow> ps_workers s ! i = Ready \<Longrightarrow> worker_take (ps_pool s) = Wait \<Longrightarrow>
    worker_step s (s\<lparr>ps_workers := (ps_workers s)[i := Blocked]\<rparr>)"
| quit: "i < length (ps_workers s) \<Longrightarrow> ps_workers s ! i = Ready \<Longrightarrow> worker_take (ps_pool s) = Quit \<Longrightarrow>
    worker_step s (s\<lparr>ps_workers := (ps_workers s)[i := Gone]\<rparr>)"
| take: "i < length (ps_workers s) \<Longrightarrow> ps_workers s ! i = Ready \<Longrightarrow> worker_take (ps_pool s) = Take j p' \<Longrightarrow>
    worker_step s (s\<lparr>ps_pool := p', ps_workers := (ps_workers s)[i := Running j],
      ps_taken := ps_taken s @ [j]\<rparr>)"
| handle: "i < length (ps_workers s) \<Longrightarrow> ps_workers s ! i = Running j \<Longrightarrow>
    worker_step s (s\<lparr>ps_workers := (ps_workers s)[i := Ready], ps_handled := ps_handled s @ [j]\<rparr>)"

text \<open>What happens to them: a job is submitted (the signal wakes one blocked worker, if there
  is one), the pool is stopped (the broadcast wakes all), or a wait ends spuriously.\<close>

inductive outside_step :: "pool_system \<Rightarrow> pool_system \<Rightarrow> bool" where
  refused: "worker_pool_submit (ps_pool s) j = (False, p') \<Longrightarrow> outside_step s (s\<lparr>ps_pool := p'\<rparr>)"
| accepted: "worker_pool_submit (ps_pool s) j = (True, p') \<Longrightarrow> Blocked \<notin> set (ps_workers s) \<Longrightarrow>
    outside_step s (s\<lparr>ps_pool := p', ps_accepted := ps_accepted s @ [j]\<rparr>)"
| accepted_signal: "worker_pool_submit (ps_pool s) j = (True, p') \<Longrightarrow> i < length (ps_workers s) \<Longrightarrow>
    ps_workers s ! i = Blocked \<Longrightarrow>
    outside_step s (s\<lparr>ps_pool := p', ps_accepted := ps_accepted s @ [j],
      ps_workers := (ps_workers s)[i := Ready]\<rparr>)"
| stop: "outside_step s (s\<lparr>ps_pool := worker_pool_stop (ps_pool s), ps_workers := wake_all (ps_workers s)\<rparr>)"
| spurious: "i < length (ps_workers s) \<Longrightarrow> ps_workers s ! i = Blocked \<Longrightarrow>
    outside_step s (s\<lparr>ps_workers := (ps_workers s)[i := Ready]\<rparr>)"

inductive reachable :: "nat \<Rightarrow> pool_system \<Rightarrow> bool" for n where
  start: "reachable n (pool_start n)"
| worker: "reachable n s \<Longrightarrow> worker_step s s' \<Longrightarrow> reachable n s'"
| outside: "reachable n s \<Longrightarrow> outside_step s s' \<Longrightarrow> reachable n s'"

section \<open>The invariant\<close>

fun running_job :: "worker_state \<Rightarrow> job multiset" where
  "running_job (Running j) = {#j#}"
| "running_job w = {#}"

definition running :: "worker_state list \<Rightarrow> job multiset" where
  "running ws = sum_list (List.map running_job ws)"

lemma running_update:
  "i < length ws \<Longrightarrow> running (ws[i := w]) + running_job (ws ! i) = running ws + running_job w"
  unfolding running_def by (rule sum_list_map_update)

lemma count_list_update:
  "i < length ws \<Longrightarrow> count_list (ws[i := w]) x + (if ws ! i = x then 1 else 0)
     = count_list ws x + (if w = x then 1 else 0)"
proof (induction ws arbitrary: i)
  case (Cons a ws)
  show ?case
  proof (cases i)
    case (Suc k)
    with Cons.IH [of k] Cons.prems show ?thesis by (auto split: if_splits)
  qed simp
qed simp

definition pool_inv :: "nat \<Rightarrow> pool_system \<Rightarrow> bool" where
  "pool_inv n s \<longleftrightarrow> pool_wf (ps_pool s) \<and> length (ps_workers s) = n
     \<and> ps_accepted s = ps_taken s @ pool_jobs (ps_pool s)
     \<and> mset (ps_taken s) = mset (ps_handled s) + running (ps_workers s)
     \<and> (wp_stop (ps_pool s) \<longrightarrow> Blocked \<notin> set (ps_workers s))
     \<and> (Gone \<in> set (ps_workers s) \<longrightarrow> wp_stop (ps_pool s) \<and> wp_count (ps_pool s) = 0)
     \<and> (Blocked \<in> set (ps_workers s) \<longrightarrow> wp_count (ps_pool s) \<le> count_list (ps_workers s) Ready)"

lemma wake_all_running [simp]: "running (wake_all ws) = running ws"
  unfolding running_def wake_all_def by (induction ws) auto

lemma length_wake_all [simp]: "length (wake_all ws) = length ws"
  by (simp add: wake_all_def)

lemma set_wake_all: "Blocked \<notin> set (wake_all ws)" "Gone \<in> set (wake_all ws) \<longleftrightarrow> Gone \<in> set ws"
  by (auto simp: wake_all_def split: if_splits)

lemma worker_takeD:
  "worker_take p = Wait \<Longrightarrow> wp_count p = 0 \<and> \<not> wp_stop p"
  "worker_take p = Quit \<Longrightarrow> wp_count p = 0 \<and> wp_stop p"
  "worker_take p = Take j p' \<Longrightarrow> pool_deq p = Some (j, p')"
  by (auto simp: worker_take_def pool_deq_def split: if_splits)

lemma pool_deqD: "pool_deq p = Some (j, p') \<Longrightarrow> wp_stop p' = wp_stop p \<and> wp_count p = wp_count p' + 1"
  by (auto simp: pool_deq_def split: if_splits)

lemma submitD:
  "worker_pool_submit p j = (True, p') \<Longrightarrow>
     \<not> wp_stop p \<and> wp_count p \<noteq> JOB_QUEUE_CAP \<and> p' = pool_enq p j"
  "worker_pool_submit p j = (False, p') \<Longrightarrow> p' = p"
  by (auto simp: worker_pool_submit_def split: if_splits)

lemma worker_step_inv:
  assumes "worker_step s s'" and "pool_inv n s"
  shows "pool_inv n s'"
  using assms
proof cases
  case (wait i)
  with assms(2) running_update [of i "ps_workers s" Blocked] worker_takeD(1) [OF wait(4)] show ?thesis
    by (auto simp: pool_inv_def dest!: set_update_subset_insert [THEN subsetD])
next
  case (quit i)
  with assms(2) running_update [of i "ps_workers s" Gone] worker_takeD(2) [OF quit(4)] show ?thesis
    by (auto simp: pool_inv_def dest!: set_update_subset_insert [THEN subsetD])
next
  case (take i j p')
  note d = worker_takeD(3) [OF take(4)]
  from take assms(2) running_update [of i "ps_workers s" "Running j"] pool_deqD [OF d]
    ring.deq_Some [OF _ d] count_list_update [of i "ps_workers s" "Running j" Ready] show ?thesis
    by (auto simp: pool_inv_def dest!: set_update_subset_insert [THEN subsetD])
next
  case (handle i j)
  with assms(2) running_update [of i "ps_workers s" Ready]
    count_list_update [of i "ps_workers s" Ready Ready] show ?thesis
    by (auto simp: pool_inv_def dest!: set_update_subset_insert [THEN subsetD])
qed

lemma outside_step_inv:
  assumes "outside_step s s'" and "pool_inv n s"
  shows "pool_inv n s'"
  using assms
proof cases
  case (refused j p')
  with assms(2) submitD(2) show ?thesis by (auto simp: pool_inv_def)
next
  case (accepted j p')
  with assms(2) submitD(1) [OF accepted(2)] show ?thesis
    by (auto simp: pool_inv_def ring.enq_contents ring.enq_wf)
next
  case (accepted_signal j p' i)
  with assms(2) submitD(1) [OF accepted_signal(2)] running_update [of i "ps_workers s" Ready]
    count_list_update [of i "ps_workers s" Ready Ready] show ?thesis
    by (auto simp: pool_inv_def ring.enq_contents ring.enq_wf dest!: set_update_subset_insert [THEN subsetD])
      (auto simp: pool_enq_def)
next
  case stop
  with assms(2) show ?thesis by (auto simp: pool_inv_def set_wake_all worker_pool_stop_def pool_wf_def pool_jobs_def)
next
  case (spurious i)
  with assms(2) running_update [of i "ps_workers s" Ready]
    count_list_update [of i "ps_workers s" Ready Ready] show ?thesis
    by (auto simp: pool_inv_def dest!: set_update_subset_insert [THEN subsetD])
qed

lemma reachable_inv: "reachable n s \<Longrightarrow> pool_inv n s"
proof (induction rule: reachable.induct)
  case start
  have "running (replicate n Ready) = {#}" unfolding running_def by (induction n) auto
  then show ?case
    by (simp add: pool_inv_def pool_start_def pool_create_wf pool_create_jobs)
qed (auto intro: worker_step_inv outside_step_inv)

section \<open>Progress\<close>

text \<open>How many worker steps a stopped pool still needs at most.\<close>

fun worker_weight :: "worker_state \<Rightarrow> nat" where
  "worker_weight Ready = 1"
| "worker_weight Blocked = 0"
| "worker_weight (Running j) = 2"
| "worker_weight Gone = 0"

definition pool_work :: "pool_system \<Rightarrow> nat" where
  "pool_work s = 2 * wp_count (ps_pool s) + sum_list (List.map worker_weight (ps_workers s))"

lemma work_update:
  "i < length ws \<Longrightarrow> sum_list (List.map worker_weight (ws[i := w])) + worker_weight (ws ! i)
     = sum_list (List.map worker_weight ws) + worker_weight w"
  by (rule sum_list_map_update)

text \<open>Every worker step, a wait included, uses up work.\<close>

lemma worker_step_work: "worker_step s s' \<Longrightarrow> pool_work s' < pool_work s"
proof (induction rule: worker_step.induct)
  case (wait i s)
  then show ?case using work_update [of i "ps_workers s" Blocked] by (simp add: pool_work_def)
next
  case (quit i s)
  then show ?case using work_update [of i "ps_workers s" Gone] by (simp add: pool_work_def)
next
  case (take i s j p')
  then show ?case
    using work_update [of i "ps_workers s" "Running j"] pool_deqD [OF worker_takeD(3) [OF take(3)]]
    by (simp add: pool_work_def)
next
  case (handle i s j)
  then show ?case using work_update [of i "ps_workers s" Ready] by (simp add: pool_work_def)
qed

lemma worker_enabled:
  assumes "w \<in> set (ps_workers s)" and "w = Ready \<or> w = Running j"
  shows "\<exists>s'. worker_step s s'"
proof -
  from assms(1) obtain i where i: "i < length (ps_workers s)" "ps_workers s ! i = w"
    by (auto simp: in_set_conv_nth)
  show ?thesis
  proof (cases "w = Ready")
    case True
    with i show ?thesis by (cases "worker_take (ps_pool s)") (blast intro: worker_step.intros)+
  next
    case False
    with assms(2) i show ?thesis by (blast intro: worker_step.handle)
  qed
qed

lemma no_worker_step:
  "\<nexists>s'. worker_step s s' \<Longrightarrow> set (ps_workers s) \<subseteq> {Blocked, Gone}"
proof
  fix w assume "\<nexists>s'. worker_step s s'" and "w \<in> set (ps_workers s)"
  then show "w \<in> {Blocked, Gone}" using worker_enabled [of w s] by (cases w) blast+
qed

lemma running_none: "set ws \<subseteq> {Blocked, Gone} \<Longrightarrow> running ws = {#}"
  unfolding running_def by (induction ws) auto

lemma count_none: "set ws \<subseteq> {Blocked, Gone} \<Longrightarrow> count_list ws Ready = 0"
  by (induction ws) auto

section \<open>Properties\<close>

text \<open>C19: no request is lost, duplicated or overtaken.  In every reachable state of the pool,
  whatever the interleaving of submissions, signals, spurious wakeups and workers, the jobs
  taken so far followed by the jobs in the ring are exactly the accepted jobs in the order
  they came, and each taken job is either still running on one worker or was handled once;
  the ring never holds more than 256 jobs.\<close>

theorem pool_exactly_once:
  assumes "reachable n s"
  shows "ps_accepted s = ps_taken s @ pool_jobs (ps_pool s)
    \<and> mset (ps_taken s) = mset (ps_handled s) + running (ps_workers s)
    \<and> length (pool_jobs (ps_pool s)) \<le> JOB_QUEUE_CAP"
  using reachable_inv [OF assms] by (simp add: pool_inv_def pool_wf_def)

text \<open>C20: no wakeup is lost.  While the ring holds a job, some worker can take a step by itself
  (it is about to take the lock or is running a job): one signal per submission is enough
  even when several jobs arrive before a woken worker runs.  In particular a state where no
  worker can move has an empty ring, and everything accepted has been handled.\<close>

theorem pool_no_lost_wakeup:
  assumes "reachable n s" and "0 < n"
  shows "(pool_jobs (ps_pool s) \<noteq> [] \<longrightarrow> (\<exists>s'. worker_step s s'))
    \<and> ((\<nexists>s'. worker_step s s') \<longrightarrow> mset (ps_handled s) = mset (ps_accepted s))"
proof -
  have inv: "pool_inv n s" by (rule reachable_inv [OF assms(1)])
  have "wp_count (ps_pool s) = 0 \<and> running (ps_workers s) = {#}" if "\<nexists>s'. worker_step s s'"
  proof -
    note idle = no_worker_step [OF that]
    have "ps_workers s \<noteq> []" using inv assms(2) by (auto simp: pool_inv_def)
    with idle have "Gone \<in> set (ps_workers s) \<or> Blocked \<in> set (ps_workers s)" by (cases "ps_workers s") auto
    with inv count_none [OF idle] running_none [OF idle] show ?thesis by (auto simp: pool_inv_def)
  qed
  then have "pool_jobs (ps_pool s) = [] \<and> mset (ps_handled s) = mset (ps_accepted s)"
    if "\<nexists>s'. worker_step s s'"
    using that inv by (simp add: pool_inv_def pool_jobs_def)
  then show ?thesis by blast
qed

text \<open>C21: shutdown drains.  Once the pool is stopped, every step of a worker uses up a bounded
  amount of work, so the joins of \<open>worker_pool_destroy\<close> return (given that each request
  does), and when no step is left all workers are gone and every accepted job has been
  handled.\<close>

theorem pool_drains:
  assumes "reachable n s" and "wp_stop (ps_pool s)"
  shows "(worker_step s s' \<longrightarrow> pool_work s' < pool_work s)
    \<and> ((\<nexists>s'. worker_step s s') \<longrightarrow>
         set (ps_workers s) \<subseteq> {Gone} \<and> (0 < n \<longrightarrow> mset (ps_handled s) = mset (ps_accepted s)))
    \<and> worker_pool_submit (ps_pool s) j = (False, ps_pool s)"
proof -
  have inv: "pool_inv n s" by (rule reachable_inv [OF assms(1)])
  have "set (ps_workers s) \<subseteq> {Gone} \<and> (0 < n \<longrightarrow> mset (ps_handled s) = mset (ps_accepted s))"
    if "\<nexists>s'. worker_step s s'"
  proof
    note idle = no_worker_step [OF that]
    show gone: "set (ps_workers s) \<subseteq> {Gone}" using idle inv assms(2) by (auto simp: pool_inv_def)
    show "0 < n \<longrightarrow> mset (ps_handled s) = mset (ps_accepted s)"
    proof
      assume "0 < n"
      with inv gone have "Gone \<in> set (ps_workers s)" by (cases "ps_workers s") (auto simp: pool_inv_def)
      with inv running_none [OF idle] show "mset (ps_handled s) = mset (ps_accepted s)"
        by (simp add: pool_inv_def pool_jobs_def)
    qed
  qed
  with assms(2) worker_step_work [of s s'] show ?thesis by (auto simp: worker_pool_submit_def)
qed

text \<open>One worker, one job, then a stop.\<close>

definition one_job :: job where
  "one_job = \<lparr>job_fd = 5, job_body = ''x''\<rparr>"

definition busy_system :: pool_system where
  "busy_system = (pool_start 1)\<lparr>ps_pool := pool_enq worker_pool_create one_job, ps_accepted := [one_job]\<rparr>"

definition stopped_system :: pool_system where
  "stopped_system = busy_system\<lparr>ps_pool := worker_pool_stop (ps_pool busy_system),
     ps_workers := wake_all (ps_workers busy_system)\<rparr>"

lemma reachable_busy: "reachable 1 busy_system"
proof -
  have "worker_pool_submit (ps_pool (pool_start 1)) one_job = (True, pool_enq worker_pool_create one_job)"
    by (simp add: worker_pool_submit_def pool_start_def worker_pool_create_def)
  then have "outside_step (pool_start 1) ((pool_start 1)\<lparr>ps_pool := pool_enq worker_pool_create one_job,
      ps_accepted := ps_accepted (pool_start 1) @ [one_job]\<rparr>)"
    by (rule outside_step.accepted) (simp add: pool_start_def)
  from reachable.outside [OF reachable.start this] show ?thesis by (simp add: busy_system_def pool_start_def)
qed

lemma reachable_stopped: "reachable 1 stopped_system"
  unfolding stopped_system_def by (rule reachable.outside [OF reachable_busy outside_step.stop])

lemma pool_exactly_once_witness: "ps_accepted busy_system = ps_taken busy_system @ pool_jobs (ps_pool busy_system)"
  using pool_exactly_once [OF reachable_busy] by simp

lemma busy_jobs: "pool_jobs (ps_pool busy_system) \<noteq> []"
  by (simp add: busy_system_def pool_start_def pool_enq_def worker_pool_create_def pool_jobs_def)

lemma pool_no_lost_wakeup_witness: "\<exists>s'. worker_step busy_system s'"
  using pool_no_lost_wakeup [OF reachable_busy] busy_jobs by simp

lemma pool_drains_witness: "worker_pool_submit (ps_pool stopped_system) one_job = (False, ps_pool stopped_system)"
  using pool_drains [OF reachable_stopped] by (simp add: stopped_system_def worker_pool_stop_def)

end
