(* ===== verification/ClientRead.thy ===== *)
theory ClientRead
  imports CUtils HttpJson WorkerPool
begin

text \<open>Reading one request (\<open>client_read_proc\<close>, \<open>server.c\<close>): a first \<open>read\<close> of at most 8191
  bytes, at most one more for what \<open>Content-Length\<close> still announces, and the hand-over of
  the body to the worker pool.  The socket is a parameter: what the first \<open>read\<close> delivers
  (\<open>None\<close> for 0 or an error) and what a second one delivers for a given size.\<close>

text \<open>What becomes of the connection: closed, refused with a status, or owned by a worker.\<close>

datatype client_outcome = Closed | Refused nat string | Queued worker_pool

text \<open>The bytes a C string function sees.\<close>

definition c_string :: "bytes \<Rightarrow> string" where
  "c_string buf = takeWhile (\<lambda>c. c \<noteq> CHR 0x00) buf"

text \<open>The buffer after the second read.\<close>

definition read_rest :: "bytes \<Rightarrow> bytes \<Rightarrow> (nat \<Rightarrow> bytes) \<Rightarrow> bytes" where
  "read_rest buf body rd2 =
     (let v = http_header (c_string buf) ''Content-Length'';
          cl = (if v \<noteq> [] then atoi v else 0);
          body_len = int (length body);
          to_read = cl - body_len in
      if cl > 0 \<and> body_len < cl \<and> to_read > 0 \<and> 8192 - int (length buf) > to_read
      then buf @ take (nat to_read) (rd2 (nat to_read)) else buf)"

definition client_read_proc :: "worker_pool \<Rightarrow> int \<Rightarrow> bytes option \<Rightarrow> (nat \<Rightarrow> bytes) \<Rightarrow> client_outcome" where
  "client_read_proc pool fd first rd2 =
     (case first of
        None \<Rightarrow> Closed
      | Some buf \<Rightarrow>
          (case http_body buf of
             None \<Rightarrow> Refused 400 ''Incomplete HTTP request''
           | Some body \<Rightarrow>
               (let buf' = read_rest buf body rd2;
                    body' = drop (length buf - length body) buf' in
                if body' = [] then Refused 400 ''Empty HTTP body''
                else (case worker_pool_submit pool \<lparr>job_fd = fd, job_body = body'\<rparr> of
                        (True, pool') \<Rightarrow> Queued pool'
                      | (False, _) \<Rightarrow> Refused 503 ''Server busy''))))"

lemma read_rest_prefix: "\<exists>m. read_rest buf body rd2 = buf @ m"
  by (simp add: read_rest_def Let_def)

lemma read_rest_length: "length buf \<le> 8191 \<Longrightarrow> length (read_rest buf body rd2) \<le> 8191"
  by (auto simp: read_rest_def Let_def)

lemma http_body_split: "http_body req = Some b \<Longrightarrow> \<exists>h. req = h @ crlf2 @ b"
proof (induction req rule: http_body.induct)
  case (1 req)
  from "1.prems" have c: "\<not> length req < 4"
    by (subst (asm) http_body.simps) (auto split: if_splits)
  show ?case
  proof (cases "take 4 req = crlf2")
    case True
    with "1.prems" c have "b = drop 4 req" by (subst (asm) http_body.simps) simp
    with True show ?thesis by (intro exI [of _ "[]"]) (metis append_Nil append_take_drop_id)
  next
    case False
    with "1.prems" c have "http_body (tl req) = Some b" by (subst (asm) http_body.simps) simp
    with "1.IH" c False obtain h where "tl req = h @ crlf2 @ b" by blast
    with c show ?thesis by (cases req) (auto intro: exI [of _ "hd req # h"])
  qed
qed

section \<open>Properties\<close>



text \<open>A request in two reads.\<close>

definition request_head :: string where
  "request_head = ''POST / HTTP/1.1'' @ crlf @ ''Content-Length: 6''"

lemma request_header:
  "http_header (c_string (request_head @ crlf2 @ ''{}'')) ''Content-Length'' = ''6'' @ crlf2 @ ''{}''"
  by code_simp



text \<open>A body that does not fit behind its header in 8192 bytes is not read to its end, and
  what arrived is processed as if it were all of it.\<close>

definition big_request :: string where
  "big_request = ''POST / HTTP/1.1'' @ crlf @ ''Content-Length: 9000'' @ crlf2 @ ''{''"

lemma client_read_truncates:
  "client_read_proc worker_pool_create 7 (Some big_request) rd2
     = Queued (pool_enq worker_pool_create \<lparr>job_fd = 7, job_body = ''{''\<rparr>)"
proof -
  have body: "http_body big_request = Some ''{''" by code_simp
  have "http_header (c_string big_request) ''Content-Length'' = ''9000'' @ crlf2 @ ''{''"
    by code_simp
  moreover have "atoi (''9000'' @ crlf2 @ ''{'') = 9000" by code_simp
  ultimately have "read_rest big_request ''{'' rd2 = big_request"
    by (simp add: read_rest_def Let_def)
  with body show ?thesis
    by (simp add: client_read_proc_def Let_def worker_pool_submit_def worker_pool_create_def)
       (simp add: big_request_def crlf_def crlf2_def)
qed

end
