(* ===== verification/EngineConfig.thy ===== *)
theory EngineConfig
  imports ModelWeights Vocab
begin

text \<open>The engine's configuration (\<open>core.c\<close>): the architecture's dimensions read from the
  metadata, the memory estimates (weights, KV cache, activations), the fit of layers and
  context into a device, and how a session resolves its offload depth.  \<open>size_t\<close> arithmetic
  wraps at 64 bits.  The device is a parameter: whether it is there and its free bytes.  The
  two activation estimates the source computes in \<open>double\<close> are exact for every value below
  \<open>2 ^ 53\<close> bytes, the division by the layer count with truncation included, and are written
  as the integers they are there.\<close>

section \<open>Architecture config\<close>

record arch_config =
  c_n_head :: nat
  c_n_kv_head :: nat
  c_head_dim :: nat
  c_kv_head_dim :: nat
  c_rope_dim :: nat
  c_n_embd :: nat
  c_n_layer :: nat
  c_n_vocab :: nat
  c_kv_lora_rank :: nat
  c_qk_nope_head_dim :: nat
  c_qk_rope_head_dim :: nat

record 'f engine =
  en_model :: model
  en_vocab :: "'f vocab option"
  en_weights :: weights
  en_auto_gpu_layers :: int
  en_auto_ctx :: nat
  en_auto_ubatch :: nat
  en_auto_parallel :: int

text \<open>\<open>pfx\<close>: the architecture's name in the file, or the generic prefix.\<close>

definition config_prefix :: "model \<Rightarrow> string" where
  "config_prefix m = (if m_arch_name m \<noteq> [] then m_arch_name m else arch_key_prefix (m_arch m))"

text \<open>One \<open>snprintf\<close> into \<open>char k[96]\<close> and the lookup; the field keeps its value otherwise.\<close>

definition config_read :: "model \<Rightarrow> string \<Rightarrow> string \<Rightarrow> nat \<Rightarrow> nat" where
  "config_read m prefix suffix field =
     (let k = prefix @ ''.'' @ suffix in
      if length k < 96 then
        (case model_get_i32 m k of Some v \<Rightarrow> nat (v mod 2 ^ 32) | None \<Rightarrow> field)
      else field)"

definition try_i32 :: "model \<Rightarrow> string \<Rightarrow> nat" where
  "try_i32 m suffix =
     (let pfx = config_prefix m; gpfx = arch_key_prefix (m_arch m);
          f = config_read m pfx suffix 0 in
      if f = 0 \<and> gpfx \<noteq> pfx then config_read m gpfx suffix f else f)"

definition config_n_embd :: "tensor_info option \<Rightarrow> nat \<Rightarrow> nat" where
  "config_n_embd te n_vocab =
     (let n = (case te of
                 None \<Rightarrow> 0
               | Some t \<Rightarrow>
                   if ti_ndim t \<ge> 2 then
                     (if ti_dim t ! 0 = n_vocab then ti_dim t ! 1 else ti_dim t ! 0) mod 2 ^ 32
                   else if ti_ndim t = 1 then ti_dim t ! 0 mod 2 ^ 32 else 0) in
      if n = 0 \<and> n_vocab > 0 then n_vocab else n)"

definition tensor_at :: "model \<Rightarrow> nat option \<Rightarrow> tensor_info option" where
  "tensor_at m p = map_option (\<lambda>i. m_tensor m ! i) p"

definition arch_config_init :: "'f engine \<Rightarrow> arch_config" where
  "arch_config_init en =
     (let m = en_model en; w = en_weights en;
          n_vocab = (case en_vocab en of Some v \<Rightarrow> v_n_vocab v | None \<Rightarrow> 0);
          n_embd = config_n_embd (tensor_at m (w_tensors w TENSOR_TOKEN_EMBD)) n_vocab;
          n_head = try_i32 m ''attention.head_count'';
          kv = try_i32 m ''attention.head_count_kv'';
          n_kv_head = (if kv = 0 then n_head else kv);
          hd = try_i32 m ''attention.head_dim'';
          kvd = try_i32 m ''attention.key_length'';
          head_dim = (if hd = 0 \<and> kvd > 0 then kvd
                      else if hd = 0 \<and> n_head > 0 then n_embd div n_head else hd);
          kv_head_dim = (if kvd = 0 then head_dim else kvd);
          rope = try_i32 m ''rope.dimension_count'' in
      \<lparr>c_n_head = n_head, c_n_kv_head = n_kv_head, c_head_dim = head_dim, c_kv_head_dim = kv_head_dim,
       c_rope_dim = (if rope = 0 then head_dim else rope), c_n_embd = n_embd,
       c_n_layer = w_n_layer w, c_n_vocab = n_vocab,
       c_kv_lora_rank = try_i32 m ''attention.kv_lora_rank'',
       c_qk_nope_head_dim = try_i32 m ''attention.qk_nope_head_dim'',
       c_qk_rope_head_dim = try_i32 m ''attention.qk_rope_head_dim''\<rparr>)"

definition context_prefixes :: "model \<Rightarrow> string list" where
  "context_prefixes m =
     (let pfx = config_prefix m; gpfx = arch_key_prefix (m_arch m) in
      [pfx] @ (if gpfx \<noteq> pfx then [gpfx] else []) @ [''general''])"

fun first_context :: "model \<Rightarrow> string list \<Rightarrow> nat" where
  "first_context m [] = 0"
| "first_context m (p # ps) =
     (let key = p @ ''.context_length'' in
      if length key \<ge> 96 then first_context m ps
      else case model_get_int m key of
             Some v \<Rightarrow> if v > 0 then (if v > 4294967295 then 4294967295 else nat v) else first_context m ps
           | None \<Rightarrow> first_context m ps)"

definition model_context_length :: "model \<Rightarrow> nat" where
  "model_context_length m = first_context m (context_prefixes m)"

section \<open>Memory estimates\<close>

definition tensor_roles :: "tensor_role list" where
  "tensor_roles =
     [TENSOR_TOKEN_EMBD, TENSOR_OUTPUT, TENSOR_OUTPUT_NORM, TENSOR_ATTN_NORM, TENSOR_ATTN_Q, TENSOR_ATTN_K,
      TENSOR_ATTN_V, TENSOR_ATTN_Q_BIAS, TENSOR_ATTN_K_BIAS, TENSOR_ATTN_V_BIAS, TENSOR_ATTN_QKV,
      TENSOR_ATTN_OUT, TENSOR_ATTN_GATE, TENSOR_POST_ATTN_NORM, TENSOR_FFN_NORM, TENSOR_FFN_POST_NORM,
      TENSOR_FFN_GATE, TENSOR_FFN_DOWN, TENSOR_FFN_UP, TENSOR_SSM_IN, TENSOR_SSM_CONV1D, TENSOR_SSM_ALPHA,
      TENSOR_SSM_BETA, TENSOR_SSM_A, TENSOR_SSM_DT_BIAS, TENSOR_SSM_OUT, TENSOR_SSM_NORM, TENSOR_SSM_D,
      TENSOR_SSM_CONV1D_BIAS, TENSOR_ATTN_Q_NORM, TENSOR_ATTN_K_NORM, TENSOR_OUTPUT_HC_BASE,
      TENSOR_OUTPUT_HC_FN, TENSOR_OUTPUT_HC_SCALE]"

definition bytes_at :: "model \<Rightarrow> nat \<Rightarrow> nat" where
  "bytes_at m i = ti_bytes (m_tensor m ! i)"

text \<open>The loop over the roles; \<open>seen\<close> are the tensors of the roles before.\<close>

fun role_bytes :: "model \<Rightarrow> layer_weights \<Rightarrow> tensor_role list \<Rightarrow> nat list \<Rightarrow> nat \<Rightarrow> nat" where
  "role_bytes m lw [] seen bytes = bytes"
| "role_bytes m lw (r # rs) seen bytes =
     (case lw r of
        None \<Rightarrow> role_bytes m lw rs seen bytes
      | Some i \<Rightarrow> role_bytes m lw rs (i # seen) (if i \<in> set seen then bytes else add64 bytes (bytes_at m i)))"

definition layer_weight_bytes :: "model \<Rightarrow> layer_weights \<Rightarrow> nat" where
  "layer_weight_bytes m lw = role_bytes m lw tensor_roles [] 0"

definition opt_bytes :: "model \<Rightarrow> nat option \<Rightarrow> nat" where
  "opt_bytes m p = (case p of None \<Rightarrow> 0 | Some i \<Rightarrow> bytes_at m i)"

definition gpu_weight_bytes :: "'f engine \<Rightarrow> arch_config \<Rightarrow> int \<Rightarrow> nat" where
  "gpu_weight_bytes en cfg n_gpu_layers =
     (let m = en_model en; w = en_weights en in
      if n_gpu_layers = 0 then 0
      else if n_gpu_layers < 0 \<or> nat n_gpu_layers \<ge> c_n_layer cfg then
        foldl (\<lambda>total t. add64 total (ti_bytes t)) 0 (m_tensor m)
      else foldl (\<lambda>total lw. add64 total (layer_weight_bytes m lw))
             (opt_bytes m (w_tensors w TENSOR_TOKEN_EMBD)) (take (nat n_gpu_layers) (w_layers w)))"

definition layer_has_kv_cache :: "layer_weights \<Rightarrow> bool" where
  "layer_has_kv_cache lw \<longleftrightarrow>
     lw TENSOR_ATTN_K \<noteq> None \<or> (lw TENSOR_ATTN_QKV \<noteq> None \<and> lw TENSOR_SSM_CONV1D = None)"

definition kv_cache_bytes_per_token :: "'f engine \<Rightarrow> arch_config \<Rightarrow> int \<Rightarrow> nat" where
  "kv_cache_bytes_per_token en cfg n_gpu_layers =
     (let L = c_n_layer cfg;
          limit = (if n_gpu_layers < 0 \<or> nat n_gpu_layers \<ge> L then L else nat n_gpu_layers) in
      if m_arch (en_model en) = ARCH_DEEPSEEK then
        (let rank = (if c_kv_lora_rank cfg \<noteq> 0 then c_kv_lora_rank cfg else 1);
             floats = add64 (add64 (c_head_dim cfg) (mul64 4 rank)) 2 in
         mul64 (mul64 floats 4) limit)
      else
        mul64 (mul64 (mul64 (mul64 (c_n_kv_head cfg) (c_kv_head_dim cfg)) 4) 2)
          (length (filter layer_has_kv_cache (take limit (w_layers (en_weights en))))))"

definition gpu_memory_budget :: "nat \<Rightarrow> nat" where
  "gpu_memory_budget free_b =
     (let reserve = 384 * 2 ^ 20; budget = (if free_b > reserve then free_b - reserve else 0) in
      budget div 10 * 9)"

section \<open>Fitting layers and context\<close>

text \<open>The loop over the layers' costs: how many are taken and what is used then.\<close>

fun fit_layers :: "nat \<Rightarrow> nat \<Rightarrow> nat list \<Rightarrow> nat \<times> nat" where
  "fit_layers budget used [] = (0, used)"
| "fit_layers budget used (a # as) =
     (if add64 used a > budget then (0, used)
      else (let (n, u) = fit_layers budget (add64 used a) as in (Suc n, u)))"

text \<open>The bytes one layer adds.\<close>

definition fit_layer_cost :: "model \<Rightarrow> nat \<Rightarrow> nat \<Rightarrow> layer_weights \<Rightarrow> nat" where
  "fit_layer_cost m kv arena_layer lw =
     add64 (add64 (layer_weight_bytes m lw) (if lw TENSOR_ATTN_K \<noteq> None then kv else 0)) arena_layer"

definition fit_kv :: "arch_config \<Rightarrow> nat \<Rightarrow> nat \<Rightarrow> nat" where
  "fit_kv cfg ctx_size slots =
     mul64 (mul64 (mul64 (mul64 (mul64 ctx_size (c_n_kv_head cfg)) (c_kv_head_dim cfg)) 4) 2) slots"

definition fit_arena_layer :: "arch_config \<Rightarrow> nat \<Rightarrow> nat \<Rightarrow> nat" where
  "fit_arena_layer cfg arena_rows slots =
     arena_rows * c_n_embd cfg * 4 * 36 * slots div c_n_layer cfg"

definition gpu_layers_fit_at :: "'f engine \<Rightarrow> arch_config \<Rightarrow> nat \<Rightarrow> nat \<Rightarrow> int \<Rightarrow> nat \<Rightarrow> nat" where
  "gpu_layers_fit_at en cfg ctx_size n_ubatch n_parallel free_b =
     (let slots = nat (if n_parallel < 1 then 1 else n_parallel);
          m = en_model en; w = en_weights en; L = c_n_layer cfg in
      if w_layers w = [] \<or> L = 0 \<or> free_b = 0 then 0
      else
        let budget = gpu_memory_budget free_b;
            kv = fit_kv cfg ctx_size slots;
            arena_rows = (if n_ubatch \<noteq> 0 then n_ubatch else ctx_size);
            arena_layer = fit_arena_layer cfg arena_rows slots;
            costs = List.map (fit_layer_cost m kv arena_layer) (take L (w_layers w));
            (n, used) = fit_layers budget (opt_bytes m (w_tensors w TENSOR_TOKEN_EMBD)) costs in
        if n = L \<and> add64 used (opt_bytes m (w_tensors w TENSOR_OUTPUT)) > budget then n - 1 else n)"

text \<open>The binary search of \<open>engine_auto_ctx_size\<close>.\<close>

function ctx_search :: "(nat \<Rightarrow> bool) \<Rightarrow> nat \<Rightarrow> nat \<Rightarrow> nat" where
  "ctx_search fits lo hi =
     (if lo < hi then
        (let mid = lo + (hi - lo + 1) div 2 in
         if fits mid then ctx_search fits mid hi else ctx_search fits lo (mid - 1))
      else lo)"
  by pat_completeness auto
termination
  by (relation "measure (\<lambda>(fits, lo, hi). hi - lo)") auto

declare ctx_search.simps [simp del]

abbreviation DEFAULT_CTX_SIZE :: nat where
  "DEFAULT_CTX_SIZE \<equiv> 4096"

definition round_ctx :: "nat \<Rightarrow> nat" where
  "round_ctx ctx = (if ctx > 256 then ctx div 256 * 256 else ctx)"

text \<open>The CUDA branch with \<open>n_gpu_layers < 0\<close>.\<close>

definition auto_ctx_all_layers :: "'f engine \<Rightarrow> arch_config \<Rightarrow> nat \<Rightarrow> nat \<Rightarrow> int \<Rightarrow> nat \<Rightarrow> nat" where
  "auto_ctx_all_layers en cfg model_ctx n_ubatch n_parallel free_b =
     (let L = c_n_layer cfg;
          fits = (\<lambda>ctx. gpu_layers_fit_at en cfg ctx n_ubatch n_parallel free_b \<ge> L) in
      if L = 0 then model_ctx
      else if fits model_ctx then model_ctx
      else if \<not> fits 1 then
        (let ctx = min model_ctx (if n_ubatch > DEFAULT_CTX_SIZE then n_ubatch else DEFAULT_CTX_SIZE) in
         if ctx = 0 then 1 else ctx)
      else
        (let ctx = round_ctx (ctx_search fits 1 model_ctx) in if ctx = 0 then 1 else ctx))"

text \<open>The estimate of the other branches.\<close>

definition auto_ctx_estimate :: "'f engine \<Rightarrow> arch_config \<Rightarrow> nat \<Rightarrow> nat \<Rightarrow> int \<Rightarrow> int \<Rightarrow> nat \<Rightarrow> nat" where
  "auto_ctx_estimate en cfg model_ctx n_ubatch n_gpu_layers n_parallel free_b =
     (let kv_per_token = kv_cache_bytes_per_token en cfg n_gpu_layers in
      if kv_per_token = 0 then model_ctx
      else
        let weights = gpu_weight_bytes en cfg n_gpu_layers;
            arena_rows = (if n_ubatch \<noteq> 0 then n_ubatch else model_ctx);
            arena = arena_rows * c_n_embd cfg * 4 * 36 * nat n_parallel;
            budget = gpu_memory_budget free_b;
            fixed = add64 weights arena;
            fit = (if budget > fixed then (budget - fixed) div mul64 kv_per_token (nat n_parallel) else 0);
            low0 = min model_ctx (if n_ubatch \<noteq> 0 then n_ubatch else 512);
            low = (if low0 = 0 then 1 else low0) in
        if fit \<ge> model_ctx then model_ctx
        else min model_ctx (max low (round_ctx (min fit 4294967295))))"

datatype build = CPU_BUILD | GPU_BUILD | METAL_BUILD

record device =
  dev_available :: bool
  dev_free :: nat

definition engine_auto_ctx_size :: "build \<Rightarrow> device \<Rightarrow> 'f engine \<Rightarrow> nat \<Rightarrow> int \<Rightarrow> int \<Rightarrow> nat" where
  "engine_auto_ctx_size bld dev en n_ubatch n_gpu_layers n_parallel0 =
     (let n_parallel = (if n_parallel0 < 1 then 1 else n_parallel0);
          mc = model_context_length (en_model en);
          model_ctx = (if mc = 0 then DEFAULT_CTX_SIZE else mc);
          cfg = arch_config_init en in
      if n_gpu_layers = 0 \<or> bld = CPU_BUILD \<or> \<not> dev_available dev \<or> dev_free dev = 0 \<or> c_n_embd cfg = 0
      then model_ctx
      else if bld = GPU_BUILD \<and> n_gpu_layers < 0
      then auto_ctx_all_layers en cfg model_ctx n_ubatch n_parallel (dev_free dev)
      else auto_ctx_estimate en cfg model_ctx n_ubatch n_gpu_layers n_parallel (dev_free dev))"

section \<open>Resolving the offload depth\<close>

text \<open>The fit is cached in the engine for one triple of context, batch and slots.\<close>

definition session_auto_gpu_layers :: "device \<Rightarrow> 'f engine \<Rightarrow> arch_config \<Rightarrow> nat \<Rightarrow> nat \<Rightarrow> int \<Rightarrow> int \<times> 'f engine" where
  "session_auto_gpu_layers dev en cfg ctx_size n_ubatch n_parallel0 =
     (let n_parallel = (if n_parallel0 < 1 then 1 else n_parallel0) in
      if en_auto_gpu_layers en \<ge> 0 \<and> en_auto_ctx en = ctx_size \<and> en_auto_ubatch en = n_ubatch
         \<and> en_auto_parallel en = n_parallel
      then (en_auto_gpu_layers en, en)
      else if dev_free dev = 0 then (0, en)
      else
        let n = int (gpu_layers_fit_at en cfg ctx_size n_ubatch n_parallel (dev_free dev)) in
        (n, en\<lparr>en_auto_gpu_layers := n, en_auto_ctx := ctx_size, en_auto_ubatch := n_ubatch,
              en_auto_parallel := n_parallel\<rparr>))"

definition session_resolve_gpu_layers ::
    "build \<Rightarrow> device \<Rightarrow> 'f engine \<Rightarrow> arch_config \<Rightarrow> nat \<Rightarrow> nat \<Rightarrow> int \<Rightarrow> int \<Rightarrow> int \<times> 'f engine" where
  "session_resolve_gpu_layers bld dev en cfg ctx_size n_ubatch requested n_parallel =
     (let L = int (c_n_layer cfg) in
      case bld of
        GPU_BUILD \<Rightarrow>
          if \<not> dev_available dev then (0, en)
          else (let (fit, en') = session_auto_gpu_layers dev en cfg ctx_size n_ubatch n_parallel in
                if requested < 0 then (fit, en')
                else (if requested > L then L else requested, en'))
      | METAL_BUILD \<Rightarrow>
          if \<not> dev_available dev then (0, en)
          else if requested < 0 then (L, en)
          else if requested > 0 \<and> requested < L then (L, en)
          else (if requested > 0 then L else 0, en)
      | CPU_BUILD \<Rightarrow> (0, en))"

text \<open>The part of \<open>session_create\<close> before \<open>ops.init\<close>: \<open>None\<close> is NULL; otherwise context,
  batch, config and offload depth of the session, and the engine.\<close>

definition session_create :: "build \<Rightarrow> device \<Rightarrow> 'f engine \<Rightarrow> nat \<Rightarrow> nat \<Rightarrow> int \<Rightarrow> int
    \<Rightarrow> (nat \<times> nat \<times> arch_config \<times> int \<times> 'f engine) option" where
  "session_create bld dev en ctx_size n_ubatch0 n_gpu_layers n_parallel =
     (if ctx_size = 0 then None
      else
        let n_ubatch = (if n_ubatch0 = 0 \<or> n_ubatch0 > ctx_size then ctx_size else n_ubatch0);
            cfg = arch_config_init en;
            (n, en') = session_resolve_gpu_layers bld dev en cfg ctx_size n_ubatch n_gpu_layers n_parallel in
        Some (ctx_size, n_ubatch, cfg, n, en'))"

section \<open>Lemmas\<close>

lemma role_bytes_sum:
  "role_bytes m lw rs seen b mod 2 ^ 64
   = (b + (\<Sum>i \<in> {i. \<exists>r \<in> set rs. lw r = Some i} - set seen. bytes_at m i)) mod 2 ^ 64"
proof (induction rs arbitrary: seen b)
  case Nil
  then show ?case by simp
next
  case (Cons r rs)
  show ?case
  proof (cases "lw r")
    case None
    then have "{i. \<exists>r' \<in> set (r # rs). lw r' = Some i} = {i. \<exists>r' \<in> set rs. lw r' = Some i}" by auto
    with None Cons.IH show ?thesis by simp
  next
    case (Some i)
    let ?A = "{i. \<exists>r' \<in> set rs. lw r' = Some i}"
    have fin: "finite ?A"
    proof -
      have "?A \<subseteq> (\<lambda>r. the (lw r)) ` set rs" by force
      then show ?thesis by (rule finite_subset) simp
    qed
    have A: "{i. \<exists>r' \<in> set (r # rs). lw r' = Some i} = insert i ?A" using Some by auto
    show ?thesis
    proof (cases "i \<in> set seen")
      case True
      then have eq: "insert i ?A - set seen = ?A - set (i # seen)" by auto
      have "role_bytes m lw (r # rs) seen b = role_bytes m lw rs (i # seen) b" using Some True by simp
      then show ?thesis using Cons.IH [of "i # seen" b] by (simp only: A eq)
    next
      case False
      then have "insert i ?A - set seen = insert i (?A - set (i # seen))" by auto
      then have sum: "(\<Sum>i \<in> insert i ?A - set seen. bytes_at m i) = bytes_at m i + (\<Sum>i \<in> ?A - set (i # seen). bytes_at m i)"
        using fin by simp
      have wrap: "(add64 b (bytes_at m i) + s) mod 2 ^ 64 = (b + (bytes_at m i + s)) mod 2 ^ 64" for s
        unfolding add64_def mod_add_left_eq add.assoc by (rule refl)
      have "role_bytes m lw (r # rs) seen b = role_bytes m lw rs (i # seen) (add64 b (bytes_at m i))"
        using Some False by simp
      then show ?thesis using Cons.IH [of "i # seen" "add64 b (bytes_at m i)"] by (simp only: A sum wrap)
    qed
  qed
qed

lemma role_bytes_less: "b < 2 ^ 64 \<Longrightarrow> role_bytes m lw rs seen b < 2 ^ 64"
  by (induction m lw rs seen b rule: role_bytes.induct) (auto simp: add64_def split: option.splits)

lemma ctx_search_correct:
  "lo \<le> hi \<Longrightarrow> P lo \<Longrightarrow> (\<And>a b. lo \<le> a \<Longrightarrow> a \<le> b \<Longrightarrow> b \<le> hi \<Longrightarrow> P b \<Longrightarrow> P a) \<Longrightarrow>
   lo \<le> ctx_search P lo hi \<and> ctx_search P lo hi \<le> hi \<and> P (ctx_search P lo hi)
   \<and> (\<forall>c. ctx_search P lo hi < c \<and> c \<le> hi \<longrightarrow> \<not> P c)"
proof (induction P lo hi rule: ctx_search.induct)
  case (1 P lo hi)
  let ?mid = "lo + (hi - lo + 1) div 2"
  show ?case
  proof (cases "lo < hi")
    case False
    with "1.prems" show ?thesis by (subst (1 2 3 4) ctx_search.simps) auto
  next
    case True
    then have mid: "lo < ?mid" "?mid \<le> hi" by linarith+
    show ?thesis
    proof (cases "P ?mid")
      case P: True
      then have eq: "ctx_search P lo hi = ctx_search P ?mid hi"
        using True by (subst ctx_search.simps) (simp add: Let_def)
      from "1.IH"(1) [OF True refl P mid(2) P] "1.prems"(3) mid show ?thesis unfolding eq by force
    next
      case P: False
      then have eq: "ctx_search P lo hi = ctx_search P lo (?mid - 1)"
        using True by (subst ctx_search.simps) (simp add: Let_def)
      obtain k where k: "?mid = Suc k" using mid(1) by (metis less_imp_Suc_add)
      have above: "\<not> P c" if "k < c" "c \<le> hi" for c
        using "1.prems"(3) [of ?mid c] P mid that k by auto
      have lo: "lo \<le> k" and hi: "k \<le> hi" using mid k by auto
      have P_down: "P a" if "lo \<le> a" "a \<le> b" "b \<le> k" "P b" for a b
        using "1.prems"(3) [of a b] that hi by (meson le_trans)
      have IH: "lo \<le> ctx_search P lo k \<and> ctx_search P lo k \<le> k \<and> P (ctx_search P lo k)
          \<and> (\<forall>c. ctx_search P lo k < c \<and> c \<le> k \<longrightarrow> \<not> P c)"
        using "1.IH"(2) [OF True refl P] lo "1.prems"(2) P_down unfolding k diff_Suc_1 by blast
      have "\<not> P c" if "ctx_search P lo k < c" "c \<le> hi" for c
        using above IH that by (cases "c \<le> k") auto
      with IH hi show ?thesis unfolding eq k diff_Suc_1 by (meson le_trans)
    qed
  qed
qed

lemma fit_layers_sum:
  "used + sum_list costs < 2 ^ 64 \<Longrightarrow>
   fst (fit_layers budget used costs) \<le> length costs
   \<and> (fst (fit_layers budget used costs) = length costs \<longleftrightarrow> costs = [] \<or> used + sum_list costs \<le> budget)
   \<and> (fst (fit_layers budget used costs) = length costs \<longrightarrow> snd (fit_layers budget used costs) = used + sum_list costs)"
proof (induction budget used costs rule: fit_layers.induct)
  case (2 budget used a as)
  then have a: "add64 used a = used + a" by simp
  show ?case
  proof (cases "used + a > budget")
    case True
    then show ?thesis using a by simp
  next
    case False
    with 2 a show ?thesis by (cases "fit_layers budget (used + a) as") (auto simp: ac_simps)
  qed
qed simp

lemma fit_layers_le: "fst (fit_layers budget used costs) \<le> length costs"
  by (induction budget used costs rule: fit_layers.induct) (auto split: prod.splits)

lemma gpu_layers_fit_le: "gpu_layers_fit_at en cfg ctx n_ubatch n_parallel free_b \<le> c_n_layer cfg"
proof -
  have "fst (fit_layers b u (List.map f (take (c_n_layer cfg) ws))) \<le> c_n_layer cfg" for b u f and ws :: "layer_weights list"
    using fit_layers_le [of b u "List.map f (take (c_n_layer cfg) ws)"] by simp
  then show ?thesis by (auto simp: gpu_layers_fit_at_def Let_def split_beta intro: le_trans [OF diff_le_self])
qed

text \<open>What the estimator adds up when nothing wraps.\<close>

definition fit_total :: "'f engine \<Rightarrow> arch_config \<Rightarrow> nat \<Rightarrow> nat \<Rightarrow> nat \<Rightarrow> nat" where
  "fit_total en cfg ctx_size n_ubatch slots =
     opt_bytes (en_model en) (w_tensors (en_weights en) TENSOR_TOKEN_EMBD)
     + (\<Sum>lw \<leftarrow> w_layers (en_weights en). layer_weight_bytes (en_model en) lw
          + (if lw TENSOR_ATTN_K \<noteq> None then ctx_size * (c_n_kv_head cfg * c_kv_head_dim cfg * 8 * slots) else 0)
          + fit_arena_layer cfg (if n_ubatch \<noteq> 0 then n_ubatch else ctx_size) slots)
     + opt_bytes (en_model en) (w_tensors (en_weights en) TENSOR_OUTPUT)"

lemma fit_kv_exact:
  assumes "ctx_size * (c_n_kv_head cfg * c_kv_head_dim cfg * 8 * slots) < 2 ^ 64"
  shows "fit_kv cfg ctx_size slots = ctx_size * (c_n_kv_head cfg * c_kv_head_dim cfg * 8 * slots)"
proof -
  have "fit_kv cfg ctx_size slots = (ctx_size * c_n_kv_head cfg * c_kv_head_dim cfg * 4 * 2 * slots) mod 2 ^ 64"
    unfolding fit_kv_def mul64_def mod_mult_left_eq by (rule refl)
  also have "ctx_size * c_n_kv_head cfg * c_kv_head_dim cfg * 4 * 2 * slots
      = ctx_size * (c_n_kv_head cfg * c_kv_head_dim cfg * 8 * slots)" by (simp add: ac_simps)
  finally show ?thesis using assms by simp
qed

lemma fit_total_mono:
  assumes "c1 \<le> c2"
  shows "fit_total en cfg c1 n_ubatch slots \<le> fit_total en cfg c2 n_ubatch slots"
proof -
  have "fit_arena_layer cfg (if n_ubatch \<noteq> 0 then n_ubatch else c1) slots
      \<le> fit_arena_layer cfg (if n_ubatch \<noteq> 0 then n_ubatch else c2) slots"
    using assms by (auto simp: fit_arena_layer_def intro!: div_le_mono mult_le_mono)
  then show ?thesis unfolding fit_total_def using assms
    by (intro add_mono sum_list_mono) (auto intro!: mult_le_mono)
qed

lemma fit_cost_exact:
  assumes "fit_total en cfg ctx n_ubatch slots < 2 ^ 64"
    and "ctx * (c_n_kv_head cfg * c_kv_head_dim cfg * 8 * slots) < 2 ^ 64"
    and "lw \<in> set (w_layers (en_weights en))"
  shows "fit_layer_cost (en_model en) (fit_kv cfg ctx slots)
      (fit_arena_layer cfg (if n_ubatch \<noteq> 0 then n_ubatch else ctx) slots) lw
    = layer_weight_bytes (en_model en) lw
      + (if lw TENSOR_ATTN_K \<noteq> None then ctx * (c_n_kv_head cfg * c_kv_head_dim cfg * 8 * slots) else 0)
      + fit_arena_layer cfg (if n_ubatch \<noteq> 0 then n_ubatch else ctx) slots" (is "_ = ?f lw")
proof -
  have "?f lw \<le> (\<Sum>lw \<leftarrow> w_layers (en_weights en). ?f lw)"
    using assms(3) by (intro member_le_sum_list) auto
  also have "\<dots> < 2 ^ 64" using assms(1) unfolding fit_total_def by linarith
  finally have "?f lw < 2 ^ 64" .
  then show ?thesis unfolding fit_layer_cost_def fit_kv_exact [OF assms(2)] by (auto simp: add64_def)
qed

text \<open>The loop and its correction for the output matrix decide one inequality.\<close>

lemma fit_at_iff:
  assumes total: "fit_total en cfg ctx n_ubatch slots < 2 ^ 64"
    and kv: "ctx * (c_n_kv_head cfg * c_kv_head_dim cfg * 8 * slots) < 2 ^ 64"
    and L: "length (w_layers (en_weights en)) = c_n_layer cfg" "0 < c_n_layer cfg"
    and slots: "slots = nat (if n_parallel < 1 then 1 else n_parallel)" and free: "free_b \<noteq> 0"
  shows "gpu_layers_fit_at en cfg ctx n_ubatch n_parallel free_b \<ge> c_n_layer cfg
     \<longleftrightarrow> fit_total en cfg ctx n_ubatch slots \<le> gpu_memory_budget free_b"
proof -
  let ?m = "en_model en" let ?w = "en_weights en" let ?b = "gpu_memory_budget free_b"
  let ?arena = "fit_arena_layer cfg (if n_ubatch \<noteq> 0 then n_ubatch else ctx) slots"
  let ?costs = "List.map (fit_layer_cost ?m (fit_kv cfg ctx slots) ?arena) (take (c_n_layer cfg) (w_layers ?w))"
  let ?e = "opt_bytes ?m (w_tensors ?w TENSOR_TOKEN_EMBD)" and ?o = "opt_bytes ?m (w_tensors ?w TENSOR_OUTPUT)"
  let ?r = "fit_layers ?b ?e ?costs"
  have "?costs = List.map (\<lambda>lw. layer_weight_bytes ?m lw
      + (if lw TENSOR_ATTN_K \<noteq> None then ctx * (c_n_kv_head cfg * c_kv_head_dim cfg * 8 * slots) else 0) + ?arena)
      (w_layers ?w)"
    using L(1) fit_cost_exact [OF total kv] by (simp cong: map_cong)
  then have sum: "?e + sum_list ?costs + ?o = fit_total en cfg ctx n_ubatch slots"
    by (simp add: fit_total_def)
  have lt: "?e + sum_list ?costs < 2 ^ 64" using sum total by linarith
  have len: "length ?costs = c_n_layer cfg" and ne: "?costs \<noteq> []" using L by auto
  note f = fit_layers_sum [OF lt, of ?b, unfolded len]
  have "gpu_layers_fit_at en cfg ctx n_ubatch n_parallel free_b =
     (if fst ?r = c_n_layer cfg \<and> add64 (snd ?r) ?o > ?b then fst ?r - 1 else fst ?r)"
    using L free by (auto simp: gpu_layers_fit_at_def Let_def slots split_beta)
  moreover have "add64 (snd ?r) ?o = fit_total en cfg ctx n_ubatch slots" if "fst ?r = c_n_layer cfg"
    using f that sum total by simp
  ultimately show ?thesis using f ne sum L(2) by (auto split: if_splits)
qed

lemma round_ctx: "round_ctx c \<le> c" "c < round_ctx c + 256" "0 < c \<Longrightarrow> 0 < round_ctx c"
  by (auto simp: round_ctx_def)

section \<open>Properties\<close>

text \<open>C24: the automatic context is the right one.  On a CUDA device, when no sum wraps at 64
  bits and one token fits, the context \<open>engine_auto_ctx_size\<close> picks is between 1 and the
  model's, everything (weights counted once, a KV cache and activations per slot) fits the
  memory budget with it, so all layers are placed on the device, and it is the largest such
  context up to the rounding to 256: no context 256 tokens longer fits.\<close>

theorem auto_ctx_correct:
  assumes "fit_total en cfg model_ctx n_ubatch slots < 2 ^ 64"
    and "model_ctx * (c_n_kv_head cfg * c_kv_head_dim cfg * 8 * slots) < 2 ^ 64"
    and "length (w_layers (en_weights en)) = c_n_layer cfg" and "0 < c_n_layer cfg"
    and "slots = nat (if n_parallel < 1 then 1 else n_parallel)" and "free_b \<noteq> 0" and "0 < model_ctx"
    and "fit_total en cfg 1 n_ubatch slots \<le> gpu_memory_budget free_b"
    and "ctx = auto_ctx_all_layers en cfg model_ctx n_ubatch n_parallel free_b"
  shows "1 \<le> ctx \<and> ctx \<le> model_ctx
    \<and> gpu_layers_fit_at en cfg ctx n_ubatch n_parallel free_b = c_n_layer cfg
    \<and> fit_total en cfg ctx n_ubatch slots \<le> gpu_memory_budget free_b
    \<and> (\<forall>c. ctx + 256 \<le> c \<and> c \<le> model_ctx \<longrightarrow> gpu_memory_budget free_b < fit_total en cfg c n_ubatch slots)"
proof -
  let ?P = "\<lambda>c. gpu_layers_fit_at en cfg c n_ubatch n_parallel free_b \<ge> c_n_layer cfg"
  let ?T = "\<lambda>c. fit_total en cfg c n_ubatch slots" and ?B = "gpu_memory_budget free_b"
  have iff: "?P c \<longleftrightarrow> ?T c \<le> ?B" if "c \<le> model_ctx" for c
  proof (rule fit_at_iff [OF _ _ assms(3,4,5,6)])
    show "?T c < 2 ^ 64" using fit_total_mono [OF that] assms(1) by (rule le_less_trans)
    show "c * (c_n_kv_head cfg * c_kv_head_dim cfg * 8 * slots) < 2 ^ 64"
      using mult_le_mono1 [OF that] assms(2) by (rule le_less_trans)
  qed
  have "1 \<le> ctx \<and> ctx \<le> model_ctx \<and> ?T ctx \<le> ?B \<and> (\<forall>c. ctx + 256 \<le> c \<and> c \<le> model_ctx \<longrightarrow> ?B < ?T c)"
  proof (cases "?P model_ctx")
    case True
    with iff assms(4,7,9) show ?thesis by (auto simp: auto_ctx_all_layers_def)
  next
    case False
    have P1: "?P 1" using iff [of 1] assms(7,8) by simp
    let ?s = "ctx_search ?P 1 model_ctx"
    have down: "?P a" if "1 \<le> a" "a \<le> b" "b \<le> model_ctx" "?P b" for a b
      using iff [of a] iff [of b] fit_total_mono [OF that(2), of en cfg n_ubatch slots] that by simp
    have s: "1 \<le> ?s" "?s \<le> model_ctx" "?P ?s" "\<And>c. ?s < c \<Longrightarrow> c \<le> model_ctx \<Longrightarrow> \<not> ?P c"
    proof -
      have "1 \<le> ?s \<and> ?s \<le> model_ctx \<and> ?P ?s \<and> (\<forall>c. ?s < c \<and> c \<le> model_ctx \<longrightarrow> \<not> ?P c)"
        by (rule ctx_search_correct [of 1 model_ctx ?P, OF _ P1 down]) (use assms(7) in linarith)+
      then show "1 \<le> ?s" "?s \<le> model_ctx" "?P ?s" "\<And>c. ?s < c \<Longrightarrow> c \<le> model_ctx \<Longrightarrow> \<not> ?P c" by blast+
    qed
    have ctx: "ctx = round_ctx ?s"
      using False P1 assms(4,9) round_ctx(3) [of ?s] s(1) by (simp add: auto_ctx_all_layers_def Let_def)
    note r = round_ctx [of ?s]
    have "?P ctx" using down [of ctx ?s] s r unfolding ctx by simp
    with iff [of ctx] s r have "?T ctx \<le> ?B" unfolding ctx by simp
    moreover have "?B < ?T c" if "ctx + 256 \<le> c" "c \<le> model_ctx" for c
      using s(4) [of c] iff [of c] that r(2) unfolding ctx by linarith
    ultimately show ?thesis using s r unfolding ctx by auto
  qed
  with iff [of ctx] gpu_layers_fit_le [of en cfg ctx n_ubatch n_parallel free_b] show ?thesis by auto
qed

text \<open>One layer with a 100-byte key matrix on a small device.\<close>

definition toy_model :: model where
  "toy_model = \<lparr>m_size = 0, m_map = [], m_version = 3, m_n_kv = 0, m_n_tensor = 1, m_alignment = 32,
     m_arch = ARCH_LLAMA, m_arch_name = ''llama'', m_kv = [],
     m_tensor = [\<lparr>ti_key = ''k'', ti_dim = [5, 5], ti_type = 0, ti_offset = 0, ti_n_element = 25, ti_bytes = 100,
       ti_padded_dim = 0\<rparr>]\<rparr>"

definition toy_engine :: "int engine" where
  "toy_engine = \<lparr>en_model = toy_model, en_vocab = None,
     en_weights = \<lparr>w_n_layer = 1, w_tensors = Map.empty, w_layers = [[TENSOR_ATTN_K \<mapsto> 0]]\<rparr>,
     en_auto_gpu_layers = -1, en_auto_ctx = 0, en_auto_ubatch = 0, en_auto_parallel = 0\<rparr>"

definition toy_config :: arch_config where
  "toy_config = \<lparr>c_n_head = 1, c_n_kv_head = 1, c_head_dim = 1, c_kv_head_dim = 1, c_rope_dim = 1, c_n_embd = 1,
     c_n_layer = 1, c_n_vocab = 1, c_kv_lora_rank = 0, c_qk_nope_head_dim = 0, c_qk_rope_head_dim = 0\<rparr>"

lemma toy_total: "fit_total toy_engine toy_config ctx 1 1 = 244 + ctx * 8"
  by (simp add: fit_total_def toy_engine_def toy_config_def toy_model_def opt_bytes_def layer_weight_bytes_def
      tensor_roles_def bytes_at_def fit_arena_layer_def add64_def)

lemma auto_ctx_correct_witness:
  "let ctx = auto_ctx_all_layers toy_engine toy_config 1000 1 1 402658184 in
     ctx \<le> 532 \<and> 256 < ctx"
proof -
  let ?ctx = "auto_ctx_all_layers toy_engine toy_config 1000 1 1 402658184"
  have B: "gpu_memory_budget 402658184 = 4500" by (simp add: gpu_memory_budget_def)
  have "1 \<le> ?ctx \<and> ?ctx \<le> 1000
    \<and> gpu_layers_fit_at toy_engine toy_config ?ctx 1 1 402658184 = c_n_layer toy_config
    \<and> fit_total toy_engine toy_config ?ctx 1 1 \<le> gpu_memory_budget 402658184
    \<and> (\<forall>c. ?ctx + 256 \<le> c \<and> c \<le> 1000 \<longrightarrow> gpu_memory_budget 402658184 < fit_total toy_engine toy_config c 1 1)"
    by (rule auto_ctx_correct [OF _ _ _ _ _ _ _ _ refl], simp_all only: toy_total B)
      (simp_all add: toy_config_def toy_engine_def)
  then have "244 + ?ctx * 8 \<le> 4500" "?ctx + 256 \<le> 512 \<longrightarrow> 4500 < 244 + 512 * (8::nat)"
    unfolding toy_total B by auto
  then show ?thesis by (auto simp: Let_def)
qed

lemma auto_layers_again:
  assumes "dev_free d1 \<noteq> 0" and "session_auto_gpu_layers d1 en cfg ctx u np = (n, e)"
  shows "session_auto_gpu_layers d2 e cfg ctx u np = (n, e) \<and> arch_config_init e = arch_config_init en
    \<and> n \<le> max (int (c_n_layer cfg)) (en_auto_gpu_layers en)"
proof (cases "en_auto_gpu_layers en \<ge> 0 \<and> en_auto_ctx en = ctx \<and> en_auto_ubatch en = u
         \<and> en_auto_parallel en = (if np < 1 then 1 else np)")
  case True
  with assms(2) have "n = en_auto_gpu_layers en" "e = en" by (auto simp: session_auto_gpu_layers_def Let_def)
  with True show ?thesis by (simp add: session_auto_gpu_layers_def Let_def)
next
  case False
  let ?p = "if np < 1 then 1 else np"
  let ?n = "int (gpu_layers_fit_at en cfg ctx u ?p (dev_free d1))"
  from False assms have "n = ?n" and e: "e = en\<lparr>en_auto_gpu_layers := ?n, en_auto_ctx := ctx,
      en_auto_ubatch := u, en_auto_parallel := ?p\<rparr>"
    unfolding session_auto_gpu_layers_def Let_def by (auto simp only: if_False prod.inject)
  moreover have "?n \<le> int (c_n_layer cfg)" by (simp add: gpu_layers_fit_le)
  ultimately show ?thesis
    by (simp add: session_auto_gpu_layers_def Let_def arch_config_init_def)
qed



text \<open>The weights of a layer are counted once each.  \<open>layer_weight_bytes\<close> is the sum, modulo
  \<open>2 ^ 64\<close>, of the bytes of the distinct tensors the layer's roles point to, also when two
  roles share a tensor (a tied matrix).\<close>

theorem layer_weight_bytes_distinct:
  assumes "lw TENSOR_COUNT = None"
  shows "layer_weight_bytes m lw = (\<Sum>i \<in> ran lw. bytes_at m i) mod 2 ^ 64"
proof -
  have "r \<in> set tensor_roles \<or> r = TENSOR_COUNT" for r by (cases r) (auto simp: tensor_roles_def)
  then have "{i. \<exists>r \<in> set tensor_roles. lw r = Some i} = ran lw"
    using assms unfolding ran_def by (metis option.distinct(1))
  moreover have "layer_weight_bytes m lw mod 2 ^ 64 = layer_weight_bytes m lw"
    unfolding layer_weight_bytes_def by (intro mod_less role_bytes_less) simp
  ultimately show ?thesis using role_bytes_sum [of m lw tensor_roles "[]" 0] by (simp add: layer_weight_bytes_def)
qed

lemma layer_weight_bytes_distinct_witness:
  "layer_weight_bytes toy_model [TENSOR_ATTN_K \<mapsto> 0, TENSOR_ATTN_V \<mapsto> 0] = 100"
proof -
  have "ran [TENSOR_ATTN_K \<mapsto> (0::nat), TENSOR_ATTN_V \<mapsto> 0] = {0}" by (auto simp: ran_def)
  with layer_weight_bytes_distinct [of "[TENSOR_ATTN_K \<mapsto> 0, TENSOR_ATTN_V \<mapsto> 0]" toy_model] show ?thesis
    by (simp add: bytes_at_def toy_model_def)
qed

text \<open>C26: the dimensions the kernels divide by are not zero.  With a head count in the metadata
  and an embedding at least as wide, every model has at least one KV head, and its head,
  KV-head and RoPE dimensions are positive whichever of the optional keys are present,
  absent or zero; and without those keys the heads fit the embedding.\<close>

theorem arch_config_positive:
  assumes "cfg = arch_config_init en" and "0 < c_n_head cfg" and "c_n_head cfg \<le> c_n_embd cfg"
  shows "0 < c_n_kv_head cfg \<and> 0 < c_head_dim cfg \<and> 0 < c_kv_head_dim cfg \<and> 0 < c_rope_dim cfg
    \<and> (try_i32 (en_model en) ''attention.head_dim'' = 0 \<and> try_i32 (en_model en) ''attention.key_length'' = 0 \<longrightarrow>
         c_n_head cfg * c_head_dim cfg \<le> c_n_embd cfg)"
proof -
  have "0 < c_n_embd cfg div c_n_head cfg" using assms(2,3) by (simp add: div_greater_zero_iff)
  with assms(1,2) show ?thesis
    by (auto simp: arch_config_init_def Let_def mult.commute)
qed

definition heads_kvs :: "(bytes \<times> gvalue) list" where
  "heads_kvs = [(''llama.attention.head_count'', GFixed 4 (le_bytes 4 4))]"

definition heads_engine :: "int engine" where
  "heads_engine = toy_engine\<lparr>en_model := holding_model heads_kvs,
     en_vocab := Some (blank_vocab\<lparr>v_token := replicate 8 ''x''\<rparr>)\<rparr>"

lemma arch_config_positive_witness:
  "c_n_head (arch_config_init heads_engine) = 4 \<and> 0 < c_head_dim (arch_config_init heads_engine)"
proof -
  have "model_holds (holding_model heads_kvs) heads_kvs"
    by (rule holding_model_holds)
      (simp_all add: heads_kvs_def kv_valid_def gguf_fixed_size_def kv_print_def key_bytes_def)
  moreover have "map_of heads_kvs ''llama.attention.head_count'' = Some (GFixed 4 (le_bytes 4 4))"
    by (simp add: heads_kvs_def)
  ultimately have "model_get_i32 (holding_model heads_kvs) ''llama.attention.head_count'' = Some (int 4)"
    by (rule model_get_i32_print) simp
  then have "try_i32 (holding_model heads_kvs) ''attention.head_count'' = 4"
    by (simp add: try_i32_def config_read_def config_prefix_def holding_model_def Let_def arch_key_prefix_def)
  then have h: "c_n_head (arch_config_init heads_engine) = 4"
    by (simp add: arch_config_init_def Let_def heads_engine_def)
  have "c_n_embd (arch_config_init heads_engine) = 8"
    by (simp add: arch_config_init_def Let_def heads_engine_def toy_engine_def config_n_embd_def tensor_at_def
        v_n_vocab_def blank_vocab_def)
  with arch_config_positive [OF refl, of heads_engine] h show ?thesis by simp
qed

end
