(* ===== verification/TopSelect.thy ===== *)
theory TopSelect
  imports Prelude "HOL-Library.Multiset"
begin

text \<open>The candidate selection of the sampler (\<open>sampler.c\<close>): the bounded min-heap scan
  \<open>select_top\<close> and the descending sort \<open>sort_desc\<close>.  An entry is a value and the index it
  had.  Values are of any linear order: the code only compares them (there is no NaN).  A
  heap is the list of its filled entries; \<open>qsort\<close>, used beyond 64 entries, is a parameter
  whose order among equal values C leaves open.\<close>

section \<open>The heap\<close>

type_synonym 'f entries = "('f \<times> nat) list"

definition swap_at :: "'a list \<Rightarrow> nat \<Rightarrow> nat \<Rightarrow> 'a list" where
  "swap_at h i j = h[i := h ! j, j := h ! i]"

function sift_up :: "('f::linorder) entries \<Rightarrow> nat \<Rightarrow> 'f entries" where
  "sift_up h c =
     (if c = 0 then h
      else let p = (c - 1) div 2 in
        if fst (h ! p) \<le> fst (h ! c) then h else sift_up (swap_at h p c) p)"
  by pat_completeness auto
termination
  by (relation "measure snd") auto

definition least_child :: "('f::linorder) entries \<Rightarrow> nat \<Rightarrow> nat \<Rightarrow> nat" where
  "least_child h cap p =
     (let l = 2 * p + 1; r = l + 1;
          m = (if l < cap \<and> fst (h ! l) < fst (h ! p) then l else p) in
      if r < cap \<and> fst (h ! r) < fst (h ! m) then r else m)"

lemma least_child_cases:
  "least_child h cap p = p \<or> (p < least_child h cap p \<and> least_child h cap p < cap)"
  by (auto simp: least_child_def Let_def)

function sift_down :: "('f::linorder) entries \<Rightarrow> nat \<Rightarrow> nat \<Rightarrow> 'f entries" where
  "sift_down h cap p =
     (let m = least_child h cap p in
      if m = p then h else sift_down (swap_at h p m) cap m)"
  by pat_completeness auto
termination
proof (relation "measure (\<lambda>(h, cap, p). cap - p)", goal_cases)
  case 1
  then show ?case by simp
next
  case (2 h cap p m)
  then show ?case using least_child_cases [of h cap p] by auto
qed

declare sift_up.simps [simp del] sift_down.simps [simp del]

text \<open>One pass of the scan, and the scan over the values from index \<open>i\<close> on.\<close>

definition heap_offer :: "nat \<Rightarrow> ('f::linorder) \<times> nat \<Rightarrow> 'f entries \<Rightarrow> 'f entries" where
  "heap_offer cap e h =
     (if length h < cap then sift_up (h @ [e]) (length h)
      else if fst e > fst (h ! 0) then sift_down (h[0 := e]) cap 0
      else h)"

fun select_from :: "nat \<Rightarrow> nat \<Rightarrow> ('f::linorder) list \<Rightarrow> 'f entries \<Rightarrow> 'f entries" where
  "select_from cap i [] h = h"
| "select_from cap i (v # vs) h = select_from cap (i + 1) vs (heap_offer cap (v, i) h)"

definition select_top :: "nat \<Rightarrow> ('f::linorder) list \<Rightarrow> 'f entries" where
  "select_top cap vals = select_from cap 0 vals []"

section \<open>The sort\<close>

text \<open>\<open>while (j > 0 && a[j - 1].prob < v.prob)\<close> moves the tail of the sorted part up.\<close>

definition insert_back :: "('f::linorder) entries \<Rightarrow> 'f \<times> nat \<Rightarrow> 'f entries" where
  "insert_back done_part v =
     (let smaller = (\<lambda>x. fst x < fst v) in
      rev (dropWhile smaller (rev done_part)) @ v # rev (takeWhile smaller (rev done_part)))"

definition sort_desc :: "(('f::linorder) entries \<Rightarrow> 'f entries) \<Rightarrow> 'f entries \<Rightarrow> 'f entries" where
  "sort_desc qsort a = (if length a > 64 then qsort a else foldl insert_back [] a)"

definition desc :: "('f::linorder) entries \<Rightarrow> bool" where
  "desc a \<longleftrightarrow> sorted_wrt (\<lambda>x y. fst y \<le> fst x) a"

text \<open>What C promises of \<open>qsort\<close> with \<open>probidx_cmp\<close>.\<close>

definition sorts_desc :: "(('f::linorder) entries \<Rightarrow> 'f entries) \<Rightarrow> bool" where
  "sorts_desc qsort \<longleftrightarrow> (\<forall>a. mset (qsort a) = mset a \<and> desc (qsort a))"

section \<open>Heap lemmas\<close>

abbreviation par :: "nat \<Rightarrow> nat" where
  "par c \<equiv> (c - 1) div 2"

lemma length_swap_at [simp]: "length (swap_at h i j) = length h"
  by (simp add: swap_at_def)

lemma mset_swap_at [simp]: "i < length h \<Longrightarrow> j < length h \<Longrightarrow> mset (swap_at h i j) = mset h"
  by (simp add: swap_at_def mset_swap)

lemma nth_swap_at:
  "i < length h \<Longrightarrow> j < length h \<Longrightarrow> k < length h \<Longrightarrow>
   swap_at h i j ! k = (if k = j then h ! i else if k = i then h ! j else h ! k)"
  by (simp add: swap_at_def nth_list_update)

definition heap_ok :: "('f::linorder) entries \<Rightarrow> bool" where
  "heap_ok h \<longleftrightarrow> (\<forall>k. 0 < k \<and> k < length h \<longrightarrow> fst (h ! par k) \<le> fst (h ! k))"

lemma heap_root_least:
  assumes "heap_ok h" and "k < length h"
  shows "fst (h ! 0) \<le> fst (h ! k)"
  using assms(2)
proof (induction k rule: less_induct)
  case (less k)
  show ?case
  proof (cases "k = 0")
    case False
    then have "par k < k" by simp
    with less have "fst (h ! 0) \<le> fst (h ! par k)" by simp
    also have "\<dots> \<le> fst (h ! k)" using assms(1) less.prems False by (simp add: heap_ok_def)
    finally show ?thesis .
  qed simp
qed

text \<open>A heap but for the edge above \<open>c\<close>, and but for the edges below \<open>p\<close>.\<close>

definition up_ok :: "('f::linorder) entries \<Rightarrow> nat \<Rightarrow> bool" where
  "up_ok h c \<longleftrightarrow> (\<forall>k. 0 < k \<and> k < length h \<and> k \<noteq> c \<longrightarrow> fst (h ! par k) \<le> fst (h ! k))
     \<and> (\<forall>k. 0 < k \<and> k < length h \<and> par k = c \<and> 0 < c \<longrightarrow> fst (h ! par c) \<le> fst (h ! k))"

definition down_ok :: "('f::linorder) entries \<Rightarrow> nat \<Rightarrow> bool" where
  "down_ok h p \<longleftrightarrow> (\<forall>k. 0 < k \<and> k < length h \<and> par k \<noteq> p \<longrightarrow> fst (h ! par k) \<le> fst (h ! k))
     \<and> (\<forall>k. 0 < k \<and> k < length h \<and> par k = p \<and> 0 < p \<longrightarrow> fst (h ! par p) \<le> fst (h ! k))"

lemma par_less: "0 < k \<Longrightarrow> par k < k"
  by simp

lemma up_ok_swap:
  assumes "up_ok h c" and "0 < c" and "c < length h" and "fst (h ! c) < fst (h ! par c)"
  shows "up_ok (swap_at h (par c) c) (par c)"
proof -
  let ?h = "swap_at h (par c) c"
  have p: "par c < length h" "par c < c" using assms(2,3) by auto
  have nth: "?h ! k = (if k = c then h ! par c else if k = par c then h ! c else h ! k)" if "k < length h" for k
    using nth_swap_at p(1) assms(3) that by blast
  have edge: "fst (h ! par k) \<le> fst (h ! k)" if "0 < k" "k < length h" "k \<noteq> c" for k
    using assms(1) that by (simp add: up_ok_def)
  have below: "fst (h ! par c) \<le> fst (h ! k)" if "0 < k" "k < length h" "par k = c" for k
    using assms(1,2) that by (simp add: up_ok_def)
  have "fst (?h ! par k) \<le> fst (?h ! k)" if k: "0 < k" "k < length h" "k \<noteq> par c" for k
  proof -
    have pk: "par k < length h" using par_less [OF k(1)] k(2) by simp
    consider "k = c" | "k \<noteq> c" "par k = c" | "k \<noteq> c" "par k = par c" | "k \<noteq> c" "par k \<noteq> c" "par k \<noteq> par c" by blast
    then show ?thesis
    proof cases
      case 1
      then show ?thesis using nth [OF k(2)] nth [OF pk] p assms(4) by simp
    next
      case 2
      then show ?thesis using nth [OF k(2)] nth [OF pk] k below by simp
    next
      case 3
      then have "fst (h ! c) \<le> fst (h ! k)" using edge [OF k(1,2)] assms(4) by simp
      then show ?thesis using 3 nth [OF k(2)] nth [OF pk] k p by simp
    next
      case 4
      then show ?thesis using nth [OF k(2)] nth [OF pk] k edge by simp
    qed
  qed
  moreover have "fst (?h ! par (par c)) \<le> fst (?h ! k)"
    if k: "0 < k" "k < length h" "par k = par c" "0 < par c" for k
  proof -
    have g: "fst (h ! par (par c)) \<le> fst (h ! par c)" using edge [OF k(4)] p by simp
    have gl: "par (par c) < par c" by (rule par_less [OF k(4)])
    then have gn: "?h ! par (par c) = h ! par (par c)" using nth p by simp
    show ?thesis
    proof (cases "k = c")
      case True
      then show ?thesis using g gn nth [OF k(2)] by simp
    next
      case False
      have "fst (h ! par c) \<le> fst (h ! k)" using edge [OF k(1,2) False] k(3) by simp
      moreover have "k \<noteq> par c" using par_less [OF k(1)] k(3) by auto
      ultimately show ?thesis using g gn nth [OF k(2)] False by simp
    qed
  qed
  ultimately show ?thesis by (simp add: up_ok_def)
qed

lemma sift_up_ok:
  "c < length h \<Longrightarrow> up_ok h c \<Longrightarrow> heap_ok (sift_up h c) \<and> mset (sift_up h c) = mset h"
proof (induction h c rule: sift_up.induct)
  case (1 h c)
  show ?case
  proof (cases "c = 0")
    case True
    with 1 show ?thesis by (subst (1 2) sift_up.simps) (auto simp: heap_ok_def up_ok_def)
  next
    case c: False
    then have p: "par c < length h" using "1.prems"(1) by auto
    show ?thesis
    proof (cases "fst (h ! par c) \<le> fst (h ! c)")
      case True
      with c have "sift_up h c = h" by (subst sift_up.simps) (simp add: Let_def)
      with True "1.prems" show ?thesis unfolding heap_ok_def up_ok_def by metis
    next
      case False
      with c have "sift_up h c = sift_up (swap_at h (par c) c) (par c)"
        by (subst sift_up.simps) (simp add: Let_def)
      moreover have "up_ok (swap_at h (par c) c) (par c)"
        using up_ok_swap [OF "1.prems"(2)] c "1.prems"(1) False by simp
      ultimately show ?thesis using "1.IH" [OF c refl False] p "1.prems"(1) by simp
    qed
  qed
qed

lemma par_child: "par (2 * p + 1) = p" "par (2 * p + 2) = p"
  by simp_all

lemma child_cases: "0 < k \<Longrightarrow> par k = p \<Longrightarrow> k = 2 * p + 1 \<or> k = 2 * p + 2"
  by presburger

text \<open>The least child is below both children; when it is the node itself, so is the node.\<close>

lemma least_child_le:
  assumes "0 < k" and "k < length h" and "par k = p"
  shows "fst (h ! least_child h (length h) p) \<le> fst (h ! k)"
  using child_cases [OF assms(1,3)] assms(2) by (auto simp: least_child_def Let_def)

lemma least_child_less:
  "least_child h cap p \<noteq> p \<Longrightarrow> fst (h ! least_child h cap p) < fst (h ! p) \<and> par (least_child h cap p) = p"
  by (auto simp: least_child_def Let_def split: if_splits)

lemma down_ok_swap:
  assumes ok: "down_ok h p" and p: "p < length h" and m: "m = least_child h (length h) p" "m \<noteq> p"
  shows "down_ok (swap_at h p m) m"
proof -
  let ?h = "swap_at h p m"
  have ml: "m < length h" "p < m" using least_child_cases [of h "length h" p] m by auto
  have mp: "par m = p" and less: "fst (h ! m) < fst (h ! p)" using least_child_less [of h "length h" p] m by auto
  have nth: "?h ! k = (if k = m then h ! p else if k = p then h ! m else h ! k)" if "k < length h" for k
    using nth_swap_at p ml(1) that by blast
  have edge: "fst (h ! par k) \<le> fst (h ! k)" if "0 < k" "k < length h" "par k \<noteq> p" for k
    using ok that by (simp add: down_ok_def)
  have "fst (?h ! par k) \<le> fst (?h ! k)" if k: "0 < k" "k < length h" "par k \<noteq> m" for k
  proof -
    have pk: "par k < length h" using par_less [OF k(1)] k(2) by simp
    consider "k = m" | "k \<noteq> m" "par k = p" | "k = p" "par k \<noteq> p" | "k \<noteq> m" "k \<noteq> p" "par k \<noteq> p" by blast
    then show ?thesis
    proof cases
      case 1
      then show ?thesis using nth [OF k(2)] nth [OF pk] mp ml less by simp
    next
      case 2
      then have "k \<noteq> p" using par_less [OF k(1)] by auto
      then show ?thesis using 2 nth [OF k(2)] nth [OF pk] least_child_le [OF k(1,2) 2(2)] m ml by simp
    next
      case 3
      have "fst (h ! par p) \<le> fst (h ! m)" using ok 3(1) k ml mp by (simp add: down_ok_def)
      then show ?thesis using 3 nth [OF k(2)] nth [OF pk] ml k(3) by simp
    next
      case 4
      then show ?thesis using nth [OF k(2)] nth [OF pk] edge k by simp
    qed
  qed
  moreover have "fst (?h ! par m) \<le> fst (?h ! k)" if k: "0 < k" "k < length h" "par k = m" for k
  proof -
    have "fst (h ! m) \<le> fst (h ! k)" using edge [OF k(1,2)] k(3) ml by simp
    moreover have "k \<noteq> m" "k \<noteq> p" using par_less [OF k(1)] k(3) ml by auto
    ultimately show ?thesis using nth [OF k(2)] nth [OF p] mp ml by simp
  qed
  ultimately show ?thesis by (simp add: down_ok_def)
qed

lemma sift_down_ok:
  "cap = length h \<Longrightarrow> p < cap \<Longrightarrow> down_ok h p \<Longrightarrow>
   heap_ok (sift_down h cap p) \<and> mset (sift_down h cap p) = mset h"
proof (induction h cap p rule: sift_down.induct)
  case (1 h cap p)
  let ?m = "least_child h cap p"
  show ?case
  proof (cases "?m = p")
    case True
    then have "sift_down h cap p = h" by (subst sift_down.simps) (simp add: Let_def)
    moreover have "fst (h ! par k) \<le> fst (h ! k)" if "0 < k" "k < length h" for k
      using least_child_le [of k h p] True "1.prems" that by (cases "par k = p") (auto simp: down_ok_def)
    ultimately show ?thesis by (simp add: heap_ok_def)
  next
    case False
    then have eq: "sift_down h cap p = sift_down (swap_at h p ?m) cap ?m"
      by (subst sift_down.simps) (simp add: Let_def)
    have m: "?m < cap" using least_child_cases [of h cap p] False by auto
    have "down_ok (swap_at h p ?m) ?m" using down_ok_swap [of h p ?m] "1.prems" False by simp
    then show ?thesis using "1.IH" [OF refl False] m "1.prems" unfolding eq by simp
  qed
qed

section \<open>The scan keeps the greatest\<close>

text \<open>After the first \<open>n\<close> values: a heap of \<open>min cap n\<close> of them, none of the others greater.\<close>

definition selected :: "nat \<Rightarrow> ('f::linorder) entries \<Rightarrow> 'f entries \<Rightarrow> bool" where
  "selected cap es h \<longleftrightarrow> heap_ok h \<and> length h = min cap (length es)
     \<and> (\<exists>rest. mset es = mset h + mset rest \<and> (\<forall>x \<in> set rest. \<forall>y \<in> set h. fst x \<le> fst y))"

lemma selectedI:
  "heap_ok h \<Longrightarrow> length h = min cap (length es) \<Longrightarrow> mset es = mset h + mset rest \<Longrightarrow>
   \<forall>x \<in> set rest. \<forall>y \<in> set h. fst x \<le> fst y \<Longrightarrow> selected cap es h"
  unfolding selected_def by blast

lemma heap_least: "heap_ok h \<Longrightarrow> y \<in> set h \<Longrightarrow> fst (h ! 0) \<le> fst y"
  using heap_root_least by (metis in_set_conv_nth)

lemma mset_replace_root: "h \<noteq> [] \<Longrightarrow> mset (h[0 := e]) + {#h ! 0#} = mset h + {#e#}"
  by (cases h) auto

lemma heap_offer_selected:
  assumes "selected cap es h" and "0 < cap"
  shows "selected cap (es @ [e]) (heap_offer cap e h)"
proof -
  obtain rest where len: "length h = min cap (length es)" and ok: "heap_ok h"
    and ms: "mset es = mset h + mset rest" and le: "\<forall>x \<in> set rest. \<forall>y \<in> set h. fst x \<le> fst y"
    using assms(1) by (auto simp: selected_def)
  show ?thesis
  proof (cases "length h < cap")
    case True
    then have "size (mset es) = size (mset h)" using len by simp
    then have none: "rest = []" using ms by simp
    have "up_ok (h @ [e]) (length h)"
      unfolding up_ok_def
    proof (intro conjI allI impI)
      fix k assume k: "0 < k \<and> k < length (h @ [e]) \<and> k \<noteq> length h"
      then have "k < length h" "par k < length h" by auto
      with ok k show "fst ((h @ [e]) ! par k) \<le> fst ((h @ [e]) ! k)" by (simp add: heap_ok_def nth_append)
    next
      fix k assume k: "0 < k \<and> k < length (h @ [e]) \<and> par k = length h \<and> 0 < length h"
      then have "par k < k" and "k \<le> length h" by auto
      then have "par k < length h" by (rule less_le_trans)
      with k have False by linarith
      then show "fst ((h @ [e]) ! par (length h)) \<le> fst ((h @ [e]) ! k)" by simp
    qed
    from sift_up_ok [OF _ this] True have
      "heap_ok (heap_offer cap e h)" "mset (heap_offer cap e h) = mset h + {#e#}"
      by (simp_all add: heap_offer_def)
    moreover from this(2) have "size (mset (heap_offer cap e h)) = size (mset h) + 1"
      by (simp only: size_union size_single)
    then have "length (heap_offer cap e h) = length h + 1" by (simp only: size_mset)
    ultimately show ?thesis using ms none len True
      by (auto simp: selected_def intro: exI [of _ "[]"])
  next
    case full: False
    then have ne: "h \<noteq> []" and cap: "length h = cap" "cap \<le> length es" using len assms(2) by auto
    show ?thesis
    proof (cases "fst e > fst (h ! 0)")
      case True
      have "down_ok (h[0 := e]) 0" using ok by (auto simp: down_ok_def heap_ok_def nth_list_update)
      from sift_down_ok [OF _ _ this, of cap] True full ne cap assms(2) have
        h': "heap_ok (heap_offer cap e h)" "mset (heap_offer cap e h) = mset (h[0 := e])"
        by (simp_all add: heap_offer_def)
      have "set (heap_offer cap e h) = set (h[0 := e])" using h'(2) by (rule mset_eq_setD)
      then have sub: "set (heap_offer cap e h) \<subseteq> insert e (set h)" using set_update_subset_insert [of h 0 e] by simp
      have "\<forall>x \<in> set (h ! 0 # rest). \<forall>y \<in> set (heap_offer cap e h). fst x \<le> fst y"
      proof (intro ballI)
        fix x y assume x: "x \<in> set (h ! 0 # rest)" and y: "y \<in> set (heap_offer cap e h)"
        have "fst x \<le> fst (h ! 0)" using x le ne by auto
        moreover have "y = e \<or> y \<in> set h" using y sub by blast
        then have "fst (h ! 0) \<le> fst y" using True heap_least [OF ok, of y] by auto
        ultimately show "fst x \<le> fst y" by simp
      qed
      moreover have "mset (es @ [e]) = mset (heap_offer cap e h) + mset (h ! 0 # rest)"
        using ms h'(2) mset_replace_root [OF ne, of e] by simp
      moreover have "length (heap_offer cap e h) = min cap (length (es @ [e]))"
        using mset_eq_length [OF h'(2)] cap by simp
      ultimately show ?thesis using selectedI h'(1) by blast
    next
      case False
      then have eq: "heap_offer cap e h = h" using full by (simp add: heap_offer_def)
      have "\<forall>y \<in> set h. fst e \<le> fst y" using heap_least [OF ok] False by force
      then have "\<forall>x \<in> set (e # rest). \<forall>y \<in> set h. fst x \<le> fst y" using le by auto
      moreover have "mset (es @ [e]) = mset h + mset (e # rest)" using ms by simp
      moreover have "length h = min cap (length (es @ [e]))" using cap by simp
      ultimately show ?thesis unfolding eq using selectedI ok by blast
    qed
  qed
qed

lemma select_from_selected:
  "selected cap es h \<Longrightarrow> 0 < cap \<Longrightarrow> length es = i \<Longrightarrow>
   selected cap (es @ zip vs [i ..< i + length vs]) (select_from cap i vs h)"
proof (induction cap i vs h arbitrary: es rule: select_from.induct)
  case (2 cap i v vs h)
  have "selected cap (es @ [(v, i)]) (heap_offer cap (v, i) h)"
    using heap_offer_selected [OF "2.prems"(1,2)] .
  from "2.IH" [OF this "2.prems"(2)] "2.prems"(3) have
    "selected cap (es @ (v, i) # zip vs [Suc i ..< Suc i + length vs]) (select_from cap i (v # vs) h)" by simp
  moreover have "zip (v # vs) [i ..< i + length (v # vs)] = (v, i) # zip vs [Suc i ..< Suc i + length vs]"
    using upt_conv_Cons [of i "i + length (v # vs)"] by (simp del: upt_Suc)
  ultimately show ?case by simp
qed simp

abbreviation indexed :: "'f list \<Rightarrow> 'f entries" where
  "indexed vals \<equiv> zip vals [0 ..< length vals]"

lemma select_top_selected: "0 < cap \<Longrightarrow> selected cap (indexed vals) (select_top cap vals)"
  using select_from_selected [of cap "[]" "[]" 0 vals]
  by (simp add: select_top_def selected_def heap_ok_def)

section \<open>The sort sorts\<close>

lemma insert_back_ok:
  assumes "desc a"
  shows "desc (insert_back a v)" and "mset (insert_back a v) = mset a + {#v#}"
proof -
  let ?s = "\<lambda>x. fst x < fst v"
  have a: "rev (dropWhile ?s (rev a)) @ rev (takeWhile ?s (rev a)) = a"
    by (metis rev_append rev_rev_ident takeWhile_dropWhile_id)
  then have "desc (rev (dropWhile ?s (rev a)) @ rev (takeWhile ?s (rev a)))" using assms by simp
  moreover have "fst v \<le> fst x" if "x \<in> set (dropWhile ?s (rev a))" for x
  proof -
    obtain y ys where y: "dropWhile ?s (rev a) = y # ys" using \<open>x \<in> _\<close> by (cases "dropWhile ?s (rev a)") auto
    then have "\<not> ?s y" by (metis hd_dropWhile list.discI list.sel(1))
    moreover have "sorted_wrt (\<lambda>x y. fst x \<le> fst y) (rev a)"
      using assms by (simp add: desc_def sorted_wrt_rev)
    then have "sorted_wrt (\<lambda>x y. fst x \<le> fst y) (dropWhile ?s (rev a))"
      by (metis sorted_wrt_append takeWhile_dropWhile_id)
    ultimately show ?thesis using that y by force
  qed
  moreover have "?s x" if "x \<in> set (takeWhile ?s (rev a))" for x using that by (rule set_takeWhileD [THEN conjunct2])
  ultimately show "desc (insert_back a v)"
    by (auto simp: insert_back_def Let_def desc_def sorted_wrt_append intro: less_imp_le)
  have "mset (insert_back a v) = mset (rev (dropWhile ?s (rev a)) @ rev (takeWhile ?s (rev a))) + {#v#}"
    by (simp add: insert_back_def Let_def)
  then show "mset (insert_back a v) = mset a + {#v#}" unfolding a .
qed

lemma foldl_insert_back:
  "desc a \<Longrightarrow> desc (foldl insert_back a es) \<and> mset (foldl insert_back a es) = mset a + mset es"
proof (induction es arbitrary: a)
  case (Cons e es)
  from Cons.IH [OF insert_back_ok(1) [OF Cons.prems, of e]] insert_back_ok(2) [OF Cons.prems, of e]
  show ?case by simp
qed simp

lemma sort_desc_ok:
  assumes "sorts_desc qs"
  shows "desc (sort_desc qs a)" and "mset (sort_desc qs a) = mset a"
  using assms foldl_insert_back [of "[]" a] by (auto simp: sort_desc_def sorts_desc_def desc_def)

lemma insertion_sorts: "sorts_desc (foldl insert_back [])"
  unfolding sorts_desc_def
proof
  fix a :: "'a entries"
  show "mset (foldl insert_back [] a) = mset a \<and> desc (foldl insert_back [] a)"
    using foldl_insert_back [of "[]" a] by (simp add: desc_def)
qed

end
