(* ===== verification/Sampler.thy ===== *)
theory Sampler
  imports Complex_Main TopSelect "HOL-Library.Word"
begin

text \<open>Sampling (\<open>sampler.c\<close>): repetition penalties, greedy choice, temperature and softmax, the
  min-p and top-p filters over a growing candidate list, and the draw.  The float type is
  any linear order with arithmetic of which no law is assumed, so every statement holds for
  \<open>float\<close> with its rounding (without NaN); \<open>expf\<close>, the conversion of integers and the
  constant \<open>DEFAULT_EPS\<close> come in a record.  \<open>malloc\<close> and \<open>realloc\<close> succeed.\<close>

unbundle bit_operations_syntax

record 'f float_ops =
  f_exp :: "'f \<Rightarrow> 'f"
  f_nat :: "nat \<Rightarrow> 'f"
  f_eps :: 'f

record 'f sample_param =
  p_temperature :: 'f
  p_top_k :: nat
  p_top_p :: 'f
  p_min_p :: 'f
  p_repeat_penalty :: 'f
  p_repeat_last_n :: nat
  p_frequency_penalty :: 'f
  p_presence_penalty :: 'f

section \<open>The generator\<close>

text \<open>The state of a thread; 0 means not seeded yet.  \<open>tid\<close> is \<open>(u32)(uintptr_t)pthread_self()\<close>.\<close>

definition rng_seed :: "u32 \<Rightarrow> u32 \<Rightarrow> u32" where
  "rng_seed tid state =
     (if state = 0 then (if tid XOR 0x9e3779b9 = 0 then 0x9e3779b9 else tid XOR 0x9e3779b9) else state)"

definition xorshift :: "u32 \<Rightarrow> u32" where
  "xorshift x0 =
     (let x1 = x0 XOR push_bit 13 x0;
          x2 = x1 XOR drop_bit 17 x1 in
      x2 XOR push_bit 5 x2)"

definition rng_float :: "'f float_ops \<Rightarrow> u32 \<Rightarrow> u32 \<Rightarrow> ('f::{times,inverse,one}) \<times> u32" where
  "rng_float fo tid state =
     (let x = xorshift (rng_seed tid state) in
      (f_nat fo (unat (drop_bit 8 x)) * (1 / f_nat fo 16777216), x))"

section \<open>Penalties\<close>

definition penalized ::
    "'f float_ops \<Rightarrow> 'f sample_param \<Rightarrow> nat \<Rightarrow> 'f \<Rightarrow> ('f::{linorder,plus,minus,times,inverse,zero})" where
  "penalized fo p k x =
     (if x \<le> 0 then x * p_repeat_penalty p else x / p_repeat_penalty p)
     - (f_nat fo k * p_frequency_penalty p + f_nat fo 1 * p_presence_penalty p)"

text \<open>The loop over the window; \<open>seen\<close> is the part before the current position.\<close>

fun penalize :: "'f float_ops \<Rightarrow> 'f sample_param \<Rightarrow> nat list \<Rightarrow> nat list \<Rightarrow> 'f list
    \<Rightarrow> ('f::{linorder,plus,minus,times,inverse,zero}) list" where
  "penalize fo p seen [] logits = logits"
| "penalize fo p seen (t # ts) logits =
     (if t \<ge> length logits \<or> t \<in> set seen then penalize fo p (t # seen) ts logits
      else penalize fo p (t # seen) ts (logits[t := penalized fo p (1 + count_list ts t) (logits ! t)]))"

definition penalty_window :: "'f sample_param \<Rightarrow> nat list \<Rightarrow> nat list" where
  "penalty_window p history =
     drop (if length history > p_repeat_last_n p then length history - p_repeat_last_n p else 0) history"

definition apply_penalties :: "'f float_ops \<Rightarrow> 'f sample_param \<Rightarrow> nat list \<Rightarrow> 'f list
    \<Rightarrow> ('f::{linorder,plus,minus,times,inverse,zero,one}) list" where
  "apply_penalties fo p history logits =
     (if (p_repeat_penalty p \<noteq> 1 \<or> p_frequency_penalty p \<noteq> 0 \<or> p_presence_penalty p \<noteq> 0)
         \<and> p_repeat_last_n p > 0 \<and> history \<noteq> []
      then penalize fo p [] (penalty_window p history) logits else logits)"

section \<open>Greedy\<close>

fun greedy_from :: "nat \<Rightarrow> nat \<Rightarrow> 'f \<Rightarrow> ('f::linorder) list \<Rightarrow> nat" where
  "greedy_from i best best_val [] = best"
| "greedy_from i best best_val (v # vs) =
     (if v > best_val then greedy_from (i + 1) i v vs else greedy_from (i + 1) best best_val vs)"

definition sample_greedy :: "('f::linorder) list \<Rightarrow> nat" where
  "sample_greedy logits = greedy_from 1 0 (hd logits) (tl logits)"

section \<open>Filters\<close>

definition scaled_max :: "('f::{linorder,times}) \<Rightarrow> 'f list \<Rightarrow> 'f" where
  "scaled_max inv_temp logits =
     foldl (\<lambda>m x. if x * inv_temp > m then x * inv_temp else m) (hd logits * inv_temp) (tl logits)"

definition soft_values :: "'f float_ops \<Rightarrow> 'f \<Rightarrow> 'f list \<Rightarrow> ('f::{linorder,minus,times}) list" where
  "soft_values fo inv_temp logits =
     List.map (\<lambda>x. f_exp fo (x * inv_temp - scaled_max inv_temp logits)) logits"

definition min_p_cut :: "('f::{linorder,times}) float_ops \<Rightarrow> 'f sample_param \<Rightarrow> 'f list \<Rightarrow> nat" where
  "min_p_cut fo p probs =
     (if p_min_p p > f_eps fo \<and> probs \<noteq> [] then
        (let n = length (takeWhile (\<lambda>x. x \<ge> p_min_p p * hd probs) probs) in
         if n > 0 then n else length probs)
      else length probs)"

text \<open>The position at which the running sum reaches \<open>top_p\<close>.\<close>

fun nucleus :: "('f::{linorder,plus}) \<Rightarrow> 'f \<Rightarrow> 'f list \<Rightarrow> nat option" where
  "nucleus top_p cum [] = None"
| "nucleus top_p cum (x # xs) =
     (if cum + x \<ge> top_p then Some 1 else map_option Suc (nucleus top_p (cum + x) xs))"

definition filter_cutoff ::
    "('f::{linorder,plus,times,zero,one}) float_ops \<Rightarrow> 'f sample_param \<Rightarrow> 'f list \<Rightarrow> nat" where
  "filter_cutoff fo p probs =
     (let cut = min_p_cut fo p probs in
      if p_top_p p < 1 then (case nucleus (p_top_p p) 0 (take cut probs) of Some k \<Rightarrow> k | None \<Rightarrow> cut)
      else cut)"

text \<open>The selection sorted and scaled, and the loop that grows it.  The caller's \<open>cap\<close> is at
  least 1; for 0, where the loop of the code would not end, the recursion stops.\<close>

definition ranked :: "(('f::{linorder,times}) entries \<Rightarrow> 'f entries) \<Rightarrow> 'f \<Rightarrow> 'f list \<Rightarrow> nat \<Rightarrow> 'f entries" where
  "ranked qs inv_sum vals cap = List.map (\<lambda>(v, i). (v * inv_sum, i)) (sort_desc qs (select_top cap vals))"

function candidates :: "('f::{linorder,plus,times,zero,one}) float_ops \<Rightarrow> ('f entries \<Rightarrow> 'f entries)
    \<Rightarrow> 'f sample_param \<Rightarrow> 'f \<Rightarrow> 'f list \<Rightarrow> nat \<Rightarrow> 'f entries \<times> nat" where
  "candidates fo qs p inv_sum vals cap =
     (let cand = ranked qs inv_sum vals cap; cutoff = filter_cutoff fo p (List.map fst cand); n = length vals in
      if p_top_k p > 0 \<or> cutoff < length cand \<or> cap \<ge> n \<or> cap = 0 then (cand, cutoff)
      else candidates fo qs p inv_sum vals (if cap > n div 4 then n else cap * 4))"
  by pat_completeness auto
termination
  by (relation "measure (\<lambda>(fo, qs, p, inv_sum, vals, cap). length vals - cap)") auto

declare candidates.simps [simp del]

section \<open>The draw\<close>

fun draw :: "'f \<Rightarrow> 'f \<Rightarrow> 'f \<Rightarrow> ('f::{linorder,plus,times}) entries \<Rightarrow> nat option" where
  "draw r rn_inv cdf [] = None"
| "draw r rn_inv cdf ((x, i) # es) =
     (let cdf' = cdf + x * rn_inv in if r < cdf' then Some i else draw r rn_inv cdf' es)"

definition no_filter :: "('f::{linorder,one}) float_ops \<Rightarrow> 'f sample_param \<Rightarrow> bool" where
  "no_filter fo p \<longleftrightarrow> p_top_k p = 0 \<and> p_top_p p \<ge> 1 \<and> p_min_p p \<le> f_eps fo"

definition start_cap :: "'f sample_param \<Rightarrow> nat \<Rightarrow> nat" where
  "start_cap p n = min n (if p_top_k p > 0 then p_top_k p else 64)"

definition sample_token :: "('f::{linorder,plus,minus,times,inverse,zero,one}) float_ops
    \<Rightarrow> ('f entries \<Rightarrow> 'f entries) \<Rightarrow> u32 \<Rightarrow> 'f sample_param \<Rightarrow> nat list \<Rightarrow> 'f list \<Rightarrow> u32 \<Rightarrow> nat \<times> u32" where
  "sample_token fo qs tid p history logits0 rng =
     (let logits = apply_penalties fo p history logits0 in
      if p_temperature p \<le> f_eps fo \<or> no_filter fo p then (sample_greedy logits, rng)
      else
        let inv_temp = 1 / p_temperature p;
            vals = soft_values fo inv_temp logits;
            inv_sum = 1 / foldl (+) 0 vals;
            (cand, cutoff0) = candidates fo qs p inv_sum vals (start_cap p (length vals));
            cutoff = (if cutoff0 < 1 then 1 else cutoff0);
            kept = take cutoff cand;
            renorm = foldl (+) 0 (List.map fst kept);
            rn_inv = (if renorm > 0 then 1 / renorm else 1);
            (r, rng') = rng_float fo tid rng in
        (case draw r rn_inv 0 kept of Some i \<Rightarrow> i | None \<Rightarrow> snd (cand ! (cutoff - 1)), rng'))"

section \<open>Lemmas: generator, penalties, greedy\<close>

lemma xor_shift_zero:
  fixes x :: "'a::len word"
  assumes "0 < k"
  shows "x XOR push_bit k x = 0 \<Longrightarrow> x = 0" and "x XOR drop_bit k x = 0 \<Longrightarrow> x = 0"
proof -
  assume "x XOR push_bit k x = 0"
  then have "x = push_bit k x" by (metis xor.right_neutral xor_self_eq xor.left_commute)
  then have low: "bit x n \<longleftrightarrow> k \<le> n \<and> bit x (n - k)" if "n < LENGTH('a)" for n
    using that by (metis bit_push_bit_iff possible_bit_word)
  have "\<not> bit x n" if "n < LENGTH('a)" for n
    using that
  proof (induction n rule: less_induct)
    case (less n)
    then show ?case using low [of n] assms by (cases "k \<le> n") auto
  qed
  then show "x = 0" by (auto intro: bit_word_eqI)
next
  assume "x XOR drop_bit k x = 0"
  then have "x = drop_bit k x" by (metis xor.right_neutral xor_self_eq xor.left_commute)
  then have high: "bit x n \<longleftrightarrow> bit x (n + k)" for n
    by (metis bit_drop_bit_eq add.commute comp_apply)
  have "\<not> bit x n" for n
  proof (induction "LENGTH('a) - n" arbitrary: n rule: less_induct)
    case less
    show ?case
    proof (cases "n < LENGTH('a)")
      case True
      then have "LENGTH('a) - (n + k) < LENGTH('a) - n" using assms by simp
      with less high show ?thesis by blast
    next
      case False
      then show ?thesis using bit_imp_le_length by fastforce
    qed
  qed
  then show "x = 0" by (auto intro: bit_word_eqI)
qed

lemma xorshift_nonzero: "x \<noteq> 0 \<Longrightarrow> xorshift x \<noteq> 0"
  using xor_shift_zero(1) [of 13 x] xor_shift_zero(2) [of 17 "x XOR push_bit 13 x"]
    xor_shift_zero(1) [of 5 "(x XOR push_bit 13 x) XOR drop_bit 17 (x XOR push_bit 13 x)"]
  by (auto simp: xorshift_def Let_def)

lemma length_penalize [simp]: "length (penalize fo p seen ts logits) = length logits"
  by (induction fo p seen ts logits rule: penalize.induct) auto

lemma length_apply_penalties [simp]: "length (apply_penalties fo p history logits) = length logits"
  by (simp add: apply_penalties_def)

lemma penalize_nth:
  "t < length logits \<Longrightarrow> penalize fo p seen ts logits ! t =
     (if t \<in> set ts \<and> t \<notin> set seen then penalized fo p (count_list ts t) (logits ! t) else logits ! t)"
proof (induction fo p seen ts logits rule: penalize.induct)
  case (2 fo p seen t' ts logits)
  show ?case
  proof (cases "t' \<ge> length logits \<or> t' \<in> set seen")
    case True
    with 2 show ?thesis by auto
  next
    case False
    with 2 show ?thesis by (cases "t = t'") auto
  qed
qed simp

lemma greedy_from_best:
  "best < i \<Longrightarrow> best_val = xs ! best \<Longrightarrow> i \<le> length xs \<Longrightarrow> vs = drop i xs \<Longrightarrow>
   (\<forall>j < i. xs ! j \<le> xs ! best) \<Longrightarrow> (\<forall>j < best. xs ! j < xs ! best) \<Longrightarrow>
   greedy_from i best best_val vs < length xs
   \<and> (\<forall>j < length xs. xs ! j \<le> xs ! greedy_from i best best_val vs)
   \<and> (\<forall>j < greedy_from i best best_val vs. xs ! j < xs ! greedy_from i best best_val vs)"
proof (induction i best best_val vs rule: greedy_from.induct)
  case (1 i best best_val)
  then have "i = length xs" by simp
  with 1 show ?case by auto
next
  case (2 i best best_val v vs)
  then have d: "drop i xs = v # vs" by simp
  then have il: "i < length xs" by (cases "i < length xs") auto
  with d Cons_nth_drop_Suc [OF il] have i: "i < length xs" "v = xs ! i" "vs = drop (i + 1) xs" by auto
  show ?case
  proof (cases "v > best_val")
    case True
    then have le: "\<forall>j < i. xs ! j < xs ! i" using 2 i by (auto intro: le_less_trans)
    then have "\<forall>j < i + 1. xs ! j \<le> xs ! i" by (auto simp: less_Suc_eq)
    have eq: "greedy_from i best best_val (v # vs) = greedy_from (i + 1) i v vs" using True by simp
    show ?thesis unfolding eq
      by (rule "2.IH"(1) [OF True]) (use i le \<open>\<forall>j < i + 1. xs ! j \<le> xs ! i\<close> in auto)
  next
    case False
    then have le: "\<forall>j < i + 1. xs ! j \<le> xs ! best" using 2 i by (auto simp: less_Suc_eq)
    have eq: "greedy_from i best best_val (v # vs) = greedy_from (i + 1) best best_val vs" using False by simp
    show ?thesis unfolding eq
      by (rule "2.IH"(2) [OF False]) (use i le "2.prems" in auto)
  qed
qed

lemma sample_greedy_best:
  assumes "logits \<noteq> []"
  shows "sample_greedy logits < length logits" and "j < length logits \<Longrightarrow> logits ! j \<le> logits ! sample_greedy logits"
    and "j < sample_greedy logits \<Longrightarrow> logits ! j < logits ! sample_greedy logits"
proof -
  have "hd logits = logits ! 0" "tl logits = drop 1 logits" "1 \<le> length logits"
    using assms by (simp_all add: hd_conv_nth drop_Suc Suc_le_eq)
  from greedy_from_best [of 0 1 _ logits, OF _ this(1) this(3) this(2)]
  show "sample_greedy logits < length logits" and "j < length logits \<Longrightarrow> logits ! j \<le> logits ! sample_greedy logits"
    and "j < sample_greedy logits \<Longrightarrow> logits ! j < logits ! sample_greedy logits"
    by (auto simp: sample_greedy_def)
qed

section \<open>Lemmas: selection and filters\<close>

lemma desc_unique:
  fixes xs ys :: "('f::linorder) list"
  assumes "sorted_wrt (\<lambda>x y. y \<le> x) xs" and "sorted_wrt (\<lambda>x y. y \<le> x) ys" and "mset xs = mset ys"
  shows "xs = ys"
proof -
  have "sorted (rev xs)" "sorted (rev ys)" "mset (rev xs) = mset (rev ys)"
    using assms by (simp_all add: sorted_wrt_rev)
  then have "rev xs = rev ys" using properties_for_sort by metis
  then show ?thesis by simp
qed

lemma desc_fst: "desc es \<Longrightarrow> sorted_wrt (\<lambda>x y. y \<le> x) (List.map fst es)"
  by (simp add: desc_def sorted_wrt_map)

text \<open>A bounded selection is the front of the full one.\<close>

lemma sorted_selection_prefix:
  assumes "sorts_desc qs" and "0 < cap" and "cap \<le> length vals"
  shows "List.map fst (sort_desc qs (select_top cap vals))
       = take cap (List.map fst (sort_desc qs (select_top (length vals) vals)))"
proof -
  let ?a = "sort_desc qs (select_top cap vals)" and ?b = "sort_desc qs (select_top (length vals) vals)"
  obtain rest where rest: "mset (indexed vals) = mset (select_top cap vals) + mset rest"
    "\<forall>x \<in> set rest. \<forall>y \<in> set (select_top cap vals). fst x \<le> fst y"
    and len: "length (select_top cap vals) = cap"
    using select_top_selected [OF assms(2), of vals] assms(3) by (auto simp: selected_def)
  have n: "0 < length vals" using assms(2,3) by (rule less_le_trans)
  obtain rest' where rest': "mset (indexed vals) = mset (select_top (length vals) vals) + mset rest'"
    "length (select_top (length vals) vals) = length vals"
    using select_top_selected [OF n, of vals] by (auto simp: selected_def)
  have "length (indexed vals) = length (select_top (length vals) vals) + length rest'"
    using arg_cong [OF rest'(1), of size] by (simp only: size_mset size_union)
  then have "rest' = []" using rest'(2) by simp
  then have full: "mset (select_top (length vals) vals) = mset (indexed vals)" using rest'(1) by simp
  note a = sort_desc_ok [OF assms(1), of "select_top cap vals"]
  note b = sort_desc_ok [OF assms(1), of "select_top (length vals) vals"]
  have set_a: "set ?a = set (select_top cap vals)" using a(2) by (rule mset_eq_setD)
  let ?r = "rev (sort (List.map fst rest))"
  have "sorted_wrt (\<lambda>x y. y \<le> x) (List.map fst ?a @ ?r)"
    using desc_fst [OF a(1)] rest(2) set_a by (auto simp: sorted_wrt_append sorted_wrt_rev)
  moreover have "mset (List.map fst ?a @ ?r) = mset (List.map fst ?b)"
    using a(2) b(2) full rest(1) by (simp add: mset_map)
  ultimately have "List.map fst ?a @ ?r = List.map fst ?b"
    using desc_unique desc_fst [OF b(1)] by blast
  moreover have "length ?a = cap" using mset_eq_length [OF a(2)] len by simp
  ultimately show ?thesis by (metis append_eq_conv_conj length_map)
qed

lemma ranked_prefix:
  assumes "sorts_desc qs" and "0 < cap" and "cap \<le> length vals"
  shows "List.map fst (ranked qs isum vals cap) = take cap (List.map fst (ranked qs isum vals (length vals)))"
proof -
  have "List.map fst (ranked qs isum vals c) = List.map (\<lambda>v. v * isum) (List.map fst (sort_desc qs (select_top c vals)))" for c
    by (simp add: ranked_def split_beta)
  then show ?thesis by (simp only: sorted_selection_prefix [OF assms] take_map)
qed

lemma nucleus_append:
  "nucleus t c (xs @ ys) = (case nucleus t c xs of Some k \<Rightarrow> Some k
     | None \<Rightarrow> map_option (\<lambda>k. k + length xs) (nucleus t (foldl (+) c xs) ys))"
  by (induction t c xs rule: nucleus.induct) (auto simp: option.map_comp o_def option.map_ident split: option.splits)

lemma nucleus_bound: "nucleus t c xs = Some k \<Longrightarrow> 0 < k \<and> k \<le> length xs"
  by (induction t c xs arbitrary: k rule: nucleus.induct) (auto split: if_splits)

lemma min_p_cut_le: "min_p_cut fo p xs \<le> length xs"
  by (auto simp: min_p_cut_def Let_def length_takeWhile_le)

lemma filter_cutoff_le: "filter_cutoff fo p xs \<le> length xs"
  using min_p_cut_le [of fo p xs] by (auto simp: filter_cutoff_def Let_def split: option.splits dest: nucleus_bound)

text \<open>What min-p cuts a list to does not change when the list grows, unless it cut nothing.\<close>

lemma min_p_cut_append:
  assumes "xs \<noteq> []"
  shows "min_p_cut fo p (xs @ ys) = min_p_cut fo p xs
     \<or> (min_p_cut fo p xs = length xs \<and> length xs \<le> min_p_cut fo p (xs @ ys))"
proof (cases "p_min_p p > f_eps fo")
  case False
  then show ?thesis by (simp add: min_p_cut_def)
next
  case True
  let ?P = "\<lambda>x. x \<ge> p_min_p p * hd xs"
  show ?thesis
  proof (cases "\<forall>x \<in> set xs. ?P x")
    case all: True
    then have t: "takeWhile ?P (xs @ ys) = xs @ takeWhile ?P ys" "takeWhile ?P xs = xs"
      by (simp_all add: takeWhile_append2 takeWhile_eq_all_conv)
    have l: "length (takeWhile ?P xs) = length xs" using t(2) by (rule arg_cong)
    have "min_p_cut fo p xs = length xs" unfolding min_p_cut_def Let_def l by simp
    moreover have "length xs \<le> min_p_cut fo p (xs @ ys)"
      using True assms t(1) by (simp add: min_p_cut_def Let_def)
    ultimately show ?thesis by simp
  next
    case False
    then obtain x where "x \<in> set xs" "\<not> ?P x" by blast
    then have "takeWhile ?P (xs @ ys) = takeWhile ?P xs" by (rule takeWhile_append1)
    with True assms show ?thesis by (simp add: min_p_cut_def Let_def)
  qed
qed

lemma filter_cutoff_append:
  assumes "xs \<noteq> []" and "filter_cutoff fo p xs < length xs"
  shows "filter_cutoff fo p (xs @ ys) = filter_cutoff fo p xs"
proof -
  let ?c = "min_p_cut fo p xs" and ?d = "min_p_cut fo p (xs @ ys)"
  consider "?d = ?c" "?c \<le> length xs" | "?c = length xs" "length xs \<le> ?d"
    using min_p_cut_append [OF assms(1), of fo p ys] min_p_cut_le [of fo p xs] by auto
  then show ?thesis
  proof cases
    case 1
    then show ?thesis by (simp add: filter_cutoff_def Let_def)
  next
    case 2
    obtain k where k: "p_top_p p < 1" "nucleus (p_top_p p) 0 xs = Some k"
      using assms(2) 2 by (auto simp: filter_cutoff_def Let_def split: if_splits option.splits)
    then have "nucleus (p_top_p p) 0 (take ?d (xs @ ys)) = Some k"
      using 2 nucleus_append [of "p_top_p p" 0 xs "take (?d - length xs) ys"] by simp
    then show ?thesis using k 2 by (simp add: filter_cutoff_def Let_def)
  qed
qed

lemma length_ranked: "0 < cap \<Longrightarrow> sorts_desc qs \<Longrightarrow> length (ranked qs isum vals cap) = min cap (length vals)"
  using select_top_selected [of cap vals] mset_eq_length [OF sort_desc_ok(2) [of qs "select_top cap vals"]]
  by (simp add: ranked_def selected_def)

section \<open>Properties\<close>

text \<open>C32: growing the candidate list is exact.  Without a top-k limit the loop starts with 64
  candidates and quadruples; whatever the starting size, it ends, and the cutoff and the
  probabilities it keeps are those of sorting the whole vocabulary and filtering it once.\<close>

theorem candidates_exact:
  assumes "sorts_desc qs" and "p_top_k p = 0" and "0 < cap" and "cap \<le> length vals"
    and "candidates fo qs p inv_sum vals cap = (cand, cutoff)"
  shows "cutoff = filter_cutoff fo p (List.map fst (ranked qs inv_sum vals (length vals)))
    \<and> List.map fst (take cutoff cand) = take cutoff (List.map fst (ranked qs inv_sum vals (length vals)))"
  using assms(3-5)
proof (induction "length vals - cap" arbitrary: cap rule: less_induct)
  case less
  let ?full = "List.map fst (ranked qs inv_sum vals (length vals))"
  let ?r = "ranked qs inv_sum vals cap" and ?c = "filter_cutoff fo p (List.map fst (ranked qs inv_sum vals cap))"
  have pre: "List.map fst ?r = take cap ?full" by (rule ranked_prefix [OF assms(1) less.prems(1,2)])
  have len: "length ?r = cap" using length_ranked [OF less.prems(1) assms(1)] less.prems(2) by simp
  have cn: "?full = take cap ?full @ drop cap ?full" by simp
  show ?case
  proof (cases "?c < length ?r \<or> cap \<ge> length vals")
    case True
    then have eq: "cand = ?r" "cutoff = ?c"
      using less.prems(3) by (subst (asm) candidates.simps, auto simp: Let_def)+
    have "filter_cutoff fo p ?full = ?c"
    proof (cases "?c < length ?r")
      case True
      moreover have "take cap ?full \<noteq> []" using pre len less.prems(1) by (metis length_greater_0_conv length_map)
      ultimately show ?thesis
        using filter_cutoff_append [of "take cap ?full" fo p "drop cap ?full"] pre len
        by (metis append_take_drop_id length_map)
    next
      case False
      then have "cap = length vals" using True less.prems(2) by simp
      then show ?thesis by simp
    qed
    moreover have "?c \<le> cap" using filter_cutoff_le [of fo p "List.map fst ?r"] len by simp
    ultimately show ?thesis using pre unfolding eq
      by (metis min.absorb1 take_map take_take)
  next
    case False
    let ?cap = "if cap > length vals div 4 then length vals else cap * 4"
    have step: "candidates fo qs p inv_sum vals cap = candidates fo qs p inv_sum vals ?cap"
      using False assms(2) less.prems(1) by (subst candidates.simps) (simp add: Let_def)
    have "length vals - ?cap < length vals - cap" "0 < ?cap" "?cap \<le> length vals"
      using False less.prems(1) by auto
    from less.hyps [OF this] less.prems(3) show ?thesis unfolding step by blast
  qed
qed

definition rat_ops :: "rat float_ops" where
  "rat_ops = \<lparr>f_exp = id, f_nat = of_nat, f_eps = 0\<rparr>"

definition rat_param :: "rat sample_param" where
  "rat_param = \<lparr>p_temperature = 1, p_top_k = 0, p_top_p = 1, p_min_p = 1, p_repeat_penalty = 2, p_repeat_last_n = 3,
     p_frequency_penalty = 1, p_presence_penalty = 0\<rparr>"

lemma candidates_exact_witness:
  "snd (candidates rat_ops (foldl insert_back []) rat_param 1 [3, 5, 5] 1)
   = filter_cutoff rat_ops rat_param
       (List.map fst (ranked (foldl insert_back []) 1 [3, 5, 5 :: rat] (length [3, 5, 5 :: rat])))"
proof -
  have k: "p_top_k rat_param = 0" by (simp add: rat_param_def)
  obtain cand c where c: "candidates rat_ops (foldl insert_back []) rat_param 1 [3, 5, 5] 1 = (cand, c)" by force
  have "c = filter_cutoff rat_ops rat_param
       (List.map fst (ranked (foldl insert_back []) 1 [3, 5, 5 :: rat] (length [3, 5, 5 :: rat])))"
    by (rule candidates_exact [OF insertion_sorts k _ _ c, THEN conjunct1]) simp_all
  then show ?thesis unfolding c by (simp only: snd_conv)
qed

lemma candidates_set:
  assumes "sorts_desc qs" and "candidates fo qs p inv_sum vals cap = (cand, cutoff)" and "0 < cap" and "cap \<le> length vals"
  shows "\<exists>c. 0 < c \<and> c \<le> length vals \<and> cand = ranked qs inv_sum vals c \<and> cutoff \<le> length cand
    \<and> (0 < p_top_k p \<longrightarrow> c = cap)"
  using assms(2-4)
proof (induction "length vals - cap" arbitrary: cap rule: less_induct)
  case less
  let ?r = "ranked qs inv_sum vals cap"
  show ?case
  proof (cases "p_top_k p > 0 \<or> filter_cutoff fo p (List.map fst ?r) < length ?r \<or> cap \<ge> length vals")
    case True
    then have "cand = ?r" "cutoff = filter_cutoff fo p (List.map fst ?r)"
      using less.prems(1) by (subst (asm) candidates.simps, auto simp: Let_def)+
    then show ?thesis using less.prems filter_cutoff_le [of fo p "List.map fst ?r"] by auto
  next
    case False
    let ?cap = "if cap > length vals div 4 then length vals else cap * 4"
    have step: "candidates fo qs p inv_sum vals cap = candidates fo qs p inv_sum vals ?cap"
      using False less.prems(2) by (subst candidates.simps) (simp add: Let_def)
    have m: "length vals - ?cap < length vals - cap" "0 < ?cap" "?cap \<le> length vals"
      using False less.prems(2) by auto
    from less.hyps [OF m(1) _ m(2,3)] less.prems(1) False show ?thesis unfolding step by blast
  qed
qed

lemma draw_index: "draw r rn c es = Some i \<Longrightarrow> i \<in> snd ` set es"
  by (induction r rn c es rule: draw.induct) (auto simp: Let_def split: if_splits)

text \<open>Every index of a selection is one of the vocabulary, and few are better.\<close>

lemma ranked_rank:
  assumes "sorts_desc qs" and "0 < c" and "i \<in> snd ` set (ranked qs isum vals c)"
  shows "i < length vals \<and> card {j. j < length vals \<and> vals ! i < vals ! j} < c"
proof -
  let ?h = "select_top c vals"
  obtain rest where rest: "mset (indexed vals) = mset ?h + mset rest"
    "\<forall>x \<in> set rest. \<forall>y \<in> set ?h. fst x \<le> fst y" and len: "length ?h = min c (length vals)"
    using select_top_selected [OF assms(2), of vals] by (auto simp: selected_def)
  have sets: "set (indexed vals) = set ?h \<union> set rest"
    using arg_cong [OF rest(1), of set_mset] by simp
  have "set (sort_desc qs ?h) = set ?h" using sort_desc_ok(2) [OF assms(1)] by (rule mset_eq_setD)
  then have "i \<in> snd ` set ?h" using assms(3) by (force simp: ranked_def)
  then obtain v where v: "(v, i) \<in> set ?h" by auto
  then have "(v, i) \<in> set (indexed vals)" using sets by blast
  then have i: "i < length vals" "v = vals ! i" by (auto simp: in_set_zip)
  let ?B = "{j. j < length vals \<and> vals ! i < vals ! j}"
  have "?B \<subseteq> snd ` set ?h - {i}"
  proof
    fix j assume j: "j \<in> ?B"
    then have "(vals ! j, j) \<in> set (indexed vals)" by (auto simp: in_set_zip intro!: exI [of _ j])
    then have "(vals ! j, j) \<in> set ?h" using sets rest(2) v i(2) j by fastforce
    then have "j \<in> snd ` set ?h" by force
    with j show "j \<in> snd ` set ?h - {i}" by auto
  qed
  then have "card ?B \<le> card (snd ` set ?h - {i})" by (intro card_mono) auto
  also have "\<dots> < card (snd ` set ?h)" using v by (intro card_Diff1_less) force+
  also have "\<dots> \<le> length ?h" by (metis card_length list.set_map length_map)
  finally show ?thesis using i(1) len by simp
qed

text \<open>C31: the sampler returns a token of the vocabulary, and the filters hold.  Below the
  temperature threshold, or without any filter, it is the leftmost token of greatest
  penalised logit; otherwise, with a top-k limit, fewer than k tokens have a strictly
  greater softmax value than the one returned, whatever the rounding of \<open>float\<close> and the
  random draw do.\<close>

theorem sample_token_ranked:
  assumes "sorts_desc qs" and "logits0 \<noteq> []"
    and "sample_token fo qs tid p history logits0 rng = (i, rng')"
    and "logits = apply_penalties fo p history logits0"
  shows "i < length logits0
    \<and> (p_temperature p \<le> f_eps fo \<or> no_filter fo p \<longrightarrow>
         (\<forall>j < length logits. logits ! j \<le> logits ! i) \<and> (\<forall>j < i. logits ! j < logits ! i))
    \<and> (f_eps fo < p_temperature p \<and> 0 < p_top_k p \<longrightarrow>
         (let vals = soft_values fo (1 / p_temperature p) logits in
          card {j. j < length vals \<and> vals ! i < vals ! j} < p_top_k p))"
proof (cases "p_temperature p \<le> f_eps fo \<or> no_filter fo p")
  case True
  then have "i = sample_greedy logits" using assms(3,4) by (simp add: sample_token_def)
  moreover have "logits \<noteq> []" using assms(2,4) by (metis length_0_conv length_apply_penalties)
  moreover have "p_temperature p \<le> f_eps fo \<or> p_top_k p = 0" using True by (auto simp: no_filter_def)
  ultimately show ?thesis using sample_greedy_best [of logits] assms(4) by auto
next
  case False
  let ?vals = "soft_values fo (1 / p_temperature p) logits"
  let ?isum = "1 / foldl (+) 0 ?vals"
  obtain cand cut0 where c: "candidates fo qs p ?isum ?vals (start_cap p (length ?vals)) = (cand, cut0)" by force
  have len: "length ?vals = length logits0" using assms(4) by (simp add: soft_values_def)
  have cap: "0 < start_cap p (length ?vals)" "start_cap p (length ?vals) \<le> length ?vals"
    using assms(2) len by (auto simp: start_cap_def)
  obtain k where k: "0 < k" "k \<le> length ?vals" "cand = ranked qs ?isum ?vals k" "cut0 \<le> length cand"
      "0 < p_top_k p \<longrightarrow> k = start_cap p (length ?vals)"
    using candidates_set [OF assms(1) c cap] by (elim exE conjE)
  have "length cand = k" using length_ranked [OF k(1) assms(1)] k(2,3) by simp
  then have cut: "(if cut0 < 1 then 1 else cut0) - 1 < length cand" using k(1,4) by auto
  let ?cut = "if cut0 < 1 then 1 else cut0" and ?kept = "take (if cut0 < 1 then 1 else cut0) cand"
  let ?norm = "foldl (+) 0 (List.map fst (take (if cut0 < 1 then 1 else cut0) cand))"
  have "sample_token fo qs tid p history logits0 rng =
    (case draw (fst (rng_float fo tid rng)) (if ?norm > 0 then 1 / ?norm else 1) 0 ?kept of
       Some i \<Rightarrow> i | None \<Rightarrow> snd (cand ! (?cut - 1)), snd (rng_float fo tid rng))"
    unfolding sample_token_def assms(4) [symmetric] Let_def if_not_P [OF False] c prod.case
    by (simp only: split_beta)
  then have i: "i = (case draw (fst (rng_float fo tid rng)) (if ?norm > 0 then 1 / ?norm else 1) 0 ?kept of
       Some i \<Rightarrow> i | None \<Rightarrow> snd (cand ! (?cut - 1)))" using assms(3) by simp
  have "i \<in> snd ` set cand"
  proof (cases "draw (fst (rng_float fo tid rng)) (if ?norm > 0 then 1 / ?norm else 1) 0 ?kept")
    case None
    then show ?thesis using i cut by simp
  next
    case (Some j)
    then show ?thesis using i draw_index [OF Some] by (auto dest: in_set_takeD)
  qed
  then have "i < length ?vals \<and> card {j. j < length ?vals \<and> ?vals ! i < ?vals ! j} < k"
    using ranked_rank [OF assms(1) k(1)] k(3) by blast
  moreover have "0 < p_top_k p \<longrightarrow> k \<le> p_top_k p" using k(5) by (auto simp: start_cap_def)
  ultimately show ?thesis using False len by (auto simp: Let_def)
qed

lemma sample_token_ranked_witness:
  "fst (sample_token rat_ops (foldl insert_back []) 7 (rat_param\<lparr>p_top_k := 1\<rparr>) [2] [3, 5, 4] 0) < 3"
proof -
  obtain i r where s: "sample_token rat_ops (foldl insert_back []) 7 (rat_param\<lparr>p_top_k := 1\<rparr>) [2] [3, 5, 4] 0 = (i, r)"
    by force
  from sample_token_ranked [OF insertion_sorts _ s refl] s show ?thesis by simp
qed

text \<open>C33: penalties are applied once per token.  Every token of the window, however often and
  wherever it occurs there, has its logit penalised exactly once, with the number of its
  occurrences in the window; all other logits, and ids outside the vocabulary, are left
  alone.\<close>

theorem penalties_once:
  assumes "t < length logits" and "p_repeat_penalty p \<noteq> 1 \<or> p_frequency_penalty p \<noteq> 0 \<or> p_presence_penalty p \<noteq> 0"
  shows "apply_penalties fo p history logits ! t =
    (if 0 < p_repeat_last_n p \<and> t \<in> set (penalty_window p history)
     then penalized fo p (count_list (penalty_window p history) t) (logits ! t) else logits ! t)
    \<and> length (penalty_window p history) \<le> p_repeat_last_n p
    \<and> (\<exists>old. history = old @ penalty_window p history)"
proof -
  have "penalty_window p history \<noteq> [] \<Longrightarrow> history \<noteq> []" by (auto simp: penalty_window_def)
  moreover have "\<exists>old. history = old @ penalty_window p history"
    unfolding penalty_window_def by (metis append_take_drop_id)
  moreover have "length (penalty_window p history) \<le> p_repeat_last_n p" by (simp add: penalty_window_def)
  moreover have "apply_penalties fo p history logits
      = (if 0 < p_repeat_last_n p \<and> history \<noteq> [] then penalize fo p [] (penalty_window p history) logits else logits)"
    using assms(2) by (auto simp: apply_penalties_def)
  ultimately show ?thesis
    using penalize_nth [OF assms(1), of fo p "[]" "penalty_window p history"] by auto
qed

lemma penalties_once_witness:
  "apply_penalties rat_ops rat_param [1, 0, 1, 1] [6, 8] ! 1 = 8 / 2 - 2"
proof -
  have w: "penalty_window rat_param [1, 0, 1, 1] = [0, 1, 1]" by (simp add: penalty_window_def rat_param_def)
  have "apply_penalties rat_ops rat_param [1, 0, 1, 1] [6, 8] ! 1 =
    (if 0 < p_repeat_last_n rat_param \<and> 1 \<in> set [0, 1, 1 :: nat]
     then penalized rat_ops rat_param (count_list [0, 1, 1 :: nat] 1) ([6, 8] ! 1) else [6, 8] ! 1)"
    by (rule penalties_once [THEN conjunct1, of 1 "[6, 8]" rat_param rat_ops "[1, 0, 1, 1]", unfolded w])
      (simp_all add: rat_param_def)
  then show ?thesis by (simp add: penalized_def rat_param_def rat_ops_def)
qed

text \<open>The generator never gets stuck.  From any state, the unseeded 0 included, the next
  state is not 0, so the thread is seeded once and xorshift, which maps only 0 to 0, never
  falls into its fixed point; the integer behind the drawn fraction is below \<open>2 ^ 24\<close>.\<close>

theorem rng_never_stuck:
  "snd (rng_float fo tid state) \<noteq> 0
   \<and> (\<exists>m < 2 ^ 24. fst (rng_float fo tid state) = f_nat fo m * (1 / f_nat fo 16777216))
   \<and> rng_seed tid state = (if state = 0 then rng_seed tid 0 else state)"
proof -
  have "rng_seed tid state \<noteq> 0" by (simp add: rng_seed_def)
  moreover have "unat (drop_bit 8 x) < 2 ^ 24" for x :: u32
  proof -
    have "unat (drop_bit 8 x) = unat x div 2 ^ 8" unfolding unat_drop_bit_eq by (simp add: drop_bit_eq_div)
    also have "\<dots> < 2 ^ 24" using unsigned_less [of x, where 'a = nat] by (simp add: less_mult_imp_div_less)
    finally show ?thesis .
  qed
  ultimately show ?thesis using xorshift_nonzero by (auto simp: rng_float_def Let_def rng_seed_def)
qed

end
