(* ===== verification/GraphCore.thy ===== *)
theory GraphCore
  imports EngineConfig
begin

text \<open>The static graph (\<open>graph.c\<close>, \<open>def.h\<close>): operators, nodes, the builders that append one
  node each, and the width of a node's rows (\<open>node_out_dim\<close>), shared by the arena planner and
  the executor.  The linked list of nodes is a list in build order; a \<open>GraphNode *\<close> is the
  build index of the node and a \<open>TensorInfo *\<close> the index of the tensor in the model's table,
  \<open>None\<close> for NULL.  The graph handle itself is never NULL here.  A \<open>float\<close> argument of a
  builder is given by its bit pattern, which is what the node keeps.\<close>

section \<open>Operators, nodes, graphs\<close>

datatype backend_type = BACKEND_CPU | BACKEND_CUDA | BACKEND_METAL

datatype graph_op = OP_INPUT | OP_ADD | OP_MUL | OP_MATMUL | OP_MATMULARRY | OP_MATMUL_T
  | OP_SCALE | OP_RMS_NORM | OP_RMS_NORM_HEADS | OP_SIGMOID_GATE | OP_ROPE_NEOX | OP_ROPE_NORM
  | OP_SOFTMAX | OP_SILU | OP_GELU | OP_EMBED | OP_BIAS | OP_ATTN | OP_SSM_CONV | OP_SSM_DELTA
  | OP_MAMBA2_CONV | OP_MAMBA2_SCAN | OP_SOFTCAP | OP_H2D | OP_D2H

type_synonym node_ref = "nat option"
type_synonym tensor_ref = "nat option"

record graph_node =
  gn_op :: graph_op
  gn_idx :: nat
  gn_layer :: nat
  gn_backend :: backend_type
  gn_src :: "node_ref list"
  gn_weights :: "tensor_ref list"
  gn_params :: "u32 list"
  gn_ne0 :: int

record graph =
  g_nodes :: "graph_node list"
  g_cur_layer :: nat
  g_state :: "nat list"

definition graph_new :: graph where
  "graph_new = \<lparr>g_nodes = [], g_cur_layer = 0, g_state = []\<rparr>"

text \<open>A tensor behind a reference; \<open>dim[]\<close> past \<open>ndim\<close> is 0 (\<open>scalloc\<close>).\<close>

definition t_at :: "tensor_info list \<Rightarrow> tensor_ref \<Rightarrow> tensor_info" where
  "t_at ts w = ts ! the w"

definition t_ndim :: "tensor_info list \<Rightarrow> tensor_ref \<Rightarrow> nat" where
  "t_ndim ts w = ti_ndim (t_at ts w)"

definition t_dim :: "tensor_info list \<Rightarrow> tensor_ref \<Rightarrow> nat \<Rightarrow> nat" where
  "t_dim ts w k = (let d = ti_dim (t_at ts w) in if k < length d then d ! k else 0)"

section \<open>Builders\<close>

definition node_add ::
    "graph \<Rightarrow> graph_op \<Rightarrow> node_ref list \<Rightarrow> tensor_ref list \<Rightarrow> u32 list \<Rightarrow> node_ref \<times> graph" where
  "node_add g op src ws params =
     (if length params > 16 then (None, g)
      else (Some (length (g_nodes g)),
            g\<lparr>g_nodes := g_nodes g @
               [\<lparr>gn_op = op, gn_idx = length (g_nodes g), gn_layer = g_cur_layer g,
                 gn_backend = BACKEND_CPU, gn_src = src, gn_weights = ws,
                 gn_params = params @ replicate (16 - length params) 0, gn_ne0 = 0\<rparr>]\<rparr>))"

definition no_ref :: "nat option list" where
  "no_ref = [None, None, None, None]"

definition ref1 :: "nat option \<Rightarrow> nat option list" where
  "ref1 x = [x, None, None, None]"

definition graph_set_layer :: "graph \<Rightarrow> nat \<Rightarrow> graph" where
  "graph_set_layer g layer = g\<lparr>g_cur_layer := layer\<rparr>"

definition layer_on_gpu :: "int \<Rightarrow> nat \<Rightarrow> nat \<Rightarrow> bool" where
  "layer_on_gpu n_gpu_layers n_layer layer \<longleftrightarrow>
     n_gpu_layers > 0 \<and> (n_gpu_layers \<ge> int n_layer \<or> int layer < n_gpu_layers)"

definition graph_layer_backend :: "build \<Rightarrow> int \<Rightarrow> nat \<Rightarrow> nat \<Rightarrow> backend_type" where
  "graph_layer_backend bld n_gpu_layers n_layer layer =
     (if bld = GPU_BUILD \<and> layer_on_gpu n_gpu_layers n_layer layer then BACKEND_CUDA else BACKEND_CPU)"

fun backend_code :: "backend_type \<Rightarrow> nat" where
  "backend_code BACKEND_CPU = 0"
| "backend_code BACKEND_CUDA = 1"
| "backend_code BACKEND_METAL = 2"

definition graph_copy :: "graph \<Rightarrow> node_ref \<Rightarrow> backend_type \<Rightarrow> node_ref \<times> graph" where
  "graph_copy g src dst =
     (if src = None then (None, g)
      else node_add g (if dst = BACKEND_CPU then OP_D2H else OP_H2D) (ref1 src) no_ref
             [of_nat (backend_code dst)])"

definition graph_layer_boundary :: "graph \<Rightarrow> node_ref \<Rightarrow> int \<Rightarrow> nat \<Rightarrow> nat \<Rightarrow> node_ref \<times> graph" where
  "graph_layer_boundary g src n_gpu_layers n_layer layer =
     (if src = None then (src, g)
      else if n_gpu_layers \<le> 0 \<or> n_gpu_layers \<ge> int n_layer then (src, g)
      else if int layer + 1 \<noteq> n_gpu_layers then (src, g)
      else graph_copy g src BACKEND_CPU)"

definition graph_input :: "graph \<Rightarrow> nat \<Rightarrow> node_ref \<times> graph" where
  "graph_input g n_tokens =
     (if n_tokens = 0 then (None, g)
      else (case node_add g OP_INPUT no_ref no_ref [] of
              (None, g') \<Rightarrow> (None, g')
            | (Some i, g') \<Rightarrow>
                (Some i, g'\<lparr>g_nodes := (g_nodes g')[i := (g_nodes g' ! i)\<lparr>gn_ne0 := int n_tokens\<rparr>]\<rparr>)))"

definition graph_rms_norm :: "graph \<Rightarrow> node_ref \<Rightarrow> tensor_ref \<Rightarrow> node_ref \<times> graph" where
  "graph_rms_norm g src weight =
     (if src = None \<or> weight = None then (None, g)
      else node_add g OP_RMS_NORM (ref1 src) (ref1 weight) [])"

definition graph_rms_norm_heads ::
    "graph \<Rightarrow> node_ref \<Rightarrow> tensor_ref \<Rightarrow> u32 \<Rightarrow> u32 \<Rightarrow> u32 \<Rightarrow> u32 \<Rightarrow> node_ref \<times> graph" where
  "graph_rms_norm_heads g src weight n_heads head_dim in_stride out_stride =
     (if src = None \<or> weight = None then (None, g)
      else if n_heads = 0 \<or> head_dim = 0 then (None, g)
      else if in_stride < head_dim \<or> out_stride < head_dim then (None, g)
      else node_add g OP_RMS_NORM_HEADS (ref1 src) (ref1 weight) [n_heads, head_dim, in_stride, out_stride])"

definition graph_mul_mat ::
    "tensor_info list \<Rightarrow> graph \<Rightarrow> node_ref \<Rightarrow> tensor_ref \<Rightarrow> bool \<Rightarrow> node_ref \<times> graph" where
  "graph_mul_mat ts g src weight tr =
     (if src = None \<or> weight = None \<or> t_ndim ts weight < 2 then (None, g)
      else node_add g (if tr then OP_MATMUL_T else OP_MATMUL) (ref1 src) (ref1 weight) [])"

definition graph_binary :: "graph \<Rightarrow> graph_op \<Rightarrow> node_ref \<Rightarrow> node_ref \<Rightarrow> node_ref \<times> graph" where
  "graph_binary g op a b =
     (if op \<noteq> OP_ADD \<and> op \<noteq> OP_MUL then (None, g)
      else if a = None \<or> b = None then (None, g)
      else node_add g op [a, b, None, None] no_ref [])"

definition graph_silu :: "graph \<Rightarrow> node_ref \<Rightarrow> node_ref \<times> graph" where
  "graph_silu g src = (if src = None then (None, g) else node_add g OP_SILU (ref1 src) no_ref [])"

definition graph_gelu :: "graph \<Rightarrow> node_ref \<Rightarrow> node_ref \<times> graph" where
  "graph_gelu g src = (if src = None then (None, g) else node_add g OP_GELU (ref1 src) no_ref [])"

definition graph_softmax :: "graph \<Rightarrow> node_ref \<Rightarrow> node_ref \<times> graph" where
  "graph_softmax g src = (if src = None then (None, g) else node_add g OP_SOFTMAX (ref1 src) no_ref [])"

definition graph_scale :: "graph \<Rightarrow> node_ref \<Rightarrow> u32 \<Rightarrow> node_ref \<times> graph" where
  "graph_scale g src bits =
     (if src = None then (None, g) else node_add g OP_SCALE (ref1 src) no_ref [bits])"

text \<open>\<open>cap <= 0.0f\<close> on a bit pattern: both zeros and every negative number, never a NaN.\<close>

definition float_le_0 :: "u32 \<Rightarrow> bool" where
  "float_le_0 bits \<longleftrightarrow>
     bits = 0 \<or> (0x80000000 \<le> bits \<and> bits AND 0x7FFFFFFF \<le> 0x7F800000)"

definition graph_softcap :: "graph \<Rightarrow> node_ref \<Rightarrow> u32 \<Rightarrow> node_ref \<times> graph" where
  "graph_softcap g src bits =
     (if src = None \<or> float_le_0 bits then (None, g)
      else node_add g OP_SOFTCAP (ref1 src) no_ref [bits])"

definition graph_bias :: "tensor_info list \<Rightarrow> graph \<Rightarrow> node_ref \<Rightarrow> tensor_ref \<Rightarrow> node_ref \<times> graph" where
  "graph_bias ts g src bias =
     (if src = None \<or> bias = None \<or> t_ndim ts bias < 1 then (None, g)
      else node_add g OP_BIAS (ref1 src) (ref1 bias) [])"

definition graph_sigmoid_gate ::
    "graph \<Rightarrow> node_ref \<Rightarrow> node_ref \<Rightarrow> u32 \<Rightarrow> u32 \<Rightarrow> node_ref \<times> graph" where
  "graph_sigmoid_gate g a gate n_heads head_dim =
     (if a = None \<or> gate = None then (None, g)
      else if n_heads = 0 \<or> head_dim = 0 then (None, g)
      else node_add g OP_SIGMOID_GATE [a, gate, None, None] no_ref [n_heads, head_dim])"

definition graph_ssm_conv :: "graph \<Rightarrow> node_ref \<Rightarrow> tensor_ref \<Rightarrow> nat \<Rightarrow> u32 \<Rightarrow> node_ref \<times> graph" where
  "graph_ssm_conv g src weight state kern =
     (if src = None \<or> weight = None \<or> kern = 0 then (None, g)
      else if state \<ge> length (g_state g) then (None, g)
      else node_add g OP_SSM_CONV (ref1 src) (ref1 weight) [of_nat state, kern])"

record graph_ssm_delta_args =
  sd_fused :: node_ref
  sd_alpha :: node_ref
  sd_beta :: node_ref
  sd_ssm_a :: tensor_ref
  sd_dt_bias :: tensor_ref
  sd_norm :: tensor_ref
  sd_state :: nat
  sd_n_v_heads :: u32
  sd_n_k_heads :: u32
  sd_head_dim :: u32

definition graph_ssm_delta :: "graph \<Rightarrow> graph_ssm_delta_args \<Rightarrow> node_ref \<times> graph" where
  "graph_ssm_delta g a =
     (if sd_fused a = None \<or> sd_alpha a = None \<or> sd_beta a = None then (None, g)
      else if sd_ssm_a a = None \<or> sd_dt_bias a = None \<or> sd_n_v_heads a = 0 \<or> sd_head_dim a = 0 then (None, g)
      else if sd_n_k_heads a = 0 \<or> sd_n_v_heads a mod sd_n_k_heads a \<noteq> 0 then (None, g)
      else if sd_state a \<ge> length (g_state g) then (None, g)
      else node_add g OP_SSM_DELTA [sd_fused a, sd_alpha a, sd_beta a, None]
             [sd_ssm_a a, sd_dt_bias a, sd_norm a, None]
             [of_nat (sd_state a), sd_n_v_heads a, sd_n_k_heads a, sd_head_dim a])"

definition graph_mamba2_conv ::
    "graph \<Rightarrow> node_ref \<Rightarrow> tensor_ref \<Rightarrow> tensor_ref \<Rightarrow> nat \<Rightarrow> u32 \<Rightarrow> u32 \<Rightarrow> u32 \<Rightarrow> u32 \<Rightarrow> u32 \<Rightarrow> node_ref \<times> graph" where
  "graph_mamba2_conv g src weight bias state kern d_inner n_group d_state n_head =
     (if src = None \<or> weight = None \<or> kern = 0 then (None, g)
      else if d_inner = 0 \<or> n_group = 0 \<or> d_state = 0 \<or> n_head = 0 then (None, g)
      else if state \<ge> length (g_state g) then (None, g)
      else node_add g OP_MAMBA2_CONV (ref1 src) [weight, bias, None, None]
             [of_nat state, kern, d_inner, n_group, d_state, n_head])"

definition graph_mamba2_scan ::
    "graph \<Rightarrow> node_ref \<Rightarrow> node_ref \<Rightarrow> tensor_ref \<Rightarrow> tensor_ref \<Rightarrow> tensor_ref \<Rightarrow> tensor_ref
     \<Rightarrow> nat \<Rightarrow> u32 \<Rightarrow> u32 \<Rightarrow> u32 \<Rightarrow> u32 \<Rightarrow> u32 \<Rightarrow> node_ref \<times> graph" where
  "graph_mamba2_scan g conv proj ssm_a ssm_d dt_bias norm state n_head head_dim d_state n_group d_inner =
     (if conv = None \<or> proj = None then (None, g)
      else if ssm_a = None \<or> ssm_d = None \<or> dt_bias = None then (None, g)
      else if n_head = 0 \<or> head_dim = 0 \<or> d_state = 0 \<or> n_group = 0 \<or> d_inner = 0 then (None, g)
      else if n_head mod n_group \<noteq> 0 \<or> n_head * head_dim \<noteq> d_inner then (None, g)
      else if state \<ge> length (g_state g) then (None, g)
      else node_add g OP_MAMBA2_SCAN [conv, proj, None, None] [ssm_a, ssm_d, dt_bias, norm]
             [of_nat state, n_head, head_dim, d_state, n_group, d_inner])"

text \<open>\<open>graph_state\<close>: the pointer is the name of a buffer of the workspace.\<close>

definition graph_state :: "graph \<Rightarrow> nat option \<Rightarrow> nat option \<times> graph" where
  "graph_state g ptr =
     (case ptr of
        None \<Rightarrow> (None, g)
      | Some p \<Rightarrow> (Some (length (g_state g)), g\<lparr>g_state := g_state g @ [p]\<rparr>))"

definition graph_attn :: "graph \<Rightarrow> node_ref \<Rightarrow> node_ref \<Rightarrow> node_ref \<Rightarrow> nat \<Rightarrow> u32 \<Rightarrow> node_ref \<times> graph" where
  "graph_attn g q k v layer window =
     (if q = None \<or> k = None \<or> v = None then (None, g)
      else node_add g OP_ATTN [q, k, v, None] no_ref [of_nat layer, window])"

definition graph_rope :: "graph \<Rightarrow> node_ref \<Rightarrow> u32 \<Rightarrow> u32 \<Rightarrow> u32 \<Rightarrow> u32 \<Rightarrow> node_ref \<times> graph" where
  "graph_rope g src theta n_heads head_dim rope_dim =
     (if src = None then (None, g)
      else if head_dim = 0 \<or> rope_dim = 0 \<or> rope_dim > head_dim then (None, g)
      else node_add g OP_ROPE_NEOX (ref1 src) no_ref [theta, n_heads, head_dim, rope_dim])"

definition graph_rope_norm :: "graph \<Rightarrow> node_ref \<Rightarrow> u32 \<Rightarrow> u32 \<Rightarrow> u32 \<Rightarrow> u32 \<Rightarrow> node_ref \<times> graph" where
  "graph_rope_norm g src theta n_heads head_dim rope_dim =
     (if src = None then (None, g)
      else if head_dim = 0 \<or> rope_dim = 0 \<or> rope_dim > head_dim then (None, g)
      else node_add g OP_ROPE_NORM (ref1 src) no_ref [theta, n_heads, head_dim, rope_dim])"

definition graph_embed :: "tensor_info list \<Rightarrow> graph \<Rightarrow> node_ref \<Rightarrow> tensor_ref \<Rightarrow> nat \<Rightarrow> node_ref \<times> graph" where
  "graph_embed ts g src weight n_tokens =
     (if weight = None \<or> t_ndim ts weight < 2 \<or> n_tokens = 0 then (None, g)
      else (case src of
              None \<Rightarrow> (None, g)
            | Some i \<Rightarrow>
                if gn_op (g_nodes g ! i) \<noteq> OP_INPUT \<or> gn_ne0 (g_nodes g ! i) \<noteq> to_i32 n_tokens then (None, g)
                else node_add g OP_EMBED (ref1 src) (ref1 weight) []))"

text \<open>\<open>if (x == GRAPH_NODE_NONE) goto fail\<close>: the graph is freed and the builder returns NULL.\<close>

definition need :: "node_ref \<times> graph \<Rightarrow> (node_ref \<times> graph) option" where
  "need r = (if fst r = None then None else Some r)"

section \<open>Row widths\<close>

definition w32 :: "nat \<Rightarrow> u32" where
  "w32 n = word_of_nat n"

definition node_out_dim :: "tensor_info list \<Rightarrow> arch_config \<Rightarrow> u32 list \<Rightarrow> graph_node \<Rightarrow> u32" where
  "node_out_dim ts c dims node =
     (let p = gn_params node; w = gn_weights node ! 0 in
      case gn_op node of
        OP_INPUT \<Rightarrow> 0
      | OP_MATMUL_T \<Rightarrow> w32 (t_dim ts w 1)
      | OP_MATMUL \<Rightarrow> w32 (t_dim ts w 0)
      | OP_MATMULARRY \<Rightarrow> w32 (t_dim ts w 0)
      | OP_EMBED \<Rightarrow> w32 (if t_dim ts w 0 = c_n_vocab c then t_dim ts w 1 else t_dim ts w 0)
      | OP_RMS_NORM \<Rightarrow> w32 (ti_n_element (t_at ts w))
      | OP_RMS_NORM_HEADS \<Rightarrow> p ! 0 * p ! 3
      | OP_SIGMOID_GATE \<Rightarrow> p ! 0 * p ! 1
      | OP_SSM_DELTA \<Rightarrow> p ! 1 * p ! 3
      | OP_MAMBA2_CONV \<Rightarrow> p ! 2 + 2 * p ! 3 * p ! 4
      | OP_MAMBA2_SCAN \<Rightarrow> p ! 5
      | OP_ATTN \<Rightarrow> w32 (c_n_head c) * w32 (c_head_dim c)
      | _ \<Rightarrow> (case gn_src node ! 0 of Some j \<Rightarrow> dims ! j | None \<Rightarrow> 0))"

text \<open>The loop \<open>dims[i] = node_out_dim(nodes[i], dims, c)\<close> of planner and executor.\<close>

definition node_dims :: "tensor_info list \<Rightarrow> arch_config \<Rightarrow> graph_node list \<Rightarrow> u32 list" where
  "node_dims ts c nodes = foldl (\<lambda>dims node. dims @ [node_out_dim ts c dims node]) [] nodes"

end
