(* ===== verification/GraphTyping.thy ===== *)
theory GraphTyping
  imports GraphCore "HOL-Library.Monad_Syntax"
begin

text \<open>When a graph is well typed: every node sits at its index, reads only earlier nodes, has the
  operands and weights its operator dereferences, and the rows of its sources are exactly as
  wide as the operator (\<open>cpu_op.c\<close>) reads them.  \<open>env\<close> is the judgement the model builders are
  checked with: the graph is well typed, the named handles have the given widths, and only
  the listed nodes are still without a consumer.  One rule per builder extends it.\<close>

section \<open>Well-typed graphs\<close>

fun operands :: "graph_op \<Rightarrow> nat" where
  "operands OP_INPUT = 0"
| "operands OP_ADD = 2"
| "operands OP_MUL = 2"
| "operands OP_SIGMOID_GATE = 2"
| "operands OP_MAMBA2_SCAN = 2"
| "operands OP_ATTN = 3"
| "operands OP_SSM_DELTA = 3"
| "operands _ = 1"

fun weight_operands :: "graph_op \<Rightarrow> nat" where
  "weight_operands OP_EMBED = 1"
| "weight_operands OP_RMS_NORM = 1"
| "weight_operands OP_RMS_NORM_HEADS = 1"
| "weight_operands OP_MATMUL = 1"
| "weight_operands OP_MATMUL_T = 1"
| "weight_operands OP_MATMULARRY = 1"
| "weight_operands OP_BIAS = 1"
| "weight_operands OP_SSM_CONV = 1"
| "weight_operands OP_MAMBA2_CONV = 1"
| "weight_operands OP_SSM_DELTA = 2"
| "weight_operands OP_MAMBA2_SCAN = 3"
| "weight_operands _ = 0"

text \<open>\<open>w k\<close> is the width of source \<open>k\<close>, \<open>od\<close> the width of the node's own rows.\<close>

definition widths_ok ::
    "tensor_info list \<Rightarrow> arch_config \<Rightarrow> nat \<Rightarrow> (nat \<Rightarrow> nat) \<Rightarrow> nat \<Rightarrow> graph_node \<Rightarrow> bool" where
  "widths_ok ts c n_state w od node =
     (let p = (\<lambda>k. unat (gn_params node ! k)); t = (\<lambda>k. gn_weights node ! k) in
      case gn_op node of
        OP_INPUT \<Rightarrow> True
      | OP_EMBED \<Rightarrow> (t_dim ts (t 0) 0 = c_n_vocab c \<and> t_dim ts (t 0) 1 = od)
                    \<or> (t_dim ts (t 0) 1 = c_n_vocab c \<and> t_dim ts (t 0) 0 = od)
      | OP_RMS_NORM \<Rightarrow> w 0 = od \<and> od \<le> t_dim ts (t 0) 0
      | OP_RMS_NORM_HEADS \<Rightarrow> w 0 = p 0 * p 2 \<and> od = p 0 * p 3 \<and> p 1 \<le> p 3 \<and> p 1 \<le> t_dim ts (t 0) 0
      | OP_MATMUL \<Rightarrow> t_ndim ts (t 0) = 2 \<and> w 0 = t_dim ts (t 0) 1 \<and> od = t_dim ts (t 0) 0
      | OP_MATMULARRY \<Rightarrow> t_ndim ts (t 0) = 2 \<and> w 0 = t_dim ts (t 0) 1 \<and> od = t_dim ts (t 0) 0
      | OP_MATMUL_T \<Rightarrow> t_ndim ts (t 0) = 2 \<and> w 0 = t_dim ts (t 0) 0 \<and> od = t_dim ts (t 0) 1
      | OP_ADD \<Rightarrow> w 0 = od \<and> w 1 = od
      | OP_MUL \<Rightarrow> w 0 = od \<and> w 1 = od
      | OP_ROPE_NEOX \<Rightarrow> p 1 * p 2 = od \<and> w 0 = od \<and> p 3 \<le> p 2
      | OP_ROPE_NORM \<Rightarrow> p 1 * p 2 = od \<and> w 0 = od \<and> p 3 \<le> p 2
      | OP_SIGMOID_GATE \<Rightarrow> w 0 = od \<and> od = p 0 * p 1 \<and> w 1 = p 0 * 2 * p 1
      | OP_ATTN \<Rightarrow> w 0 = c_n_head c * c_head_dim c \<and> od = w 0
                   \<and> w 1 = c_n_kv_head c * c_kv_head_dim c \<and> w 2 = w 1
                   \<and> 0 < c_n_kv_head c \<and> c_n_kv_head c dvd c_n_head c
                   \<and> c_kv_head_dim c \<le> c_head_dim c \<and> p 0 < c_n_layer c
      | OP_SSM_CONV \<Rightarrow> w 0 = od \<and> p 0 < n_state
      | OP_SSM_DELTA \<Rightarrow> w 0 = 2 * (p 2 * p 3) + p 1 * p 3 \<and> w 1 = p 1 \<and> w 2 = p 1 \<and> od = p 1 * p 3
                         \<and> p 0 < n_state
      | OP_MAMBA2_CONV \<Rightarrow> w 0 = od + p 2 + p 5 \<and> od = p 2 + 2 * p 3 * p 4 \<and> p 0 < n_state
      | OP_MAMBA2_SCAN \<Rightarrow> w 0 = p 5 + 2 * p 4 * p 3 \<and> w 1 = w 0 + p 5 + p 1 \<and> od = p 5
                           \<and> p 1 * p 2 = p 5 \<and> p 0 < n_state
      | _ \<Rightarrow> w 0 = od)"

definition node_typed ::
    "tensor_info list \<Rightarrow> arch_config \<Rightarrow> nat \<Rightarrow> u32 list \<Rightarrow> nat \<Rightarrow> graph_node \<Rightarrow> bool" where
  "node_typed ts c n_state dims i node \<longleftrightarrow>
     gn_idx node = i \<and> length (gn_src node) = 4 \<and> length (gn_weights node) = 4
     \<and> length (gn_params node) = 16
     \<and> (\<forall>k < 4. case gn_src node ! k of None \<Rightarrow> operands (gn_op node) \<le> k | Some j \<Rightarrow> j < i)
     \<and> (\<forall>k < 4. case gn_weights node ! k of None \<Rightarrow> weight_operands (gn_op node) \<le> k | Some t \<Rightarrow> t < length ts)
     \<and> (if gn_op node = OP_INPUT then i = 0 else node_out_dim ts c dims node \<noteq> 0)
     \<and> widths_ok ts c n_state (\<lambda>k. unat (dims ! the (gn_src node ! k))) (unat (node_out_dim ts c dims node)) node"

definition graph_typed :: "tensor_info list \<Rightarrow> arch_config \<Rightarrow> graph \<Rightarrow> bool" where
  "graph_typed ts c g \<longleftrightarrow>
     (\<forall>i < length (g_nodes g).
        node_typed ts c (length (g_state g)) (node_dims ts c (g_nodes g)) i (g_nodes g ! i))"

text \<open>The sink marks of planner and executor: a node is a sink iff no node reads it.\<close>

definition node_reads :: "graph_node \<Rightarrow> nat \<Rightarrow> bool" where
  "node_reads node i \<longleftrightarrow> Some i \<in> set (gn_src node)"

definition is_sink :: "graph_node list \<Rightarrow> nat \<Rightarrow> bool" where
  "is_sink nodes i \<longleftrightarrow> \<not> list_ex (\<lambda>node. node_reads node i) nodes"

section \<open>Dimensions are computed once\<close>

lemma node_dims_snoc:
  "node_dims ts c (nodes @ [n]) = node_dims ts c nodes @ [node_out_dim ts c (node_dims ts c nodes) n]"
  by (simp add: node_dims_def)

lemma node_dims_Nil [simp]: "node_dims ts c [] = []"
  by (simp add: node_dims_def)

lemma length_node_dims [simp]: "length (node_dims ts c nodes) = length nodes"
  by (induction nodes rule: rev_induct) (simp_all add: node_dims_snoc)

lemma node_out_dim_cong:
  assumes "\<And>j. gn_src n ! 0 = Some j \<Longrightarrow> dims ! j = dims' ! j"
  shows "node_out_dim ts c dims n = node_out_dim ts c dims' n"
  using assms by (cases "gn_op n") (simp_all add: node_out_dim_def split: option.split)

lemma widths_ok_cong:
  assumes "\<And>k. k < operands (gn_op n) \<Longrightarrow> w k = w' k" and "s \<le> s'" and "widths_ok ts c s w od n"
  shows "widths_ok ts c s' w' od n"
  using assms(2,3) assms(1) [of 0] assms(1) [of 1] assms(1) [of 2]
  by (cases "gn_op n") (auto simp: widths_ok_def)

lemma node_typed_extend:
  assumes t: "node_typed ts c s dims i n" and i: "i \<le> length dims" and s: "s \<le> s'"
  shows "node_typed ts c s' (dims @ xs) i n"
proof -
  have src: "\<exists>j. gn_src n ! k = Some j \<and> j < length dims" if "k < operands (gn_op n)" for k
  proof -
    have "k < 4" using that by (cases "gn_op n") auto
    then show ?thesis using t i that unfolding node_typed_def
      by (cases "gn_src n ! k") (auto split: option.splits)
  qed
  have "dims ! j = (dims @ xs) ! j" if "gn_src n ! 0 = Some j" for j
    using t i that unfolding node_typed_def by (auto simp: nth_append dest: spec [of _ 0])
  then have od: "node_out_dim ts c (dims @ xs) n = node_out_dim ts c dims n"
    by (intro node_out_dim_cong) simp
  have "widths_ok ts c s' (\<lambda>k. unat ((dims @ xs) ! the (gn_src n ! k))) (unat (node_out_dim ts c dims n)) n"
  proof (rule widths_ok_cong [OF _ s])
    show "unat (dims ! the (gn_src n ! k)) = unat ((dims @ xs) ! the (gn_src n ! k))"
      if "k < operands (gn_op n)" for k
      using src [OF that] by (auto simp: nth_append)
    show "widths_ok ts c s (\<lambda>k. unat (dims ! the (gn_src n ! k))) (unat (node_out_dim ts c dims n)) n"
      using t by (simp add: node_typed_def)
  qed
  then show ?thesis using t unfolding node_typed_def od by blast
qed

section \<open>The checking judgement\<close>

text \<open>\<open>\<Gamma>\<close>: handles and the widths of their rows; \<open>U\<close>: the only nodes that may be unread.\<close>

definition has_width :: "tensor_info list \<Rightarrow> arch_config \<Rightarrow> graph \<Rightarrow> node_ref \<Rightarrow> nat \<Rightarrow> bool" where
  "has_width ts c g x d \<longleftrightarrow>
     d \<noteq> 0 \<and> (\<exists>i < length (g_nodes g). x = Some i \<and> unat (node_dims ts c (g_nodes g) ! i) = d)"

definition env :: "tensor_info list \<Rightarrow> arch_config \<Rightarrow> nat \<Rightarrow> (node_ref \<times> nat) set \<Rightarrow> node_ref set \<Rightarrow> graph \<Rightarrow> bool" where
  "env ts c S \<Gamma> U g \<longleftrightarrow>
     graph_typed ts c g \<and> S \<le> length (g_state g) \<and> (\<forall>(x, d) \<in> \<Gamma>. has_width ts c g x d)
     \<and> (\<forall>i < length (g_nodes g). is_sink (g_nodes g) i \<longrightarrow> Some i \<in> U)"

lemma envI:
  assumes "graph_typed ts c g" and "S \<le> length (g_state g)" and "\<And>x d. (x, d) \<in> \<Gamma> \<Longrightarrow> has_width ts c g x d"
    and "\<And>i. i < length (g_nodes g) \<Longrightarrow> is_sink (g_nodes g) i \<Longrightarrow> Some i \<in> U"
  shows "env ts c S \<Gamma> U g"
  using assms unfolding env_def by blast

lemma envD:
  assumes "env ts c S \<Gamma> U g"
  shows env_typed: "graph_typed ts c g" and env_states: "S \<le> length (g_state g)" and env_width: "(x, d) \<in> \<Gamma> \<Longrightarrow> has_width ts c g x d"
    and env_sink: "i < length (g_nodes g) \<Longrightarrow> is_sink (g_nodes g) i \<Longrightarrow> Some i \<in> U"
  using assms unfolding env_def by blast+

lemma env_weaken:
  assumes "env ts c S \<Gamma> U g" and "\<Gamma>' \<subseteq> \<Gamma>" and "U \<subseteq> U'"
  shows "env ts c S \<Gamma>' U' g"
  using envD [OF assms(1)] assms(2,3) by (intro envI) blast+

lemma env_layer [simp]: "env ts c S \<Gamma> U (graph_set_layer g l) = env ts c S \<Gamma> U g"
  by (simp add: env_def graph_typed_def has_width_def graph_set_layer_def)

lemma env_state:
  "env ts c S \<Gamma> U g \<Longrightarrow> env ts c (Suc (length (g_state g))) \<Gamma> U (g\<lparr>g_state := g_state g @ [p]\<rparr>)"
proof -
  assume e: "env ts c S \<Gamma> U g"
  have "node_typed ts c (Suc (length (g_state g))) (node_dims ts c (g_nodes g)) i (g_nodes g ! i)"
    if "i < length (g_nodes g)" for i
    using node_typed_extend [of ts c "length (g_state g)" "node_dims ts c (g_nodes g)" i "g_nodes g ! i"
        "Suc (length (g_state g))" "[]"] env_typed [OF e] that
    by (simp add: graph_typed_def)
  then show ?thesis using e by (simp add: env_def graph_typed_def has_width_def)
qed

lemma has_width_snoc:
  assumes "has_width ts c g x d"
  shows "has_width ts c (g\<lparr>g_nodes := g_nodes g @ [n]\<rparr>) x d"
proof -
  obtain i where i: "i < length (g_nodes g)" "x = Some i" "unat (node_dims ts c (g_nodes g) ! i) = d" "d \<noteq> 0"
    using assms by (auto simp: has_width_def)
  then have "unat (node_dims ts c (g_nodes g @ [n]) ! i) = d" by (simp add: node_dims_snoc nth_append)
  with i show ?thesis unfolding has_width_def by auto
qed

lemma graph_typed_snoc:
  assumes g: "graph_typed ts c g"
    and n: "node_typed ts c (length (g_state g)) (node_dims ts c (g_nodes g)) (length (g_nodes g)) n"
  shows "graph_typed ts c (g\<lparr>g_nodes := g_nodes g @ [n]\<rparr>)"
proof -
  have "node_typed ts c (length (g_state g)) (node_dims ts c (g_nodes g @ [n])) i ((g_nodes g @ [n]) ! i)"
    if i: "i < Suc (length (g_nodes g))" for i
    unfolding node_dims_snoc
  proof (rule node_typed_extend [OF _ _ le_refl])
    show "node_typed ts c (length (g_state g)) (node_dims ts c (g_nodes g)) i ((g_nodes g @ [n]) ! i)"
      using g n i by (cases "i = length (g_nodes g)") (simp_all add: graph_typed_def nth_append)
    show "i \<le> length (node_dims ts c (g_nodes g))" using i by simp
  qed
  then show ?thesis by (simp add: graph_typed_def)
qed

lemma env_node_add:
  assumes e: "env ts c S \<Gamma> U g"
    and n: "n = \<lparr>gn_op = p, gn_idx = length (g_nodes g), gn_layer = g_cur_layer g, gn_backend = BACKEND_CPU,
                 gn_src = src, gn_weights = ws, gn_params = ps @ replicate (16 - length ps) 0, gn_ne0 = 0\<rparr>"
    and len: "length ps \<le> 16" "length src = 4" "length ws = 4"
    and src: "\<And>k. k < 4 \<Longrightarrow> src ! k = None \<and> operands p \<le> k \<or> (src ! k, w k) \<in> \<Gamma>"
    and weights: "\<And>k. k < 4 \<Longrightarrow> case ws ! k of None \<Rightarrow> weight_operands p \<le> k | Some t \<Rightarrow> t < length ts"
    and od: "unat (node_out_dim ts c (node_dims ts c (g_nodes g)) n) = od" "od \<noteq> 0"
    and wd: "widths_ok ts c (length (g_state g)) w od n"
  shows "fst (node_add g p src ws ps) \<noteq> None
    \<and> env ts c S (insert (fst (node_add g p src ws ps), od) \<Gamma>) (insert (fst (node_add g p src ws ps)) (U - set src))
        (snd (node_add g p src ws ps))"
proof -
  let ?N = "length (g_nodes g)" and ?D = "node_dims ts c (g_nodes g)"
  let ?g' = "g\<lparr>g_nodes := g_nodes g @ [n]\<rparr>"
  have nf: "gn_op n = p" "gn_idx n = ?N" "gn_src n = src" "gn_weights n = ws" "length (gn_params n) = 16"
    using len(1) by (simp_all add: n)
  have add: "node_add g p src ws ps = (Some ?N, ?g')"
    using len(1) by (simp add: node_add_def n)
  have handle: "\<exists>i < ?N. x = Some i \<and> unat (?D ! i) = d" if "(x, d) \<in> \<Gamma>" for x d
    using env_width [OF e that] by (simp add: has_width_def)
  have opn: "k < 4" if "k < operands p" for k using that by (cases p) auto
  have "widths_ok ts c (length (g_state g)) (\<lambda>k. unat (?D ! the (gn_src n ! k))) od n"
  proof (rule widths_ok_cong [OF _ le_refl wd])
    show "w k = unat (?D ! the (gn_src n ! k))" if "k < operands (gn_op n)" for k
      using src [of k] that opn [of k] handle [of "src ! k" "w k"] by (auto simp: nf)
  qed
  moreover have "case src ! k of None \<Rightarrow> operands p \<le> k | Some j \<Rightarrow> j < ?N" if "k < 4" for k
    using src [OF that] handle [of "src ! k" "w k"] by (auto split: option.split)
  moreover have "p \<noteq> OP_INPUT" using od by (auto simp: node_out_dim_def nf)
  ultimately have "node_typed ts c (length (g_state g)) ?D ?N n"
    using len weights od unfolding node_typed_def nf by (auto simp: unat_eq_0)
  then have "graph_typed ts c ?g'" by (rule graph_typed_snoc [OF env_typed [OF e]])
  moreover have "has_width ts c ?g' x d" if "(x, d) \<in> insert (Some ?N, od) \<Gamma>" for x d
  proof (cases "(x, d) \<in> \<Gamma>")
    case True
    then show ?thesis by (intro has_width_snoc env_width [OF e])
  next
    case False
    then show ?thesis using that od by (simp add: has_width_def node_dims_snoc nth_append)
  qed
  moreover have "Some i \<in> insert (Some ?N) (U - set src)"
    if "i < length (g_nodes ?g')" and "is_sink (g_nodes ?g') i" for i
    using that env_sink [OF e, of i] by (auto simp: is_sink_def node_reads_def nf less_Suc_eq)
  ultimately have "env ts c S (insert (Some ?N, od) \<Gamma>) (insert (Some ?N) (U - set src)) ?g'"
    using env_states [OF e] by (intro envI) auto
  then show ?thesis by (simp add: add)
qed

section \<open>One rule per builder\<close>

definition ok :: "'a option \<Rightarrow> ('a \<Rightarrow> bool) \<Rightarrow> bool" where
  "ok m P \<longleftrightarrow> (case m of None \<Rightarrow> False | Some r \<Rightarrow> P r)"

lemma ok_Some [simp]: "ok (Some r) P \<longleftrightarrow> P r"
  by (simp add: ok_def)

lemma ok_bind: "ok m Q \<Longrightarrow> (\<And>r. Q r \<Longrightarrow> ok (f r) P) \<Longrightarrow> ok (Option.bind m f) P"
  by (cases m) (simp_all add: ok_def)

lemma ok_mono: "ok m Q \<Longrightarrow> (\<And>r. Q r \<Longrightarrow> P r) \<Longrightarrow> ok m P"
  by (cases m) (simp_all add: ok_def)

definition vec_shape :: "tensor_info list \<Rightarrow> tensor_ref \<Rightarrow> nat \<Rightarrow> bool" where
  "vec_shape ts t d \<longleftrightarrow>
     (case t of None \<Rightarrow> False
      | Some i \<Rightarrow> i < length ts \<and> ti_dim (ts ! i) = [d] \<and> ti_n_element (ts ! i) = d \<and> 0 < d \<and> d < 2 ^ 32)"

definition mat_dims :: "tensor_info list \<Rightarrow> tensor_ref \<Rightarrow> nat \<Rightarrow> nat \<Rightarrow> bool" where
  "mat_dims ts t a b \<longleftrightarrow>
     (case t of None \<Rightarrow> False
      | Some i \<Rightarrow> i < length ts \<and> ti_dim (ts ! i) = [a, b] \<and> 0 < a \<and> a < 2 ^ 32 \<and> 0 < b \<and> b < 2 ^ 32)"

text \<open>A matrix of \<open>rows\<close> outputs and \<open>cols\<close> inputs, stored in either order.\<close>

definition mat_shape :: "tensor_info list \<Rightarrow> tensor_ref \<Rightarrow> nat \<Rightarrow> nat \<Rightarrow> bool" where
  "mat_shape ts t rows cols \<longleftrightarrow> mat_dims ts t rows cols \<or> mat_dims ts t cols rows"

lemma mat_dims_simps:
  assumes "mat_dims ts t a b"
  shows "t \<noteq> None" "the t < length ts" "t_ndim ts t = 2" "t_dim ts t 0 = a" "t_dim ts t (Suc 0) = b"
    "0 < a" "a < 2 ^ 32" "0 < b" "b < 2 ^ 32"
  using assms by (auto simp: mat_dims_def t_ndim_def t_dim_def t_at_def ti_ndim_def split: option.splits)

lemma unat_w32: "n < 2 ^ 32 \<Longrightarrow> unat (w32 n) = n"
  by (simp add: w32_def unsigned_of_nat take_bit_nat_eq_self_iff)

lemma w32_eq_iff: "a < 2 ^ 32 \<Longrightarrow> b < 2 ^ 32 \<Longrightarrow> w32 a = w32 b \<longleftrightarrow> a = b"
  by (metis unat_w32)

lemma unat_w32_mult: "a * b < 2 ^ 32 \<Longrightarrow> unat (w32 a * w32 b) = a * b"
  by (metis w32_def of_nat_mult unat_w32)

lemma env_Some: "env ts c S \<Gamma> U g \<Longrightarrow> (x, d) \<in> \<Gamma> \<Longrightarrow> \<exists>i. x = Some i"
  by (drule (1) env_width) (auto simp: has_width_def)

lemma env_pos: "env ts c S \<Gamma> U g \<Longrightarrow> (x, d) \<in> \<Gamma> \<Longrightarrow> 0 < d \<and> d < 2 ^ 32"
proof -
  assume "env ts c S \<Gamma> U g" and "(x, d) \<in> \<Gamma>"
  from env_width [OF this] obtain i where "unat (node_dims ts c (g_nodes g) ! i) = d" and "d \<noteq> 0"
    by (auto simp: has_width_def)
  then show ?thesis using unsigned_less [of "node_dims ts c (g_nodes g) ! i", where 'a = nat] by simp
qed

text \<open>The default width: that of the first source.\<close>

lemma env_dim: "env ts c S \<Gamma> U g \<Longrightarrow> (Some j, d) \<in> \<Gamma> \<Longrightarrow> unat (node_dims ts c (g_nodes g) ! j) = d"
  by (drule (1) env_width) (auto simp: has_width_def)

lemma add_step:
  assumes e: "env ts c S \<Gamma> U g" and r: "r = node_add g p src ws ps"
    and len: "length ps \<le> 16" "length src = 4" "length ws = 4"
    and src: "\<forall>k \<in> {0, 1, 2, 3}. src ! k = None \<and> operands p \<le> k \<or> (src ! k, w k) \<in> \<Gamma>"
    and weights: "\<forall>k \<in> {0, 1, 2, 3}. case ws ! k of None \<Rightarrow> weight_operands p \<le> k | Some t \<Rightarrow> t < length ts"
    and od: "\<And>n. gn_op n = p \<Longrightarrow> gn_src n = src \<Longrightarrow> gn_weights n = ws
        \<Longrightarrow> gn_params n = ps @ replicate (16 - length ps) 0
        \<Longrightarrow> unat (node_out_dim ts c (node_dims ts c (g_nodes g)) n) = od"
    and pos: "od \<noteq> 0"
    and wd: "\<And>n. gn_op n = p \<Longrightarrow> gn_src n = src \<Longrightarrow> gn_weights n = ws
        \<Longrightarrow> gn_params n = ps @ replicate (16 - length ps) 0
        \<Longrightarrow> widths_ok ts c (length (g_state g)) w od n"
    and cont: "\<And>y g'. env ts c S (insert (y, od) \<Gamma>) (insert y (U - set src)) g' \<Longrightarrow> ok (f (y, g')) P"
  shows "ok (Option.bind (need r) f) P"
proof -
  have four: "k \<in> {0, 1, 2, 3}" if "k < 4" for k :: nat using that by auto
  have "fst r \<noteq> None \<and> env ts c S (insert (fst r, od) \<Gamma>) (insert (fst r) (U - set src)) (snd r)"
    unfolding r
    by (rule env_node_add [OF e refl len, where w = w])
       (use src weights four in blast, use weights four in blast, rule od, simp_all add: pos wd)
  then show ?thesis using cont [of "fst r" "snd r"] by (auto simp: need_def)
qed

lemma need_None [simp]: "need (None, g) = None"
  by (simp add: need_def)

named_theorems steps \<open>typing rules of the builders\<close>

lemma step_rms_norm [steps]:
  assumes e: "env ts c S \<Gamma> U g" and x: "(x, d) \<in> \<Gamma>" and t: "vec_shape ts t d"
    and cont: "\<And>y g'. env ts c S (insert (y, d) \<Gamma>) (insert y (U - {x})) g' \<Longrightarrow> ok (f (y, g')) P"
  shows "ok (Option.bind (need (graph_rms_norm g x t)) f) P"
proof (rule add_step [OF e])
  obtain i where i: "x = Some i" using env_Some [OF e x] by blast
  show "graph_rms_norm g x t = node_add g OP_RMS_NORM (ref1 x) (ref1 t) []"
    using i t by (auto simp: graph_rms_norm_def vec_shape_def)
  show "d \<noteq> 0" using env_pos [OF e x] by simp
  show "env ts c S (insert (y, d) \<Gamma>) (insert y (U - set (ref1 x))) g' \<Longrightarrow> ok (f (y, g')) P" for y g'
    by (rule cont, erule env_weaken) (auto simp: ref1_def)
  show "widths_ok ts c (length (g_state g)) (\<lambda>k. d) d n"
    if "gn_op n = OP_RMS_NORM" and "gn_weights n = ref1 t" for n
    using that t by (auto simp: widths_ok_def vec_shape_def t_dim_def t_at_def ref1_def split: option.splits)
  show "unat (node_out_dim ts c (node_dims ts c (g_nodes g)) n) = d"
    if "gn_op n = OP_RMS_NORM" and "gn_weights n = ref1 t" for n
    using that t by (auto simp: node_out_dim_def vec_shape_def t_at_def ref1_def unat_w32 split: option.splits)
qed (use x t in \<open>auto simp: ref1_def vec_shape_def split: option.splits\<close>)

text \<open>The element-wise operators keep the width of their source.\<close>

lemma step_unary:
  assumes e: "env ts c S \<Gamma> U g" and x: "(x, d) \<in> \<Gamma>"
    and p: "p \<in> {OP_SILU, OP_GELU, OP_SOFTMAX, OP_SCALE, OP_SOFTCAP, OP_H2D, OP_D2H}" and ps: "length ps \<le> 16"
    and cont: "\<And>y g'. env ts c S (insert (y, d) \<Gamma>) (insert y (U - {x})) g' \<Longrightarrow> ok (f (y, g')) P"
  shows "ok (Option.bind (need (node_add g p (ref1 x) no_ref ps)) f) P"
proof (rule add_step [OF e refl ps])
  obtain i where i: "x = Some i" using env_Some [OF e x] by blast
  show "d \<noteq> 0" using env_pos [OF e x] by simp
  show "env ts c S (insert (y, d) \<Gamma>) (insert y (U - set (ref1 x))) g' \<Longrightarrow> ok (f (y, g')) P" for y g'
    by (rule cont, erule env_weaken) (auto simp: ref1_def)
  show "widths_ok ts c (length (g_state g)) (\<lambda>k. d) d n" if "gn_op n = p" for n
    using that p by (auto simp: widths_ok_def)
  show "unat (node_out_dim ts c (node_dims ts c (g_nodes g)) n) = d"
    if "gn_op n = p" and "gn_src n = ref1 x" for n
    using that p i env_dim [OF e] x by (auto simp: node_out_dim_def ref1_def)
qed (use x p in \<open>auto simp: ref1_def no_ref_def\<close>)

lemma step_silu [steps]:
  assumes e: "env ts c S \<Gamma> U g" and x: "(x, d) \<in> \<Gamma>"
    and cont: "\<And>y g'. env ts c S (insert (y, d) \<Gamma>) (insert y (U - {x})) g' \<Longrightarrow> ok (f (y, g')) P"
  shows "ok (Option.bind (need (graph_silu g x)) f) P"
proof -
  have eq: "graph_silu g x = node_add g OP_SILU (ref1 x) no_ref []"
    using env_Some [OF e x] by (auto simp: graph_silu_def)
  show ?thesis unfolding eq by (rule step_unary [OF e x]) (simp_all add: cont)
qed

lemma step_gelu [steps]:
  assumes e: "env ts c S \<Gamma> U g" and x: "(x, d) \<in> \<Gamma>"
    and cont: "\<And>y g'. env ts c S (insert (y, d) \<Gamma>) (insert y (U - {x})) g' \<Longrightarrow> ok (f (y, g')) P"
  shows "ok (Option.bind (need (graph_gelu g x)) f) P"
proof -
  have eq: "graph_gelu g x = node_add g OP_GELU (ref1 x) no_ref []"
    using env_Some [OF e x] by (auto simp: graph_gelu_def)
  show ?thesis unfolding eq by (rule step_unary [OF e x]) (simp_all add: cont)
qed

lemma step_scale [steps]:
  assumes e: "env ts c S \<Gamma> U g" and x: "(x, d) \<in> \<Gamma>"
    and cont: "\<And>y g'. env ts c S (insert (y, d) \<Gamma>) (insert y (U - {x})) g' \<Longrightarrow> ok (f (y, g')) P"
  shows "ok (Option.bind (need (graph_scale g x bits)) f) P"
proof -
  have eq: "graph_scale g x bits = node_add g OP_SCALE (ref1 x) no_ref [bits]"
    using env_Some [OF e x] by (auto simp: graph_scale_def)
  show ?thesis unfolding eq by (rule step_unary [OF e x]) (simp_all add: cont)
qed

lemma step_softcap [steps]:
  assumes e: "env ts c S \<Gamma> U g" and x: "(x, d) \<in> \<Gamma>" and b: "\<not> float_le_0 bits"
    and cont: "\<And>y g'. env ts c S (insert (y, d) \<Gamma>) (insert y (U - {x})) g' \<Longrightarrow> ok (f (y, g')) P"
  shows "ok (Option.bind (need (graph_softcap g x bits)) f) P"
proof -
  have eq: "graph_softcap g x bits = node_add g OP_SOFTCAP (ref1 x) no_ref [bits]"
    using env_Some [OF e x] b by (auto simp: graph_softcap_def)
  show ?thesis unfolding eq by (rule step_unary [OF e x]) (simp_all add: cont)
qed

lemma step_boundary [steps]:
  assumes e: "env ts c S \<Gamma> U g" and x: "(x, d) \<in> \<Gamma>"
    and cont: "\<And>y g'. env ts c S (insert (y, d) \<Gamma>) (insert y (U - {x})) g' \<Longrightarrow> ok (f (y, g')) P"
  shows "ok (Option.bind (need (graph_layer_boundary g x ngl n_layer l)) f) P"
proof -
  obtain i where i: "x = Some i" using env_Some [OF e x] by blast
  have "env ts c S (insert (x, d) \<Gamma>) (insert x (U - {x})) g"
    using x by (intro env_weaken [OF e]) (auto simp: insert_absorb)
  then have same: "ok (Option.bind (need (x, g)) f) P" using cont i by (simp add: need_def)
  have "ok (Option.bind (need (node_add g OP_D2H (ref1 x) no_ref [of_nat (backend_code BACKEND_CPU)])) f) P"
    by (rule step_unary [OF e x]) (simp_all add: cont)
  then show ?thesis using same i by (auto simp: graph_layer_boundary_def graph_copy_def)
qed

lemma step_bias [steps]:
  assumes e: "env ts c S \<Gamma> U g" and x: "(x, d) \<in> \<Gamma>" and t: "vec_shape ts t b"
    and cont: "\<And>y g'. env ts c S (insert (y, d) \<Gamma>) (insert y (U - {x})) g' \<Longrightarrow> ok (f (y, g')) P"
  shows "ok (Option.bind (need (graph_bias ts g x t)) f) P"
proof (rule add_step [OF e])
  obtain i where i: "x = Some i" using env_Some [OF e x] by blast
  show "graph_bias ts g x t = node_add g OP_BIAS (ref1 x) (ref1 t) []"
    using i t by (auto simp: graph_bias_def vec_shape_def t_ndim_def t_at_def ti_ndim_def split: option.splits)
  show "d \<noteq> 0" using env_pos [OF e x] by simp
  show "env ts c S (insert (y, d) \<Gamma>) (insert y (U - set (ref1 x))) g' \<Longrightarrow> ok (f (y, g')) P" for y g'
    by (rule cont, erule env_weaken) (auto simp: ref1_def)
  show "widths_ok ts c (length (g_state g)) (\<lambda>k. d) d n" if "gn_op n = OP_BIAS" for n
    using that by (simp add: widths_ok_def)
  show "unat (node_out_dim ts c (node_dims ts c (g_nodes g)) n) = d"
    if "gn_op n = OP_BIAS" and "gn_src n = ref1 x" for n
    using that i env_dim [OF e] x by (auto simp: node_out_dim_def ref1_def)
qed (use x t in \<open>auto simp: ref1_def vec_shape_def split: option.splits\<close>)

text \<open>A matrix product: the orientation flag must agree with how the weight is stored.\<close>

lemma step_mul_mat [steps]:
  assumes e: "env ts c S \<Gamma> U g" and x: "(x, cols) \<in> \<Gamma>"
    and t: "if tr then mat_dims ts t cols rows else mat_dims ts t rows cols"
    and cont: "\<And>y g'. env ts c S (insert (y, rows) \<Gamma>) (insert y (U - {x})) g' \<Longrightarrow> ok (f (y, g')) P"
  shows "ok (Option.bind (need (graph_mul_mat ts g x t tr)) f) P"
proof (rule add_step [OF e])
  let ?op = "if tr then OP_MATMUL_T else OP_MATMUL"
  note shape = mat_dims_simps [of ts t cols rows] mat_dims_simps [of ts t rows cols]
  obtain i where i: "x = Some i" using env_Some [OF e x] by blast
  have tok: "t \<noteq> None" "the t < length ts" "t_ndim ts t = 2" "0 < rows" "rows < 2 ^ 32"
    using t shape by (cases tr; simp)+
  show "graph_mul_mat ts g x t tr = node_add g ?op (ref1 x) (ref1 t) []"
    using i tok by (auto simp: graph_mul_mat_def)
  show "rows \<noteq> 0" using tok by simp
  show "env ts c S (insert (y, rows) \<Gamma>) (insert y (U - set (ref1 x))) g' \<Longrightarrow> ok (f (y, g')) P" for y g'
    by (rule cont, erule env_weaken) (auto simp: ref1_def)
  show "widths_ok ts c (length (g_state g)) (\<lambda>k. cols) rows n" if "gn_op n = ?op" and "gn_weights n = ref1 t" for n
    using that tok t shape by (cases tr) (auto simp: widths_ok_def ref1_def)
  show "unat (node_out_dim ts c (node_dims ts c (g_nodes g)) n) = rows"
    if "gn_op n = ?op" and "gn_weights n = ref1 t" for n
    using that tok t shape by (cases tr) (auto simp: node_out_dim_def ref1_def unat_w32)
  show "\<forall>k \<in> {0, 1, 2, 3}. case ref1 t ! k of None \<Rightarrow> weight_operands ?op \<le> k | Some i \<Rightarrow> i < length ts"
    using tok by (auto simp: ref1_def split: option.split)
qed (use x in \<open>auto simp: ref1_def\<close>)

lemma step_binary [steps]:
  assumes e: "env ts c S \<Gamma> U g" and x: "(x, d) \<in> \<Gamma>" and y: "(y, d) \<in> \<Gamma>" and p: "p = OP_ADD \<or> p = OP_MUL"
    and cont: "\<And>z g'. env ts c S (insert (z, d) \<Gamma>) (insert z (U - {x, y})) g' \<Longrightarrow> ok (f (z, g')) P"
  shows "ok (Option.bind (need (graph_binary g p x y)) f) P"
proof (rule add_step [OF e])
  obtain i j where i: "x = Some i" "y = Some j" using env_Some [OF e x] env_Some [OF e y] by blast
  show "graph_binary g p x y = node_add g p [x, y, None, None] no_ref []"
    using i p by (auto simp: graph_binary_def)
  show "d \<noteq> 0" using env_pos [OF e x] by simp
  show "env ts c S (insert (z, d) \<Gamma>) (insert z (U - set [x, y, None, None])) g' \<Longrightarrow> ok (f (z, g')) P" for z g'
    by (rule cont, erule env_weaken) auto
  show "widths_ok ts c (length (g_state g)) (\<lambda>k. d) d n" if "gn_op n = p" for n
    using that p by (auto simp: widths_ok_def)
  show "unat (node_out_dim ts c (node_dims ts c (g_nodes g)) n) = d"
    if "gn_op n = p" and "gn_src n = [x, y, None, None]" for n
    using that i p env_dim [OF e] x by (auto simp: node_out_dim_def)
qed (use x y p in \<open>auto simp: no_ref_def\<close>)

lemma step_rms_norm_heads [steps]:
  assumes e: "env ts c S \<Gamma> U g" and x': "(x, d) \<in> \<Gamma>" and d: "d = unat nh * unat is'" "d' = unat nh * unat os" and t: "vec_shape ts t (unat hdim)"
    and bounds: "hdim \<le> is'" "hdim \<le> os" "nh \<noteq> 0" "unat nh * unat os < 2 ^ 32"
    and cont: "\<And>y g'. env ts c S (insert (y, d') \<Gamma>) (insert y (U - {x})) g' \<Longrightarrow> ok (f (y, g')) P"
  shows "ok (Option.bind (need (graph_rms_norm_heads g x t nh hdim is' os)) f) P"
proof (rule add_step [OF e])
  note x = x' [unfolded d(1)]
  obtain i where i: "x = Some i" using env_Some [OF e x] by blast
  have hd0: "hdim \<noteq> 0" using t by (auto simp: vec_shape_def split: option.splits)
  show "graph_rms_norm_heads g x t nh hdim is' os = node_add g OP_RMS_NORM_HEADS (ref1 x) (ref1 t) [nh, hdim, is', os]"
    using i t bounds hd0 by (auto simp: graph_rms_norm_heads_def vec_shape_def)
  show "unat nh * unat os \<noteq> 0"
    using bounds hd0 by (auto simp: unat_eq_0)
  show "env ts c S (insert (y, unat nh * unat os) \<Gamma>) (insert y (U - set (ref1 x))) g' \<Longrightarrow> ok (f (y, g')) P" for y g'
    by (rule cont, erule env_weaken) (auto simp: ref1_def d)
  have le: "unat hdim \<le> unat os" using bounds(2) by (simp add: word_le_nat_alt)
  show "widths_ok ts c (length (g_state g)) (\<lambda>k. unat nh * unat is') (unat nh * unat os) n"
    if "gn_op n = OP_RMS_NORM_HEADS" and "gn_weights n = ref1 t"
      and "gn_params n = [nh, hdim, is', os] @ replicate (16 - length [nh, hdim, is', os]) 0" for n
    using that t le by (auto simp: widths_ok_def vec_shape_def t_dim_def t_at_def ref1_def split: option.splits)
  show "unat (node_out_dim ts c (node_dims ts c (g_nodes g)) n) = unat nh * unat os"
    if "gn_op n = OP_RMS_NORM_HEADS"
      and "gn_params n = [nh, hdim, is', os] @ replicate (16 - length [nh, hdim, is', os]) 0" for n
    using that bounds(4) by (simp add: node_out_dim_def unat_word_ariths)
qed (use x' t d in \<open>auto simp: ref1_def vec_shape_def split: option.splits\<close>)

text \<open>Rotary embedding, both conventions.\<close>

lemma step_rope_any:
  assumes e: "env ts c S \<Gamma> U g" and x: "(x, unat nh * unat hdim) \<in> \<Gamma>"
    and p: "p = OP_ROPE_NEOX \<or> p = OP_ROPE_NORM" and rd: "rd \<le> hdim"
    and cont: "\<And>y g'. env ts c S (insert (y, unat nh * unat hdim) \<Gamma>) (insert y (U - {x})) g' \<Longrightarrow> ok (f (y, g')) P"
  shows "ok (Option.bind (need (node_add g p (ref1 x) no_ref [theta, nh, hdim, rd])) f) P"
proof (rule add_step [OF e refl])
  let ?d = "unat nh * unat hdim"
  obtain i where i: "x = Some i" using env_Some [OF e x] by blast
  show "?d \<noteq> 0" using env_pos [OF e x] by simp
  show "env ts c S (insert (y, ?d) \<Gamma>) (insert y (U - set (ref1 x))) g' \<Longrightarrow> ok (f (y, g')) P" for y g'
    by (rule cont, erule env_weaken) (auto simp: ref1_def)
  have le: "unat rd \<le> unat hdim" using rd by (simp add: word_le_nat_alt)
  show "widths_ok ts c (length (g_state g)) (\<lambda>k. ?d) ?d n" if "gn_op n = p"
    and "gn_params n = [theta, nh, hdim, rd] @ replicate (16 - length [theta, nh, hdim, rd]) 0" for n
    using that p le by (auto simp: widths_ok_def)
  show "unat (node_out_dim ts c (node_dims ts c (g_nodes g)) n) = ?d"
    if "gn_op n = p" and "gn_src n = ref1 x" for n
    using that p i env_dim [OF e] x by (auto simp: node_out_dim_def ref1_def)
qed (use x p in \<open>auto simp: ref1_def no_ref_def\<close>)

lemma step_rope [steps]:
  assumes e: "env ts c S \<Gamma> U g" and x': "(x, d) \<in> \<Gamma>" and d: "d = unat nh * unat hdim" and rd: "rd \<noteq> 0" "rd \<le> hdim"
    and cont: "\<And>y g'. env ts c S (insert (y, d) \<Gamma>) (insert y (U - {x})) g' \<Longrightarrow> ok (f (y, g')) P"
  shows "ok (Option.bind (need (graph_rope g x theta nh hdim rd)) f) P"
proof -
  note x = x' [unfolded d]
  have "hdim \<noteq> 0" using env_pos [OF e x] by auto
  then have eq: "graph_rope g x theta nh hdim rd = node_add g OP_ROPE_NEOX (ref1 x) no_ref [theta, nh, hdim, rd]"
    using env_Some [OF e x] rd by (auto simp: graph_rope_def)
  show ?thesis unfolding eq by (rule step_rope_any [OF e x]) (simp_all add: cont rd d)
qed

lemma step_rope_norm [steps]:
  assumes e: "env ts c S \<Gamma> U g" and x': "(x, d) \<in> \<Gamma>" and d: "d = unat nh * unat hdim" and rd: "rd \<noteq> 0" "rd \<le> hdim"
    and cont: "\<And>y g'. env ts c S (insert (y, d) \<Gamma>) (insert y (U - {x})) g' \<Longrightarrow> ok (f (y, g')) P"
  shows "ok (Option.bind (need (graph_rope_norm g x theta nh hdim rd)) f) P"
proof -
  note x = x' [unfolded d]
  have "hdim \<noteq> 0" using env_pos [OF e x] by auto
  then have eq: "graph_rope_norm g x theta nh hdim rd = node_add g OP_ROPE_NORM (ref1 x) no_ref [theta, nh, hdim, rd]"
    using env_Some [OF e x] rd by (auto simp: graph_rope_norm_def)
  show ?thesis unfolding eq by (rule step_rope_any [OF e x]) (simp_all add: cont rd d)
qed

definition heads_ok :: "arch_config \<Rightarrow> bool" where
  "heads_ok c \<longleftrightarrow>
     0 < c_n_head c \<and> 0 < c_head_dim c \<and> 0 < c_n_kv_head c \<and> 0 < c_kv_head_dim c
     \<and> c_n_head c * c_head_dim c < 2 ^ 32 \<and> c_n_kv_head c * c_kv_head_dim c < 2 ^ 32
     \<and> c_n_head c < 2 ^ 32 \<and> c_head_dim c < 2 ^ 32 \<and> c_n_kv_head c < 2 ^ 32 \<and> c_kv_head_dim c < 2 ^ 32
     \<and> c_n_kv_head c dvd c_n_head c \<and> c_kv_head_dim c \<le> c_head_dim c \<and> c_n_layer c < 2 ^ 32"

lemma step_attn [steps]:
  assumes e: "env ts c S \<Gamma> U g" and q: "(q, c_n_head c * c_head_dim c) \<in> \<Gamma>"
    and k: "(k, c_n_kv_head c * c_kv_head_dim c) \<in> \<Gamma>" and v: "(v, c_n_kv_head c * c_kv_head_dim c) \<in> \<Gamma>"
    and c: "heads_ok c" "l < c_n_layer c"
    and cont: "\<And>y g'. env ts c S (insert (y, c_n_head c * c_head_dim c) \<Gamma>) (insert y (U - {q, k, v})) g'
        \<Longrightarrow> ok (f (y, g')) P"
  shows "ok (Option.bind (need (graph_attn g q k v l win)) f) P"
proof (rule add_step [OF e])
  let ?q = "c_n_head c * c_head_dim c" and ?kv = "c_n_kv_head c * c_kv_head_dim c"
  let ?ps = "[of_nat l, win] :: u32 list"
  show "graph_attn g q k v l win = node_add g OP_ATTN [q, k, v, None] no_ref ?ps"
    using env_Some [OF e q] env_Some [OF e k] env_Some [OF e v] by (auto simp: graph_attn_def)
  show "?q \<noteq> 0" using env_pos [OF e q] by simp
  show "env ts c S (insert (y, ?q) \<Gamma>) (insert y (U - set [q, k, v, None])) g' \<Longrightarrow> ok (f (y, g')) P" for y g'
    by (rule cont, erule env_weaken) auto
  have l: "unat (of_nat l :: u32) = l" using c by (simp add: heads_ok_def unsigned_of_nat take_bit_nat_eq_self_iff)
  show "widths_ok ts c (length (g_state g)) (\<lambda>k. if k = 0 then ?q else ?kv) ?q n"
    if "gn_op n = OP_ATTN" and "gn_params n = ?ps @ replicate (16 - length ?ps) 0" for n
    using that c l by (simp add: widths_ok_def heads_ok_def)
  show "unat (node_out_dim ts c (node_dims ts c (g_nodes g)) n) = ?q" if "gn_op n = OP_ATTN" for n
    using that c by (simp add: node_out_dim_def unat_w32_mult heads_ok_def)
qed (use q k v in \<open>auto simp: no_ref_def\<close>)

lemma step_sigmoid_gate [steps]:
  assumes e: "env ts c S \<Gamma> U g" and x': "(x, d) \<in> \<Gamma>" and y': "(y, d') \<in> \<Gamma>"
    and d: "d = unat nh * unat hdim" "d' = unat nh * 2 * unat hdim"
    and cont: "\<And>z g'. env ts c S (insert (z, d) \<Gamma>) (insert z (U - {x, y})) g' \<Longrightarrow> ok (f (z, g')) P"
  shows "ok (Option.bind (need (graph_sigmoid_gate g x y nh hdim)) f) P"
proof (rule add_step [OF e])
  note x = x' [unfolded d(1)] and y = y' [unfolded d(2)]
  let ?d = "unat nh * unat hdim"
  have pos: "?d \<noteq> 0" "?d < 2 ^ 32" using env_pos [OF e x] by auto
  show "graph_sigmoid_gate g x y nh hdim = node_add g OP_SIGMOID_GATE [x, y, None, None] no_ref [nh, hdim]"
    using env_Some [OF e x] env_Some [OF e y] pos by (auto simp: graph_sigmoid_gate_def)
  show "?d \<noteq> 0" by (rule pos)
  show "env ts c S (insert (z, ?d) \<Gamma>) (insert z (U - set [x, y, None, None])) g' \<Longrightarrow> ok (f (z, g')) P" for z g'
    by (rule cont, erule env_weaken) (auto simp: d)
  show "widths_ok ts c (length (g_state g)) (\<lambda>k. if k = 0 then ?d else unat nh * 2 * unat hdim) ?d n"
    if "gn_op n = OP_SIGMOID_GATE" and "gn_params n = [nh, hdim] @ replicate (16 - length [nh, hdim]) 0" for n
    using that by (simp add: widths_ok_def)
  show "unat (node_out_dim ts c (node_dims ts c (g_nodes g)) n) = ?d"
    if "gn_op n = OP_SIGMOID_GATE" and "gn_params n = [nh, hdim] @ replicate (16 - length [nh, hdim]) 0" for n
    using that pos by (simp add: node_out_dim_def unat_word_ariths)
qed (use x' y' d in \<open>auto simp: no_ref_def\<close>)

section \<open>State handles, recurrent operators, the leaf\<close>

lemma step_state:
  assumes e: "env ts c S \<Gamma> U g"
    and cont: "\<And>m g'. S \<le> m \<Longrightarrow> env ts c (Suc m) \<Gamma> U g' \<Longrightarrow> ok (f (Some m, g')) P"
  shows "ok (Option.bind (need (graph_state g (Some p))) f) P"
  using cont [OF env_states [OF e] env_state [OF e]] by (simp add: graph_state_def need_def)

lemma unat_of_nat_le: "unat (of_nat m :: u32) \<le> m"
  by (simp add: unsigned_of_nat)

lemma step_ssm_conv [steps]:
  assumes e: "env ts c S \<Gamma> U g" and x: "(x, d) \<in> \<Gamma>" and t: "t = Some i" "i < length ts"
    and kern: "kern \<noteq> 0" and st: "st < S"
    and cont: "\<And>y g'. env ts c S (insert (y, d) \<Gamma>) (insert y (U - {x})) g' \<Longrightarrow> ok (f (y, g')) P"
  shows "ok (Option.bind (need (graph_ssm_conv g x t st kern)) f) P"
proof (rule add_step [OF e])
  let ?ps = "[of_nat st, kern] :: u32 list"
  obtain j where j: "x = Some j" using env_Some [OF e x] by blast
  have s: "st < length (g_state g)" using env_states [OF e] st by simp
  show "graph_ssm_conv g x t st kern = node_add g OP_SSM_CONV (ref1 x) (ref1 t) ?ps"
    using j t kern s by (simp add: graph_ssm_conv_def)
  show "d \<noteq> 0" using env_pos [OF e x] by simp
  show "env ts c S (insert (y, d) \<Gamma>) (insert y (U - set (ref1 x))) g' \<Longrightarrow> ok (f (y, g')) P" for y g'
    by (rule cont, erule env_weaken) (auto simp: ref1_def)
  show "widths_ok ts c (length (g_state g)) (\<lambda>k. d) d n"
    if "gn_op n = OP_SSM_CONV" and "gn_params n = ?ps @ replicate (16 - length ?ps) 0" for n
    using that s unat_of_nat_le [of st] by (simp add: widths_ok_def)
  show "unat (node_out_dim ts c (node_dims ts c (g_nodes g)) n) = d"
    if "gn_op n = OP_SSM_CONV" and "gn_src n = ref1 x" for n
    using that j env_dim [OF e] x by (auto simp: node_out_dim_def ref1_def)
qed (use x t in \<open>auto simp: ref1_def\<close>)

lemma step_ssm_delta [steps]:
  assumes e: "env ts c S \<Gamma> U g"
    and x': "(sd_fused a, d) \<in> \<Gamma>" and y': "(sd_alpha a, d') \<in> \<Gamma>" and z': "(sd_beta a, d') \<in> \<Gamma>"
    and d: "d = 2 * (unat (sd_n_k_heads a) * unat (sd_head_dim a)) + unat (sd_n_v_heads a) * unat (sd_head_dim a)"
      "d' = unat (sd_n_v_heads a)" "r = unat (sd_n_v_heads a) * unat (sd_head_dim a)"
    and t: "sd_ssm_a a = Some i" "i < length ts" "sd_dt_bias a = Some j" "j < length ts"
      "case sd_norm a of None \<Rightarrow> True | Some k \<Rightarrow> k < length ts"
    and heads: "sd_head_dim a \<noteq> 0" "sd_n_k_heads a \<noteq> 0" "sd_n_v_heads a mod sd_n_k_heads a = 0" and st: "sd_state a < S"
    and bound: "unat (sd_n_v_heads a) * unat (sd_head_dim a) < 2 ^ 32"
    and cont: "\<And>u g'. env ts c S (insert (u, r) \<Gamma>)
        (insert u (U - {sd_fused a, sd_alpha a, sd_beta a})) g' \<Longrightarrow> ok (f (u, g')) P"
  shows "ok (Option.bind (need (graph_ssm_delta g a)) f) P"
proof (rule add_step [OF e])
  note x = x' [unfolded d(1)] and y = y' [unfolded d(2)] and z = z' [unfolded d(2)]
  let ?src = "[sd_fused a, sd_alpha a, sd_beta a, None]" and ?ws = "[sd_ssm_a a, sd_dt_bias a, sd_norm a, None]"
  let ?ps = "[of_nat (sd_state a), sd_n_v_heads a, sd_n_k_heads a, sd_head_dim a]"
  let ?v = "unat (sd_n_v_heads a) * unat (sd_head_dim a)" and ?k = "unat (sd_n_k_heads a) * unat (sd_head_dim a)"
  have s: "sd_state a < length (g_state g)" using env_states [OF e] st by simp
  have v: "sd_n_v_heads a \<noteq> 0" using env_pos [OF e y] by auto
  show "graph_ssm_delta g a = node_add g OP_SSM_DELTA ?src ?ws ?ps"
    using env_Some [OF e x] env_Some [OF e y] env_Some [OF e z] t heads v s by (auto simp: graph_ssm_delta_def)
  show "?v \<noteq> 0" using heads v by (simp add: unat_eq_0)
  show "env ts c S (insert (u, ?v) \<Gamma>) (insert u (U - set ?src)) g' \<Longrightarrow> ok (f (u, g')) P" for u g'
    by (rule cont, erule env_weaken) (auto simp: d)
  show "widths_ok ts c (length (g_state g)) (\<lambda>k. if k = 0 then 2 * ?k + ?v else unat (sd_n_v_heads a)) ?v n"
    if "gn_op n = OP_SSM_DELTA" and "gn_params n = ?ps @ replicate (16 - length ?ps) 0" for n
    using that s unat_of_nat_le [of "sd_state a"] by (simp add: widths_ok_def)
  show "unat (node_out_dim ts c (node_dims ts c (g_nodes g)) n) = ?v"
    if "gn_op n = OP_SSM_DELTA" and "gn_params n = ?ps @ replicate (16 - length ?ps) 0" for n
    using that bound by (simp add: node_out_dim_def unat_word_ariths)
qed (use x' y' z' t d in \<open>auto split: option.splits\<close>)

lemma step_mamba2_conv [steps]:
  assumes e: "env ts c S \<Gamma> U g" and x': "(x, d) \<in> \<Gamma>"
    and cdim_def: "cdim = unat dinner + 2 * unat ng * unat ds" and d: "d = cdim + unat dinner + unat nh"
    and t: "t = Some i" "i < length ts" "case b of None \<Rightarrow> True | Some k \<Rightarrow> k < length ts"
    and nz: "kern \<noteq> 0" "dinner \<noteq> 0" "ng \<noteq> 0" "ds \<noteq> 0" "nh \<noteq> 0" and st: "st < S"
    and cont: "\<And>y g'. env ts c S (insert (y, cdim) \<Gamma>) (insert y (U - {x})) g' \<Longrightarrow> ok (f (y, g')) P"
  shows "ok (Option.bind (need (graph_mamba2_conv g x t b st kern dinner ng ds nh)) f) P"
proof (rule add_step [OF e])
  note x = x' [unfolded d]
  let ?ps = "[of_nat st, kern, dinner, ng, ds, nh]"
  obtain j where j: "x = Some j" using env_Some [OF e x] by blast
  have s: "st < length (g_state g)" using env_states [OF e] st by simp
  have small: "cdim < 2 ^ 32" using env_pos [OF e x] by simp
  show "graph_mamba2_conv g x t b st kern dinner ng ds nh
      = node_add g OP_MAMBA2_CONV (ref1 x) [t, b, None, None] ?ps"
    using j t nz s by (simp add: graph_mamba2_conv_def)
  show "cdim \<noteq> 0" using nz by (simp add: cdim_def unat_eq_0)
  show "env ts c S (insert (y, cdim) \<Gamma>) (insert y (U - set (ref1 x))) g' \<Longrightarrow> ok (f (y, g')) P" for y g'
    by (rule cont, erule env_weaken) (auto simp: ref1_def)
  show "widths_ok ts c (length (g_state g)) (\<lambda>k. cdim + unat dinner + unat nh) cdim n"
    if "gn_op n = OP_MAMBA2_CONV" and "gn_params n = ?ps @ replicate (16 - length ?ps) 0" for n
    using that s unat_of_nat_le [of st] by (simp add: widths_ok_def cdim_def)
  show "unat (node_out_dim ts c (node_dims ts c (g_nodes g)) n) = cdim"
    if "gn_op n = OP_MAMBA2_CONV" and "gn_params n = ?ps @ replicate (16 - length ?ps) 0" for n
  proof -
    have "unat (dinner + 2 * ng * ds) = unat (of_nat cdim :: u32)"
      unfolding cdim_def by simp
    also have "\<dots> = cdim" using small by (simp add: unsigned_of_nat take_bit_nat_eq_self_iff)
    finally show ?thesis using that by (simp add: node_out_dim_def)
  qed
qed (use x' t d in \<open>auto simp: ref1_def split: option.splits\<close>)

lemma step_mamba2_scan [steps]:
  assumes e: "env ts c S \<Gamma> U g" and x: "(x, cdim) \<in> \<Gamma>" and y': "(y, d) \<in> \<Gamma>"
    and cdim_def: "cdim = unat dinner + 2 * unat ng * unat ds" and d: "d = cdim + unat dinner + unat nh"
      "r = unat dinner"
    and t: "ta = Some i" "i < length ts" "td = Some j" "j < length ts" "tb = Some k" "k < length ts"
      "case tn of None \<Rightarrow> True | Some l \<Rightarrow> l < length ts"
    and nz: "nh \<noteq> 0" "hdim \<noteq> 0" "ds \<noteq> 0" "ng \<noteq> 0" "dinner \<noteq> 0"
    and geo: "nh mod ng = 0" "unat nh * unat hdim = unat dinner" and st: "st < S"
    and cont: "\<And>z g'. env ts c S (insert (z, r) \<Gamma>) (insert z (U - {x, y})) g' \<Longrightarrow> ok (f (z, g')) P"
  shows "ok (Option.bind (need (graph_mamba2_scan g x y ta td tb tn st nh hdim ds ng dinner)) f) P"
proof (rule add_step [OF e])
  note y = y' [unfolded d(1)]
  let ?ps = "[of_nat st, nh, hdim, ds, ng, dinner]" and ?src = "[x, y, None, None]"
  have s: "st < length (g_state g)" using env_states [OF e] st by simp
  have prod: "nh * hdim = dinner"
    using geo(2) unsigned_less [of dinner, where 'a = nat] by (simp add: word_unat_eq_iff unat_word_ariths)
  show "graph_mamba2_scan g x y ta td tb tn st nh hdim ds ng dinner
      = node_add g OP_MAMBA2_SCAN ?src [ta, td, tb, tn] ?ps"
    using env_Some [OF e x] env_Some [OF e y] t nz s geo(1) prod by (auto simp: graph_mamba2_scan_def)
  show "unat dinner \<noteq> 0" using nz by (simp add: unat_eq_0)
  show "env ts c S (insert (z, unat dinner) \<Gamma>) (insert z (U - set ?src)) g' \<Longrightarrow> ok (f (z, g')) P" for z g'
    by (rule cont, erule env_weaken) (auto simp: d)
  show "widths_ok ts c (length (g_state g)) (\<lambda>k. if k = 0 then cdim else cdim + unat dinner + unat nh) (unat dinner) n"
    if "gn_op n = OP_MAMBA2_SCAN" and "gn_params n = ?ps @ replicate (16 - length ?ps) 0" for n
    using that s unat_of_nat_le [of st] geo by (simp add: widths_ok_def cdim_def)
  show "unat (node_out_dim ts c (node_dims ts c (g_nodes g)) n) = unat dinner"
    if "gn_op n = OP_MAMBA2_SCAN" and "gn_params n = ?ps @ replicate (16 - length ?ps) 0" for n
    using that by (simp add: node_out_dim_def)
qed (use x y' t d in \<open>auto split: option.splits\<close>)

text \<open>The first two nodes of every graph.\<close>

lemma step_input_embed:
  assumes n: "0 < n" "n < 2 ^ 31" and te: "mat_shape ts te (c_n_vocab c) d"
    and cont: "\<And>y g'. env ts c 0 {(y, d)} {y} g' \<Longrightarrow> ok (f (y, g')) P"
  shows "ok (Option.bind (need (graph_input graph_new n)) (\<lambda>(x, g).
             Option.bind (need (graph_embed ts g x te n)) f)) P"
proof -
  let ?inp = "\<lparr>gn_op = OP_INPUT, gn_idx = 0, gn_layer = 0, gn_backend = BACKEND_CPU, gn_src = no_ref,
      gn_weights = no_ref, gn_params = replicate 16 0, gn_ne0 = int n\<rparr>"
  let ?emb = "\<lparr>gn_op = OP_EMBED, gn_idx = 1, gn_layer = 0, gn_backend = BACKEND_CPU, gn_src = ref1 (Some 0),
      gn_weights = ref1 te, gn_params = replicate 16 0, gn_ne0 = 0\<rparr>"
  let ?g1 = "\<lparr>g_nodes = [?inp], g_cur_layer = 0, g_state = []\<rparr>"
  let ?g2 = "\<lparr>g_nodes = [?inp] @ [?emb], g_cur_layer = 0, g_state = []\<rparr>"
  let ?D = "node_dims ts c [?inp]"
  have inp: "graph_input graph_new n = (Some 0, ?g1)"
    using n by (simp add: graph_input_def node_add_def graph_new_def)
  have te': "te \<noteq> None" "the te < length ts" "t_ndim ts te = 2"
    and dims: "t_dim ts te 0 = c_n_vocab c \<and> t_dim ts te 1 = d \<or> t_dim ts te 1 = c_n_vocab c \<and> t_dim ts te 0 = d"
    and d: "0 < d" "d < 2 ^ 32"
    using te mat_dims_simps [of ts te "c_n_vocab c" d] mat_dims_simps [of ts te d "c_n_vocab c"]
    unfolding mat_shape_def One_nat_def by metis+
  have emb: "graph_embed ts ?g1 (Some 0) te n = (Some 1, ?g2)"
    using te' n by (simp add: graph_embed_def node_add_def to_i32_def)
  have od: "unat (node_out_dim ts c D ?emb) = d" for D
    using dims d by (auto simp: node_out_dim_def ref1_def unat_w32)
  have "node_typed ts c 0 [] 0 ?inp"
    by (auto simp: node_typed_def no_ref_def widths_ok_def nth_Cons' numeral_eq_Suc less_Suc_eq)
  moreover have "graph_typed ts c graph_new" by (simp add: graph_typed_def graph_new_def)
  ultimately have "graph_typed ts c ?g1"
    using graph_typed_snoc [of ts c graph_new ?inp] by (simp add: graph_new_def)
  moreover have "node_typed ts c 0 ?D 1 ?emb"
  proof -
    have w: "widths_ok ts c 0 w d ?emb" for w using dims by (auto simp: widths_ok_def ref1_def)
    have nz: "node_out_dim ts c ?D ?emb \<noteq> 0" using od [of ?D] d by (metis unat_0 less_irrefl)
    have srcs: "\<forall>k < 4. case gn_src ?emb ! k of None \<Rightarrow> operands (gn_op ?emb) \<le> k | Some j \<Rightarrow> j < 1"
      by (auto simp: ref1_def numeral_eq_Suc less_Suc_eq)
    have ws: "\<forall>k < 4. case gn_weights ?emb ! k of None \<Rightarrow> weight_operands (gn_op ?emb) \<le> k | Some j \<Rightarrow> j < length ts"
      using te' by (auto simp: ref1_def numeral_eq_Suc less_Suc_eq)
    show ?thesis
      unfolding node_typed_def od using nz by (intro conjI srcs ws w) (simp_all add: ref1_def)
  qed
  ultimately have typed: "graph_typed ts c ?g2"
    using graph_typed_snoc [of ts c ?g1 ?emb] by simp
  have "unat (node_dims ts c (g_nodes ?g2) ! 1) = d"
    using od by (simp only: graph.select_convs node_dims_snoc nth_append_length_plus [of ?D, simplified] One_nat_def)
      (simp add: nth_append)
  then have "has_width ts c ?g2 (Some 1) d" using d by (simp add: has_width_def)
  moreover have "Some i \<in> {Some 1}" if "i < 2" and "is_sink (g_nodes ?g2) i" for i :: nat
    using that by (cases i) (auto simp: is_sink_def node_reads_def no_ref_def ref1_def)
  ultimately have "env ts c 0 {(Some 1, d)} {Some 1} ?g2"
    using typed by (intro envI) auto
  then show ?thesis using cont by (simp add: inp emb need_def)
qed

end
