(* ===== verification/DenseGraphs.thy ===== *)
theory DenseGraphs
  imports GraphTyping
begin

text \<open>The graph builders of the dense architectures: \<open>model/llama.c\<close>, \<open>model/qwen25.c\<close> and
  \<open>model/gemma3.c\<close>, with the part of their \<open>init\<close> functions a builder reads.  \<open>goto fail\<close>
  frees the graph and returns NULL, so a builder is a computation in the option monad over the
  graph under construction; the first failing call ends it, and no later call is observable.\<close>

section \<open>The session as a builder sees it\<close>

record build_session =
  bs_cfg :: arch_config
  bs_tensors :: "tensor_info list"
  bs_weights :: weights
  bs_ctx_size :: nat
  bs_ngl :: int

record dense_ws =
  ws_ffn_hidden :: nat
  ws_rope_theta :: u32

record gemma3_ws = dense_ws +
  ws_rope_theta_swa :: u32
  ws_n_swa :: nat
  ws_attn_scale :: u32
  ws_logit_softcap :: u32

text \<open>The FFN width from layer 0's gate tensor.\<close>

definition ffn_width :: "tensor_info list \<Rightarrow> tensor_ref \<Rightarrow> arch_config \<Rightarrow> nat" where
  "ffn_width ts t c =
     (if t \<noteq> None \<and> t_ndim ts t \<ge> 1 then
        (if t_dim ts t 0 > t_dim ts t 1 then t_dim ts t 0
         else if t_ndim ts t \<ge> 2 then t_dim ts t 1 else t_dim ts t 0) mod 2 ^ 32
      else c_n_embd c * 4 mod 2 ^ 32)"

definition ws_prefix :: "model \<Rightarrow> string \<Rightarrow> string" where
  "ws_prefix m generic = (if m_arch_name m \<noteq> [] then m_arch_name m else generic)"

text \<open>\<open>snprintf\<close> into \<open>char k[96]\<close>, then \<open>model_get_f32\<close> over a default.\<close>

definition ws_f32 :: "model \<Rightarrow> string \<Rightarrow> string \<Rightarrow> u32 \<Rightarrow> u32" where
  "ws_f32 m pfx suffix dflt =
     (case model_get_f32 m (take 95 (pfx @ suffix)) of Some v \<Rightarrow> v | None \<Rightarrow> dflt)"

definition llama_init :: "model \<Rightarrow> build_session \<Rightarrow> dense_ws" where
  "llama_init m s =
     \<lparr>ws_ffn_hidden = ffn_width (bs_tensors s) ((w_layers (bs_weights s) ! 0) TENSOR_FFN_GATE) (bs_cfg s),
      ws_rope_theta = ws_f32 m (ws_prefix m ''llama'') ''.rope.freq_base'' 0x461C4000\<rparr>"

definition qwen25_init :: "model \<Rightarrow> build_session \<Rightarrow> dense_ws" where
  "qwen25_init m s =
     \<lparr>ws_ffn_hidden = ffn_width (bs_tensors s) ((w_layers (bs_weights s) ! 0) TENSOR_FFN_GATE) (bs_cfg s),
      ws_rope_theta = ws_f32 m (ws_prefix m ''qwen2'') ''.rope.freq_base'' 0x49742400\<rparr>"

text \<open>\<open>scale kv e h\<close> stands for \<open>sqrtf((float)kv / ((float)e / (float)h))\<close>.\<close>

definition gemma3_init :: "(nat \<Rightarrow> nat \<Rightarrow> nat \<Rightarrow> u32) \<Rightarrow> model \<Rightarrow> build_session \<Rightarrow> gemma3_ws" where
  "gemma3_init scale m s =
     (let c = bs_cfg s; pfx = ws_prefix m ''gemma3'';
          kv_head_dim = (if c_kv_head_dim c \<noteq> 0 then c_kv_head_dim c else c_head_dim c) in
      \<lparr>ws_ffn_hidden = ffn_width (bs_tensors s) ((w_layers (bs_weights s) ! 0) TENSOR_FFN_GATE) c,
       ws_rope_theta = ws_f32 m pfx ''.rope.freq_base'' 0x49742400,
       ws_rope_theta_swa = ws_f32 m pfx ''.rope.freq_base_swa'' 0x461C4000,
       ws_n_swa = (case model_get_i32 m (take 95 (pfx @ ''.attention.sliding_window'')) of
                     Some sw \<Rightarrow> if sw > 0 then nat sw else 0
                   | None \<Rightarrow> 0),
       ws_attn_scale = (if c_n_layer c = 62 \<and> c_n_head c > 0
                        then scale kv_head_dim (c_n_embd c) (c_n_head c) else 0x3F800000),
       ws_logit_softcap = ws_f32 m pfx ''.final_logit_softcapping'' 0\<rparr>)"

section \<open>Building blocks\<close>

text \<open>\<open>for (l = 0; l < n_layer; l++)\<close> with \<open>goto fail\<close>.\<close>

fun layer_loop :: "(nat \<Rightarrow> node_ref \<times> graph \<Rightarrow> (node_ref \<times> graph) option) \<Rightarrow> nat list
    \<Rightarrow> node_ref \<times> graph \<Rightarrow> (node_ref \<times> graph) option" where
  "layer_loop f [] st = Some st"
| "layer_loop f (l # ls) st = Option.bind (f l st) (layer_loop f ls)"

definition opt_bias :: "tensor_info list \<Rightarrow> graph \<Rightarrow> node_ref \<Rightarrow> tensor_ref \<Rightarrow> (node_ref \<times> graph) option" where
  "opt_bias ts g x b = (if b = None then Some (x, g) else need (graph_bias ts g x b))"

definition q_width :: "arch_config \<Rightarrow> nat" where
  "q_width c = unat (w32 (c_n_head c) * w32 (c_head_dim c))"

section \<open>Llama\<close>

definition llama_layer :: "build_session \<Rightarrow> dense_ws \<Rightarrow> nat \<Rightarrow> node_ref \<times> graph \<Rightarrow> (node_ref \<times> graph) option" where
  "llama_layer s ws l st =
     (case st of (cur, g0) \<Rightarrow>
      let c = bs_cfg s; ts = bs_tensors s; lw = w_layers (bs_weights s) ! l;
          n_embd = c_n_embd c; q_dim = q_width c; fh = ws_ffn_hidden ws; theta = ws_rope_theta ws;
          kvd = (if c_kv_head_dim c \<noteq> 0 then c_kv_head_dim c else c_head_dim c);
          rope_dim = (if c_rope_dim c \<noteq> 0 then c_rope_dim c else c_head_dim c);
          t_q = lw TENSOR_ATTN_Q; t_k = lw TENSOR_ATTN_K; t_v = lw TENSOR_ATTN_V; t_o = lw TENSOR_ATTN_OUT;
          t_g = lw TENSOR_FFN_GATE; t_u = lw TENSOR_FFN_UP; t_d = lw TENSOR_FFN_DOWN;
          g = graph_set_layer g0 l in
      if t_q = None \<or> t_k = None \<or> t_v = None \<or> t_o = None \<or> t_g = None \<or> t_u = None \<or> t_d = None then None
      else do {
        (n, g) \<leftarrow> need (graph_rms_norm g cur (lw TENSOR_ATTN_NORM));
        (q, g) \<leftarrow> need (graph_mul_mat ts g n t_q (q_dim \<noteq> n_embd \<and> t_dim ts t_q 0 = n_embd));
        (k, g) \<leftarrow> need (graph_mul_mat ts g n t_k (t_dim ts t_k 0 = n_embd));
        (v, g) \<leftarrow> need (graph_mul_mat ts g n t_v (t_dim ts t_v 0 = n_embd));
        (q, g) \<leftarrow> opt_bias ts g q (lw TENSOR_ATTN_Q_BIAS);
        (k, g) \<leftarrow> opt_bias ts g k (lw TENSOR_ATTN_K_BIAS);
        (v, g) \<leftarrow> opt_bias ts g v (lw TENSOR_ATTN_V_BIAS);
        (q, g) \<leftarrow> need (graph_rope_norm g q theta (w32 (c_n_head c)) (w32 (c_head_dim c)) (w32 rope_dim));
        (k, g) \<leftarrow> need (graph_rope_norm g k theta (w32 (c_n_kv_head c)) (w32 kvd)
                            (w32 (if rope_dim \<le> kvd then rope_dim else kvd)));
        (attn, g) \<leftarrow> need (graph_attn g q k v l 0);
        (ao, g) \<leftarrow> need (graph_mul_mat ts g attn t_o (n_embd \<noteq> q_dim \<and> t_dim ts t_o 0 = q_dim));
        (h, g) \<leftarrow> need (graph_binary g OP_ADD cur ao);
        (hn, g) \<leftarrow> need (graph_rms_norm g h (lw TENSOR_POST_ATTN_NORM));
        (gm, g) \<leftarrow> need (graph_mul_mat ts g hn t_g (t_dim ts t_g 0 = n_embd));
        (gate, g) \<leftarrow> need (graph_silu g gm);
        (up, g) \<leftarrow> need (graph_mul_mat ts g hn t_u (t_dim ts t_u 0 = n_embd));
        (mul, g) \<leftarrow> need (graph_binary g OP_MUL gate up);
        (down, g) \<leftarrow> need (graph_mul_mat ts g mul t_d (t_dim ts t_d 0 = fh));
        (cur, g) \<leftarrow> need (graph_binary g OP_ADD h down);
        need (graph_layer_boundary g cur (bs_ngl s) (c_n_layer c) l) })"

definition llama_graph_build :: "build_session \<Rightarrow> dense_ws \<Rightarrow> nat \<Rightarrow> graph option" where
  "llama_graph_build s ws n_tokens =
     (let c = bs_cfg s; ts = bs_tensors s; w = bs_weights s; te = w_tensors w TENSOR_TOKEN_EMBD in
      if n_tokens = 0 \<or> n_tokens > bs_ctx_size s then None
      else if te = None \<or> t_ndim ts te < 2 then None
      else do {
        (inp, g) \<leftarrow> need (graph_input graph_new n_tokens);
        (cur, g) \<leftarrow> need (graph_embed ts g inp te n_tokens);
        (cur, g) \<leftarrow> layer_loop (llama_layer s ws) [0 ..< c_n_layer c] (cur, g);
        (fn, g) \<leftarrow> need (graph_rms_norm (graph_set_layer g (c_n_layer c)) cur (w_tensors w TENSOR_OUTPUT_NORM));
        let t_out = (if w_tensors w TENSOR_OUTPUT = None then te else w_tensors w TENSOR_OUTPUT);
        (r, g) \<leftarrow> need (graph_mul_mat ts g fn t_out (t_dim ts t_out 0 = c_n_embd c));
        Some g })"

section \<open>Qwen 2.5\<close>

definition qwen25_layer :: "build_session \<Rightarrow> dense_ws \<Rightarrow> nat \<Rightarrow> node_ref \<times> graph \<Rightarrow> (node_ref \<times> graph) option" where
  "qwen25_layer s ws l st =
     (case st of (cur, g0) \<Rightarrow>
      let c = bs_cfg s; ts = bs_tensors s; lw = w_layers (bs_weights s) ! l;
          n_embd = c_n_embd c; q_dim = q_width c; fh = ws_ffn_hidden ws; theta = ws_rope_theta ws;
          t_q = lw TENSOR_ATTN_Q; t_k = lw TENSOR_ATTN_K; t_v = lw TENSOR_ATTN_V; t_o = lw TENSOR_ATTN_OUT;
          t_g = lw TENSOR_FFN_GATE; t_u = lw TENSOR_FFN_UP; t_d = lw TENSOR_FFN_DOWN;
          g = graph_set_layer g0 l in
      if t_q = None \<or> t_k = None \<or> t_v = None \<or> t_o = None \<or> t_g = None \<or> t_u = None \<or> t_d = None then None
      else do {
        (n, g) \<leftarrow> need (graph_rms_norm g cur (lw TENSOR_ATTN_NORM));
        (q, g) \<leftarrow> need (graph_mul_mat ts g n t_q (q_dim \<noteq> n_embd \<and> t_dim ts t_q 0 = n_embd));
        (k, g) \<leftarrow> need (graph_mul_mat ts g n t_k (t_dim ts t_k 0 = n_embd));
        (v, g) \<leftarrow> need (graph_mul_mat ts g n t_v (t_dim ts t_v 0 = n_embd));
        (q, g) \<leftarrow> opt_bias ts g q (lw TENSOR_ATTN_Q_BIAS);
        (k, g) \<leftarrow> opt_bias ts g k (lw TENSOR_ATTN_K_BIAS);
        (v, g) \<leftarrow> opt_bias ts g v (lw TENSOR_ATTN_V_BIAS);
        (q, g) \<leftarrow> need (graph_rope g q theta (w32 (c_n_head c)) (w32 (c_head_dim c)) (w32 (c_head_dim c)));
        (k, g) \<leftarrow> need (graph_rope g k theta (w32 (c_n_kv_head c)) (w32 (c_kv_head_dim c)) (w32 (c_kv_head_dim c)));
        (attn, g) \<leftarrow> need (graph_attn g q k v l 0);
        (ao, g) \<leftarrow> need (graph_mul_mat ts g attn t_o (n_embd \<noteq> q_dim \<and> t_dim ts t_o 0 = q_dim));
        (h, g) \<leftarrow> need (graph_binary g OP_ADD cur ao);
        (hn, g) \<leftarrow> need (graph_rms_norm g h (lw TENSOR_POST_ATTN_NORM));
        (gm, g) \<leftarrow> need (graph_mul_mat ts g hn t_g (t_dim ts t_g 0 = n_embd));
        (gate, g) \<leftarrow> need (graph_silu g gm);
        (up, g) \<leftarrow> need (graph_mul_mat ts g hn t_u (t_dim ts t_u 0 = n_embd));
        (mul, g) \<leftarrow> need (graph_binary g OP_MUL gate up);
        (down, g) \<leftarrow> need (graph_mul_mat ts g mul t_d (t_dim ts t_d 0 = fh));
        (cur, g) \<leftarrow> need (graph_binary g OP_ADD h down);
        need (graph_layer_boundary g cur (bs_ngl s) (c_n_layer c) l) })"

text \<open>A missing output norm falls back to the last layer's post-attention norm.\<close>

definition qwen25_graph_build :: "build_session \<Rightarrow> dense_ws \<Rightarrow> nat \<Rightarrow> graph option" where
  "qwen25_graph_build s ws n_tokens =
     (let c = bs_cfg s; ts = bs_tensors s; w = bs_weights s; te = w_tensors w TENSOR_TOKEN_EMBD in
      if n_tokens = 0 \<or> n_tokens > bs_ctx_size s then None
      else if te = None \<or> t_ndim ts te < 2 then None
      else do {
        (inp, g) \<leftarrow> need (graph_input graph_new n_tokens);
        (cur, g) \<leftarrow> need (graph_embed ts g inp te n_tokens);
        (cur, g) \<leftarrow> layer_loop (qwen25_layer s ws) [0 ..< c_n_layer c] (cur, g);
        let t_norm = (if w_tensors w TENSOR_OUTPUT_NORM = None
                      then (w_layers w ! (c_n_layer c - 1)) TENSOR_POST_ATTN_NORM else w_tensors w TENSOR_OUTPUT_NORM);
        (fn, g) \<leftarrow> need (graph_rms_norm (graph_set_layer g (c_n_layer c)) cur t_norm);
        let t_out = (if w_tensors w TENSOR_OUTPUT = None then te else w_tensors w TENSOR_OUTPUT);
        (r, g) \<leftarrow> need (graph_mul_mat ts g fn t_out (t_dim ts t_out 0 = c_n_embd c));
        Some g })"

section \<open>Gemma 3\<close>

definition gemma3_layer :: "build_session \<Rightarrow> gemma3_ws \<Rightarrow> nat \<Rightarrow> node_ref \<times> graph \<Rightarrow> (node_ref \<times> graph) option" where
  "gemma3_layer s ws l st =
     (case st of (cur, g0) \<Rightarrow>
      let c = bs_cfg s; ts = bs_tensors s; lw = w_layers (bs_weights s) ! l;
          n_embd = c_n_embd c; q_dim = q_width c; fh = ws_ffn_hidden ws;
          is_swa = (ws_n_swa ws > 0 \<and> l mod 6 \<noteq> 5);
          theta_l = (if is_swa then ws_rope_theta_swa ws else ws_rope_theta ws);
          win = (if is_swa then w32 (ws_n_swa ws) else 0);
          t_q = lw TENSOR_ATTN_Q; t_k = lw TENSOR_ATTN_K; t_v = lw TENSOR_ATTN_V; t_o = lw TENSOR_ATTN_OUT;
          t_g = lw TENSOR_FFN_GATE; t_u = lw TENSOR_FFN_UP; t_d = lw TENSOR_FFN_DOWN;
          nh = w32 (c_n_head c); hdim = w32 (c_head_dim c); nkv = w32 (c_n_kv_head c); kvd = w32 (c_kv_head_dim c);
          g = graph_set_layer g0 l in
      if t_q = None \<or> t_k = None \<or> t_v = None \<or> t_o = None \<or> t_g = None \<or> t_u = None \<or> t_d = None then None
      else do {
        (n, g) \<leftarrow> need (graph_rms_norm g cur (lw TENSOR_ATTN_NORM));
        (q, g) \<leftarrow> need (graph_mul_mat ts g n t_q (q_dim \<noteq> n_embd \<and> t_dim ts t_q 0 = n_embd));
        (k, g) \<leftarrow> need (graph_mul_mat ts g n t_k (t_dim ts t_k 0 = n_embd));
        (v, g) \<leftarrow> need (graph_mul_mat ts g n t_v (t_dim ts t_v 0 = n_embd));
        (q, g) \<leftarrow> need (graph_rms_norm_heads g q (lw TENSOR_ATTN_Q_NORM) nh hdim hdim hdim);
        (k, g) \<leftarrow> need (graph_rms_norm_heads g k (lw TENSOR_ATTN_K_NORM) nkv kvd kvd kvd);
        (q, g) \<leftarrow> need (graph_rope g q theta_l nh hdim hdim);
        (k, g) \<leftarrow> need (graph_rope g k theta_l nkv kvd kvd);
        (q, g) \<leftarrow> need (graph_scale g q (ws_attn_scale ws));
        (attn, g) \<leftarrow> need (graph_attn g q k v l win);
        (ao, g) \<leftarrow> need (graph_mul_mat ts g attn t_o (n_embd \<noteq> q_dim \<and> t_dim ts t_o 0 = q_dim));
        (ao, g) \<leftarrow> need (graph_rms_norm g ao (lw TENSOR_POST_ATTN_NORM));
        (h, g) \<leftarrow> need (graph_binary g OP_ADD cur ao);
        (hn, g) \<leftarrow> need (graph_rms_norm g h (lw TENSOR_FFN_NORM));
        (gate, g) \<leftarrow> need (graph_mul_mat ts g hn t_g (t_dim ts t_g 0 = n_embd));
        (gate, g) \<leftarrow> need (graph_gelu g gate);
        (up, g) \<leftarrow> need (graph_mul_mat ts g hn t_u (t_dim ts t_u 0 = n_embd));
        (mul, g) \<leftarrow> need (graph_binary g OP_MUL gate up);
        (down, g) \<leftarrow> need (graph_mul_mat ts g mul t_d (t_dim ts t_d 0 = fh));
        (down, g) \<leftarrow> need (graph_rms_norm g down (lw TENSOR_FFN_POST_NORM));
        (cur, g) \<leftarrow> need (graph_binary g OP_ADD h down);
        need (graph_layer_boundary g cur (bs_ngl s) (c_n_layer c) l) })"

text \<open>\<open>cap > 0.0f\<close> on a bit pattern; \<open>sqrt_bits n\<close> stands for \<open>sqrtf((float)n)\<close>.\<close>

definition float_gt_0 :: "u32 \<Rightarrow> bool" where
  "float_gt_0 bits \<longleftrightarrow> 0 < bits \<and> bits \<le> 0x7F800000"

definition gemma3_graph_build :: "(nat \<Rightarrow> u32) \<Rightarrow> build_session \<Rightarrow> gemma3_ws \<Rightarrow> nat \<Rightarrow> graph option" where
  "gemma3_graph_build sqrt_bits s ws n_tokens =
     (let c = bs_cfg s; ts = bs_tensors s; w = bs_weights s; te = w_tensors w TENSOR_TOKEN_EMBD in
      if n_tokens = 0 \<or> n_tokens > bs_ctx_size s then None
      else if te = None \<or> t_ndim ts te < 2 then None
      else do {
        (inp, g) \<leftarrow> need (graph_input graph_new n_tokens);
        (cur, g) \<leftarrow> need (graph_embed ts g inp te n_tokens);
        (cur, g) \<leftarrow> need (graph_scale g cur (sqrt_bits (c_n_embd c)));
        (cur, g) \<leftarrow> layer_loop (gemma3_layer s ws) [0 ..< c_n_layer c] (cur, g);
        (fn, g) \<leftarrow> need (graph_rms_norm (graph_set_layer g (c_n_layer c)) cur (w_tensors w TENSOR_OUTPUT_NORM));
        let t_out = (if w_tensors w TENSOR_OUTPUT = None then te else w_tensors w TENSOR_OUTPUT);
        (cur, g) \<leftarrow> need (graph_mul_mat ts g fn t_out (t_dim ts t_out 0 = c_n_embd c));
        (cur, g) \<leftarrow> (if float_gt_0 (ws_logit_softcap ws) then need (graph_softcap g cur (ws_logit_softcap ws))
                     else Some (cur, g));
        Some g })"

section \<open>Checking the builders\<close>

lemma w32_le_iff: "a < 2 ^ 32 \<Longrightarrow> b < 2 ^ 32 \<Longrightarrow> w32 a \<le> w32 b \<longleftrightarrow> a \<le> b"
  by (simp add: word_le_nat_alt unat_w32)

lemma w32_0_iff: "a < 2 ^ 32 \<Longrightarrow> w32 a = 0 \<longleftrightarrow> a = 0"
  using unat_w32 [of a] by (auto simp: w32_def)

lemma heads_okD:
  assumes "heads_ok c"
  shows "q_width c = c_n_head c * c_head_dim c"
    "unat (w32 (c_n_head c)) = c_n_head c" "unat (w32 (c_head_dim c)) = c_head_dim c"
    "unat (w32 (c_n_kv_head c)) = c_n_kv_head c" "unat (w32 (c_kv_head_dim c)) = c_kv_head_dim c"
    "c_kv_head_dim c \<noteq> 0" "c_kv_head_dim c < 2 ^ 32" "c_head_dim c < 2 ^ 32" "c_head_dim c \<noteq> 0"
    "c_n_head c * c_head_dim c < 2 ^ 32" "c_n_kv_head c * c_kv_head_dim c < 2 ^ 32"
    "w32 (c_n_head c) \<noteq> 0" "w32 (c_n_kv_head c) \<noteq> 0" "w32 (c_head_dim c) \<noteq> 0" "w32 (c_kv_head_dim c) \<noteq> 0"
  using assms by (simp_all add: heads_ok_def q_width_def unat_w32_mult unat_w32 w32_0_iff)

text \<open>Which nodes are still unread: an inclusion between the sets the rules build.\<close>

lemmas consumed = Diff_subset_conv insert_subset Un_iff insert_iff simp_thms empty_subsetI

text \<open>The orientation flags of the dense builders agree with how the weight is stored.\<close>

lemma orient:
  assumes "mat_shape ts t rows cols"
  shows "if t_dim ts t 0 = cols then mat_dims ts t cols rows else mat_dims ts t rows cols"
    and "if rows \<noteq> cols \<and> t_dim ts t 0 = cols then mat_dims ts t cols rows else mat_dims ts t rows cols"
  using assms mat_dims_simps(4) [of ts t rows cols] mat_dims_simps(4) [of ts t cols rows]
  by (auto simp: mat_shape_def)

lemma step_opt_bias:
  assumes e: "env ts c S \<Gamma> U g" and x: "(x, d) \<in> \<Gamma>" and t: "t = None \<or> (\<exists>b. vec_shape ts t b)"
    and cont: "\<And>y g'. env ts c S (insert (y, d) \<Gamma>) (insert y (U - {x})) g' \<Longrightarrow> ok (f (y, g')) P"
  shows "ok (Option.bind (opt_bias ts g x t) f) P"
proof (cases "t = None")
  case True
  have "env ts c S (insert (x, d) \<Gamma>) (insert x (U - {x})) g"
    using x by (intro env_weaken [OF e]) (auto simp: insert_absorb)
  then show ?thesis using cont True by (simp add: opt_bias_def)
next
  case False
  then obtain b where b: "vec_shape ts t b" using t by blast
  have "ok (Option.bind (need (graph_bias ts g x t)) f) P"
    by (rule step_bias [OF e x b]) (rule cont)
  then show ?thesis using False by (auto simp: opt_bias_def)
qed

definition dense_layer_ok :: "build_session \<Rightarrow> nat \<Rightarrow> layer_weights \<Rightarrow> bool" where
  "dense_layer_ok s F lw \<longleftrightarrow>
     (let ts = bs_tensors s; c = bs_cfg s; D = c_n_embd c; Q = c_n_head c * c_head_dim c;
          KV = c_n_kv_head c * c_kv_head_dim c in
      mat_shape ts (lw TENSOR_ATTN_Q) Q D \<and> mat_shape ts (lw TENSOR_ATTN_K) KV D
      \<and> mat_shape ts (lw TENSOR_ATTN_V) KV D \<and> mat_shape ts (lw TENSOR_ATTN_OUT) D Q
      \<and> mat_shape ts (lw TENSOR_FFN_GATE) F D \<and> mat_shape ts (lw TENSOR_FFN_UP) F D
      \<and> mat_shape ts (lw TENSOR_FFN_DOWN) D F
      \<and> vec_shape ts (lw TENSOR_ATTN_NORM) D \<and> vec_shape ts (lw TENSOR_POST_ATTN_NORM) D
      \<and> (\<forall>r \<in> {TENSOR_ATTN_Q_BIAS, TENSOR_ATTN_K_BIAS, TENSOR_ATTN_V_BIAS}.
           lw r = None \<or> (\<exists>b. vec_shape ts (lw r) b)))"

lemma mat_shape_Some: "mat_shape ts t a b \<Longrightarrow> t \<noteq> None"
  by (auto simp: mat_shape_def mat_dims_def split: option.splits)

lemma step_boundary_last:
  assumes e: "env ts c S \<Gamma> U g" and x: "(x, d) \<in> \<Gamma>"
    and cont: "\<And>y g'. env ts c S (insert (y, d) \<Gamma>) (insert y (U - {x})) g' \<Longrightarrow> P (y, g')"
  shows "ok (need (graph_layer_boundary g x ngl n_layer l)) P"
proof -
  have "ok (Option.bind (need (graph_layer_boundary g x ngl n_layer l)) Some) P"
    by (rule step_boundary [OF e x]) (simp add: cont)
  then show ?thesis by simp
qed

lemma dense_layer_facts:
  assumes "dense_layer_ok s F lw" and h: "heads_ok (bs_cfg s)"
  defines "ts \<equiv> bs_tensors s" and "D \<equiv> c_n_embd (bs_cfg s)" and "Q \<equiv> q_width (bs_cfg s)"
    and "KV \<equiv> c_n_kv_head (bs_cfg s) * c_kv_head_dim (bs_cfg s)"
  shows
    "if Q \<noteq> D \<and> t_dim ts (lw TENSOR_ATTN_Q) 0 = D then mat_dims ts (lw TENSOR_ATTN_Q) D Q
     else mat_dims ts (lw TENSOR_ATTN_Q) Q D"
    "if t_dim ts (lw TENSOR_ATTN_K) 0 = D then mat_dims ts (lw TENSOR_ATTN_K) D KV
     else mat_dims ts (lw TENSOR_ATTN_K) KV D"
    "if t_dim ts (lw TENSOR_ATTN_V) 0 = D then mat_dims ts (lw TENSOR_ATTN_V) D KV
     else mat_dims ts (lw TENSOR_ATTN_V) KV D"
    "if D \<noteq> Q \<and> t_dim ts (lw TENSOR_ATTN_OUT) 0 = Q then mat_dims ts (lw TENSOR_ATTN_OUT) Q D
     else mat_dims ts (lw TENSOR_ATTN_OUT) D Q"
    "if t_dim ts (lw TENSOR_FFN_GATE) 0 = D then mat_dims ts (lw TENSOR_FFN_GATE) D F
     else mat_dims ts (lw TENSOR_FFN_GATE) F D"
    "if t_dim ts (lw TENSOR_FFN_UP) 0 = D then mat_dims ts (lw TENSOR_FFN_UP) D F
     else mat_dims ts (lw TENSOR_FFN_UP) F D"
    "if t_dim ts (lw TENSOR_FFN_DOWN) 0 = F then mat_dims ts (lw TENSOR_FFN_DOWN) F D
     else mat_dims ts (lw TENSOR_FFN_DOWN) D F"
    "vec_shape ts (lw TENSOR_ATTN_NORM) D" "vec_shape ts (lw TENSOR_POST_ATTN_NORM) D"
    "lw TENSOR_ATTN_Q_BIAS = None \<or> (\<exists>b. vec_shape ts (lw TENSOR_ATTN_Q_BIAS) b)"
    "lw TENSOR_ATTN_K_BIAS = None \<or> (\<exists>b. vec_shape ts (lw TENSOR_ATTN_K_BIAS) b)"
    "lw TENSOR_ATTN_V_BIAS = None \<or> (\<exists>b. vec_shape ts (lw TENSOR_ATTN_V_BIAS) b)"
    "\<not> (lw TENSOR_ATTN_Q = None \<or> lw TENSOR_ATTN_K = None \<or> lw TENSOR_ATTN_V = None
        \<or> lw TENSOR_ATTN_OUT = None \<or> lw TENSOR_FFN_GATE = None \<or> lw TENSOR_FFN_UP = None
        \<or> lw TENSOR_FFN_DOWN = None)"
  using assms(1) mat_shape_Some
  by (simp_all add: dense_layer_ok_def Let_def heads_okD [OF h] orient ts_def D_def Q_def KV_def) blast

lemma heads_widths:
  assumes "heads_ok c"
  shows "c_n_head c * c_head_dim c = unat (w32 (c_n_head c)) * unat (w32 (c_head_dim c))"
    "c_n_kv_head c * c_kv_head_dim c = unat (w32 (c_n_kv_head c)) * unat (w32 (c_kv_head_dim c))"
  using heads_okD [OF assms] by simp_all

lemma llama_layer_ok:
  assumes e: "env (bs_tensors s) (bs_cfg s) 0 {(cur, c_n_embd (bs_cfg s))} {cur} g"
    and h: "heads_ok (bs_cfg s)" and l: "l < c_n_layer (bs_cfg s)"
    and rope: "c_rope_dim (bs_cfg s) \<le> c_head_dim (bs_cfg s)"
    and lw: "dense_layer_ok s (ws_ffn_hidden ws) (w_layers (bs_weights s) ! l)"
  shows "ok (llama_layer s ws l (cur, g))
    (\<lambda>(y, g'). env (bs_tensors s) (bs_cfg s) 0 {(y, c_n_embd (bs_cfg s))} {y} g')"
proof -
  note lws = dense_layer_facts [OF lw h, unfolded heads_okD(1) [OF h]]
  let ?c = "bs_cfg s"
  let ?rd = "if c_rope_dim ?c \<noteq> 0 then c_rope_dim ?c else c_head_dim ?c"
  have kvd: "(if c_kv_head_dim ?c \<noteq> 0 then c_kv_head_dim ?c else c_head_dim ?c) = c_kv_head_dim ?c"
    using heads_okD(6) [OF h] by simp
  have rd: "w32 ?rd \<noteq> 0" "w32 ?rd \<le> w32 (c_head_dim ?c)"
    using rope heads_okD(8,9) [OF h] by (auto simp: w32_le_iff w32_0_iff)
  have rk: "w32 (if ?rd \<le> c_kv_head_dim ?c then ?rd else c_kv_head_dim ?c) \<noteq> 0"
    "w32 (if ?rd \<le> c_kv_head_dim ?c then ?rd else c_kv_head_dim ?c) \<le> w32 (c_kv_head_dim ?c)"
    using rope heads_okD [OF h] by (auto simp: w32_le_iff w32_0_iff)
  have g0: "env (bs_tensors s) ?c 0 {(cur, c_n_embd ?c)} {cur} (graph_set_layer g l)"
    using e by simp
  show ?thesis
    unfolding llama_layer_def Let_def prod.case kvd if_not_P [OF lws(13)] heads_okD(1) [OF h]
    apply (rule steps g0 step_opt_bias step_boundary_last lws rd rk heads_widths [OF h] l h
      | assumption | rule insertI1 | rule insertI2
      | simp (no_asm) only: prod.case | (rule disjI1, rule refl) | (rule disjI2, rule refl))+
    apply (rule env_weaken, assumption)
    apply (rule insert_mono, rule empty_subsetI)
    apply (simp (no_asm) only: consumed)
    done
qed

lemma qwen25_layer_ok:
  assumes e: "env (bs_tensors s) (bs_cfg s) 0 {(cur, c_n_embd (bs_cfg s))} {cur} g"
    and h: "heads_ok (bs_cfg s)" and l: "l < c_n_layer (bs_cfg s)"
    and lw: "dense_layer_ok s (ws_ffn_hidden ws) (w_layers (bs_weights s) ! l)"
  shows "ok (qwen25_layer s ws l (cur, g))
    (\<lambda>(y, g'). env (bs_tensors s) (bs_cfg s) 0 {(y, c_n_embd (bs_cfg s))} {y} g')"
proof -
  note lws = dense_layer_facts [OF lw h, unfolded heads_okD(1) [OF h]]
  let ?c = "bs_cfg s"
  have g0: "env (bs_tensors s) ?c 0 {(cur, c_n_embd ?c)} {cur} (graph_set_layer g l)"
    using e by simp
  show ?thesis
    unfolding qwen25_layer_def Let_def prod.case if_not_P [OF lws(13)] heads_okD(1) [OF h]
    apply (rule steps g0 step_opt_bias step_boundary_last lws order_refl heads_widths [OF h] heads_okD(14,15) [OF h] l h
      | assumption | rule insertI1 | rule insertI2
      | simp (no_asm) only: prod.case | (rule disjI1, rule refl) | (rule disjI2, rule refl))+
    apply (rule env_weaken, assumption)
    apply (rule insert_mono, rule empty_subsetI)
    apply (simp (no_asm) only: consumed)
    done
qed

text \<open>Gemma adds per-head norms and a norm after each block.\<close>

definition gemma3_layer_ok :: "build_session \<Rightarrow> nat \<Rightarrow> layer_weights \<Rightarrow> bool" where
  "gemma3_layer_ok s F lw \<longleftrightarrow>
     dense_layer_ok s F lw
     \<and> vec_shape (bs_tensors s) (lw TENSOR_ATTN_Q_NORM) (c_head_dim (bs_cfg s))
     \<and> vec_shape (bs_tensors s) (lw TENSOR_ATTN_K_NORM) (c_kv_head_dim (bs_cfg s))
     \<and> vec_shape (bs_tensors s) (lw TENSOR_FFN_NORM) (c_n_embd (bs_cfg s))
     \<and> vec_shape (bs_tensors s) (lw TENSOR_FFN_POST_NORM) (c_n_embd (bs_cfg s))"

lemma gemma3_layer_ok_step:
  assumes e: "env (bs_tensors s) (bs_cfg s) 0 {(cur, c_n_embd (bs_cfg s))} {cur} g"
    and h: "heads_ok (bs_cfg s)" and l: "l < c_n_layer (bs_cfg s)"
    and lw: "gemma3_layer_ok s (ws_ffn_hidden ws) (w_layers (bs_weights s) ! l)"
  shows "ok (gemma3_layer s ws l (cur, g))
    (\<lambda>(y, g'). env (bs_tensors s) (bs_cfg s) 0 {(y, c_n_embd (bs_cfg s))} {y} g')"
proof -
  let ?c = "bs_cfg s" and ?ts = "bs_tensors s" and ?lw = "w_layers (bs_weights s) ! l"
  have dense: "dense_layer_ok s (ws_ffn_hidden ws) ?lw" using lw by (simp add: gemma3_layer_ok_def)
  note lws = dense_layer_facts [OF dense h, unfolded heads_okD(1) [OF h]]
  have norms: "vec_shape ?ts (?lw TENSOR_ATTN_Q_NORM) (unat (w32 (c_head_dim ?c)))"
    "vec_shape ?ts (?lw TENSOR_ATTN_K_NORM) (unat (w32 (c_kv_head_dim ?c)))"
    "vec_shape ?ts (?lw TENSOR_FFN_NORM) (c_n_embd ?c)" "vec_shape ?ts (?lw TENSOR_FFN_POST_NORM) (c_n_embd ?c)"
    using lw heads_okD [OF h] by (simp_all add: gemma3_layer_ok_def)
  have small: "unat (w32 (c_n_head ?c)) * unat (w32 (c_head_dim ?c)) < 2 ^ 32"
    "unat (w32 (c_n_kv_head ?c)) * unat (w32 (c_kv_head_dim ?c)) < 2 ^ 32"
    using heads_okD [OF h] by simp_all
  have g0: "env ?ts ?c 0 {(cur, c_n_embd ?c)} {cur} (graph_set_layer g l)"
    using e by simp
  show ?thesis
    unfolding gemma3_layer_def Let_def prod.case if_not_P [OF lws(13)] heads_okD(1) [OF h]
    apply (rule steps g0 step_boundary_last lws norms small order_refl heads_widths [OF h] heads_okD(12-15) [OF h] l h
      | assumption | rule insertI1 | rule insertI2
      | simp (no_asm) only: prod.case | (rule disjI1, rule refl) | (rule disjI2, rule refl))+
    apply (rule env_weaken, assumption)
    apply (rule insert_mono, rule empty_subsetI)
    apply (simp (no_asm) only: consumed)
    done
qed

lemma layer_loop_ok:
  assumes "\<And>l cur g. l \<in> set ls \<Longrightarrow> env ts c 0 {(cur, d)} {cur} g
      \<Longrightarrow> ok (f l (cur, g)) (\<lambda>(y, g'). env ts c 0 {(y, d)} {y} g')"
    and "env ts c 0 {(cur, d)} {cur} g"
  shows "ok (layer_loop f ls (cur, g)) (\<lambda>(y, g'). env ts c 0 {(y, d)} {y} g')"
  using assms
proof (induction ls arbitrary: cur g)
  case Nil
  then show ?case by simp
next
  case (Cons l ls)
  show ?case
    unfolding layer_loop.simps
  proof (rule ok_bind [OF Cons.prems(1) [OF _ Cons.prems(2)]])
    show "l \<in> set (l # ls)" by simp
    fix r
    assume r: "case r of (y, g') \<Rightarrow> env ts c 0 {(y, d)} {y} g'"
    show "ok (layer_loop f ls r) (\<lambda>(y, g'). env ts c 0 {(y, d)} {y} g')"
    proof (cases r)
      case (Pair y g')
      show ?thesis
        unfolding Pair
      proof (rule Cons.IH)
        show "env ts c 0 {(y, d)} {y} g'" using r Pair by simp
        show "ok (f k (z, h)) (\<lambda>(y, g'). env ts c 0 {(y, d)} {y} g')"
          if "k \<in> set ls" and "env ts c 0 {(z, d)} {z} h" for k z h
          using that by (intro Cons.prems(1)) simp_all
      qed
    qed
  qed
qed

lemma step_layers:
  assumes "env ts c 0 {(cur, d)} {cur} g"
    and "\<And>l cur g. l < n \<Longrightarrow> env ts c 0 {(cur, d)} {cur} g
      \<Longrightarrow> ok (F l (cur, g)) (\<lambda>(y, g'). env ts c 0 {(y, d)} {y} g')"
    and "\<And>y g'. env ts c 0 {(y, d)} {y} g' \<Longrightarrow> ok (f (y, g')) P"
  shows "ok (Option.bind (layer_loop F [0 ..< n] (cur, g)) f) P"
  by (rule ok_bind, rule layer_loop_ok [where d = d]) (use assms in auto)

section \<open>What a built graph is\<close>

definition head_ok :: "build_session \<Rightarrow> bool" where
  "head_ok s \<longleftrightarrow>
     (let c = bs_cfg s; ts = bs_tensors s; w = w_tensors (bs_weights s) in
      mat_shape ts (w TENSOR_TOKEN_EMBD) (c_n_vocab c) (c_n_embd c)
      \<and> (w TENSOR_OUTPUT = None \<or> mat_shape ts (w TENSOR_OUTPUT) (c_n_vocab c) (c_n_embd c))
      \<and> vec_shape ts (w TENSOR_OUTPUT_NORM) (c_n_embd c))"

text \<open>A complete graph: well typed, its last node the LM head, and that node its only sink.\<close>

definition complete_graph :: "build_session \<Rightarrow> graph \<Rightarrow> bool" where
  "complete_graph s g \<longleftrightarrow>
     graph_typed (bs_tensors s) (bs_cfg s) g
     \<and> (\<forall>i < length (g_nodes g). is_sink (g_nodes g) i = (i = length (g_nodes g) - 1))
     \<and> g_nodes g \<noteq> []
     \<and> unat (last (node_dims (bs_tensors s) (bs_cfg s) (g_nodes g))) = c_n_vocab (bs_cfg s)"

lemma last_is_sink:
  assumes g: "graph_typed ts c g" and n: "g_nodes g \<noteq> []"
  shows "is_sink (g_nodes g) (length (g_nodes g) - 1)"
proof -
  let ?N = "length (g_nodes g)"
  have "j < i" if "i < ?N" and "Some j \<in> set (gn_src (g_nodes g ! i))" for i j
  proof -
    from that obtain k where "k < length (gn_src (g_nodes g ! i))" and k: "gn_src (g_nodes g ! i) ! k = Some j"
      by (auto simp: in_set_conv_nth)
    moreover have t: "node_typed ts c (length (g_state g)) (node_dims ts c (g_nodes g)) i (g_nodes g ! i)"
      using g that(1) by (simp add: graph_typed_def)
    ultimately have "k < 4" by (simp add: node_typed_def)
    with t k show ?thesis unfolding node_typed_def by (auto dest: spec [of _ k])
  qed
  then show ?thesis
    by (auto simp: is_sink_def list_ex_length node_reads_def) (metis Suc_pred length_greater_0_conv n not_less_eq order_less_asym')
qed

lemma env_complete:
  assumes e': "env (bs_tensors s) (bs_cfg s) S \<Gamma> U g" and y: "(y, c_n_vocab (bs_cfg s)) \<in> \<Gamma>" and U: "U \<subseteq> {y}"
  shows "complete_graph s g"
proof -
  note e = env_weaken [OF e' subset_refl U]
  let ?N = "length (g_nodes g)"
  obtain i where i: "i < ?N" "y = Some i"
      "unat (node_dims (bs_tensors s) (bs_cfg s) (g_nodes g) ! i) = c_n_vocab (bs_cfg s)"
    using env_width [OF e y] by (auto simp: has_width_def)
  have "is_sink (g_nodes g) (?N - 1)"
    using i by (intro last_is_sink [OF env_typed [OF e]]) auto
  then have i1: "?N - 1 = i" and sink: "is_sink (g_nodes g) i"
    using env_sink [OF e, of "?N - 1"] i(1,2) by auto
  have only: "is_sink (g_nodes g) j = (j = ?N - 1)" if "j < ?N" for j
    using env_sink [OF e that] sink i(2) i1 by auto
  let ?D = "node_dims (bs_tensors s) (bs_cfg s) (g_nodes g)"
  have ne: "g_nodes g \<noteq> []" using i(1) by auto
  have "length ?D = ?N" by simp
  then have "?D \<noteq> []" using i(1) by (metis length_0_conv not_less_zero)
  then have "last ?D = ?D ! (?N - 1)" by (simp add: last_conv_nth)
  then have "unat (last ?D) = c_n_vocab (bs_cfg s)" using i(3) i1 by simp
  then show ?thesis
    unfolding complete_graph_def using env_typed [OF e] only ne by simp
qed


lemmas head_facts = head_ok_def Let_def

lemma head_orient:
  assumes "head_ok s"
  defines "t \<equiv> (if w_tensors (bs_weights s) TENSOR_OUTPUT = None then w_tensors (bs_weights s) TENSOR_TOKEN_EMBD
                else w_tensors (bs_weights s) TENSOR_OUTPUT)"
  shows "if t_dim (bs_tensors s) t 0 = c_n_embd (bs_cfg s)
         then mat_dims (bs_tensors s) t (c_n_embd (bs_cfg s)) (c_n_vocab (bs_cfg s))
         else mat_dims (bs_tensors s) t (c_n_vocab (bs_cfg s)) (c_n_embd (bs_cfg s))"
  by (rule orient(1)) (use assms in \<open>auto simp: head_facts\<close>)

lemma head_present:
  assumes "head_ok s"
  shows "\<not> (w_tensors (bs_weights s) TENSOR_TOKEN_EMBD = None
      \<or> t_ndim (bs_tensors s) (w_tensors (bs_weights s) TENSOR_TOKEN_EMBD) < 2)"
  using assms mat_dims_simps(1,3) by (auto simp: head_facts mat_shape_def)

lemma step_head:
  assumes e: "env (bs_tensors s) (bs_cfg s) 0 {(cur, c_n_embd (bs_cfg s))} {cur} g"
    and hd: "head_ok s" and norm: "vec_shape (bs_tensors s) t_norm (c_n_embd (bs_cfg s))"
    and cont: "\<And>y g'. env (bs_tensors s) (bs_cfg s) 0 {(y, c_n_vocab (bs_cfg s))} {y} g' \<Longrightarrow> ok (f (y, g')) P"
  defines "t \<equiv> (if w_tensors (bs_weights s) TENSOR_OUTPUT = None then w_tensors (bs_weights s) TENSOR_TOKEN_EMBD
                else w_tensors (bs_weights s) TENSOR_OUTPUT)"
  shows "ok (Option.bind (need (graph_rms_norm (graph_set_layer g k) cur t_norm)) (\<lambda>(fn, g).
      Option.bind (need (graph_mul_mat (bs_tensors s) g fn t (t_dim (bs_tensors s) t 0 = c_n_embd (bs_cfg s)))) f)) P"
  unfolding t_def
  apply (rule step_rms_norm [OF env_layer [THEN iffD2]], rule e, rule insertI1, rule norm)
  apply (simp only: prod.case)
  apply (rule step_mul_mat, assumption, rule insertI1, rule head_orient [OF hd])
  apply (rule cont, rule env_weaken, assumption)
   apply (rule insert_mono, rule empty_subsetI)
  apply (simp (no_asm) only: consumed)
  done

lemma ok_complete: "ok m (complete_graph s) \<Longrightarrow> \<exists>g. m = Some g \<and> complete_graph s g"
  by (auto simp: ok_def split: option.splits)

lemma head_shapes:
  assumes "head_ok s"
  shows "mat_shape (bs_tensors s) (w_tensors (bs_weights s) TENSOR_TOKEN_EMBD) (c_n_vocab (bs_cfg s)) (c_n_embd (bs_cfg s))"
    and "vec_shape (bs_tensors s) (w_tensors (bs_weights s) TENSOR_OUTPUT_NORM) (c_n_embd (bs_cfg s))"
  using assms by (simp_all add: head_facts)

lemma output_norm_present:
  "head_ok s \<Longrightarrow> (if w_tensors (bs_weights s) TENSOR_OUTPUT_NORM = None then x
     else w_tensors (bs_weights s) TENSOR_OUTPUT_NORM) = w_tensors (bs_weights s) TENSOR_OUTPUT_NORM"
  by (auto simp: head_facts vec_shape_def split: option.splits)

section \<open>Each dense builder yields a complete graph\<close>

text \<open>The hypotheses: shapes of a loaded model, either storage order for every matrix.\<close>

definition llama_shapes :: "build_session \<Rightarrow> dense_ws \<Rightarrow> bool" where
  "llama_shapes s ws \<longleftrightarrow>
     heads_ok (bs_cfg s) \<and> c_rope_dim (bs_cfg s) \<le> c_head_dim (bs_cfg s) \<and> head_ok s
     \<and> (\<forall>l < c_n_layer (bs_cfg s). dense_layer_ok s (ws_ffn_hidden ws) (w_layers (bs_weights s) ! l))"

definition qwen25_shapes :: "build_session \<Rightarrow> dense_ws \<Rightarrow> bool" where
  "qwen25_shapes s ws \<longleftrightarrow>
     heads_ok (bs_cfg s) \<and> head_ok s
     \<and> (\<forall>l < c_n_layer (bs_cfg s). dense_layer_ok s (ws_ffn_hidden ws) (w_layers (bs_weights s) ! l))"

definition gemma3_shapes :: "build_session \<Rightarrow> gemma3_ws \<Rightarrow> bool" where
  "gemma3_shapes s ws \<longleftrightarrow>
     heads_ok (bs_cfg s) \<and> head_ok s
     \<and> (\<forall>l < c_n_layer (bs_cfg s). gemma3_layer_ok s (ws_ffn_hidden ws) (w_layers (bs_weights s) ! l))"

lemma llama_complete:
  assumes shapes: "llama_shapes s ws" and n: "0 < n" "n \<le> bs_ctx_size s" "n < 2 ^ 31"
  shows "\<exists>g. llama_graph_build s ws n = Some g \<and> complete_graph s g"
proof (rule ok_complete)
  have h: "heads_ok (bs_cfg s)" and rope: "c_rope_dim (bs_cfg s) \<le> c_head_dim (bs_cfg s)" and hd: "head_ok s"
    and lw: "l < c_n_layer (bs_cfg s) \<Longrightarrow> dense_layer_ok s (ws_ffn_hidden ws) (w_layers (bs_weights s) ! l)" for l
    using shapes by (simp_all add: llama_shapes_def)
  have range: "\<not> (n = 0 \<or> n > bs_ctx_size s)" using n by simp
  show "ok (llama_graph_build s ws n) (complete_graph s)"
    unfolding llama_graph_build_def Let_def if_not_P [OF range] if_not_P [OF head_present [OF hd]]
    apply (rule step_input_embed [OF n(1,3) head_shapes(1) [OF hd]], simp only: prod.case)
    apply (rule step_layers, assumption)
     apply (rule llama_layer_ok, assumption, rule h, assumption, rule rope, erule lw)
    apply (simp only: prod.case)
    apply (rule step_head [OF _ hd head_shapes(2) [OF hd]], assumption)
    apply (simp only: prod.case ok_Some)
    apply (erule env_complete, rule insertI1, rule subset_refl)
    done
qed

lemma qwen25_complete:
  assumes shapes: "qwen25_shapes s ws" and n: "0 < n" "n \<le> bs_ctx_size s" "n < 2 ^ 31"
  shows "\<exists>g. qwen25_graph_build s ws n = Some g \<and> complete_graph s g"
proof (rule ok_complete)
  have h: "heads_ok (bs_cfg s)" and hd: "head_ok s"
    and lw: "l < c_n_layer (bs_cfg s) \<Longrightarrow> dense_layer_ok s (ws_ffn_hidden ws) (w_layers (bs_weights s) ! l)" for l
    using shapes by (simp_all add: qwen25_shapes_def)
  have range: "\<not> (n = 0 \<or> n > bs_ctx_size s)" using n by simp
  show "ok (qwen25_graph_build s ws n) (complete_graph s)"
    unfolding qwen25_graph_build_def Let_def if_not_P [OF range] if_not_P [OF head_present [OF hd]]
      output_norm_present [OF hd]
    apply (rule step_input_embed [OF n(1,3) head_shapes(1) [OF hd]], simp only: prod.case)
    apply (rule step_layers, assumption)
     apply (rule qwen25_layer_ok, assumption, rule h, assumption, erule lw)
    apply (simp only: prod.case)
    apply (rule step_head [OF _ hd head_shapes(2) [OF hd]], assumption)
    apply (simp only: prod.case ok_Some)
    apply (erule env_complete, rule insertI1, rule subset_refl)
    done
qed

lemma gemma3_complete:
  assumes shapes: "gemma3_shapes s ws" and n: "0 < n" "n \<le> bs_ctx_size s" "n < 2 ^ 31"
  shows "\<exists>g. gemma3_graph_build sqrt_bits s ws n = Some g \<and> complete_graph s g"
proof (rule ok_complete)
  have h: "heads_ok (bs_cfg s)" and hd: "head_ok s"
    and lw: "l < c_n_layer (bs_cfg s) \<Longrightarrow> gemma3_layer_ok s (ws_ffn_hidden ws) (w_layers (bs_weights s) ! l)" for l
    using shapes by (simp_all add: gemma3_shapes_def)
  have range: "\<not> (n = 0 \<or> n > bs_ctx_size s)" using n by simp
  have cap: "\<not> float_le_0 b" if "float_gt_0 b" for b
    using that unfolding float_gt_0_def float_le_0_def word_le_nat_alt word_less_nat_alt by auto
  show "ok (gemma3_graph_build sqrt_bits s ws n) (complete_graph s)"
    unfolding gemma3_graph_build_def Let_def if_not_P [OF range] if_not_P [OF head_present [OF hd]]
    apply (rule step_input_embed [OF n(1,3) head_shapes(1) [OF hd]], simp only: prod.case)
    apply (rule step_scale, assumption, rule insertI1, simp only: prod.case)
    apply (rule step_layers, rule env_weaken, assumption, rule insert_mono, rule empty_subsetI)
      apply (simp (no_asm) only: consumed)
     apply (rule gemma3_layer_ok_step, assumption, rule h, assumption, erule lw)
    apply (simp only: prod.case)
    apply (rule step_head [OF _ hd head_shapes(2) [OF hd]], assumption)
    apply (simp only: prod.case)
    apply (split if_split, intro conjI impI)
     apply (rule step_softcap, assumption, rule insertI1, erule cap)
     apply (simp only: prod.case ok_Some)
     apply (erule env_complete, rule insertI1, simp (no_asm) only: consumed)
    apply (simp only: bind.bind_lunit prod.case ok_Some)
    apply (erule env_complete, rule insertI1, rule subset_refl)
    done
qed

section \<open>A small model\<close>

definition toy_tensor :: "nat list \<Rightarrow> tensor_info" where
  "toy_tensor dims = \<lparr>ti_key = ''t'', ti_dim = dims, ti_type = 0, ti_offset = 0, ti_n_element = prod_list dims,
     ti_bytes = 4 * prod_list dims, ti_padded_dim = 0\<rparr>"

definition toy_tensors :: "nat \<Rightarrow> tensor_info list" where
  "toy_tensors kv = map toy_tensor [[6, 4], [4], [4, 4], [kv, 4], [kv, 4], [4, 4], [8, 4], [8, 4], [4, 8], [2]]"

definition toy_layer :: layer_weights where
  "toy_layer = map_of [(TENSOR_ATTN_NORM, 1), (TENSOR_POST_ATTN_NORM, 1), (TENSOR_FFN_NORM, 1), (TENSOR_FFN_POST_NORM, 1),
     (TENSOR_ATTN_Q, 2), (TENSOR_ATTN_K, 3), (TENSOR_ATTN_V, 4), (TENSOR_ATTN_OUT, 5), (TENSOR_FFN_GATE, 6),
     (TENSOR_FFN_UP, 7), (TENSOR_FFN_DOWN, 8), (TENSOR_ATTN_Q_NORM, 9), (TENSOR_ATTN_K_NORM, 9)]"

definition toy_session :: "nat \<Rightarrow> build_session" where
  "toy_session n_kv = \<lparr>
     bs_cfg = \<lparr>c_n_head = 2, c_n_kv_head = n_kv, c_head_dim = 2, c_kv_head_dim = 2, c_rope_dim = 2, c_n_embd = 4,
       c_n_layer = 2, c_n_vocab = 6, c_kv_lora_rank = 0, c_qk_nope_head_dim = 0, c_qk_rope_head_dim = 0\<rparr>,
     bs_tensors = toy_tensors (2 * n_kv),
     bs_weights = \<lparr>w_n_layer = 2, w_tensors = [TENSOR_TOKEN_EMBD \<mapsto> 0, TENSOR_OUTPUT_NORM \<mapsto> 1],
       w_layers = [toy_layer, toy_layer]\<rparr>,
     bs_ctx_size = 16, bs_ngl = 0\<rparr>"

definition toy_ws :: dense_ws where
  "toy_ws = \<lparr>ws_ffn_hidden = 8, ws_rope_theta = 0x461C4000\<rparr>"

definition toy_gemma :: gemma3_ws where
  "toy_gemma = \<lparr>ws_ffn_hidden = 8, ws_rope_theta = 0x49742400, ws_rope_theta_swa = 0x461C4000, ws_n_swa = 4,
     ws_attn_scale = 0x3F800000, ws_logit_softcap = 0x41F00000\<rparr>"

lemmas toy_defs = toy_session_def toy_tensors_def toy_tensor_def toy_layer_def toy_ws_def toy_gemma_def

lemma toy_shapes:
  assumes "k = 1 \<or> k = 2"
  shows "llama_shapes (toy_session k) toy_ws" "qwen25_shapes (toy_session k) toy_ws" "gemma3_shapes (toy_session k) toy_gemma"
  using assms
  by (auto simp: toy_defs llama_shapes_def qwen25_shapes_def gemma3_shapes_def heads_ok_def head_ok_def dense_layer_ok_def
      gemma3_layer_ok_def Let_def mat_shape_def mat_dims_def vec_shape_def less_2_cases_iff nth_Cons')

section \<open>Properties\<close>

text \<open>C34: the graph of a dense model.  For every model whose tensors have the architecture's
  shapes, stored \<open>[out, in]\<close> or \<open>[in, out]\<close>, and every batch capacity up to the context, the
  Llama, Qwen 2.5 and Gemma 3 builders succeed, and the graph is complete: each node reads only
  earlier nodes, has every operand and weight its operator dereferences, a non-zero width, and
  sources exactly as wide as the operator reads; the only node nobody reads is the last one,
  the LM head, and its row is one logit per token of the vocabulary.\<close>

theorem dense_graphs_complete:
  assumes "0 < n" and "n \<le> bs_ctx_size s" and "n < 2 ^ 31"
  shows "(llama_shapes s ws \<longrightarrow> (\<exists>g. llama_graph_build s ws n = Some g \<and> complete_graph s g))
    \<and> (qwen25_shapes s ws \<longrightarrow> (\<exists>g. qwen25_graph_build s ws n = Some g \<and> complete_graph s g))
    \<and> (gemma3_shapes s gws \<longrightarrow> (\<exists>g. gemma3_graph_build sqrt_bits s gws n = Some g \<and> complete_graph s g))"
  using llama_complete qwen25_complete gemma3_complete assms by blast

theorem dense_graphs_complete_witness:
  "(\<exists>g. llama_graph_build (toy_session 1) toy_ws 4 = Some g \<and> complete_graph (toy_session 1) g)
   \<and> (\<exists>g. qwen25_graph_build (toy_session 1) toy_ws 4 = Some g \<and> complete_graph (toy_session 1) g)
   \<and> (\<exists>g. gemma3_graph_build (\<lambda>_. 0x40000000) (toy_session 1) toy_gemma 4 = Some g
          \<and> complete_graph (toy_session 1) g)"
proof -
  have "0 < (4 :: nat)" "4 \<le> bs_ctx_size (toy_session 1)" "(4 :: nat) < 2 ^ 31" by (simp_all add: toy_session_def)
  from dense_graphs_complete [OF this, of toy_ws toy_gemma "\<lambda>_. 0x40000000"] show ?thesis using toy_shapes [of 1] by blast
qed



text \<open>With as many key/value heads as query heads, all three projections are square and stored
  alike, yet the graph reads \<open>K\<close> and \<open>V\<close> transposed and \<open>Q\<close> as it is: only the flag of \<open>Q\<close>
  leaves out the square case.\<close>

lemma square_kv_transposed:
  "map gn_op (take 4 (g_nodes (snd (the (llama_layer (toy_session 2) toy_ws 0 (Some 0, graph_new))))))
     = [OP_RMS_NORM, OP_MATMUL, OP_MATMUL_T, OP_MATMUL_T]
   \<and> map (\<lambda>i. ti_dim (toy_tensors 4 ! i)) [2, 3, 4] = [[4, 4], [4, 4], [4, 4]]"
  by (simp add: llama_layer_def toy_defs graph_rms_norm_def graph_mul_mat_def opt_bias_def graph_rope_norm_def
    graph_attn_def graph_binary_def graph_silu_def graph_layer_boundary_def node_add_def need_def Let_def
    t_ndim_def t_dim_def t_at_def ti_ndim_def q_width_def w32_def graph_new_def graph_set_layer_def)

end
