(* ===== verification/HybridGraphs.thy ===== *)
theory HybridGraphs
  imports DenseGraphs
begin

text \<open>The graph builders of the two hybrid architectures: \<open>model/falcon_h1.c\<close> (attention and a
  Mamba2 mixer side by side in every layer) and \<open>model/qwen35.c\<close> (Gated DeltaNet layers mixed
  with dense attention layers), with the geometry their \<open>init\<close> functions compute.  The recurrent
  state buffers are named by numbers: buffer \<open>2 * i\<close> and \<open>2 * i + 1\<close> belong to layer \<open>i\<close>.\<close>

section \<open>Falcon-H1 workspace\<close>

record fh1_ws =
  fh_d_inner :: u32
  fh_d_state :: u32
  fh_n_group :: u32
  fh_n_head :: u32
  fh_head_dim :: u32
  fh_conv_kernel :: u32
  fh_conv_dim :: u32
  fh_rope_theta :: u32
  fh_conv_state :: "nat option list"
  fh_ssm_state :: "nat option list"

text \<open>Two attempts: the file's own prefix, then the generic one; a key of 96 bytes or more
  is not looked up.\<close>

definition fh1_key :: "string \<Rightarrow> string \<Rightarrow> string option" where
  "fh1_key pfx suffix = (let k = pfx @ ''.'' @ suffix in if length k < 96 then Some k else None)"

definition fh1_get_i32 :: "model \<Rightarrow> string \<Rightarrow> int option" where
  "fh1_get_i32 m suffix =
     (let pfx = ws_prefix m ''falcon-h1'' in
      case Option.bind (fh1_key pfx suffix) (model_get_i32 m) of
        Some v \<Rightarrow> Some v
      | None \<Rightarrow> if pfx \<noteq> ''falcon-h1'' then Option.bind (fh1_key ''falcon-h1'' suffix) (model_get_i32 m) else None)"

definition fh1_get_f32 :: "model \<Rightarrow> string \<Rightarrow> u32 option" where
  "fh1_get_f32 m suffix =
     (let pfx = ws_prefix m ''falcon-h1'' in
      case Option.bind (fh1_key pfx suffix) (model_get_f32 m) of
        Some v \<Rightarrow> Some v
      | None \<Rightarrow> if pfx \<noteq> ''falcon-h1'' then Option.bind (fh1_key ''falcon-h1'' suffix) (model_get_f32 m) else None)"

definition fh1_u32 :: "model \<Rightarrow> string \<Rightarrow> u32 \<Rightarrow> u32" where
  "fh1_u32 m suffix dflt = (case fh1_get_i32 m suffix of Some v \<Rightarrow> word_of_int v | None \<Rightarrow> dflt)"

text \<open>\<open>fh1_mm_trans\<close> and \<open>ssm_mm_trans\<close> are the same function.\<close>

definition fh1_mm_trans :: "tensor_info list \<Rightarrow> tensor_ref \<Rightarrow> nat \<Rightarrow> nat \<Rightarrow> bool" where
  "fh1_mm_trans ts t rows cols =
     (if t = None \<or> t_ndim ts t < 2 then False
      else let d0 = t_dim ts t 0; d1 = t_dim ts t 1 in
        if d0 = rows \<and> d1 = cols then False
        else if d0 = cols \<and> d1 = rows then True
        else d0 = cols)"

definition falcon_h1_init :: "model \<Rightarrow> build_session \<Rightarrow> fh1_ws \<times> build_session" where
  "falcon_h1_init m s =
     (let c = bs_cfg s; e = w32 (c_n_embd c);
          d_inner = fh1_u32 m ''ssm.inner_size'' (2 * e);
          d_state = fh1_u32 m ''ssm.state_size'' 128;
          ng0 = fh1_u32 m ''ssm.group_count'' 1;
          nh0 = fh1_u32 m ''ssm.time_step_rank'' (if e div 64 \<noteq> 0 then e div 64 else 1);
          ck0 = fh1_u32 m ''ssm.conv_kernel'' 4;
          ng = (if ng0 = 0 then 1 else ng0);
          nh = (if nh0 = 0 then 1 else nh0);
          ck = (if ck0 = 0 then 4 else ck0) in
      (\<lparr>fh_d_inner = d_inner, fh_d_state = d_state, fh_n_group = ng, fh_n_head = nh,
        fh_head_dim = (if d_inner \<noteq> 0 then d_inner div nh else 0), fh_conv_kernel = ck,
        fh_conv_dim = d_inner + 2 * ng * d_state,
        fh_rope_theta = (case fh1_get_f32 m ''rope.freq_base'' of Some v \<Rightarrow> v | None \<Rightarrow> 0x461C4000),
        fh_conv_state = map (\<lambda>i. Some (2 * i)) [0 ..< c_n_layer c],
        fh_ssm_state = map (\<lambda>i. Some (2 * i + 1)) [0 ..< c_n_layer c]\<rparr>,
       s\<lparr>bs_ngl := 0\<rparr>))"

text \<open>ChatML's end marker replaces the generic end-of-sequence id.\<close>

definition falcon_h1_eos :: "nat \<Rightarrow> nat \<Rightarrow> nat" where
  "falcon_h1_eos im_end_id eos_id = (if im_end_id \<noteq> 2 ^ 32 - 1 then im_end_id else eos_id)"

section \<open>Falcon-H1 graph\<close>

definition kv_width :: "arch_config \<Rightarrow> nat" where
  "kv_width c = unat (w32 (c_n_kv_head c) * w32 (c_kv_head_dim c))"

definition falcon_h1_layer :: "build_session \<Rightarrow> fh1_ws \<Rightarrow> nat \<Rightarrow> node_ref \<times> graph \<Rightarrow> (node_ref \<times> graph) option" where
  "falcon_h1_layer s ws l st =
     (case st of (cur, g0) \<Rightarrow>
      let c = bs_cfg s; ts = bs_tensors s; lw = w_layers (bs_weights s) ! l;
          n_embd = c_n_embd c; q_dim = q_width c;
          rope_dim = (if c_rope_dim c \<noteq> 0 then c_rope_dim c else c_head_dim c);
          t_q = lw TENSOR_ATTN_Q; t_k = lw TENSOR_ATTN_K; t_v = lw TENSOR_ATTN_V; t_o = lw TENSOR_ATTN_OUT;
          t_g = lw TENSOR_FFN_GATE; t_u = lw TENSOR_FFN_UP; t_d = lw TENSOR_FFN_DOWN;
          t_in = lw TENSOR_SSM_IN; t_conv = lw TENSOR_SSM_CONV1D; t_cb = lw TENSOR_SSM_CONV1D_BIAS;
          t_a = lw TENSOR_SSM_A; t_dd = lw TENSOR_SSM_D; t_dt = lw TENSOR_SSM_DT_BIAS;
          t_sn = lw TENSOR_SSM_NORM; t_so = lw TENSOR_SSM_OUT;
          proj_dim = unat (fh_d_inner ws + fh_conv_dim ws + fh_n_head ws);
          ffn_hidden = t_dim ts t_g 0 mod 2 ^ 32;
          t_fn = (if lw TENSOR_FFN_NORM = None then lw TENSOR_POST_ATTN_NORM else lw TENSOR_FFN_NORM);
          g = graph_set_layer g0 l in
      if t_q = None \<or> t_k = None \<or> t_v = None \<or> t_o = None \<or> t_g = None \<or> t_u = None \<or> t_d = None
         \<or> t_in = None \<or> t_conv = None \<or> t_a = None \<or> t_dd = None \<or> t_dt = None \<or> t_so = None then None
      else if fh_conv_state ws ! l = None \<or> fh_ssm_state ws ! l = None then None
      else do {
        (n, g) \<leftarrow> need (graph_rms_norm g cur (lw TENSOR_ATTN_NORM));
        (q, g) \<leftarrow> need (graph_mul_mat ts g n t_q (fh1_mm_trans ts t_q q_dim n_embd));
        (k, g) \<leftarrow> need (graph_mul_mat ts g n t_k (fh1_mm_trans ts t_k (kv_width c) n_embd));
        (v, g) \<leftarrow> need (graph_mul_mat ts g n t_v (fh1_mm_trans ts t_v (kv_width c) n_embd));
        (q, g) \<leftarrow> opt_bias ts g q (lw TENSOR_ATTN_Q_BIAS);
        (k, g) \<leftarrow> opt_bias ts g k (lw TENSOR_ATTN_K_BIAS);
        (v, g) \<leftarrow> opt_bias ts g v (lw TENSOR_ATTN_V_BIAS);
        (q, g) \<leftarrow> need (graph_rope g q (fh_rope_theta ws) (w32 (c_n_head c)) (w32 (c_head_dim c)) (w32 rope_dim));
        (k, g) \<leftarrow> need (graph_rope g k (fh_rope_theta ws) (w32 (c_n_kv_head c)) (w32 (c_kv_head_dim c)) (w32 rope_dim));
        (attn, g) \<leftarrow> need (graph_attn g q k v l 0);
        (attn, g) \<leftarrow> need (graph_mul_mat ts g attn t_o (fh1_mm_trans ts t_o n_embd q_dim));
        (proj, g) \<leftarrow> need (graph_mul_mat ts g n t_in (fh1_mm_trans ts t_in proj_dim n_embd));
        (conv_st, g) \<leftarrow> need (graph_state g (fh_conv_state ws ! l));
        (ssm_st, g) \<leftarrow> need (graph_state g (fh_ssm_state ws ! l));
        (cv, g) \<leftarrow> need (graph_mamba2_conv g proj t_conv t_cb (the conv_st) (fh_conv_kernel ws) (fh_d_inner ws)
                            (fh_n_group ws) (fh_d_state ws) (fh_n_head ws));
        (scan, g) \<leftarrow> need (graph_mamba2_scan g cv proj t_a t_dd t_dt t_sn (the ssm_st) (fh_n_head ws) (fh_head_dim ws)
                              (fh_d_state ws) (fh_n_group ws) (fh_d_inner ws));
        (ssm, g) \<leftarrow> need (graph_mul_mat ts g scan t_so (fh1_mm_trans ts t_so n_embd (unat (fh_d_inner ws))));
        (cur, g) \<leftarrow> need (graph_binary g OP_ADD cur attn);
        (cur, g) \<leftarrow> need (graph_binary g OP_ADD cur ssm);
        (hn, g) \<leftarrow> need (graph_rms_norm g cur t_fn);
        (gm, g) \<leftarrow> need (graph_mul_mat ts g hn t_g (fh1_mm_trans ts t_g ffn_hidden n_embd));
        (gate, g) \<leftarrow> need (graph_silu g gm);
        (up, g) \<leftarrow> need (graph_mul_mat ts g hn t_u (fh1_mm_trans ts t_u ffn_hidden n_embd));
        (mul, g) \<leftarrow> need (graph_binary g OP_MUL gate up);
        (down, g) \<leftarrow> need (graph_mul_mat ts g mul t_d (fh1_mm_trans ts t_d n_embd ffn_hidden));
        (cur, g) \<leftarrow> need (graph_binary g OP_ADD cur down);
        need (graph_layer_boundary g cur (bs_ngl s) (c_n_layer c) l) })"

definition falcon_h1_graph_build :: "build_session \<Rightarrow> fh1_ws \<Rightarrow> nat \<Rightarrow> graph option" where
  "falcon_h1_graph_build s ws n_tokens =
     (let c = bs_cfg s; ts = bs_tensors s; w = bs_weights s; te = w_tensors w TENSOR_TOKEN_EMBD in
      if n_tokens = 0 \<or> n_tokens > bs_ctx_size s then None
      else if te = None \<or> t_ndim ts te < 2 then None
      else do {
        (inp, g) \<leftarrow> need (graph_input graph_new n_tokens);
        (cur, g) \<leftarrow> need (graph_embed ts g inp te n_tokens);
        (cur, g) \<leftarrow> layer_loop (falcon_h1_layer s ws) [0 ..< c_n_layer c] (cur, g);
        let t_norm = (if w_tensors w TENSOR_OUTPUT_NORM = None
                      then (w_layers w ! (c_n_layer c - 1)) TENSOR_FFN_NORM else w_tensors w TENSOR_OUTPUT_NORM);
        (fn, g) \<leftarrow> need (graph_rms_norm (graph_set_layer g (c_n_layer c)) cur t_norm);
        let t_out = (if w_tensors w TENSOR_OUTPUT = None then te else w_tensors w TENSOR_OUTPUT);
        (r, g) \<leftarrow> need (graph_mul_mat ts g fn t_out (t_dim ts t_out 0 = c_n_embd c));
        Some g })"

section \<open>Qwen 3.5 workspace\<close>

record q35_ws = dense_ws +
  q_head_k :: u32
  q_head_v :: u32
  q_n_k :: u32
  q_n_v :: u32
  q_key_dim :: u32
  q_val_dim :: u32
  q_fused :: u32
  q_conv_kernel :: u32
  q_conv_state :: "nat option list"
  q_ssm_state :: "nat option list"

text \<open>The macro \<open>TRY_SSM_I32\<close>: the field keeps its value when neither key is there.\<close>

definition try_ssm_i32 :: "model \<Rightarrow> string \<Rightarrow> string \<Rightarrow> u32 \<Rightarrow> u32" where
  "try_ssm_i32 m pfx suffix field =
     (let k = pfx @ ''.ssm.'' @ suffix in
      case (if length k < 96 then model_get_i32 m k else None) of
        Some v \<Rightarrow> word_of_int v
      | None \<Rightarrow>
          if pfx \<noteq> ''qwen3'' then
            (case model_get_i32 m (take 95 (''qwen3.ssm.'' @ suffix)) of Some v \<Rightarrow> word_of_int v | None \<Rightarrow> field)
          else field)"

text \<open>The first layer with a convolution fills in what the metadata left 0.\<close>

definition ssm_fallback :: "build_session \<Rightarrow> u32 \<Rightarrow> u32 \<Rightarrow> u32 \<times> u32" where
  "ssm_fallback s n_v val_dim =
     (case find (\<lambda>lw. lw TENSOR_SSM_CONV1D \<noteq> None) (take (c_n_layer (bs_cfg s)) (w_layers (bs_weights s))) of
        None \<Rightarrow> (n_v, val_dim)
      | Some lw \<Rightarrow>
          (let ts = bs_tensors s; ta = lw TENSOR_SSM_ALPHA; to = lw TENSOR_SSM_OUT; e = c_n_embd (bs_cfg s) in
           (if n_v = 0 \<and> ta \<noteq> None \<and> t_ndim ts ta \<ge> 2
            then w32 (if t_dim ts ta 1 = e then t_dim ts ta 0 else t_dim ts ta 1) else n_v,
            if val_dim = 0 \<and> to \<noteq> None \<and> t_ndim ts to \<ge> 2
            then w32 (if t_dim ts to 0 = e then t_dim ts to 1 else t_dim ts to 0) else val_dim)))"

definition qwen35_init :: "model \<Rightarrow> build_session \<Rightarrow> q35_ws" where
  "qwen35_init m s =
     (let c = bs_cfg s; pfx = ws_prefix m ''qwen3'';
          head_k0 = try_ssm_i32 m pfx ''state_size'' 128;
          n_k0 = try_ssm_i32 m pfx ''group_count'' 16;
          ck = try_ssm_i32 m pfx ''conv_kernel'' 4;
          (n_v0, val0) = ssm_fallback s (try_ssm_i32 m pfx ''time_step_rank'' 0) (try_ssm_i32 m pfx ''inner_size'' 0);
          n_v = (if n_v0 = 0 then n_k0 else n_v0);
          val_dim = (if val0 = 0 then n_v * head_k0 else val0);
          head_k = (if head_k0 = 0 then 128 else head_k0);
          n_k = (if n_k0 = 0 then 16 else n_k0);
          head_v0 = (if n_v \<noteq> 0 then val_dim div n_v else head_k);
          head_v = (if head_v0 = 0 then head_k else head_v0);
          key_dim = head_k * n_k; vdim = head_v * n_v;
          has_conv = (\<lambda>i. (w_layers (bs_weights s) ! i) TENSOR_SSM_CONV1D \<noteq> None) in
      \<lparr>ws_ffn_hidden = ffn_width (bs_tensors s) ((w_layers (bs_weights s) ! 0) TENSOR_FFN_GATE) c,
       ws_rope_theta =
         (case model_get_f32 m (take 95 (pfx @ ''.rope.freq_base'')) of
            Some v \<Rightarrow> v
          | None \<Rightarrow>
              if pfx \<noteq> ''qwen3'' then
                (case model_get_f32 m ''qwen3.rope.freq_base'' of Some v \<Rightarrow> v | None \<Rightarrow> 0x49742400)
              else 0x49742400),
       q_head_k = head_k, q_head_v = head_v, q_n_k = n_k, q_n_v = n_v, q_key_dim = key_dim,
       q_val_dim = vdim, q_fused = 2 * key_dim + vdim, q_conv_kernel = ck,
       q_conv_state = map (\<lambda>i. if has_conv i then Some (2 * i) else None) [0 ..< c_n_layer c],
       q_ssm_state = map (\<lambda>i. if has_conv i then Some (2 * i + 1) else None) [0 ..< c_n_layer c]\<rparr>)"

section \<open>Qwen 3.5 graph\<close>

text \<open>The Gated DeltaNet branch of a layer, from the normed input \<open>n\<close>.\<close>

definition qwen35_ssm :: "build_session \<Rightarrow> q35_ws \<Rightarrow> nat \<Rightarrow> node_ref \<Rightarrow> node_ref \<Rightarrow> graph \<Rightarrow> (node_ref \<times> graph) option" where
  "qwen35_ssm s ws l cur n g =
     (let ts = bs_tensors s; lw = w_layers (bs_weights s) ! l; n_embd = c_n_embd (bs_cfg s);
          n_v = unat (q_n_v ws); val_dim = unat (q_val_dim ws);
          t_qkv = lw TENSOR_ATTN_QKV; t_conv = lw TENSOR_SSM_CONV1D; t_ag = lw TENSOR_ATTN_GATE;
          t_a = lw TENSOR_SSM_ALPHA; t_b = lw TENSOR_SSM_BETA; t_A = lw TENSOR_SSM_A; t_dt = lw TENSOR_SSM_DT_BIAS;
          t_sn = lw TENSOR_SSM_NORM; t_so = lw TENSOR_SSM_OUT in
      if t_qkv = None \<or> t_a = None \<or> t_b = None \<or> t_A = None \<or> t_dt = None \<or> t_so = None then None
      else if q_conv_state ws ! l = None \<or> q_ssm_state ws ! l = None then None
      else do {
        (conv_st, g) \<leftarrow> need (graph_state g (q_conv_state ws ! l));
        (ssm_st, g) \<leftarrow> need (graph_state g (q_ssm_state ws ! l));
        (f, g) \<leftarrow> need (graph_mul_mat ts g n t_qkv (t_dim ts t_qkv 0 = n_embd));
        (f, g) \<leftarrow> need (graph_ssm_conv g f t_conv (the conv_st) (q_conv_kernel ws));
        (f, g) \<leftarrow> need (graph_silu g f);
        (a, g) \<leftarrow> need (graph_mul_mat ts g n t_a (fh1_mm_trans ts t_a n_v n_embd));
        (b, g) \<leftarrow> need (graph_mul_mat ts g n t_b (fh1_mm_trans ts t_b n_v n_embd));
        (d, g) \<leftarrow> need (graph_ssm_delta g
            \<lparr>sd_fused = f, sd_alpha = a, sd_beta = b, sd_ssm_a = t_A, sd_dt_bias = t_dt, sd_norm = t_sn,
             sd_state = the ssm_st, sd_n_v_heads = q_n_v ws, sd_n_k_heads = q_n_k ws, sd_head_dim = q_head_v ws\<rparr>);
        (d, g) \<leftarrow>
          (if t_ag = None then Some (d, g)
           else do {
             (gm, g) \<leftarrow> need (graph_mul_mat ts g n t_ag (fh1_mm_trans ts t_ag val_dim n_embd));
             (ag, g) \<leftarrow> need (graph_silu g gm);
             need (graph_binary g OP_MUL d ag) });
        (y, g) \<leftarrow> need (graph_mul_mat ts g d t_so (fh1_mm_trans ts t_so n_embd val_dim));
        need (graph_binary g OP_ADD cur y) })"

text \<open>The dense attention branch.\<close>

definition qwen35_attn :: "build_session \<Rightarrow> q35_ws \<Rightarrow> nat \<Rightarrow> node_ref \<Rightarrow> node_ref \<Rightarrow> graph \<Rightarrow> (node_ref \<times> graph) option" where
  "qwen35_attn s ws l cur n g =
     (let c = bs_cfg s; ts = bs_tensors s; lw = w_layers (bs_weights s) ! l; n_embd = c_n_embd c;
          q_dim = q_width c; theta = ws_rope_theta ws;
          nh = w32 (c_n_head c); hdim = w32 (c_head_dim c); nkv = w32 (c_n_kv_head c); kvd = w32 (c_kv_head_dim c);
          t_q = lw TENSOR_ATTN_Q; t_k = lw TENSOR_ATTN_K; t_v = lw TENSOR_ATTN_V; t_o = lw TENSOR_ATTN_OUT;
          t_ag = lw TENSOR_ATTN_GATE; t_qn = lw TENSOR_ATTN_Q_NORM; t_kn = lw TENSOR_ATTN_K_NORM;
          q_proj = (if t_dim ts t_q 0 = n_embd then t_dim ts t_q 1 else t_dim ts t_q 0) mod 2 ^ 32 in
      if t_o = None then None
      else if t_ndim ts t_o \<ge> 2 \<and> t_dim ts t_o 0 = 2 * n_embd \<and> t_dim ts t_o 1 = q_dim then None
      else do {
        (fq, g) \<leftarrow> need (graph_mul_mat ts g n t_q (q_proj \<noteq> n_embd \<and> t_dim ts t_q 0 = n_embd));
        (fq, g) \<leftarrow> opt_bias ts g fq (lw TENSOR_ATTN_Q_BIAS);
        (q, g) \<leftarrow>
          (if t_qn \<noteq> None then
             (if q_proj \<noteq> unat (2 * (nh * hdim)) then None
              else need (graph_rms_norm_heads g fq t_qn nh hdim (2 * hdim) hdim))
           else if q_proj \<noteq> q_dim then None else Some (fq, g));
        (k, g) \<leftarrow> need (graph_mul_mat ts g n t_k (t_dim ts t_k 0 = n_embd));
        (v, g) \<leftarrow> need (graph_mul_mat ts g n t_v (t_dim ts t_v 0 = n_embd));
        (k, g) \<leftarrow> opt_bias ts g k (lw TENSOR_ATTN_K_BIAS);
        (v, g) \<leftarrow> opt_bias ts g v (lw TENSOR_ATTN_V_BIAS);
        (k, g) \<leftarrow> (if t_kn \<noteq> None then need (graph_rms_norm_heads g k t_kn nkv kvd kvd kvd) else Some (k, g));
        (q, g) \<leftarrow> need (graph_rope g q theta nh hdim (w32 (c_rope_dim c)));
        (k, g) \<leftarrow> need (graph_rope g k theta nkv kvd (w32 (c_rope_dim c)));
        (attn, g) \<leftarrow> need (graph_attn g q k v l 0);
        (attn, g) \<leftarrow>
          (if t_ag = None then Some (attn, g)
           else do {
             (gm, g) \<leftarrow> need (graph_mul_mat ts g n t_ag (fh1_mm_trans ts t_ag q_dim n_embd));
             (ag, g) \<leftarrow> need (graph_silu g gm);
             need (graph_binary g OP_MUL attn ag) });
        (attn, g) \<leftarrow> (if t_qn \<noteq> None then need (graph_sigmoid_gate g attn fq nh hdim) else Some (attn, g));
        (ao, g) \<leftarrow> need (graph_mul_mat ts g attn t_o (n_embd \<noteq> q_dim \<and> t_dim ts t_o 0 = q_dim));
        need (graph_binary g OP_ADD cur ao) })"

definition qwen35_layer :: "build_session \<Rightarrow> q35_ws \<Rightarrow> nat \<Rightarrow> node_ref \<times> graph \<Rightarrow> (node_ref \<times> graph) option" where
  "qwen35_layer s ws l st =
     (case st of (cur, g0) \<Rightarrow>
      let c = bs_cfg s; ts = bs_tensors s; lw = w_layers (bs_weights s) ! l; n_embd = c_n_embd c;
          t_g = lw TENSOR_FFN_GATE; t_u = lw TENSOR_FFN_UP; t_d = lw TENSOR_FFN_DOWN;
          g = graph_set_layer g0 l in
      if t_g = None \<or> t_u = None \<or> t_d = None then None
      else do {
        (n, g) \<leftarrow> need (graph_rms_norm g cur (lw TENSOR_ATTN_NORM));
        (cur, g) \<leftarrow>
          (if lw TENSOR_SSM_CONV1D \<noteq> None then qwen35_ssm s ws l cur n g
           else if lw TENSOR_ATTN_Q \<noteq> None \<and> lw TENSOR_ATTN_K \<noteq> None \<and> lw TENSOR_ATTN_V \<noteq> None
           then qwen35_attn s ws l cur n g
           else None);
        (hn, g) \<leftarrow> need (graph_rms_norm g cur (lw TENSOR_POST_ATTN_NORM));
        (gm, g) \<leftarrow> need (graph_mul_mat ts g hn t_g (t_dim ts t_g 0 = n_embd));
        (gate, g) \<leftarrow> need (graph_silu g gm);
        (up, g) \<leftarrow> need (graph_mul_mat ts g hn t_u (t_dim ts t_u 0 = n_embd));
        (mul, g) \<leftarrow> need (graph_binary g OP_MUL gate up);
        (down, g) \<leftarrow> need (graph_mul_mat ts g mul t_d (t_dim ts t_d 0 = ws_ffn_hidden ws));
        (cur, g) \<leftarrow> need (graph_binary g OP_ADD cur down);
        need (graph_layer_boundary g cur (bs_ngl s) (c_n_layer c) l) })"

definition qwen35_graph_build :: "build_session \<Rightarrow> q35_ws \<Rightarrow> nat \<Rightarrow> graph option" where
  "qwen35_graph_build s ws n_tokens =
     (let c = bs_cfg s; ts = bs_tensors s; w = bs_weights s; te = w_tensors w TENSOR_TOKEN_EMBD in
      if n_tokens = 0 \<or> n_tokens > bs_ctx_size s then None
      else if c_rope_dim c = 0 \<or> c_rope_dim c > c_head_dim c then None
      else if te = None \<or> t_ndim ts te < 2 then None
      else do {
        (inp, g) \<leftarrow> need (graph_input graph_new n_tokens);
        (cur, g) \<leftarrow> need (graph_embed ts g inp te n_tokens);
        (cur, g) \<leftarrow> layer_loop (qwen35_layer s ws) [0 ..< c_n_layer c] (cur, g);
        let t_norm = (if w_tensors w TENSOR_OUTPUT_NORM = None
                      then (w_layers w ! (c_n_layer c - 1)) TENSOR_POST_ATTN_NORM else w_tensors w TENSOR_OUTPUT_NORM);
        (fn, g) \<leftarrow> need (graph_rms_norm (graph_set_layer g (c_n_layer c)) cur t_norm);
        let t_out = (if w_tensors w TENSOR_OUTPUT = None then te else w_tensors w TENSOR_OUTPUT);
        (r, g) \<leftarrow> need (graph_mul_mat ts g fn t_out (t_dim ts t_out 0 = c_n_embd c));
        Some g })"

section \<open>Checking the hybrid builders\<close>

lemma env_final:
  assumes "env ts c S \<Gamma> U g" and "(y, d) \<in> \<Gamma>" and "U \<subseteq> {y}"
  shows "env ts c 0 {(y, d)} {y} g"
proof (rule env_weaken)
  show "env ts c 0 \<Gamma> U g" using assms(1) by (simp add: env_def)
qed (use assms in simp_all)

lemma mm_orient:
  assumes "mat_shape ts t rows cols"
  shows "if fh1_mm_trans ts t rows cols then mat_dims ts t cols rows else mat_dims ts t rows cols"
proof -
  have "mat_dims ts t a b \<Longrightarrow> t \<noteq> None \<and> t_ndim ts t = 2 \<and> t_dim ts t 0 = a \<and> t_dim ts t 1 = b" for a b
    using mat_dims_simps [of ts t a b] by simp
  from this [of rows cols] this [of cols rows] show ?thesis
    using assms by (auto simp: mat_shape_def fh1_mm_trans_def)
qed

lemma unat_of_nat_small: "n < 2 ^ 32 \<Longrightarrow> unat (of_nat n :: u32) = n"
  by (simp add: unsigned_of_nat take_bit_nat_eq_self_iff)

lemma older_state: "Suc m \<le> k \<Longrightarrow> m < Suc k"
  by simp

definition tensor_in :: "tensor_info list \<Rightarrow> tensor_ref \<Rightarrow> bool" where
  "tensor_in ts t \<longleftrightarrow> (case t of None \<Rightarrow> False | Some i \<Rightarrow> i < length ts)"

definition tensor_opt :: "tensor_info list \<Rightarrow> tensor_ref \<Rightarrow> bool" where
  "tensor_opt ts t \<longleftrightarrow> (case t of None \<Rightarrow> True | Some i \<Rightarrow> i < length ts)"

lemma tensor_inE:
  assumes "tensor_in ts t" obtains i where "t = Some i" "i < length ts"
  using assms by (auto simp: tensor_in_def split: option.splits)

text \<open>The geometry of the mixer, and the shapes of one layer's tensors.\<close>

definition fh1_geometry :: "fh1_ws \<Rightarrow> bool" where
  "fh1_geometry ws \<longleftrightarrow>
     fh_d_inner ws \<noteq> 0 \<and> fh_d_state ws \<noteq> 0 \<and> fh_n_group ws \<noteq> 0 \<and> fh_n_head ws \<noteq> 0 \<and> fh_head_dim ws \<noteq> 0
     \<and> fh_conv_kernel ws \<noteq> 0 \<and> fh_n_head ws mod fh_n_group ws = 0
     \<and> unat (fh_n_head ws) * unat (fh_head_dim ws) = unat (fh_d_inner ws)
     \<and> fh_conv_dim ws = fh_d_inner ws + 2 * fh_n_group ws * fh_d_state ws
     \<and> 2 * unat (fh_d_inner ws) + 2 * unat (fh_n_group ws) * unat (fh_d_state ws) + unat (fh_n_head ws) < 2 ^ 32"

definition fh1_cdim :: "fh1_ws \<Rightarrow> nat" where
  "fh1_cdim ws = unat (fh_d_inner ws) + 2 * unat (fh_n_group ws) * unat (fh_d_state ws)"

definition fh1_layer_ok :: "build_session \<Rightarrow> fh1_ws \<Rightarrow> nat \<Rightarrow> layer_weights \<Rightarrow> bool" where
  "fh1_layer_ok s ws F lw \<longleftrightarrow>
     (let ts = bs_tensors s; c = bs_cfg s; D = c_n_embd c; Q = c_n_head c * c_head_dim c;
          KV = c_n_kv_head c * c_kv_head_dim c; d_inner = unat (fh_d_inner ws) in
      mat_shape ts (lw TENSOR_ATTN_Q) Q D \<and> mat_shape ts (lw TENSOR_ATTN_K) KV D
      \<and> mat_shape ts (lw TENSOR_ATTN_V) KV D \<and> mat_shape ts (lw TENSOR_ATTN_OUT) D Q
      \<and> mat_dims ts (lw TENSOR_FFN_GATE) F D \<and> mat_shape ts (lw TENSOR_FFN_UP) F D
      \<and> mat_shape ts (lw TENSOR_FFN_DOWN) D F
      \<and> mat_shape ts (lw TENSOR_SSM_IN) (fh1_cdim ws + d_inner + unat (fh_n_head ws)) D
      \<and> mat_shape ts (lw TENSOR_SSM_OUT) D d_inner
      \<and> vec_shape ts (lw TENSOR_ATTN_NORM) D
      \<and> vec_shape ts (if lw TENSOR_FFN_NORM = None then lw TENSOR_POST_ATTN_NORM else lw TENSOR_FFN_NORM) D
      \<and> (\<forall>r \<in> {TENSOR_SSM_CONV1D, TENSOR_SSM_A, TENSOR_SSM_D, TENSOR_SSM_DT_BIAS}. tensor_in ts (lw r))
      \<and> tensor_opt ts (lw TENSOR_SSM_CONV1D_BIAS) \<and> tensor_opt ts (lw TENSOR_SSM_NORM)
      \<and> (\<forall>r \<in> {TENSOR_ATTN_Q_BIAS, TENSOR_ATTN_K_BIAS, TENSOR_ATTN_V_BIAS}.
           lw r = None \<or> (\<exists>b. vec_shape ts (lw r) b)))"

lemma fh1_proj_dim:
  assumes "fh1_geometry ws"
  shows "unat (fh_d_inner ws + fh_conv_dim ws + fh_n_head ws) = fh1_cdim ws + unat (fh_d_inner ws) + unat (fh_n_head ws)"
proof -
  have w: "fh_d_inner ws + fh_conv_dim ws + fh_n_head ws
      = of_nat (fh1_cdim ws + unat (fh_d_inner ws) + unat (fh_n_head ws))"
    using assms by (simp add: fh1_geometry_def fh1_cdim_def algebra_simps)
  show ?thesis unfolding w
    by (rule unat_of_nat_small) (use assms in \<open>simp add: fh1_geometry_def fh1_cdim_def\<close>)
qed

lemma kv_width_ok: "heads_ok c \<Longrightarrow> kv_width c = c_n_kv_head c * c_kv_head_dim c"
  by (simp add: kv_width_def heads_ok_def unat_w32_mult)

lemma falcon_h1_layer_ok:
  assumes e: "env (bs_tensors s) (bs_cfg s) 0 {(cur, c_n_embd (bs_cfg s))} {cur} g"
    and h: "heads_ok (bs_cfg s)" and l: "l < c_n_layer (bs_cfg s)"
    and rope: "c_rope_dim (bs_cfg s) \<le> c_kv_head_dim (bs_cfg s)"
      "c_rope_dim (bs_cfg s) = 0 \<longrightarrow> c_kv_head_dim (bs_cfg s) = c_head_dim (bs_cfg s)"
    and geo: "fh1_geometry ws" and st: "fh_conv_state ws ! l = Some p" "fh_ssm_state ws ! l = Some p'"
    and lw: "fh1_layer_ok s ws F (w_layers (bs_weights s) ! l)"
  shows "ok (falcon_h1_layer s ws l (cur, g))
    (\<lambda>(y, g'). env (bs_tensors s) (bs_cfg s) 0 {(y, c_n_embd (bs_cfg s))} {y} g')"
proof -
  let ?c = "bs_cfg s" and ?ts = "bs_tensors s" and ?lw = "w_layers (bs_weights s) ! l"
  note lws = lw [unfolded fh1_layer_ok_def Let_def]
  obtain iv where conv: "?lw TENSOR_SSM_CONV1D = Some iv" "iv < length ?ts" using lws by (auto elim: tensor_inE)
  obtain ia where sa: "?lw TENSOR_SSM_A = Some ia" "ia < length ?ts" using lws by (auto elim: tensor_inE)
  obtain id where sd: "?lw TENSOR_SSM_D = Some id" "id < length ?ts" using lws by (auto elim: tensor_inE)
  obtain ib where sb: "?lw TENSOR_SSM_DT_BIAS = Some ib" "ib < length ?ts" using lws by (auto elim: tensor_inE)
  have opt: "case ?lw TENSOR_SSM_CONV1D_BIAS of None \<Rightarrow> True | Some k \<Rightarrow> k < length ?ts"
    "case ?lw TENSOR_SSM_NORM of None \<Rightarrow> True | Some k \<Rightarrow> k < length ?ts"
    using lws by (simp_all add: tensor_opt_def)
  have mats: "mat_shape ?ts (?lw TENSOR_ATTN_Q) (c_n_head ?c * c_head_dim ?c) (c_n_embd ?c)"
    "mat_shape ?ts (?lw TENSOR_ATTN_K) (c_n_kv_head ?c * c_kv_head_dim ?c) (c_n_embd ?c)"
    "mat_shape ?ts (?lw TENSOR_ATTN_V) (c_n_kv_head ?c * c_kv_head_dim ?c) (c_n_embd ?c)"
    "mat_shape ?ts (?lw TENSOR_ATTN_OUT) (c_n_embd ?c) (c_n_head ?c * c_head_dim ?c)"
    "mat_shape ?ts (?lw TENSOR_FFN_GATE) F (c_n_embd ?c)" "mat_shape ?ts (?lw TENSOR_FFN_UP) F (c_n_embd ?c)"
    "mat_shape ?ts (?lw TENSOR_FFN_DOWN) (c_n_embd ?c) F"
    "mat_shape ?ts (?lw TENSOR_SSM_IN) (fh1_cdim ws + unat (fh_d_inner ws) + unat (fh_n_head ws)) (c_n_embd ?c)"
    "mat_shape ?ts (?lw TENSOR_SSM_OUT) (c_n_embd ?c) (unat (fh_d_inner ws))"
    using lws by (simp_all add: mat_shape_def)
  have vecs: "vec_shape ?ts (?lw TENSOR_ATTN_NORM) (c_n_embd ?c)"
    "vec_shape ?ts (if ?lw TENSOR_FFN_NORM = None then ?lw TENSOR_POST_ATTN_NORM else ?lw TENSOR_FFN_NORM) (c_n_embd ?c)"
    "?lw TENSOR_ATTN_Q_BIAS = None \<or> (\<exists>b. vec_shape ?ts (?lw TENSOR_ATTN_Q_BIAS) b)"
    "?lw TENSOR_ATTN_K_BIAS = None \<or> (\<exists>b. vec_shape ?ts (?lw TENSOR_ATTN_K_BIAS) b)"
    "?lw TENSOR_ATTN_V_BIAS = None \<or> (\<exists>b. vec_shape ?ts (?lw TENSOR_ATTN_V_BIAS) b)"
    using lws by (simp_all only: ball_simps insert_iff simp_thms)
  have ffn: "t_dim ?ts (?lw TENSOR_FFN_GATE) 0 mod 2 ^ 32 = F"
    using lws mat_dims_simps(4,7) [of ?ts "?lw TENSOR_FFN_GATE" F "c_n_embd ?c"] by simp
  have present: "\<not> (?lw TENSOR_ATTN_Q = None \<or> ?lw TENSOR_ATTN_K = None \<or> ?lw TENSOR_ATTN_V = None
      \<or> ?lw TENSOR_ATTN_OUT = None \<or> ?lw TENSOR_FFN_GATE = None \<or> ?lw TENSOR_FFN_UP = None
      \<or> ?lw TENSOR_FFN_DOWN = None \<or> ?lw TENSOR_SSM_IN = None \<or> ?lw TENSOR_SSM_CONV1D = None
      \<or> ?lw TENSOR_SSM_A = None \<or> ?lw TENSOR_SSM_D = None \<or> ?lw TENSOR_SSM_DT_BIAS = None
      \<or> ?lw TENSOR_SSM_OUT = None)"
    using mats [THEN mat_shape_Some] conv sa sd sb by simp
  let ?rd = "if c_rope_dim ?c \<noteq> 0 then c_rope_dim ?c else c_head_dim ?c"
  have rd: "w32 ?rd \<noteq> 0" "w32 ?rd \<le> w32 (c_head_dim ?c)" "w32 ?rd \<le> w32 (c_kv_head_dim ?c)"
    using rope h heads_okD [OF h] by (auto simp: w32_le_iff w32_0_iff heads_ok_def)
  have geos: "fh_conv_kernel ws \<noteq> 0" "fh_d_inner ws \<noteq> 0" "fh_n_group ws \<noteq> 0" "fh_d_state ws \<noteq> 0" "fh_n_head ws \<noteq> 0"
    "fh_head_dim ws \<noteq> 0" "fh_n_head ws mod fh_n_group ws = 0"
    "unat (fh_n_head ws) * unat (fh_head_dim ws) = unat (fh_d_inner ws)"
    using geo by (simp_all add: fh1_geometry_def)
  have g0: "env ?ts ?c 0 {(cur, c_n_embd ?c)} {cur} (graph_set_layer g l)" using e by simp
  have stn: "\<not> (Some p = None \<or> Some p' = None)" by simp
  show ?thesis
    unfolding falcon_h1_layer_def Let_def prod.case if_not_P [OF present] st if_not_P [OF stn] heads_okD(1) [OF h]
      kv_width_ok [OF h] ffn fh1_proj_dim [OF geo]
    apply (rule steps g0 step_opt_bias step_boundary_last step_state mats [THEN mm_orient] vecs rd heads_widths [OF h]
        fh1_cdim_def refl geos conv sa sd sb opt lessI older_state l h
      | assumption | rule insertI1 | rule insertI2
      | simp (no_asm) only: prod.case option.sel | (rule disjI1, rule refl) | (rule disjI2, rule refl))+
    apply (rule env_final, assumption, rule insertI1)
    apply (simp (no_asm) only: consumed)
    done
qed


definition fh1_shapes :: "build_session \<Rightarrow> fh1_ws \<Rightarrow> nat \<Rightarrow> bool" where
  "fh1_shapes s ws F \<longleftrightarrow>
     heads_ok (bs_cfg s) \<and> head_ok s \<and> fh1_geometry ws
     \<and> c_rope_dim (bs_cfg s) \<le> c_kv_head_dim (bs_cfg s)
     \<and> (c_rope_dim (bs_cfg s) = 0 \<longrightarrow> c_kv_head_dim (bs_cfg s) = c_head_dim (bs_cfg s))
     \<and> (\<forall>l < c_n_layer (bs_cfg s).
          fh_conv_state ws ! l \<noteq> None \<and> fh_ssm_state ws ! l \<noteq> None
          \<and> fh1_layer_ok s ws F (w_layers (bs_weights s) ! l))"

lemma falcon_h1_complete:
  assumes shapes: "fh1_shapes s ws F" and n: "0 < n" "n \<le> bs_ctx_size s" "n < 2 ^ 31"
  shows "\<exists>g. falcon_h1_graph_build s ws n = Some g \<and> complete_graph s g"
proof (rule ok_complete)
  have hd: "head_ok s" using shapes by (simp add: fh1_shapes_def)
  have layer: "ok (falcon_h1_layer s ws l (cur, g)) (\<lambda>(y, g'). env (bs_tensors s) (bs_cfg s) 0 {(y, c_n_embd (bs_cfg s))} {y} g')"
    if e: "env (bs_tensors s) (bs_cfg s) 0 {(cur, c_n_embd (bs_cfg s))} {cur} g" and l: "l < c_n_layer (bs_cfg s)" for cur g l
  proof -
    obtain p p' where "fh_conv_state ws ! l = Some p" and "fh_ssm_state ws ! l = Some p'"
      using shapes l by (auto simp: fh1_shapes_def)
    then show ?thesis
      using shapes e l by (intro falcon_h1_layer_ok [where F = F]) (simp_all add: fh1_shapes_def)
  qed
  have range: "\<not> (n = 0 \<or> n > bs_ctx_size s)" using n by simp
  show "ok (falcon_h1_graph_build s ws n) (complete_graph s)"
    unfolding falcon_h1_graph_build_def Let_def if_not_P [OF range] if_not_P [OF head_present [OF hd]]
      output_norm_present [OF hd]
    apply (rule step_input_embed [OF n(1,3) head_shapes(1) [OF hd]], simp only: prod.case)
    apply (rule step_layers, assumption, rule layer, assumption, assumption)
    apply (simp only: prod.case)
    apply (rule step_head [OF _ hd head_shapes(2) [OF hd]], assumption)
    apply (simp only: prod.case ok_Some)
    apply (erule env_complete, rule insertI1, rule subset_refl)
    done
qed

section \<open>Qwen 3.5\<close>

text \<open>The delta operator knows one head width: key and value heads must agree.\<close>

definition q35_geometry :: "q35_ws \<Rightarrow> bool" where
  "q35_geometry ws \<longleftrightarrow>
     q_head_v ws \<noteq> 0 \<and> q_n_k ws \<noteq> 0 \<and> q_n_v ws mod q_n_k ws = 0 \<and> q_conv_kernel ws \<noteq> 0
     \<and> unat (q_n_v ws) * unat (q_head_v ws) < 2 ^ 32 \<and> q_val_dim ws = q_head_v ws * q_n_v ws"

definition q35_ssm_ok :: "build_session \<Rightarrow> q35_ws \<Rightarrow> layer_weights \<Rightarrow> bool" where
  "q35_ssm_ok s ws lw \<longleftrightarrow>
     (let ts = bs_tensors s; D = c_n_embd (bs_cfg s); V = unat (q_n_v ws) * unat (q_head_v ws);
          K = unat (q_n_k ws) * unat (q_head_v ws) in
      mat_shape ts (lw TENSOR_ATTN_QKV) (2 * K + V) D
      \<and> mat_shape ts (lw TENSOR_SSM_ALPHA) (unat (q_n_v ws)) D \<and> mat_shape ts (lw TENSOR_SSM_BETA) (unat (q_n_v ws)) D
      \<and> mat_shape ts (lw TENSOR_SSM_OUT) D V
      \<and> (lw TENSOR_ATTN_GATE = None \<or> mat_shape ts (lw TENSOR_ATTN_GATE) V D)
      \<and> (\<forall>r \<in> {TENSOR_SSM_CONV1D, TENSOR_SSM_A, TENSOR_SSM_DT_BIAS}. tensor_in ts (lw r))
      \<and> tensor_opt ts (lw TENSOR_SSM_NORM))"

lemma step_ifT: "c \<Longrightarrow> ok (Option.bind a f) P \<Longrightarrow> ok (Option.bind (if c then a else b) f) P"
  and step_ifF: "\<not> c \<Longrightarrow> ok (Option.bind b f) P \<Longrightarrow> ok (Option.bind (if c then a else b) f) P"
  by simp_all

text \<open>The last call of a branch, without a continuation.\<close>

lemma step_binary_last:
  assumes "env ts c S \<Gamma> U g" and "(x, d) \<in> \<Gamma>" and "(y, d) \<in> \<Gamma>" and "p = OP_ADD \<or> p = OP_MUL"
    and "\<And>z g'. env ts c S (insert (z, d) \<Gamma>) (insert z (U - {x, y})) g' \<Longrightarrow> P (z, g')"
  shows "ok (need (graph_binary g p x y)) P"
proof -
  have "ok (Option.bind (need (graph_binary g p x y)) Some) P"
    by (rule step_binary [OF assms(1-4)]) (simp add: assms(5))
  then show ?thesis by simp
qed

lemma qwen35_ssm_ok:
  assumes e: "env (bs_tensors s) (bs_cfg s) 0 {(n, c_n_embd (bs_cfg s)), (cur, c_n_embd (bs_cfg s))} {n, cur} g"
    and geo: "q35_geometry ws" and st: "q_conv_state ws ! l = Some p" "q_ssm_state ws ! l = Some p'"
    and lw: "q35_ssm_ok s ws (w_layers (bs_weights s) ! l)"
  shows "ok (qwen35_ssm s ws l cur n g) (\<lambda>(y, g'). env (bs_tensors s) (bs_cfg s) 0 {(y, c_n_embd (bs_cfg s))} {y} g')"
proof -
  let ?c = "bs_cfg s" and ?ts = "bs_tensors s" and ?lw = "w_layers (bs_weights s) ! l"
  note lws = lw [unfolded q35_ssm_ok_def Let_def]
  obtain iv where conv: "?lw TENSOR_SSM_CONV1D = Some iv" "iv < length ?ts" using lws by (auto elim: tensor_inE)
  obtain ia where sa: "?lw TENSOR_SSM_A = Some ia" "ia < length ?ts" using lws by (auto elim: tensor_inE)
  obtain ib where sb: "?lw TENSOR_SSM_DT_BIAS = Some ib" "ib < length ?ts" using lws by (auto elim: tensor_inE)
  let ?a = "\<lambda>f a b m. \<lparr>sd_fused = f, sd_alpha = a, sd_beta = b, sd_ssm_a = ?lw TENSOR_SSM_A,
      sd_dt_bias = ?lw TENSOR_SSM_DT_BIAS, sd_norm = ?lw TENSOR_SSM_NORM, sd_state = m, sd_n_v_heads = q_n_v ws,
      sd_n_k_heads = q_n_k ws, sd_head_dim = q_head_v ws\<rparr>"
  have opt: "case ?lw TENSOR_SSM_NORM of None \<Rightarrow> True | Some k \<Rightarrow> k < length ?ts"
    using lws by (simp add: tensor_opt_def)
  have val: "unat (q_val_dim ws) = unat (q_n_v ws) * unat (q_head_v ws)"
    using geo by (simp add: q35_geometry_def unat_word_ariths mult.commute)
  have mats: "mat_shape ?ts (?lw TENSOR_SSM_ALPHA) (unat (q_n_v ws)) (c_n_embd ?c)"
    "mat_shape ?ts (?lw TENSOR_SSM_BETA) (unat (q_n_v ws)) (c_n_embd ?c)"
    "mat_shape ?ts (?lw TENSOR_SSM_OUT) (c_n_embd ?c) (unat (q_n_v ws) * unat (q_head_v ws))"
    using lws by simp_all
  have qkv: "mat_shape ?ts (?lw TENSOR_ATTN_QKV)
      (2 * (unat (q_n_k ws) * unat (q_head_v ws)) + unat (q_n_v ws) * unat (q_head_v ws)) (c_n_embd ?c)"
    using lws by simp
  have present: "\<not> (?lw TENSOR_ATTN_QKV = None \<or> ?lw TENSOR_SSM_ALPHA = None \<or> ?lw TENSOR_SSM_BETA = None
      \<or> ?lw TENSOR_SSM_A = None \<or> ?lw TENSOR_SSM_DT_BIAS = None \<or> ?lw TENSOR_SSM_OUT = None)"
    using mats [THEN mat_shape_Some] mat_shape_Some [OF qkv] sa sb by simp
  have geos: "q_head_v ws \<noteq> 0" "q_n_k ws \<noteq> 0" "q_n_v ws mod q_n_k ws = 0" "q_conv_kernel ws \<noteq> 0"
    "unat (q_n_v ws) * unat (q_head_v ws) < 2 ^ 32"
    using geo by (simp_all add: q35_geometry_def)
  have stn: "\<not> (Some p = None \<or> Some p' = None)" by simp
  have delta: "ok (Option.bind (need (graph_ssm_delta g (?a f a b m))) k) P"
    if "env ?ts ?c S \<Gamma> U g" and "(f, 2 * (unat (q_n_k ws) * unat (q_head_v ws)) + unat (q_n_v ws) * unat (q_head_v ws)) \<in> \<Gamma>"
      and "(a, unat (q_n_v ws)) \<in> \<Gamma>" and "(b, unat (q_n_v ws)) \<in> \<Gamma>" and "m < S"
      and "\<And>u g'. env ?ts ?c S (insert (u, unat (q_n_v ws) * unat (q_head_v ws)) \<Gamma>) (insert u (U - {f, a, b})) g'
          \<Longrightarrow> ok (k (u, g')) P"
    for S \<Gamma> U g f a b m P and k :: "node_ref \<times> graph \<Rightarrow> (node_ref \<times> graph) option"
    using that sa sb opt geos by (intro step_ssm_delta [where d' = "unat (q_n_v ws)" and i = ia and j = ib]) simp_all
  show ?thesis
  proof (cases "?lw TENSOR_ATTN_GATE = None")
    case True
    show ?thesis
      unfolding qwen35_ssm_def Let_def if_not_P [OF present] st if_not_P [OF stn] val
      apply (rule delta step_mul_mat step_silu step_binary step_ssm_conv step_binary_last step_state e mats [THEN mm_orient] orient(1) [OF qkv]
          geos conv refl lessI older_state step_ifT [OF True]
        | assumption | rule insertI1 | rule insertI2
        | simp (no_asm) only: prod.case option.sel bind.bind_lunit | (rule disjI1, rule refl) | (rule disjI2, rule refl))+
      apply (rule env_final, assumption, rule insertI1)
      apply (simp (no_asm) only: consumed)
      done
  next
    case False
    have gate: "mat_shape ?ts (?lw TENSOR_ATTN_GATE) (unat (q_n_v ws) * unat (q_head_v ws)) (c_n_embd ?c)"
      using lws False by simp
    show ?thesis
      unfolding qwen35_ssm_def Let_def if_not_P [OF present] st if_not_P [OF stn] val
      apply (rule delta step_mul_mat step_silu step_binary step_ssm_conv step_binary_last step_state e mats [THEN mm_orient] orient(1) [OF qkv]
          geos conv refl lessI older_state step_ifF [OF False] mm_orient [OF gate]
        | assumption | rule insertI1 | rule insertI2
        | simp (no_asm) only: prod.case option.sel bind.bind_lunit Option.bind_assoc | (rule disjI1, rule refl) | (rule disjI2, rule refl))+
      apply (rule env_final, assumption, rule insertI1)
      apply (simp (no_asm) only: consumed)
      done
  qed
qed


text \<open>The optional pieces of the attention branch.\<close>

lemma step_keep:
  assumes e: "env ts c S \<Gamma> U g" and x: "(x, d) \<in> \<Gamma>"
    and cont: "\<And>y g'. env ts c S (insert (y, d) \<Gamma>) (insert y (U - {x})) g' \<Longrightarrow> ok (f (y, g')) P"
  shows "ok (Option.bind (Some (x, g)) f) P"
proof -
  have "env ts c S (insert (x, d) \<Gamma>) (insert x (U - {x})) g"
    using x by (intro env_weaken [OF e]) (auto simp: insert_absorb)
  then show ?thesis using cont by simp
qed

lemma step_gate:
  assumes e: "env ts c S \<Gamma> U g" and x: "(x, d) \<in> \<Gamma>" and n: "(n, e') \<in> \<Gamma>"
    and t: "t \<noteq> None \<Longrightarrow> mat_shape ts t d e'" and r: "rows = d" "cols = e'"
    and cont: "\<And>y g'. env ts c S (insert (y, d) \<Gamma>) (insert y (U - {x})) g' \<Longrightarrow> ok (f (y, g')) P"
  shows "ok (Option.bind
      (if t = None then Some (x, g)
       else Option.bind (need (graph_mul_mat ts g n t (fh1_mm_trans ts t rows cols)))
         (\<lambda>(gm, g). Option.bind (need (graph_silu g gm)) (\<lambda>(ag, g). need (graph_binary g OP_MUL x ag)))) f) P"
proof (cases "t = None")
  case True
  show ?thesis
    unfolding if_P [OF True]
    by (rule step_keep [OF e x], rule cont)
next
  case False
  show ?thesis
    unfolding if_not_P [OF False] Option.bind_assoc r
    apply (rule step_mul_mat [OF e n mm_orient [OF t [OF False]]])
    apply (simp (no_asm) only: prod.case Option.bind_assoc)
    apply (rule step_silu, assumption, rule insertI1)
    apply (simp (no_asm) only: prod.case Option.bind_assoc)
    apply (rule step_binary, assumption, rule insertI2, rule insertI2, rule x, rule insertI1, rule disjI2, rule refl)
    apply (rule cont, rule env_weaken, assumption)
     apply (intro insert_mono subset_insertI2 subset_refl)
    apply (simp (no_asm))
    apply blast
    done
qed

lemma step_opt_heads:
  assumes e: "env ts c S \<Gamma> U g" and x: "(x, d) \<in> \<Gamma>" and t: "t \<noteq> None \<Longrightarrow> vec_shape ts t (unat hdim)"
    and d: "d = unat nh * unat hdim" and nh: "nh \<noteq> 0" and small: "unat nh * unat hdim < 2 ^ 32"
    and cont: "\<And>y g'. env ts c S (insert (y, d) \<Gamma>) (insert y (U - {x})) g' \<Longrightarrow> ok (f (y, g')) P"
  shows "ok (Option.bind (if t \<noteq> None then need (graph_rms_norm_heads g x t nh hdim hdim hdim) else Some (x, g)) f) P"
proof (cases "t = None")
  case True
  then show ?thesis using step_keep [OF e x, of f P] cont by auto
next
  case False
  then have "t \<noteq> None" .
  show ?thesis
    unfolding if_P [OF False]
    by (rule step_rms_norm_heads [OF e x d d t [OF False] order_refl order_refl nh small]) (rule cont)
qed

lemma step_opt_sigmoid:
  assumes e: "env ts c S \<Gamma> U g" and x: "(x, d) \<in> \<Gamma>" and y: "(y, if t = None then d else d') \<in> \<Gamma>"
    and d: "d = unat nh * unat hdim" "d' = unat nh * 2 * unat hdim"
    and cont: "\<And>z g'. env ts c S (insert (z, d) \<Gamma>) (insert z (U - {x})) g' \<Longrightarrow> ok (f (z, g')) P"
  shows "ok (Option.bind (if t \<noteq> None then need (graph_sigmoid_gate g x y nh hdim) else Some (x, g)) f) P"
proof (cases "t = None")
  case True
  then show ?thesis using step_keep [OF e x, of f P] cont by auto
next
  case False
  have y': "(y, d') \<in> \<Gamma>" using y unfolding if_not_P [OF False] .
  show ?thesis
    unfolding if_P [OF False]
    by (rule step_sigmoid_gate [OF e x y' d], rule cont, erule env_weaken) auto
qed

lemma step_fused_q:
  assumes e: "env ts c S \<Gamma> U g" and x: "(x, if t = None then q else 2 * q) \<in> \<Gamma>"
    and t: "t \<noteq> None \<Longrightarrow> vec_shape ts t (unat hdim)" and q: "q = unat nh * unat hdim"
    and two: "2 * q = unat nh * unat hd2" "hdim \<le> hd2" and nh: "nh \<noteq> 0" and small: "unat nh * unat hdim < 2 ^ 32"
    and cont: "\<And>y g'. env ts c S (insert (y, q) \<Gamma>) (insert y (U - {x})) g' \<Longrightarrow> ok (f (y, g')) P"
  shows "ok (Option.bind
      (if t \<noteq> None then (if (if t = None then q else 2 * q) \<noteq> 2 * q then None
                        else need (graph_rms_norm_heads g x t nh hdim hd2 hdim))
       else if (if t = None then q else 2 * q) \<noteq> q then None else Some (x, g)) f) P"
proof (cases "t = None")
  case True
  then have "(x, q) \<in> \<Gamma>" using x by simp
  from step_keep [OF e this, of f P] show ?thesis using cont True by simp
next
  case False
  have x': "(x, 2 * q) \<in> \<Gamma>" using x unfolding if_not_P [OF False] .
  have "ok (Option.bind (need (graph_rms_norm_heads g x t nh hdim hd2 hdim)) f) P"
    by (rule step_rms_norm_heads [OF e x' two(1) q t [OF False] two(2) order_refl nh small]) (rule cont)
  then show ?thesis using False by auto
qed

text \<open>A fused query projection is twice as wide and comes with a norm.\<close>

definition q35_attn_ok :: "build_session \<Rightarrow> layer_weights \<Rightarrow> bool" where
  "q35_attn_ok s lw \<longleftrightarrow>
     (let ts = bs_tensors s; c = bs_cfg s; D = c_n_embd c; Q = c_n_head c * c_head_dim c;
          KV = c_n_kv_head c * c_kv_head_dim c in
      mat_shape ts (lw TENSOR_ATTN_Q) (if lw TENSOR_ATTN_Q_NORM = None then Q else 2 * Q) D
      \<and> mat_shape ts (lw TENSOR_ATTN_K) KV D \<and> mat_shape ts (lw TENSOR_ATTN_V) KV D
      \<and> mat_shape ts (lw TENSOR_ATTN_OUT) D Q
      \<and> (lw TENSOR_ATTN_GATE = None \<or> mat_shape ts (lw TENSOR_ATTN_GATE) Q D)
      \<and> (lw TENSOR_ATTN_Q_NORM = None \<or> vec_shape ts (lw TENSOR_ATTN_Q_NORM) (c_head_dim c))
      \<and> (lw TENSOR_ATTN_K_NORM = None \<or> vec_shape ts (lw TENSOR_ATTN_K_NORM) (c_kv_head_dim c))
      \<and> 2 * Q < 2 ^ 32
      \<and> (\<forall>r \<in> {TENSOR_ATTN_Q_BIAS, TENSOR_ATTN_K_BIAS, TENSOR_ATTN_V_BIAS}.
           lw r = None \<or> (\<exists>b. vec_shape ts (lw r) b)))"

lemma q_proj_ok:
  assumes "mat_shape ts t rows cols"
  shows "(if t_dim ts t 0 = cols then t_dim ts t 1 else t_dim ts t 0) mod 2 ^ 32 = rows"
  using assms mat_dims_simps [of ts t rows cols] mat_dims_simps [of ts t cols rows]
  by (auto simp: mat_shape_def)

lemma not_gated_output:
  assumes "mat_shape ts t d q" and "0 < d"
  shows "\<not> (t_ndim ts t \<ge> 2 \<and> t_dim ts t 0 = 2 * d \<and> t_dim ts t 1 = q)"
  using assms mat_dims_simps [of ts t d q] mat_dims_simps [of ts t q d]
  by (auto simp: mat_shape_def)

lemma qwen35_attn_ok:
  assumes e: "env (bs_tensors s) (bs_cfg s) 0 {(n, c_n_embd (bs_cfg s)), (cur, c_n_embd (bs_cfg s))} {n, cur} g"
    and h: "heads_ok (bs_cfg s)" and l: "l < c_n_layer (bs_cfg s)"
    and rope: "0 < c_rope_dim (bs_cfg s)" "c_rope_dim (bs_cfg s) \<le> c_kv_head_dim (bs_cfg s)"
    and lw: "q35_attn_ok s (w_layers (bs_weights s) ! l)"
  shows "ok (qwen35_attn s ws l cur n g) (\<lambda>(y, g'). env (bs_tensors s) (bs_cfg s) 0 {(y, c_n_embd (bs_cfg s))} {y} g')"
proof -
  let ?c = "bs_cfg s" and ?ts = "bs_tensors s" and ?lw = "w_layers (bs_weights s) ! l"
  let ?q = "c_n_head ?c * c_head_dim ?c"
  note lws = lw [unfolded q35_attn_ok_def Let_def]
  let ?Q = "if ?lw TENSOR_ATTN_Q_NORM = None then ?q else 2 * ?q"
  have mats: "mat_shape ?ts (?lw TENSOR_ATTN_K) (c_n_kv_head ?c * c_kv_head_dim ?c) (c_n_embd ?c)"
    "mat_shape ?ts (?lw TENSOR_ATTN_V) (c_n_kv_head ?c * c_kv_head_dim ?c) (c_n_embd ?c)"
    and q: "mat_shape ?ts (?lw TENSOR_ATTN_Q) ?Q (c_n_embd ?c)"
    and out: "mat_shape ?ts (?lw TENSOR_ATTN_OUT) (c_n_embd ?c) ?q"
    using lws by simp_all
  have biases: "?lw TENSOR_ATTN_Q_BIAS = None \<or> (\<exists>b. vec_shape ?ts (?lw TENSOR_ATTN_Q_BIAS) b)"
    "?lw TENSOR_ATTN_K_BIAS = None \<or> (\<exists>b. vec_shape ?ts (?lw TENSOR_ATTN_K_BIAS) b)"
    "?lw TENSOR_ATTN_V_BIAS = None \<or> (\<exists>b. vec_shape ?ts (?lw TENSOR_ATTN_V_BIAS) b)"
    using lws by simp_all
  have D: "0 < c_n_embd ?c" using env_pos [OF e, of n] by simp
  have small: "2 * ?q < 2 ^ 32" using lws by simp
  have w: "c_rope_dim ?c < 2 ^ 32" using rope heads_okD(7) [OF h] by simp
  have rd: "w32 (c_rope_dim ?c) \<noteq> 0" "w32 (c_rope_dim ?c) \<le> w32 (c_head_dim ?c)"
    "w32 (c_rope_dim ?c) \<le> w32 (c_kv_head_dim ?c)"
    using rope h w heads_okD(7,8) [OF h] by (auto simp: w32_le_iff w32_0_iff heads_ok_def)
  have dbl: "unat (2 * (w32 (c_n_head ?c) * w32 (c_head_dim ?c))) = 2 * ?q"
    using small heads_okD [OF h] by (simp add: unat_word_ariths)
  have "2 * c_head_dim ?c \<le> 2 * ?q" using h by (auto simp: heads_ok_def)
  then have "2 * c_head_dim ?c < 2 ^ 32" using small by linarith
  then have hd2: "unat (2 * w32 (c_head_dim ?c)) = 2 * c_head_dim ?c"
    using heads_okD(3) [OF h] by (simp add: unat_word_ariths)
  have fused: "2 * ?q = unat (w32 (c_n_head ?c)) * unat (2 * w32 (c_head_dim ?c))"
    "2 * ?q = unat (w32 (c_n_head ?c)) * 2 * unat (w32 (c_head_dim ?c))"
    using heads_okD [OF h] hd2 by simp_all
  have le2: "w32 (c_head_dim ?c) \<le> 2 * w32 (c_head_dim ?c)"
    using hd2 heads_okD [OF h] by (simp add: word_le_nat_alt)
  have mul_small: "unat (w32 (c_n_head ?c)) * unat (w32 (c_head_dim ?c)) < 2 ^ 32"
    "unat (w32 (c_n_kv_head ?c)) * unat (w32 (c_kv_head_dim ?c)) < 2 ^ 32"
    using heads_okD [OF h] by simp_all
  have qn: "vec_shape ?ts (?lw TENSOR_ATTN_Q_NORM) (unat (w32 (c_head_dim ?c)))" if "?lw TENSOR_ATTN_Q_NORM \<noteq> None"
    using lws that heads_okD [OF h] by simp
  have kn: "vec_shape ?ts (?lw TENSOR_ATTN_K_NORM) (unat (w32 (c_kv_head_dim ?c)))" if "?lw TENSOR_ATTN_K_NORM \<noteq> None"
    using lws that heads_okD [OF h] by simp
  have gate: "mat_shape ?ts (?lw TENSOR_ATTN_GATE) ?q (c_n_embd ?c)" if "?lw TENSOR_ATTN_GATE \<noteq> None"
    using lws that by simp
  note unf = qwen35_attn_def Let_def if_not_P [OF not_gated_output [OF out D]] heads_okD(1) [OF h] q_proj_ok [OF q] dbl
  have no: "\<not> (?lw TENSOR_ATTN_OUT = None)" using mat_shape_Some [OF out] by simp
  have hw: "?q = unat (w32 (c_n_head ?c)) * unat (w32 (c_head_dim ?c))"
    "c_n_kv_head ?c * c_kv_head_dim ?c = unat (w32 (c_n_kv_head ?c)) * unat (w32 (c_kv_head_dim ?c))"
    by (rule heads_widths [OF h])+
  have nz: "w32 (c_n_head ?c) \<noteq> 0" "w32 (c_n_kv_head ?c) \<noteq> 0" using heads_okD [OF h] by simp_all
  show ?thesis
    unfolding unf if_not_P [OF no]
    apply (rule step_mul_mat step_opt_bias step_fused_q step_opt_heads step_rope step_attn step_gate step_opt_sigmoid
        step_binary_last e mats [THEN orient(1)] orient(2) [OF q] orient(2) [OF out] biases hw fused le2 nz mul_small rd h l refl
      | assumption | rule insertI1 | rule insertI2 | erule qn kn gate
      | simp (no_asm) only: prod.case | (rule disjI1, rule refl))+
    apply (rule env_final, assumption, rule insertI1)
    apply (simp (no_asm) only: consumed)
    done
qed


definition q35_layer_ok :: "build_session \<Rightarrow> q35_ws \<Rightarrow> nat \<Rightarrow> bool" where
  "q35_layer_ok s ws l \<longleftrightarrow>
     (let ts = bs_tensors s; D = c_n_embd (bs_cfg s); F = ws_ffn_hidden ws; lw = w_layers (bs_weights s) ! l in
      (if lw TENSOR_SSM_CONV1D \<noteq> None
       then q35_geometry ws \<and> q35_ssm_ok s ws lw \<and> q_conv_state ws ! l \<noteq> None \<and> q_ssm_state ws ! l \<noteq> None
       else q35_attn_ok s lw)
      \<and> mat_shape ts (lw TENSOR_FFN_GATE) F D \<and> mat_shape ts (lw TENSOR_FFN_UP) F D
      \<and> mat_shape ts (lw TENSOR_FFN_DOWN) D F
      \<and> vec_shape ts (lw TENSOR_ATTN_NORM) D \<and> vec_shape ts (lw TENSOR_POST_ATTN_NORM) D)"

lemma qwen35_branch_ok:
  assumes e: "env (bs_tensors s) (bs_cfg s) 0 {(n, c_n_embd (bs_cfg s)), (cur, c_n_embd (bs_cfg s))} {n, cur} g"
    and h: "heads_ok (bs_cfg s)" and l: "l < c_n_layer (bs_cfg s)"
    and rope: "0 < c_rope_dim (bs_cfg s)" "c_rope_dim (bs_cfg s) \<le> c_kv_head_dim (bs_cfg s)"
    and lw: "q35_layer_ok s ws l"
  defines "lw \<equiv> w_layers (bs_weights s) ! l"
  shows "ok (if lw TENSOR_SSM_CONV1D \<noteq> None then qwen35_ssm s ws l cur n g
      else if lw TENSOR_ATTN_Q \<noteq> None \<and> lw TENSOR_ATTN_K \<noteq> None \<and> lw TENSOR_ATTN_V \<noteq> None
      then qwen35_attn s ws l cur n g else None)
    (\<lambda>(y, g'). env (bs_tensors s) (bs_cfg s) 0 {(y, c_n_embd (bs_cfg s))} {y} g')"
proof (cases "lw TENSOR_SSM_CONV1D = None")
  case True
  then have a: "q35_attn_ok s lw" using lw by (simp add: q35_layer_ok_def Let_def lw_def)
  then have "lw TENSOR_ATTN_Q \<noteq> None \<and> lw TENSOR_ATTN_K \<noteq> None \<and> lw TENSOR_ATTN_V \<noteq> None"
    by (auto simp: q35_attn_ok_def Let_def dest: mat_shape_Some)
  moreover have "ok (qwen35_attn s ws l cur n g)
      (\<lambda>(y, g'). env (bs_tensors s) (bs_cfg s) 0 {(y, c_n_embd (bs_cfg s))} {y} g')"
    by (rule qwen35_attn_ok [OF e h l rope]) (use a in \<open>simp add: lw_def\<close>)
  ultimately show ?thesis using True by simp
next
  case False
  then have q: "q35_geometry ws" "q35_ssm_ok s ws lw" and st: "q_conv_state ws ! l \<noteq> None" "q_ssm_state ws ! l \<noteq> None"
    using lw by (simp_all add: q35_layer_ok_def Let_def lw_def)
  from st obtain p p' where p: "q_conv_state ws ! l = Some p" "q_ssm_state ws ! l = Some p'" by blast
  have "ok (qwen35_ssm s ws l cur n g)
      (\<lambda>(y, g'). env (bs_tensors s) (bs_cfg s) 0 {(y, c_n_embd (bs_cfg s))} {y} g')"
    by (rule qwen35_ssm_ok [OF e q(1) p]) (use q in \<open>simp add: lw_def\<close>)
  then show ?thesis using False by auto
qed

lemma qwen35_layer_ok:
  assumes e: "env (bs_tensors s) (bs_cfg s) 0 {(cur, c_n_embd (bs_cfg s))} {cur} g"
    and h: "heads_ok (bs_cfg s)" and l: "l < c_n_layer (bs_cfg s)"
    and rope: "0 < c_rope_dim (bs_cfg s)" "c_rope_dim (bs_cfg s) \<le> c_kv_head_dim (bs_cfg s)"
    and lw: "q35_layer_ok s ws l"
  shows "ok (qwen35_layer s ws l (cur, g))
    (\<lambda>(y, g'). env (bs_tensors s) (bs_cfg s) 0 {(y, c_n_embd (bs_cfg s))} {y} g')"
proof -
  let ?c = "bs_cfg s" and ?ts = "bs_tensors s" and ?lw = "w_layers (bs_weights s) ! l"
  note lws = lw [unfolded q35_layer_ok_def Let_def]
  have mats: "mat_shape ?ts (?lw TENSOR_FFN_GATE) (ws_ffn_hidden ws) (c_n_embd ?c)"
    "mat_shape ?ts (?lw TENSOR_FFN_UP) (ws_ffn_hidden ws) (c_n_embd ?c)"
    "mat_shape ?ts (?lw TENSOR_FFN_DOWN) (c_n_embd ?c) (ws_ffn_hidden ws)"
    and vecs: "vec_shape ?ts (?lw TENSOR_ATTN_NORM) (c_n_embd ?c)" "vec_shape ?ts (?lw TENSOR_POST_ATTN_NORM) (c_n_embd ?c)"
    using lws by simp_all
  have present: "\<not> (?lw TENSOR_FFN_GATE = None \<or> ?lw TENSOR_FFN_UP = None \<or> ?lw TENSOR_FFN_DOWN = None)"
    using mats [THEN mat_shape_Some] by simp
  have g0: "env ?ts ?c 0 {(cur, c_n_embd ?c)} {cur} (graph_set_layer g l)" using e by simp
  show ?thesis
    unfolding qwen35_layer_def Let_def prod.case if_not_P [OF present]
    apply (rule step_rms_norm, rule g0, rule insertI1, rule vecs)
    apply (simp (no_asm) only: prod.case)
    apply (rule ok_bind, rule qwen35_branch_ok [OF _ h l rope lw])
     apply (rule env_weaken, assumption, rule subset_refl)
     apply (simp (no_asm))
    apply (simp only: split_paired_all prod.case)
    apply (rule steps step_boundary_last mats [THEN orient(1)] vecs
      | assumption | rule insertI1 | rule insertI2
      | simp (no_asm) only: prod.case | (rule disjI1, rule refl) | (rule disjI2, rule refl))+
    apply (rule env_final, assumption, rule insertI1)
    apply (simp (no_asm) only: consumed)
    done
qed

definition q35_shapes :: "build_session \<Rightarrow> q35_ws \<Rightarrow> bool" where
  "q35_shapes s ws \<longleftrightarrow>
     heads_ok (bs_cfg s) \<and> head_ok s \<and> 0 < c_rope_dim (bs_cfg s) \<and> c_rope_dim (bs_cfg s) \<le> c_kv_head_dim (bs_cfg s)
     \<and> (\<forall>l < c_n_layer (bs_cfg s). q35_layer_ok s ws l)"

lemma qwen35_complete:
  assumes shapes: "q35_shapes s ws" and n: "0 < n" "n \<le> bs_ctx_size s" "n < 2 ^ 31"
  shows "\<exists>g. qwen35_graph_build s ws n = Some g \<and> complete_graph s g"
proof (rule ok_complete)
  have h: "heads_ok (bs_cfg s)" and hd: "head_ok s"
    and rope: "0 < c_rope_dim (bs_cfg s)" "c_rope_dim (bs_cfg s) \<le> c_kv_head_dim (bs_cfg s)"
    and lw: "l < c_n_layer (bs_cfg s) \<Longrightarrow> q35_layer_ok s ws l" for l
    using shapes by (simp_all add: q35_shapes_def)
  have range: "\<not> (n = 0 \<or> n > bs_ctx_size s)" using n by simp
  have rd: "\<not> (c_rope_dim (bs_cfg s) = 0 \<or> c_rope_dim (bs_cfg s) > c_head_dim (bs_cfg s))"
    using rope h by (simp add: heads_ok_def)
  show "ok (qwen35_graph_build s ws n) (complete_graph s)"
    unfolding qwen35_graph_build_def Let_def if_not_P [OF range] if_not_P [OF rd] if_not_P [OF head_present [OF hd]]
      output_norm_present [OF hd]
    apply (rule step_input_embed [OF n(1,3) head_shapes(1) [OF hd]], simp only: prod.case)
    apply (rule step_layers, assumption)
     apply (rule qwen35_layer_ok, assumption, rule h, assumption, rule rope, rule rope, erule lw)
    apply (simp only: prod.case)
    apply (rule step_head [OF _ hd head_shapes(2) [OF hd]], assumption)
    apply (simp only: prod.case ok_Some)
    apply (erule env_complete, rule insertI1, rule subset_refl)
    done
qed


section \<open>Small hybrid models\<close>

definition hybrid_session :: "layer_weights list \<Rightarrow> build_session" where
  "hybrid_session layers = (toy_session 1)\<lparr>
     bs_tensors := toy_tensors 2 @ map toy_tensor [[12, 4], [4, 4], [6, 2], [2], [8, 4], [2, 4]],
     bs_weights := \<lparr>w_n_layer = length layers, w_tensors = [TENSOR_TOKEN_EMBD \<mapsto> 0, TENSOR_OUTPUT_NORM \<mapsto> 1],
       w_layers = layers\<rparr>\<rparr>"

definition toy_mixer :: layer_weights where
  "toy_mixer = toy_layer ++ map_of [(TENSOR_SSM_IN, 10), (TENSOR_SSM_OUT, 11), (TENSOR_SSM_CONV1D, 12),
     (TENSOR_SSM_A, 13), (TENSOR_SSM_D, 13), (TENSOR_SSM_DT_BIAS, 13)]"

definition toy_fh1 :: fh1_ws where
  "toy_fh1 = \<lparr>fh_d_inner = 4, fh_d_state = 1, fh_n_group = 1, fh_n_head = 2, fh_head_dim = 2, fh_conv_kernel = 2,
     fh_conv_dim = 6, fh_rope_theta = 0x461C4000, fh_conv_state = [Some 0, Some 2], fh_ssm_state = [Some 1, Some 3]\<rparr>"

definition toy_delta :: layer_weights where
  "toy_delta = toy_layer ++ map_of [(TENSOR_ATTN_QKV, 14), (TENSOR_SSM_ALPHA, 15), (TENSOR_SSM_BETA, 15),
     (TENSOR_SSM_OUT, 11), (TENSOR_SSM_CONV1D, 12), (TENSOR_SSM_A, 13), (TENSOR_SSM_DT_BIAS, 13)]"

definition toy_fused :: layer_weights where
  "toy_fused = toy_layer(TENSOR_ATTN_Q \<mapsto> 14)"

definition toy_q35 :: q35_ws where
  "toy_q35 = \<lparr>ws_ffn_hidden = 8, ws_rope_theta = 0x49742400, q_head_k = 2, q_head_v = 2, q_n_k = 1, q_n_v = 2,
     q_key_dim = 2, q_val_dim = 4, q_fused = 8, q_conv_kernel = 2, q_conv_state = [Some 0, None],
     q_ssm_state = [Some 1, None]\<rparr>"

lemmas hybrid_defs = toy_defs hybrid_session_def toy_mixer_def toy_fh1_def toy_delta_def toy_fused_def toy_q35_def

lemma toy_fh1_shapes: "fh1_shapes (hybrid_session [toy_mixer, toy_mixer]) toy_fh1 8"
  by (auto simp: hybrid_defs fh1_shapes_def heads_ok_def head_ok_def fh1_geometry_def fh1_cdim_def fh1_layer_ok_def
      Let_def mat_shape_def mat_dims_def vec_shape_def tensor_in_def tensor_opt_def less_2_cases_iff nth_Cons')

lemma toy_q35_shapes: "q35_shapes (hybrid_session [toy_delta, toy_fused]) toy_q35"
  by (auto simp: hybrid_defs q35_shapes_def heads_ok_def head_ok_def q35_geometry_def q35_ssm_ok_def q35_attn_ok_def
      q35_layer_ok_def Let_def mat_shape_def mat_dims_def vec_shape_def tensor_in_def tensor_opt_def less_2_cases_iff
      nth_Cons')

section \<open>Properties\<close>

text \<open>C35: the graph of a hybrid model.  Falcon-H1 (attention and Mamba2 in every layer) and
  Qwen 3.5 (Gated DeltaNet layers, and attention layers with a plain or a fused, gated query
  projection) build a complete graph from every well-shaped model: the recurrent operators name
  a state buffer the graph holds, the slices they cut out of the fused projections fill the row
  exactly, and the LM head is the only sink.\<close>

theorem hybrid_graphs_complete:
  assumes "0 < n" and "n \<le> bs_ctx_size s" and "n < 2 ^ 31"
  shows "(fh1_shapes s fws F \<longrightarrow> (\<exists>g. falcon_h1_graph_build s fws n = Some g \<and> complete_graph s g))
    \<and> (q35_shapes s qws \<longrightarrow> (\<exists>g. qwen35_graph_build s qws n = Some g \<and> complete_graph s g))"
  using falcon_h1_complete qwen35_complete assms by blast

theorem hybrid_graphs_complete_witness:
  "(\<exists>g. falcon_h1_graph_build (hybrid_session [toy_mixer, toy_mixer]) toy_fh1 4 = Some g
        \<and> complete_graph (hybrid_session [toy_mixer, toy_mixer]) g)
   \<and> (\<exists>g. qwen35_graph_build (hybrid_session [toy_delta, toy_fused]) toy_q35 4 = Some g
          \<and> complete_graph (hybrid_session [toy_delta, toy_fused]) g)"
proof -
  have n: "0 < (4 :: nat)" "4 \<le> bs_ctx_size (hybrid_session ls)" "(4 :: nat) < 2 ^ 31" for ls
    by (simp_all add: toy_session_def hybrid_session_def)
  show ?thesis
    using hybrid_graphs_complete [OF n, of "[toy_mixer, toy_mixer]" toy_fh1 8 toy_q35] toy_fh1_shapes
      hybrid_graphs_complete [OF n, of "[toy_delta, toy_fused]" toy_fh1 8 toy_q35] toy_q35_shapes by blast
qed

end
