(* ===== verification/ArenaPlan.thy ===== *)
theory ArenaPlan
  imports GraphTyping "HOL-Library.Multiset"
begin

text \<open>The static memory plan (\<open>graph.c\<close>): which bytes of its backend's arena each node's output
  occupies.  A slot is given back once its last reader has run and goes to the smallest later
  node it fits.  Sizes are \<open>size_t\<close>, so they wrap at 64 bits; \<open>malloc\<close> is assumed to succeed.\<close>

section \<open>Sizes, sinks, lifetimes\<close>

definition align16 :: "nat \<Rightarrow> nat" where
  "align16 x = add64 x 15 div 16 * 16"

definition node_cap_rows :: "graph_node \<Rightarrow> bool \<Rightarrow> nat \<Rightarrow> nat" where
  "node_cap_rows node sink n_ubatch =
     (if gn_op node = OP_INPUT then nat (gn_ne0 node mod 2 ^ 32) else if sink then 1 else n_ubatch)"

text \<open>The edge loop of planner and executor: every source of every node, in order.\<close>

definition edges :: "graph_node list \<Rightarrow> (nat \<times> nat) list" where
  "edges nodes = [(i, j). (i, node) \<leftarrow> enumerate 0 nodes, Some j \<leftarrow> gn_src node]"

definition sink_marks :: "graph_node list \<Rightarrow> bool list" where
  "sink_marks nodes = foldl (\<lambda>s (i, j). s[j := False]) (replicate (length nodes) True) (edges nodes)"

definition releases :: "graph_node list \<Rightarrow> nat list" where
  "releases nodes = foldl (\<lambda>r (i, j). if i > r ! j then r[j := i] else r) [0 ..< length nodes] (edges nodes)"

definition node_need :: "nat \<Rightarrow> graph_node \<Rightarrow> bool \<Rightarrow> u32 \<Rightarrow> nat" where
  "node_need n_ubatch node sink od =
     align16 (if gn_op node = OP_INPUT then mul64 (nat (gn_ne0 node mod 2 ^ 64)) 4
              else mul64 (mul64 (node_cap_rows node sink n_ubatch) (unat od)) 4)"

definition node_needs :: "tensor_info list \<Rightarrow> arch_config \<Rightarrow> nat \<Rightarrow> graph_node list \<Rightarrow> nat list" where
  "node_needs ts c n_ubatch nodes =
     map (\<lambda>(node, sink, od). node_need n_ubatch node sink od)
       (zip nodes (zip (sink_marks nodes) (node_dims ts c nodes)))"

section \<open>The sweep\<close>

text \<open>A chunk is an offset and a size; each backend has its free list and its high-water mark.\<close>

record arena =
  ar_off :: "nat list"
  ar_free :: "backend_type \<Rightarrow> (nat \<times> nat) list"
  ar_bump :: "backend_type \<Rightarrow> nat"

text \<open>Index of the smallest chunk that fits, the first one of its size.\<close>

definition best_fit :: "(nat \<times> nat) list \<Rightarrow> nat \<Rightarrow> nat option" where
  "best_fit chunks want =
     fst (foldl (\<lambda>(best, best_sz) (f, off, sz). if sz \<ge> want \<and> sz < best_sz then (Some f, sz) else (best, best_sz))
            (None, u64_max) (enumerate 0 chunks))"

definition swap_remove :: "'a list \<Rightarrow> nat \<Rightarrow> 'a list" where
  "swap_remove xs i = butlast (xs[i := last xs])"

text \<open>Step \<open>i\<close>: first the slots whose last reader was step \<open>i - 1\<close>.\<close>

definition reclaim :: "graph_node list \<Rightarrow> nat list \<Rightarrow> nat list \<Rightarrow> nat \<Rightarrow> arena \<Rightarrow> arena" where
  "reclaim nodes needs rel i a =
     foldl (\<lambda>a j. if rel ! j + 1 \<noteq> i then a
              else let b = gn_backend (nodes ! j) in
                a\<lparr>ar_free := (ar_free a)(b := ar_free a b @ [(ar_off a ! j, needs ! j)])\<rparr>) a [0 ..< i]"

definition place :: "graph_node list \<Rightarrow> nat list \<Rightarrow> nat \<Rightarrow> arena \<Rightarrow> arena" where
  "place nodes needs i a =
     (let b = gn_backend (nodes ! i); want = needs ! i in
      case best_fit (ar_free a b) want of
        Some f \<Rightarrow> a\<lparr>ar_off := ar_off a @ [fst (ar_free a b ! f)],
                   ar_free := (ar_free a)(b := swap_remove (ar_free a b) f)\<rparr>
      | None \<Rightarrow> a\<lparr>ar_off := ar_off a @ [ar_bump a b],
                  ar_bump := (ar_bump a)(b := add64 (ar_bump a b) want)\<rparr>)"

definition arena_sweep :: "graph_node list \<Rightarrow> nat list \<Rightarrow> nat list \<Rightarrow> nat \<Rightarrow> arena" where
  "arena_sweep nodes needs rel n =
     foldl (\<lambda>a i. place nodes needs i (reclaim nodes needs rel i a))
       \<lparr>ar_off = [], ar_free = (\<lambda>_. []), ar_bump = (\<lambda>_. 0)\<rparr> [0 ..< n]"

text \<open>The plan: per node its offset and capacity, per backend the size of its arena.\<close>

record plan =
  pl_off :: "nat list"
  pl_cap :: "nat list"
  pl_size :: "backend_type \<Rightarrow> nat"

definition arena_plan :: "tensor_info list \<Rightarrow> arch_config \<Rightarrow> nat \<Rightarrow> graph_node list \<Rightarrow> plan" where
  "arena_plan ts c n_ubatch nodes =
     (let needs = node_needs ts c n_ubatch nodes;
          a = arena_sweep nodes needs (releases nodes) (length nodes) in
      \<lparr>pl_off = ar_off a, pl_cap = needs, pl_size = ar_bump a\<rparr>)"

section \<open>Sinks and lifetimes\<close>

lemma edges_iff: "(i, j) \<in> set (edges nodes) \<longleftrightarrow> i < length nodes \<and> node_reads (nodes ! i) j"
  by (auto simp: edges_def node_reads_def in_set_enumerate_eq split: option.splits)

lemma marks_foldl:
  "\<forall>e \<in> set es. snd e < length s \<Longrightarrow> length (foldl (\<lambda>s (i, j). s[j := False]) s es) = length s
   \<and> (\<forall>k < length s. foldl (\<lambda>s (i, j). s[j := False]) s es ! k \<longleftrightarrow> s ! k \<and> k \<notin> snd ` set es)"
proof (induction es arbitrary: s)
  case (Cons e es)
  then show ?case by (cases e) (auto simp: nth_list_update)
qed simp

text \<open>Every edge goes backward.\<close>

definition backward :: "graph_node list \<Rightarrow> bool" where
  "backward nodes \<longleftrightarrow> (\<forall>i < length nodes. \<forall>j. node_reads (nodes ! i) j \<longrightarrow> j < i)"

lemma typed_backward:
  assumes g: "graph_typed ts c g"
  shows "backward (g_nodes g)"
  unfolding backward_def
proof (intro allI impI)
  fix i j
  assume i: "i < length (g_nodes g)" and r: "node_reads (g_nodes g ! i) j"
  then obtain k where "k < length (gn_src (g_nodes g ! i))" and k: "gn_src (g_nodes g ! i) ! k = Some j"
    by (auto simp: node_reads_def in_set_conv_nth)
  moreover have t: "node_typed ts c (length (g_state g)) (node_dims ts c (g_nodes g)) i (g_nodes g ! i)"
    using g i by (simp add: graph_typed_def)
  ultimately have "k < 4" by (simp add: node_typed_def)
  with t k show "j < i" unfolding node_typed_def by (auto dest: spec [of _ k])
qed

lemma edges_bound: "backward nodes \<Longrightarrow> \<forall>e \<in> set (edges nodes). snd e < length nodes"
  by (fastforce simp: backward_def edges_iff)

lemma sink_marks:
  assumes "backward nodes"
  shows "length (sink_marks nodes) = length nodes"
    and "i < length nodes \<Longrightarrow> sink_marks nodes ! i = is_sink nodes i"
proof -
  let ?s = "replicate (length nodes) True"
  have "\<forall>e \<in> set (edges nodes). snd e < length ?s" using edges_bound [OF assms] by simp
  from marks_foldl [OF this] have m: "length (sink_marks nodes) = length nodes"
    "\<And>k. k < length nodes \<Longrightarrow> sink_marks nodes ! k \<longleftrightarrow> k \<notin> snd ` set (edges nodes)"
    by (simp_all add: sink_marks_def)
  show "length (sink_marks nodes) = length nodes" by (rule m)
  have "i \<in> snd ` set (edges nodes) \<longleftrightarrow> \<not> is_sink nodes i" for i
    unfolding is_sink_def list_ex_length image_iff using edges_iff [of _ i nodes] by force
  then show "i < length nodes \<Longrightarrow> sink_marks nodes ! i = is_sink nodes i" using m(2) by simp
qed

lemma releases_foldl:
  fixes es :: "(nat \<times> nat) list"
  shows "\<forall>e \<in> set es. snd e < length r \<Longrightarrow> length (foldl (\<lambda>r (i, j). if i > r ! j then r[j := i] else r) r es) = length r
   \<and> (\<forall>k < length r. r ! k \<le> foldl (\<lambda>r (i, j). if i > r ! j then r[j := i] else r) r es ! k
        \<and> (\<forall>(i, j) \<in> set es. j = k \<longrightarrow> i \<le> foldl (\<lambda>r (i, j). if i > r ! j then r[j := i] else r) r es ! k))"
proof (induction es arbitrary: r)
  case (Cons e es)
  obtain i j where e: "e = (i, j)" by fastforce
  let ?r = "if i > r ! j then r[j := i] else r"
  let ?f = "foldl (\<lambda>r (i, j). if i > r ! j then r[j := i] else r) ?r es"
  have len: "length ?r = length r" by simp
  have IH: "length ?f = length r" "\<And>k. k < length r \<Longrightarrow> ?r ! k \<le> ?f ! k"
    "\<And>k i' j'. k < length r \<Longrightarrow> (i', j') \<in> set es \<Longrightarrow> j' = k \<Longrightarrow> i' \<le> ?f ! k"
    using Cons.IH [of ?r] Cons.prems unfolding len by fastforce+
  have "r ! k \<le> ?r ! k" if "k < length r" for k using that by (cases "j = k") auto
  moreover have "i \<le> ?r ! j" using Cons.prems e by simp
  ultimately show ?case
    using IH Cons.prems e by (fastforce intro: order_trans)
qed simp

lemma releases:
  assumes b: "backward nodes"
  shows "length (releases nodes) = length nodes"
    and "i < length nodes \<Longrightarrow> i \<le> releases nodes ! i"
    and "i < length nodes \<Longrightarrow> node_reads (nodes ! i) j \<Longrightarrow> i \<le> releases nodes ! j"
proof -
  let ?s = "[0 ..< length nodes]"
  have "\<forall>e \<in> set (edges nodes). snd e < length ?s" using edges_bound [OF b] by simp
  note m = releases_foldl [OF this, folded releases_def]
  show "length (releases nodes) = length nodes" using m by simp
  show "i < length nodes \<Longrightarrow> i \<le> releases nodes ! i" using m by auto
  assume i: "i < length nodes" and r: "node_reads (nodes ! i) j"
  then have "j < length nodes" using b by (fastforce simp: backward_def)
  moreover have "(i, j) \<in> set (edges nodes)" using i r by (simp add: edges_iff)
  ultimately show "i \<le> releases nodes ! j" using m by auto
qed

section \<open>No byte has two owners\<close>

definition owners :: "nat \<Rightarrow> (nat \<times> nat) list \<Rightarrow> nat" where
  "owners x chunks = length (filter (\<lambda>(off, sz). off \<le> x \<and> x < off + sz) chunks)"

lemma owners_simps [simp]:
  "owners x [] = 0" "owners x (c # cs) = (if fst c \<le> x \<and> x < fst c + snd c then 1 else 0) + owners x cs"
  "owners x (cs @ ds) = owners x cs + owners x ds"
  by (auto simp: owners_def split: prod.split)

lemma owners_mset: "mset xs = mset ys \<Longrightarrow> owners x xs = owners x ys"
proof -
  assume "mset xs = mset ys"
  then have "mset (filter P xs) = mset (filter P ys)" for P by simp
  then show ?thesis unfolding owners_def by (rule mset_eq_length)
qed

lemma owners_filter_split:
  assumes "\<And>j. j \<in> set js \<Longrightarrow> P j \<longleftrightarrow> Q j \<or> R j" and "\<And>j. j \<in> set js \<Longrightarrow> \<not> (Q j \<and> R j)"
  shows "owners x (map f (filter P js)) = owners x (map f (filter Q js)) + owners x (map f (filter R js))"
  using assms by (induction js) auto

lemma owners_two:
  assumes "i < j" and "j < length cs"
    and "fst (cs ! i) \<le> x" "x < fst (cs ! i) + snd (cs ! i)" "fst (cs ! j) \<le> x" "x < fst (cs ! j) + snd (cs ! j)"
  shows "2 \<le> owners x cs"
proof -
  have i: "cs = take j cs @ cs ! j # drop (Suc j) cs" using assms(2) by (simp add: id_take_nth_drop)
  have "take j cs = take i (take j cs) @ take j cs ! i # drop (Suc i) (take j cs)"
    using assms(1,2) by (intro id_take_nth_drop) simp
  then have "owners x (take j cs) = owners x (take i (take j cs) @ cs ! i # drop (Suc i) (take j cs))"
    using assms(1) by simp
  then have "1 \<le> owners x (take j cs)" using assms(3,4) by (simp del: take_take)
  moreover have "owners x cs = owners x (take j cs) + 1 + owners x (drop (Suc j) cs)"
    using assms(5,6) by (subst i) (simp del: append_take_drop_id)
  ultimately show ?thesis by linarith
qed

lemma swap_remove:
  assumes "f < length xs"
  shows "mset (xs ! f # swap_remove xs f) = mset xs"
proof (cases xs rule: rev_cases)
  case (snoc ys z)
  show ?thesis
  proof (cases "f = length ys")
    case True
    then show ?thesis by (simp add: snoc swap_remove_def list_update_append)
  next
    case False
    then have f: "f < length ys" using assms snoc by simp
    then have "ys ! f \<in># mset ys" by simp
    with f show ?thesis by (simp add: snoc swap_remove_def list_update_append nth_append mset_update)
  qed
qed (use assms in simp)

lemma best_fit_some:
  assumes "best_fit chunks want = Some f"
  shows "f < length chunks \<and> want \<le> snd (chunks ! f)"
proof -
  define good where "good k = (k < length chunks \<and> want \<le> snd (chunks ! k))" for k
  define step where
    "step = (\<lambda>(best, best_sz :: nat) (f :: nat, off :: nat, sz). if sz \<ge> want \<and> sz < best_sz then (Some f, sz) else (best, best_sz))"
  have inv: "(\<And>k. fst (foldl step acc es) = Some k \<Longrightarrow> good k)"
    if "\<And>k. fst acc = Some k \<Longrightarrow> good k" and "\<forall>(k, c) \<in> set es. want \<le> snd c \<longrightarrow> good k"
    for acc and es :: "(nat \<times> nat \<times> nat) list"
    using that
  proof (induction es arbitrary: acc)
    case (Cons e es)
    obtain b z where acc: "acc = (b, z)" by fastforce
    obtain k off sz where e: "e = (k, off, sz)" by (metis prod_cases3)
    have "\<And>k. fst (step acc e) = Some k \<Longrightarrow> good k"
      using Cons.prems acc e by (auto simp: step_def split: if_splits)
    then show ?case using Cons.IH [of "step acc e"] Cons.prems by simp
  qed simp
  have "\<forall>(k, c) \<in> set (enumerate 0 chunks). want \<le> snd c \<longrightarrow> good k"
    by (auto simp: in_set_enumerate_eq good_def)
  then show ?thesis
    using inv [of "(None, u64_max)" "enumerate 0 chunks" f] assms
    by (simp add: best_fit_def step_def good_def)
qed

section \<open>The invariant of the sweep\<close>

definition slots :: "graph_node list \<Rightarrow> nat list \<Rightarrow> nat list \<Rightarrow> (nat \<Rightarrow> bool) \<Rightarrow> backend_type \<Rightarrow> nat \<Rightarrow> (nat \<times> nat) list" where
  "slots nodes needs off P b n =
     map (\<lambda>j. (off ! j, needs ! j)) (filter (\<lambda>j. gn_backend (nodes ! j) = b \<and> P j) [0 ..< n])"

text \<open>After the steps below \<open>i\<close>: the slots not yet given back and the free chunks of a backend
  share no byte and lie below its high-water mark.\<close>

definition sweep_inv :: "graph_node list \<Rightarrow> nat list \<Rightarrow> nat list \<Rightarrow> nat \<Rightarrow> arena \<Rightarrow> bool" where
  "sweep_inv nodes needs rel i a \<longleftrightarrow>
     length (ar_off a) = i
     \<and> (\<forall>b x. owners x (slots nodes needs (ar_off a) (\<lambda>j. i \<le> rel ! j + 1) b i @ ar_free a b)
              \<le> (if x < ar_bump a b then 1 else 0))
     \<and> (\<forall>b. ar_bump a b \<le> sum_list (take i needs))"

lemma reclaim_foldl:
  "let a' = foldl (\<lambda>a j. if rel ! j + 1 \<noteq> i then a
              else let b = gn_backend (nodes ! j) in
                a\<lparr>ar_free := (ar_free a)(b := ar_free a b @ [(ar_off a ! j, needs ! j)])\<rparr>) a [0 ..< k] in
   ar_off a' = ar_off a \<and> ar_bump a' = ar_bump a
   \<and> (\<forall>b. ar_free a' b = ar_free a b @ slots nodes needs (ar_off a) (\<lambda>j. rel ! j + 1 = i) b k)"
  by (induction k) (auto simp: Let_def slots_def)

lemma reclaim:
  "ar_off (reclaim nodes needs rel i a) = ar_off a" "ar_bump (reclaim nodes needs rel i a) = ar_bump a"
  "ar_free (reclaim nodes needs rel i a) b = ar_free a b @ slots nodes needs (ar_off a) (\<lambda>j. rel ! j + 1 = i) b i"
  using reclaim_foldl [of rel i nodes needs a i] by (simp_all add: reclaim_def Let_def)

lemma owners_reclaim:
  fixes rel :: "nat list"
  shows "owners x (slots nodes needs off (\<lambda>j. i \<le> rel ! j) b n) + owners x (slots nodes needs off (\<lambda>j. rel ! j + 1 = i) b n)
   = owners x (slots nodes needs off (\<lambda>j. i \<le> rel ! j + 1) b n)"
  unfolding slots_def by (rule owners_filter_split [symmetric]) auto

lemma slots_snoc:
  assumes "length off = i"
  shows "slots nodes needs (off @ [o']) P b (Suc i) =
    slots nodes needs off P b i @ (if gn_backend (nodes ! i) = b \<and> P i then [(o', needs ! i)] else [])"
proof -
  have "map (\<lambda>j. ((off @ [o']) ! j, needs ! j)) (filter Q [0 ..< i]) = map (\<lambda>j. (off ! j, needs ! j)) (filter Q [0 ..< i])" for Q
    using assms by (intro map_cong) (auto simp: nth_append)
  then show ?thesis using assms by (simp add: slots_def nth_append)
qed

lemma sweep_invI:
  assumes len: "length off = i" and rel: "i \<le> rel ! i" and off: "ar_off a = off @ [o']"
    and own: "\<And>b x. owners x (slots nodes needs off (\<lambda>j. i \<le> rel ! j) b i)
        + (if gn_backend (nodes ! i) = b \<and> o' \<le> x \<and> x < o' + needs ! i then 1 else 0) + owners x (ar_free a b)
        \<le> (if x < ar_bump a b then 1 else 0)"
    and bump: "\<And>b. ar_bump a b \<le> sum_list (take (Suc i) needs)"
  shows "sweep_inv nodes needs rel (Suc i) a"
  unfolding sweep_inv_def off
proof (intro conjI allI)
  fix b x
  have eq: "(\<lambda>j. Suc i \<le> rel ! j + 1) = (\<lambda>j. i \<le> rel ! j)" by auto
  show "owners x (slots nodes needs (off @ [o']) (\<lambda>j. Suc i \<le> rel ! j + 1) b (Suc i) @ ar_free a b)
      \<le> (if x < ar_bump a b then 1 else 0)"
    unfolding eq slots_snoc [OF len] owners_simps using own [of x b] rel
    by (cases "gn_backend (nodes ! i) = b"; cases "o' \<le> x \<and> x < o' + needs ! i"; cases "x < ar_bump a b") auto
qed (use len bump in simp_all)

lemma sweep_small:
  fixes needs :: "nat list"
  assumes "sweep_inv nodes needs rel n a" and "sum_list needs < 2 ^ 64" and "n < length needs"
  shows "ar_bump a b + needs ! n < 2 ^ 64"
proof -
  have "sum_list needs = sum_list (take (Suc n) needs) + sum_list (drop (Suc n) needs)"
    by (metis append_take_drop_id sum_list_append)
  moreover have "sum_list (take (Suc n) needs) = sum_list (take n needs) + needs ! n"
    using assms(3) by (simp add: take_Suc_conv_app_nth)
  moreover have "ar_bump a b \<le> sum_list (take n needs)" using assms(1) by (simp add: sweep_inv_def)
  ultimately show ?thesis using assms(2) by linarith
qed

lemma sweep_step:
  assumes inv: "sweep_inv nodes needs rel i a" and i: "i < length needs" and rel: "i \<le> rel ! i"
    and total: "sum_list needs < 2 ^ 64"
  shows "sweep_inv nodes needs rel (Suc i) (place nodes needs i (reclaim nodes needs rel i a))"
proof -
  let ?a = "reclaim nodes needs rel i a" and ?b = "gn_backend (nodes ! i)" and ?w = "needs ! i"
  let ?live = "\<lambda>b. slots nodes needs (ar_off a) (\<lambda>j. i \<le> rel ! j) b i"
  note r = reclaim [of nodes needs rel i a]
  have len: "length (ar_off a) = i" using inv by (simp add: sweep_inv_def)
  have own: "owners x (?live b) + owners x (ar_free ?a b) \<le> (if x < ar_bump a b then 1 else 0)" for b x
  proof -
    have "owners x (slots nodes needs (ar_off a) (\<lambda>j. i \<le> rel ! j + 1) b i @ ar_free a b) \<le> (if x < ar_bump a b then 1 else 0)"
      using inv unfolding sweep_inv_def by blast
    then show ?thesis
      unfolding r(3) owners_simps using owners_reclaim [of x nodes needs "ar_off a" i rel b i] by linarith
  qed
  have take: "sum_list (take (Suc i) needs) = sum_list (take i needs) + ?w"
    using i by (simp add: take_Suc_conv_app_nth)
  have small: "ar_bump a ?b + ?w < 2 ^ 64" by (rule sweep_small [OF inv total i])
  have bump: "ar_bump a b \<le> sum_list (take i needs)" for b using inv by (simp add: sweep_inv_def)
  show ?thesis
  proof (cases "best_fit (ar_free ?a ?b) ?w")
    case None
    then have p: "place nodes needs i ?a = ?a\<lparr>ar_off := ar_off a @ [ar_bump a ?b],
        ar_bump := (ar_bump a)(?b := ar_bump a ?b + ?w)\<rparr>"
      using small by (simp add: place_def Let_def r)
    have "owners x (?live b) + owners x (ar_free ?a b)
        + (if ?b = b \<and> ar_bump a ?b \<le> x \<and> x < ar_bump a ?b + ?w then 1 else 0)
        \<le> (if x < ((ar_bump a)(?b := ar_bump a ?b + ?w)) b then 1 else 0)" for b x
    proof (cases "?b = b")
      case True
      have "x < ar_bump a ?b \<Longrightarrow> x < ar_bump a ?b + ?w" by simp
      then show ?thesis using own [of x b] True
        by (cases "x < ar_bump a ?b"; cases "x < ar_bump a ?b + ?w") simp_all
    next
      case False
      then show ?thesis using own [of x b] by simp
    qed
    then show ?thesis
    proof (intro sweep_invI [where off = "ar_off a" and o' = "ar_bump a ?b"] len rel)
      show "ar_bump (place nodes needs i ?a) b \<le> sum_list (take (Suc i) needs)" for b
        using bump [of b] bump [of ?b] take by (simp add: p r)
    qed (simp_all add: p ac_simps)
  next
    case (Some f)
    let ?free = "ar_free ?a ?b"
    have f: "f < length ?free" "?w \<le> snd (?free ! f)" using best_fit_some [OF Some] by simp_all
    have p: "place nodes needs i ?a = ?a\<lparr>ar_off := ar_off a @ [fst (?free ! f)],
        ar_free := (ar_free ?a)(?b := swap_remove ?free f)\<rparr>"
      using Some by (simp add: place_def Let_def r)
    have keep: "owners x (?free ! f # swap_remove ?free f) = owners x ?free" for x
      by (rule owners_mset [OF swap_remove [OF f(1)]])
    have sw: "(if fst (?free ! f) \<le> x \<and> x < fst (?free ! f) + ?w then 1 else 0) + owners x (swap_remove ?free f)
        \<le> owners x ?free" for x
    proof -
      have "(if fst (?free ! f) \<le> x \<and> x < fst (?free ! f) + ?w then 1 else (0 :: nat))
          \<le> (if fst (?free ! f) \<le> x \<and> x < fst (?free ! f) + snd (?free ! f) then 1 else 0)"
        using f(2) by simp
      with keep [of x] show ?thesis
        unfolding owners_simps by linarith
    qed
    have "owners x (?live b) + (if ?b = b \<and> fst (?free ! f) \<le> x \<and> x < fst (?free ! f) + ?w then 1 else 0)
        + owners x (((ar_free ?a)(?b := swap_remove ?free f)) b) \<le> (if x < ar_bump a b then 1 else 0)" for b x
    proof (cases "?b = b")
      case True
      then have "owners x (((ar_free ?a)(?b := swap_remove ?free f)) b) = owners x (swap_remove ?free f)" by simp
      then show ?thesis using own [of x b] sw [of x] unfolding True by (simp only: simp_thms)
    next
      case False
      then have "owners x (((ar_free ?a)(?b := swap_remove ?free f)) b) = owners x (ar_free ?a b)" by simp
      then show ?thesis using own [of x b] False by (simp only: simp_thms if_False)
    qed
    then show ?thesis
    proof (intro sweep_invI [where off = "ar_off a" and o' = "fst (?free ! f)"] len rel)
      show "ar_bump (place nodes needs i ?a) b \<le> sum_list (take (Suc i) needs)" for b
        using bump [of b] take by (simp add: p r)
    qed (simp_all add: p r)
  qed
qed


lemma sweep_inv_start: "sweep_inv nodes needs rel 0 \<lparr>ar_off = [], ar_free = (\<lambda>_. []), ar_bump = (\<lambda>_. 0)\<rparr>"
  by (simp add: sweep_inv_def slots_def)

lemma arena_sweep_Suc:
  "arena_sweep nodes needs rel (Suc i) = place nodes needs i (reclaim nodes needs rel i (arena_sweep nodes needs rel i))"
  by (simp add: arena_sweep_def)

lemma arena_sweep_inv:
  assumes "\<forall>i < length needs. i \<le> rel ! i" and "sum_list needs < 2 ^ 64" and "n \<le> length needs"
  shows "sweep_inv nodes needs rel n (arena_sweep nodes needs rel n)"
  using assms(3)
proof (induction n)
  case 0
  show ?case using sweep_inv_start by (simp add: arena_sweep_def)
next
  case (Suc n)
  then show ?case
    unfolding arena_sweep_Suc by (intro sweep_step) (use assms in auto)
qed

lemma place_off: "\<exists>o'. ar_off (place nodes needs i a) = ar_off a @ [o']"
  by (simp add: place_def Let_def split: option.split)

lemma place_bump:
  "ar_bump a (gn_backend (nodes ! i)) + needs ! i < 2 ^ 64 \<Longrightarrow> ar_bump a b \<le> ar_bump (place nodes needs i a) b"
  by (simp add: place_def Let_def split: option.split)

text \<open>Offsets are final, and high-water marks only grow.\<close>

lemma sweep_stable:
  assumes "\<forall>i < length needs. i \<le> rel ! i" and "sum_list needs < 2 ^ 64" and "m \<le> n" and "n \<le> length needs"
  shows "take m (ar_off (arena_sweep nodes needs rel n)) = ar_off (arena_sweep nodes needs rel m)
    \<and> ar_bump (arena_sweep nodes needs rel m) b \<le> ar_bump (arena_sweep nodes needs rel n) b"
  using assms(3,4)
proof (induction n)
  case 0
  then show ?case by (simp add: arena_sweep_def)
next
  case (Suc n)
  let ?a = "arena_sweep nodes needs rel"
  have inv: "sweep_inv nodes needs rel k (?a k)" if "k \<le> length needs" for k
    by (rule arena_sweep_inv [OF assms(1,2) that])
  then have len: "length (ar_off (?a k)) = k" if "k \<le> length needs" for k using that by (simp add: sweep_inv_def)
  show ?case
  proof (cases "m = Suc n")
    case True
    then show ?thesis using len [OF Suc.prems(2)] by simp
  next
    case False
    then have IH: "take m (ar_off (?a n)) = ar_off (?a m) \<and> ar_bump (?a m) b \<le> ar_bump (?a n) b" and m: "m \<le> n"
      using Suc by simp_all
    have small: "ar_bump (?a n) c + needs ! n < 2 ^ 64" for c
      using Suc.prems(2) by (intro sweep_small [OF inv assms(2)]) simp_all
    have "ar_bump (?a n) b \<le> ar_bump (?a (Suc n)) b"
      using place_bump [of "reclaim nodes needs rel n (?a n)" nodes n needs b] small
      by (simp add: arena_sweep_Suc reclaim)
    moreover have "take m (ar_off (?a (Suc n))) = take m (ar_off (?a n))"
      using m len [of n] Suc.prems(2) place_off [of nodes needs n "reclaim nodes needs rel n (?a n)"]
      by (auto simp: arena_sweep_Suc reclaim)
    ultimately show ?thesis using IH by (auto intro: order_trans)
  qed
qed

text \<open>Two nodes of one backend that are both needed at step \<open>j\<close> share no byte.\<close>

lemma sweep_disjoint:
  assumes rel: "\<forall>i < length needs. i \<le> rel ! i" and total: "sum_list needs < 2 ^ 64"
    and ij: "i < j" "j < length needs" and same: "gn_backend (nodes ! i) = gn_backend (nodes ! j)"
    and live: "j \<le> rel ! i"
  defines "off \<equiv> ar_off (arena_sweep nodes needs rel (length needs))"
  shows "x < off ! i \<or> off ! i + needs ! i \<le> x \<or> x < off ! j \<or> off ! j + needs ! j \<le> x"
proof (rule ccontr)
  assume both: "\<not> ?thesis"
  let ?a = "arena_sweep nodes needs rel (Suc j)" and ?b = "gn_backend (nodes ! j)"
  have inv: "sweep_inv nodes needs rel (Suc j) ?a" using ij by (intro arena_sweep_inv rel total) simp
  have "take (Suc j) off = ar_off ?a"
    unfolding off_def using sweep_stable [OF rel total, of "Suc j" "length needs"] ij by simp
  then have o: "ar_off ?a ! k = off ! k" if "k \<le> j" for k
    using that by (metis nth_take less_Suc_eq_le)
  let ?js = "filter (\<lambda>k. gn_backend (nodes ! k) = ?b \<and> Suc j \<le> rel ! k + 1) [0 ..< Suc j]"
  let ?L = "slots nodes needs (ar_off ?a) (\<lambda>k. Suc j \<le> rel ! k + 1) ?b (Suc j)"
  have js: "?js = filter (\<lambda>k. gn_backend (nodes ! k) = ?b \<and> Suc j \<le> rel ! k + 1) [0 ..< j] @ [j]"
    using rel ij by simp
  have "i \<in> set (filter (\<lambda>k. gn_backend (nodes ! k) = ?b \<and> Suc j \<le> rel ! k + 1) [0 ..< j])"
    using ij same live by simp
  then obtain p where "p < length (filter (\<lambda>k. gn_backend (nodes ! k) = ?b \<and> Suc j \<le> rel ! k + 1) [0 ..< j])"
    and "filter (\<lambda>k. gn_backend (nodes ! k) = ?b \<and> Suc j \<le> rel ! k + 1) [0 ..< j] ! p = i"
    unfolding in_set_conv_nth by blast
  then have p: "p < length ?js - 1" "?js ! p = i" unfolding js by (simp_all add: nth_append)
  have last: "?js ! (length ?js - 1) = j" "length ?js - 1 < length ?js" unfolding js by simp_all
  have at: "?L ! q = (off ! (?js ! q), needs ! (?js ! q))" if "q < length ?js" "?js ! q \<le> j" for q
    unfolding slots_def nth_map [OF that(1)] using o [OF that(2)] by simp
  have len: "length ?L = length ?js" by (simp only: slots_def length_map)
  have "2 \<le> owners x ?L"
  proof (rule owners_two [of p "length ?js - 1"])
    show "p < length ?js - 1" by (rule p)
    show "length ?js - 1 < length ?L" unfolding len by (rule last)
    have "?L ! p = (off ! i, needs ! i)" using at [of p] p(1) ij(1) unfolding p(2) by simp
    moreover have "?L ! (length ?js - 1) = (off ! j, needs ! j)" using at [OF last(2)] unfolding last(1) by simp
    ultimately show "fst (?L ! p) \<le> x" "x < fst (?L ! p) + snd (?L ! p)"
      "fst (?L ! (length ?js - 1)) \<le> x" "x < fst (?L ! (length ?js - 1)) + snd (?L ! (length ?js - 1))"
      using both by simp_all
  qed
  moreover have "owners x (?L @ ar_free ?a ?b) \<le> 1"
  proof -
    have "owners x (?L @ ar_free ?a ?b) \<le> (if x < ar_bump ?a ?b then 1 else 0)"
      using inv unfolding sweep_inv_def by blast
    then show ?thesis by (cases "x < ar_bump ?a ?b") simp_all
  qed
  ultimately show False by simp
qed


section \<open>Slots are disjoint and inside the arena\<close>

lemma sweep_inside:
  fixes rel :: "nat list" and nodes :: "graph_node list"
  assumes rel: "\<forall>i < length needs. i \<le> rel ! i" and total: "sum_list needs < 2 ^ 64" and j: "j < length needs"
  defines "a \<equiv> arena_sweep nodes needs rel (length needs)"
  shows "needs ! j = 0 \<or> ar_off a ! j + needs ! j \<le> ar_bump a (gn_backend (nodes ! j))"
proof (rule ccontr)
  assume "\<not> ?thesis"
  then have out: "0 < needs ! j" "ar_bump a (gn_backend (nodes ! j)) < ar_off a ! j + needs ! j" by simp_all
  let ?a = "arena_sweep nodes needs rel (Suc j)" and ?b = "gn_backend (nodes ! j)"
  let ?L = "slots nodes needs (ar_off ?a) (\<lambda>k. Suc j \<le> rel ! k + 1) ?b (Suc j)"
  note stable = sweep_stable [OF rel total, of "Suc j" "length needs" nodes ?b, folded a_def]
  have inv: "sweep_inv nodes needs rel (Suc j) ?a" using j by (intro arena_sweep_inv rel total) simp
  have off: "ar_off ?a ! j = ar_off a ! j" using stable j by (metis Suc_leI lessI nth_take order_refl)
  have "(ar_off ?a ! j, needs ! j) \<in> set ?L" using rel j by (simp add: slots_def)
  then obtain xs ys where "?L = xs @ (ar_off ?a ! j, needs ! j) # ys" by (auto dest: split_list)
  moreover have "owners (ar_off a ! j + needs ! j - 1) (?L @ ar_free ?a ?b)
      \<le> (if ar_off a ! j + needs ! j - 1 < ar_bump ?a ?b then 1 else 0)"
    using inv unfolding sweep_inv_def by blast
  moreover have "ar_bump ?a ?b \<le> ar_off a ! j + needs ! j - 1" using stable j out by linarith
  moreover have "ar_off a ! j \<le> ar_off a ! j + needs ! j - 1" using out(1) by simp
  ultimately show False using out(1) off by simp
qed

lemma align16: "x + 15 < 2 ^ 64 \<Longrightarrow> x \<le> align16 x" "16 dvd align16 x"
  by (simp_all add: align16_def)

text \<open>A slot holds every batch the plan was made for.\<close>

lemma node_need_holds:
  assumes small: "n_ubatch < 2 ^ 30" and r: "r \<le> (if sink then 1 else n_ubatch)" and op: "gn_op node \<noteq> OP_INPUT"
  shows "r * unat od * 4 \<le> node_need n_ubatch node sink od"
proof -
  let ?rows = "if sink then 1 else n_ubatch"
  have od: "unat od < 2 ^ 32" using unsigned_less [of od, where 'a = nat] by simp
  have "?rows * unat od \<le> 2 ^ 30 * unat od" using small by (intro mult_right_mono) auto
  moreover have "(2 :: nat) ^ 30 * unat od \<le> 2 ^ 30 * (2 ^ 32 - 1)" using od by (intro mult_left_mono) auto
  ultimately have le: "?rows * unat od \<le> 2 ^ 30 * (2 ^ 32 - 1)" by (rule order_trans)
  then have "?rows * unat od * 4 \<le> 2 ^ 30 * (2 ^ 32 - 1) * 4" by (rule mult_right_mono) simp
  then have "?rows * unat od * 4 < 2 ^ 64" by (rule le_less_trans) simp
  then have "mul64 (mul64 ?rows (unat od)) 4 = ?rows * unat od * 4"
    by (simp add: mul64_def mod_mult_left_eq split del: if_split)
  moreover have "?rows * unat od * 4 + 15 < 2 ^ 64" using le by (simp split del: if_split)
  ultimately have "?rows * unat od * 4 \<le> node_need n_ubatch node sink od"
    using op align16(1) by (simp add: node_need_def node_cap_rows_def split del: if_split)
  moreover have "r * unat od * 4 \<le> ?rows * unat od * 4" using r by (intro mult_right_mono) simp_all
  ultimately show ?thesis by (rule order_trans [rotated])
qed

lemma length_node_needs [simp]: "backward nodes \<Longrightarrow> length (node_needs ts c n_ubatch nodes) = length nodes"
  by (simp add: node_needs_def sink_marks)

lemma plan_slots:
  assumes b: "backward nodes" and total: "sum_list (node_needs ts c n_ubatch nodes) < 2 ^ 64"
    and ij: "i < j" "j \<le> m" "m < length nodes" and same: "gn_backend (nodes ! i) = gn_backend (nodes ! j)"
    and reads: "node_reads (nodes ! m) i"
  defines "p \<equiv> arena_plan ts c n_ubatch nodes"
  shows "x < pl_off p ! i \<or> pl_off p ! i + pl_cap p ! i \<le> x \<or> x < pl_off p ! j \<or> pl_off p ! j + pl_cap p ! j \<le> x"
proof -
  let ?needs = "node_needs ts c n_ubatch nodes"
  have len: "length ?needs = length nodes" using b by simp
  have "j \<le> releases nodes ! i" using releases(3) [OF b ij(3) reads] ij(2) by simp
  then have "x < ar_off (arena_sweep nodes ?needs (releases nodes) (length ?needs)) ! i
    \<or> ar_off (arena_sweep nodes ?needs (releases nodes) (length ?needs)) ! i + ?needs ! i \<le> x
    \<or> x < ar_off (arena_sweep nodes ?needs (releases nodes) (length ?needs)) ! j
    \<or> ar_off (arena_sweep nodes ?needs (releases nodes) (length ?needs)) ! j + ?needs ! j \<le> x"
    using releases(2) [OF b] ij by (intro sweep_disjoint total ij(1) same) (simp_all add: len)
  then show ?thesis by (simp add: p_def arena_plan_def Let_def len)
qed

text \<open>C36: in a graph whose edges go backward, the output slots of two nodes of one backend do
  not overlap while the earlier one still has a reader at or after the later one, and every
  slot lies inside the arena the plan allocates for its backend.\<close>

theorem arena_disjoint:
  assumes b: "backward nodes" and total: "sum_list (node_needs ts c n_ubatch nodes) < 2 ^ 64"
  defines "p \<equiv> arena_plan ts c n_ubatch nodes"
  defines "slot k \<equiv> {pl_off p ! k ..< pl_off p ! k + pl_cap p ! k}"
  shows "(\<forall>i j m. i < j \<and> j \<le> m \<and> m < length nodes \<and> node_reads (nodes ! m) i
              \<and> gn_backend (nodes ! i) = gn_backend (nodes ! j) \<longrightarrow> slot i \<inter> slot j = {})
    \<and> (\<forall>k < length nodes. slot k \<subseteq> {..< pl_size p (gn_backend (nodes ! k))})"
proof (intro conjI allI impI)
  fix i j m
  assume "i < j \<and> j \<le> m \<and> m < length nodes \<and> node_reads (nodes ! m) i
              \<and> gn_backend (nodes ! i) = gn_backend (nodes ! j)"
  then have "x < pl_off p ! i \<or> pl_off p ! i + pl_cap p ! i \<le> x \<or> x < pl_off p ! j \<or> pl_off p ! j + pl_cap p ! j \<le> x" for x
    unfolding p_def using plan_slots [OF b total] by blast
  then have "x \<in> slot i \<Longrightarrow> x \<notin> slot j" for x unfolding slot_def by (meson atLeastLessThan_iff not_less)
  then show "slot i \<inter> slot j = {}" by blast
next
  fix k
  assume k: "k < length nodes"
  have len: "length (node_needs ts c n_ubatch nodes) = length nodes" using b by simp
  have "\<forall>i < length (node_needs ts c n_ubatch nodes). i \<le> releases nodes ! i" using releases(2) [OF b] len by simp
  from sweep_inside [OF this total, of k nodes] k
  have "pl_cap p ! k = 0 \<or> pl_off p ! k + pl_cap p ! k \<le> pl_size p (gn_backend (nodes ! k))"
    by (simp add: p_def arena_plan_def Let_def len)
  then show "slot k \<subseteq> {..< pl_size p (gn_backend (nodes ! k))}" unfolding slot_def by auto
qed

text \<open>Tokens, an embedding, a branch that keeps the embedding alive, and its join.\<close>

definition toy_nodes :: "graph_node list" where
  "toy_nodes = map (\<lambda>(op, i, src, ws, ne). \<lparr>gn_op = op, gn_idx = i, gn_layer = 0, gn_backend = BACKEND_CPU,
       gn_src = src, gn_weights = ws, gn_params = replicate 16 0, gn_ne0 = ne\<rparr>)
     [(OP_INPUT, 0, no_ref, no_ref, 4), (OP_EMBED, 1, ref1 (Some 0), ref1 (Some 0), 0),
      (OP_SILU, 2, ref1 (Some 1), no_ref, 0), (OP_ADD, 3, [Some 1, Some 2, None, None], no_ref, 0)]"

definition toy_matrix :: tensor_info where
  "toy_matrix = \<lparr>ti_key = ''t'', ti_dim = [6, 4], ti_type = 0, ti_offset = 0, ti_n_element = 24,
     ti_bytes = 96, ti_padded_dim = 4\<rparr>"

lemma arena_disjoint_witness:
  "let p = arena_plan [toy_matrix] (toy_config\<lparr>c_n_vocab := 6\<rparr>) 4 toy_nodes in
   {pl_off p ! 1 ..< pl_off p ! 1 + pl_cap p ! 1} \<inter> {pl_off p ! 2 ..< pl_off p ! 2 + pl_cap p ! 2} = {}"
proof -
  let ?c = "toy_config\<lparr>c_n_vocab := 6\<rparr>"
  have "backward toy_nodes"
    by (auto simp: backward_def toy_nodes_def node_reads_def no_ref_def ref1_def nth_Cons' split: if_splits)
  moreover have "sum_list (node_needs [toy_matrix] ?c 4 toy_nodes) < 2 ^ 64"
    by (simp add: node_needs_def node_need_def node_cap_rows_def toy_nodes_def align16_def add64_def mul64_def
        sink_marks_def edges_def no_ref_def ref1_def node_dims_def node_out_dim_def w32_def toy_matrix_def t_dim_def t_at_def)
  moreover have "node_reads (toy_nodes ! 3) 1" "length toy_nodes = 4"
      "gn_backend (toy_nodes ! 1) = gn_backend (toy_nodes ! 2)"
    by (simp_all add: toy_nodes_def node_reads_def)
  ultimately show ?thesis
    using conjunct1 [OF arena_disjoint [of toy_nodes "[toy_matrix]" ?c 4], rule_format, of 1 2 3] by (simp add: Let_def)
qed

end
