(* ===== verification/GraphPlan.thy ===== *)
theory GraphPlan
  imports ArenaPlan
begin

text \<open>What \<open>graph_plan\<close> fixes before the first execution (\<open>graph.c\<close>): the backend of every node,
  the bytes of weights each backend needs, and the layout of the K/V caches.\<close>

section \<open>Backends\<close>

definition backend_of :: "u32 \<Rightarrow> backend_type" where
  "backend_of code' = (if code' = 1 then BACKEND_CUDA else if code' = 2 then BACKEND_METAL else BACKEND_CPU)"

definition clamp_layers :: "int \<Rightarrow> nat \<Rightarrow> int" where
  "clamp_layers ngl n_layer = (let n = (if ngl < 0 then 0 else ngl) in if n > int n_layer then int n_layer else n)"

definition node_backend :: "build \<Rightarrow> int \<Rightarrow> nat \<Rightarrow> graph_node \<Rightarrow> backend_type" where
  "node_backend bld ngl n_layer node =
     (if gn_op node = OP_H2D \<or> gn_op node = OP_D2H then backend_of (gn_params node ! 0)
      else case bld of
        GPU_BUILD \<Rightarrow> if ngl > 0 \<and> (ngl \<ge> int n_layer \<or> int (gn_layer node) < ngl) then BACKEND_CUDA else BACKEND_CPU
      | METAL_BUILD \<Rightarrow> if ngl > 0 then BACKEND_METAL else BACKEND_CPU
      | CPU_BUILD \<Rightarrow> BACKEND_CPU)"

definition primary_backend :: "build \<Rightarrow> int \<Rightarrow> backend_type" where
  "primary_backend bld ngl =
     (if ngl > 0 then (case bld of GPU_BUILD \<Rightarrow> BACKEND_CUDA | METAL_BUILD \<Rightarrow> BACKEND_METAL | CPU_BUILD \<Rightarrow> BACKEND_CPU)
      else BACKEND_CPU)"

text \<open>The clamped layer count, the nodes with their backends, the primary backend.\<close>

definition assign_backends ::
    "build \<Rightarrow> int \<Rightarrow> nat \<Rightarrow> graph_node list \<Rightarrow> int \<times> graph_node list \<times> backend_type" where
  "assign_backends bld ngl0 n_layer nodes =
     (let ngl = clamp_layers ngl0 n_layer in
      (ngl, map (\<lambda>n. n\<lparr>gn_backend := node_backend bld ngl n_layer n\<rparr>) nodes, primary_backend bld ngl))"

lemma node_out_dim_backend [simp]:
  "node_out_dim ts c dims (n\<lparr>gn_backend := b\<rparr>) = node_out_dim ts c dims n"
  by (cases "gn_op n") (simp_all add: node_out_dim_def Let_def)

lemma node_dims_backend:
  "node_dims ts c (map (\<lambda>n. n\<lparr>gn_backend := f n\<rparr>) nodes) = node_dims ts c nodes"
  by (induction nodes rule: rev_induct) (simp_all add: node_dims_snoc)

lemma widths_ok_backend [simp]:
  "widths_ok ts c s w od (n\<lparr>gn_backend := b\<rparr>) = widths_ok ts c s w od n"
  by (cases "gn_op n") (simp_all add: widths_ok_def Let_def)

lemma node_typed_backend [simp]:
  "node_typed ts c s dims i (n\<lparr>gn_backend := b\<rparr>) = node_typed ts c s dims i n"
  by (simp add: node_typed_def cong: option.case_cong)

lemma is_sink_backend [simp]: "is_sink (map (\<lambda>n. n\<lparr>gn_backend := f n\<rparr>) nodes) i = is_sink nodes i"
  by (simp add: is_sink_def list_ex_iff node_reads_def)

lemma graph_typed_backend:
  "graph_typed ts c (g\<lparr>g_nodes := map (\<lambda>n. n\<lparr>gn_backend := f n\<rparr>) (g_nodes g)\<rparr>) = graph_typed ts c g"
  by (simp add: graph_typed_def node_dims_backend)

section \<open>Weights per backend\<close>

text \<open>An earlier node, or an earlier slot of this node, on the same backend has the tensor.\<close>

definition weight_seen :: "graph_node list \<Rightarrow> nat \<Rightarrow> nat \<Rightarrow> nat \<Rightarrow> bool" where
  "weight_seen nodes i k w \<longleftrightarrow>
     list_ex (\<lambda>j. gn_backend (nodes ! j) = gn_backend (nodes ! i)
         \<and> Some w \<in> set (take (if j = i then k else 4) (gn_weights (nodes ! j)))) [0 ..< Suc i]"

definition account_step :: "tensor_info list \<Rightarrow> graph_node list \<Rightarrow> backend_type \<Rightarrow> nat \<Rightarrow> nat \<times> nat \<Rightarrow> nat" where
  "account_step ts nodes b acc ik =
     (case ik of (i, k) \<Rightarrow>
      (case gn_weights (nodes ! i) ! k of
         None \<Rightarrow> acc
       | Some w \<Rightarrow> if gn_backend (nodes ! i) = b \<and> \<not> weight_seen nodes i k w
                  then add64 acc (ti_bytes (ts ! w)) else acc))"

definition account_weights :: "tensor_info list \<Rightarrow> graph_node list \<Rightarrow> backend_type \<Rightarrow> nat" where
  "account_weights ts nodes b =
     foldl (account_step ts nodes b) 0 (concat (map (\<lambda>i. map (\<lambda>k. (i, k)) [0 ..< 4]) [0 ..< length nodes]))"

definition weights_of :: "graph_node list \<Rightarrow> backend_type \<Rightarrow> nat set" where
  "weights_of nodes b = {w. \<exists>n \<in> set nodes. gn_backend n = b \<and> Some w \<in> set (gn_weights n)}"

text \<open>The tensors met before slot \<open>k\<close> of node \<open>i\<close>.\<close>

definition met :: "graph_node list \<Rightarrow> backend_type \<Rightarrow> nat \<Rightarrow> nat \<Rightarrow> nat set" where
  "met nodes b i k =
     {w. (\<exists>j < i. gn_backend (nodes ! j) = b \<and> Some w \<in> set (gn_weights (nodes ! j)))
       \<or> gn_backend (nodes ! i) = b \<and> Some w \<in> set (take k (gn_weights (nodes ! i)))}"

lemma weight_seen_met:
  assumes "\<And>j. j \<le> i \<Longrightarrow> length (gn_weights (nodes ! j)) = 4" and "gn_backend (nodes ! i) = b"
  shows "weight_seen nodes i k w \<longleftrightarrow> w \<in> met nodes b i k"
proof -
  have "take 4 (gn_weights (nodes ! j)) = gn_weights (nodes ! j)" if "j \<le> i" for j using assms(1) that by simp
  then show ?thesis
    using assms(2) by (fastforce simp: weight_seen_def met_def list_ex_iff less_Suc_eq_le le_less)
qed

lemma finite_refs: "finite {w. Some w \<in> set xs}"
  using finite_vimageI [of "set xs" Some] by (simp add: vimage_def)

lemma finite_met: "finite (met nodes b i k)"
proof -
  have "met nodes b i k \<subseteq> (\<Union>j \<le> i. {w. Some w \<in> set (gn_weights (nodes ! j))})"
    unfolding met_def by (blast intro: less_imp_le dest: in_set_takeD)
  then show ?thesis by (rule finite_subset) (simp add: finite_refs)
qed

lemma account_step_hit:
  "gn_weights (nodes ! i) ! k = Some w \<Longrightarrow> gn_backend (nodes ! i) = b \<Longrightarrow> \<not> weight_seen nodes i k w \<Longrightarrow>
     account_step ts nodes b acc (i, k) = add64 acc (ti_bytes (ts ! w))"
  by (simp add: account_step_def)

lemma account_step_skip:
  "(\<And>w. gn_weights (nodes ! i) ! k = Some w \<Longrightarrow> gn_backend (nodes ! i) = b \<Longrightarrow> weight_seen nodes i k w) \<Longrightarrow>
     account_step ts nodes b acc (i, k) = acc"
  by (auto simp: account_step_def split: option.split)

lemma account_slots:
  assumes len: "\<And>j. j \<le> i \<Longrightarrow> length (gn_weights (nodes ! j)) = 4" and k: "k \<le> 4"
    and acc: "acc = (\<Sum>w \<in> met nodes b i 0. ti_bytes (ts ! w)) mod 2 ^ 64"
  shows "foldl (account_step ts nodes b) acc (map (\<lambda>k. (i, k)) [0 ..< k])
    = (\<Sum>w \<in> met nodes b i k. ti_bytes (ts ! w)) mod 2 ^ 64"
  using k
proof (induction k)
  case 0
  then show ?case by (simp add: acc)
next
  case (Suc k)
  let ?ws = "gn_weights (nodes ! i)" and ?f = "\<lambda>w. ti_bytes (ts ! w)"
  have take: "take (Suc k) ?ws = take k ?ws @ [?ws ! k]"
    using len [of i] Suc.prems by (simp add: take_Suc_conv_app_nth)
  have IH: "foldl (account_step ts nodes b) acc (map (\<lambda>k. (i, k)) [0 ..< k]) = sum ?f (met nodes b i k) mod 2 ^ 64"
    using Suc by simp
  show ?case
  proof (cases "\<exists>w. ?ws ! k = Some w \<and> gn_backend (nodes ! i) = b \<and> w \<notin> met nodes b i k")
    case True
    then obtain w where w: "?ws ! k = Some w" "gn_backend (nodes ! i) = b" "w \<notin> met nodes b i k" by blast
    have "met nodes b i (Suc k) = insert w (met nodes b i k)" using take w(1,2) by (auto simp: met_def)
    then have "sum ?f (met nodes b i (Suc k)) = ?f w + sum ?f (met nodes b i k)"
      using w(3) finite_met by simp
    moreover have "\<not> weight_seen nodes i k w" using weight_seen_met [OF len w(2)] w(3) by simp
    ultimately show ?thesis
      using IH account_step_hit [OF w(1,2)] by (simp add: add64_def mod_simps ac_simps)
  next
    case False
    have "met nodes b i (Suc k) = met nodes b i k"
    proof (rule set_eqI)
      fix w
      have "w \<in> met nodes b i (Suc k) \<longleftrightarrow> w \<in> met nodes b i k \<or> gn_backend (nodes ! i) = b \<and> ?ws ! k = Some w"
        using take by (auto simp: met_def)
      then show "w \<in> met nodes b i (Suc k) \<longleftrightarrow> w \<in> met nodes b i k" using False by blast
    qed
    moreover have "weight_seen nodes i k w" if "?ws ! k = Some w" "gn_backend (nodes ! i) = b" for w
      using False that weight_seen_met [OF len that(2), of k w] by blast
    ultimately show ?thesis using IH account_step_skip [of nodes i k b ts] by simp
  qed
qed

lemma met_next:
  assumes "length (gn_weights (nodes ! i)) = 4"
  shows "met nodes b (Suc i) 0 = met nodes b i 4"
  using assms by (auto simp: met_def less_Suc_eq)

lemma account_nodes:
  assumes "\<And>j. j < n \<Longrightarrow> length (gn_weights (nodes ! j)) = 4"
  shows "foldl (account_step ts nodes b) 0 (concat (map (\<lambda>i. map (\<lambda>k. (i, k)) [0 ..< 4]) [0 ..< n]))
    = (\<Sum>w \<in> met nodes b n 0. ti_bytes (ts ! w)) mod 2 ^ 64"
  using assms
proof (induction n)
  case 0
  then show ?case by (simp add: met_def)
next
  case (Suc n)
  then have len: "\<And>j. j \<le> n \<Longrightarrow> length (gn_weights (nodes ! j)) = 4" by simp
  have "foldl (account_step ts nodes b) 0 (concat (map (\<lambda>i. map (\<lambda>k. (i, k)) [0 ..< 4]) [0 ..< Suc n]))
      = foldl (account_step ts nodes b) (foldl (account_step ts nodes b) 0
          (concat (map (\<lambda>i. map (\<lambda>k. (i, k)) [0 ..< 4]) [0 ..< n]))) (map (\<lambda>k. (n, k)) [0 ..< 4])"
    by (simp only: upt_Suc_append [OF le0] map_append concat_append foldl_append list.map concat.simps append_Nil2)
  also have "\<dots> = sum (\<lambda>w. ti_bytes (ts ! w)) (met nodes b n 4) mod 2 ^ 64"
    using Suc by (intro account_slots len) simp_all
  also have "met nodes b n 4 = met nodes b (Suc n) 0" using met_next [of nodes n b] len by simp
  finally show ?case .
qed

text \<open>C37: \<open>account_weights\<close> counts every distinct tensor used by the nodes of a backend exactly
  once for that backend, a tensor used on two backends once for each.\<close>

theorem account_weights_distinct:
  assumes "\<forall>n \<in> set nodes. length (gn_weights n) = 4"
  shows "account_weights ts nodes b = (\<Sum>w \<in> weights_of nodes b. ti_bytes (ts ! w)) mod 2 ^ 64"
proof -
  have "met nodes b (length nodes) 0 = weights_of nodes b"
    unfolding met_def weights_of_def Bex_def in_set_conv_nth [of _ nodes] by auto
  then show ?thesis
    unfolding account_weights_def using account_nodes [of "length nodes" nodes ts b] assms by simp
qed

lemma account_weights_distinct_witness:
  "account_weights [toy_matrix] (toy_nodes @ [(toy_nodes ! 1)\<lparr>gn_idx := 4\<rparr>]) BACKEND_CPU = 96"
proof -
  let ?nodes = "toy_nodes @ [(toy_nodes ! 1)\<lparr>gn_idx := 4\<rparr>]"
  have "weights_of ?nodes BACKEND_CPU = {0}"
    by (auto simp: weights_of_def toy_nodes_def no_ref_def ref1_def)
  moreover have "\<forall>n \<in> set ?nodes. length (gn_weights n) = 4" by (simp add: toy_nodes_def no_ref_def ref1_def)
  ultimately show ?thesis using account_weights_distinct [of ?nodes "[toy_matrix]" BACKEND_CPU] by (simp add: toy_matrix_def)
qed

section \<open>The K/V cache\<close>

text \<open>Per layer, the backend of its last attention node.\<close>

definition attn_layers :: "nat \<Rightarrow> graph_node list \<Rightarrow> backend_type option list" where
  "attn_layers n_layer nodes =
     foldl (\<lambda>used n. if gn_op n \<noteq> OP_ATTN \<or> unat (gn_params n ! 0) \<ge> n_layer then used
                     else used[unat (gn_params n ! 0) := Some (gn_backend n)]) (replicate n_layer None) nodes"

definition kv_bytes :: "arch_config \<Rightarrow> nat \<Rightarrow> nat" where
  "kv_bytes c ctx_size = mul64 (mul64 (mul64 ctx_size (c_n_kv_head c)) (c_kv_head_dim c)) 4"

definition kvcache_size :: "backend_type option list \<Rightarrow> nat \<Rightarrow> backend_type \<Rightarrow> nat" where
  "kvcache_size used bytes b =
     foldl (\<lambda>size u. if u = Some b then add64 size (mul64 bytes 2) else size) 0 used"

text \<open>The offsets of K and V of each layer inside the cache arena of its backend.\<close>

definition kv_carve :: "backend_type option list \<Rightarrow> nat \<Rightarrow> (backend_type \<Rightarrow> nat) \<times> (nat \<times> nat) option list" where
  "kv_carve used bytes =
     foldl (\<lambda>(base, out) u.
         case u of
           None \<Rightarrow> (base, out @ [None])
         | Some b \<Rightarrow> (let k = base b; v = add64 k bytes in (base(b := add64 v bytes), out @ [Some (k, v)])))
       (\<lambda>_. 0, []) used"

definition cache_build_attn_kvcache ::
    "arch_config \<Rightarrow> nat \<Rightarrow> graph_node list \<Rightarrow> (backend_type \<Rightarrow> nat) \<times> (backend_type \<times> nat \<times> nat) option list" where
  "cache_build_attn_kvcache c ctx_size nodes =
     (let bytes = kv_bytes c ctx_size; used = attn_layers (c_n_layer c) nodes in
      (kvcache_size used bytes,
       map (\<lambda>(u, kv). case u of None \<Rightarrow> None | Some b \<Rightarrow> map_option (Pair b) kv)
         (zip used (snd (kv_carve used bytes)))))"

lemma length_attn_layers [simp]: "length (attn_layers L nodes) = L"
  unfolding attn_layers_def by (induction nodes rule: rev_induct) simp_all

lemma attn_layers_snoc:
  "attn_layers L (nodes @ [n]) =
     (if gn_op n \<noteq> OP_ATTN \<or> unat (gn_params n ! 0) \<ge> L then attn_layers L nodes
      else (attn_layers L nodes)[unat (gn_params n ! 0) := Some (gn_backend n)])"
  by (simp add: attn_layers_def)

lemma attn_layers_None:
  "l < L \<Longrightarrow> attn_layers L nodes ! l = None \<longleftrightarrow> (\<forall>n \<in> set nodes. gn_op n = OP_ATTN \<longrightarrow> unat (gn_params n ! 0) \<noteq> l)"
proof (induction nodes rule: rev_induct)
  case Nil
  then show ?case by (simp add: attn_layers_def)
next
  case (snoc n nodes)
  then show ?case by (auto simp: attn_layers_snoc nth_list_update)
qed

lemma carve_exact:
  assumes "2 * bytes * length used < 2 ^ 64"
  shows "kvcache_size used bytes b = 2 * bytes * count_list used (Some b)
    \<and> fst (kv_carve used bytes) b = 2 * bytes * count_list used (Some b)
    \<and> length (snd (kv_carve used bytes)) = length used
    \<and> (\<forall>l < length used. snd (kv_carve used bytes) ! l =
         map_option (\<lambda>b. let k = 2 * bytes * count_list (take l used) (Some b) in (k, k + bytes)) (used ! l))"
  using assms
proof (induction used arbitrary: b rule: rev_induct)
  case Nil
  then show ?case by (simp add: kvcache_size_def kv_carve_def)
next
  case (snoc u used)
  have small: "2 * bytes * length used < 2 ^ 64" using snoc.prems by simp
  note IH = snoc.IH [OF small]
  obtain base out where c: "kv_carve used bytes = (base, out)" by fastforce
  have at: "base b = 2 * bytes * count_list used (Some b)" for b using IH [of b] c by simp
  have room: "base b + bytes + bytes < 2 ^ 64" for b
  proof -
    have "base b + bytes + bytes = 2 * bytes * (count_list used (Some b) + 1)" by (simp add: at)
    also have "\<dots> \<le> 2 * bytes * length (used @ [u])"
      using count_le_length [of used "Some b"] by (intro mult_left_mono) simp_all
    finally show ?thesis using snoc.prems by linarith
  qed
  have carve: "kv_carve (used @ [u]) bytes = (case u of None \<Rightarrow> (base, out @ [None])
      | Some b \<Rightarrow> (base(b := base b + 2 * bytes), out @ [Some (base b, base b + bytes)]))"
    using c room add_lessD1 [OF room] by (simp add: kv_carve_def add64_def Let_def mult_2 add.assoc split: option.split)
  have "mul64 bytes 2 = 2 * bytes" if "used \<noteq> [] \<or> u \<noteq> None" using room [of b] by (simp add: mul64_def)
  moreover have "kvcache_size (used @ [u]) bytes b =
      (if u = Some b then add64 (kvcache_size used bytes b) (mul64 bytes 2) else kvcache_size used bytes b)"
    by (simp add: kvcache_size_def)
  ultimately have size: "kvcache_size (used @ [u]) bytes b = 2 * bytes * count_list (used @ [u]) (Some b)"
    using IH [of b] room [of b] at [of b] by (simp add: add64_def)
  have "snd (kv_carve (used @ [u]) bytes) ! l =
      map_option (\<lambda>b. let k = 2 * bytes * count_list (take l (used @ [u])) (Some b) in (k, k + bytes)) ((used @ [u]) ! l)"
    if "l < length (used @ [u])" for l
  proof (cases "l = length used")
    case True
    then show ?thesis using IH [of b] c at carve by (cases u) (simp_all add: nth_append Let_def)
  next
    case False
    then show ?thesis using IH [of b] c that carve by (cases u) (simp_all add: nth_append)
  qed
  moreover have "fst (kv_carve (used @ [u]) bytes) b = 2 * bytes * count_list (used @ [u]) (Some b)"
    "length (snd (kv_carve (used @ [u]) bytes)) = length (used @ [u])"
    using at IH [of b] c carve by (cases u; simp)+
  ultimately show ?case using size by blast
qed

lemma count_take_less:
  "l < l' \<Longrightarrow> l' \<le> length xs \<Longrightarrow> xs ! l = x \<Longrightarrow> count_list (take l xs) x + 1 \<le> count_list (take l' xs) x"
proof -
  assume l: "l < l'" "l' \<le> length xs" "xs ! l = x"
  have "take l' xs = take l xs @ xs ! l # drop (Suc l) (take l' xs)"
    using l id_take_nth_drop [of l "take l' xs"] by (simp add: min_def)
  then have "count_list (take l' xs) x = count_list (take l xs) x + 1 + count_list (drop (Suc l) (take l' xs)) x"
    using l(3) by (metis add.commute add.left_commute count_list.simps(2) count_list_append)
  then show ?thesis by simp
qed



end
