(* ===== verification/GraphExec.thy ===== *)
theory GraphExec
  imports GraphPlan DenseGraphs
begin

text \<open>The graph executor (\<open>graph.c\<close>): one batch walks the nodes in build order, each operator
  reads the slots of its sources and fills its own; the last node's row becomes the logits.
  Memory is one store of 32 bit cells per backend.  The operators (\<open>cpu_graph_op\<close> and its device
  twins) are the parameter \<open>kern\<close>: it sees the execution context, the contents of the source
  slots and the persistent state (K/V caches, recurrent states), and yields the cells of the
  output, the new state, and whether it succeeded.\<close>

section \<open>Slots in memory\<close>

type_synonym memory = "backend_type \<Rightarrow> nat \<Rightarrow> u32"

definition arena_load :: "graph_node list \<Rightarrow> plan \<Rightarrow> nat \<Rightarrow> nat \<Rightarrow> memory \<Rightarrow> u32 list" where
  "arena_load nodes p j n mem = map (\<lambda>k. mem (gn_backend (nodes ! j)) (pl_off p ! j div 4 + k)) [0 ..< n]"

definition arena_store :: "graph_node list \<Rightarrow> plan \<Rightarrow> nat \<Rightarrow> u32 list \<Rightarrow> memory \<Rightarrow> memory" where
  "arena_store nodes p j xs mem =
     (let b = gn_backend (nodes ! j); base = pl_off p ! j div 4 in
      mem(b := (\<lambda>a. if base \<le> a \<and> a < base + length xs then xs ! (a - base) else mem b a)))"

section \<open>One node\<close>

record op_ctx =
  oc_node :: graph_node
  oc_od :: nat
  oc_r :: nat
  oc_base :: nat
  oc_pos :: nat
  oc_n :: nat

type_synonym 'st kernel_op = "op_ctx \<Rightarrow> u32 list list \<Rightarrow> 'st \<Rightarrow> bool \<times> (nat \<Rightarrow> u32) \<times> 'st"

text \<open>A boundary copy is a \<open>memcpy\<close>; every other operator is dispatched to the backend.\<close>

definition graph_op_compute :: "'st kernel_op \<Rightarrow> 'st kernel_op" where
  "graph_op_compute kern ctx srcs st =
     (if gn_op (oc_node ctx) = OP_H2D \<or> gn_op (oc_node ctx) = OP_D2H
      then (True, (\<lambda>k. hd srcs ! k), st)
      else kern ctx srcs st)"

text \<open>The run's constants: nodes, sink marks, row widths, slot capacities, position and size
  of the batch.\<close>

record walk_env =
  we_nodes :: "graph_node list"
  we_sinks :: "bool list"
  we_dims :: "u32 list"
  we_caps :: "nat list"
  we_pos :: nat
  we_n :: nat

definition src_len :: "walk_env \<Rightarrow> nat \<Rightarrow> nat" where
  "src_len e j = (if gn_op (we_nodes e ! j) = OP_INPUT then we_n e else we_n e * unat (we_dims e ! j))"

definition node_ctx :: "walk_env \<Rightarrow> nat \<Rightarrow> op_ctx" where
  "node_ctx e i =
     \<lparr>oc_node = we_nodes e ! i, oc_od = unat (we_dims e ! i),
      oc_r = (if we_sinks e ! i then 1 else we_n e), oc_base = (if we_sinks e ! i then we_n e - 1 else 0),
      oc_pos = we_pos e, oc_n = we_n e\<rparr>"

definition exec_node ::
    "(nat \<Rightarrow> nat \<Rightarrow> 'm \<Rightarrow> u32 list) \<Rightarrow> (nat \<Rightarrow> u32 list \<Rightarrow> 'm \<Rightarrow> 'm) \<Rightarrow> 'st kernel_op \<Rightarrow> walk_env
     \<Rightarrow> nat \<Rightarrow> 'm \<times> 'st \<Rightarrow> bool \<times> 'm \<times> 'st" where
  "exec_node load store kern e i ms =
     (case ms of (m, st) \<Rightarrow>
      if gn_op (we_nodes e ! i) = OP_INPUT then (True, m, st)
      else let ctx = node_ctx e i; od = oc_od ctx; r = oc_r ctx in
        if od = 0 \<or> r = 0 then (False, m, st)
        else if mul64 (mul64 r od) 4 > we_caps e ! i then (False, m, st)
        else let srcs = map (\<lambda>s. case s of None \<Rightarrow> [] | Some j \<Rightarrow> load j (src_len e j) m) (gn_src (we_nodes e ! i));
                 (good, out, st') = graph_op_compute kern ctx srcs st in
          (good, store i (map out [0 ..< r * od]) m, st'))"

text \<open>A loop over the nodes that stops at the first failure.\<close>

fun walk :: "('i \<Rightarrow> 's \<Rightarrow> bool \<times> 's) \<Rightarrow> 'i list \<Rightarrow> 's \<Rightarrow> bool \<times> 's" where
  "walk f [] s = (True, s)"
| "walk f (i # is) s = (case f i s of (good, s') \<Rightarrow> if good then walk f is s' else (False, s'))"

text \<open>The batch's token ids go into every \<open>OP_INPUT\<close> leaf.\<close>

definition bind_node ::
    "(nat \<Rightarrow> u32 list \<Rightarrow> 'm \<Rightarrow> 'm) \<Rightarrow> graph_node list \<Rightarrow> u32 list \<Rightarrow> nat \<Rightarrow> 'm \<Rightarrow> bool \<times> 'm" where
  "bind_node store nodes toks i m =
     (if gn_op (nodes ! i) \<noteq> OP_INPUT then (True, m)
      else if length toks > nat (gn_ne0 (nodes ! i) mod 2 ^ 32) then (False, m)
      else (True, store i toks m))"

section \<open>One batch\<close>

record 'st run_state =
  rs_mem :: memory
  rs_st :: 'st
  rs_logits :: "u32 list"

definition publish :: "walk_env \<Rightarrow> nat \<Rightarrow> plan \<Rightarrow> memory \<Rightarrow> u32 list \<Rightarrow> u32 list" where
  "publish e n_vocab p mem logits =
     (case find (\<lambda>i. we_sinks e ! i \<and> gn_op (we_nodes e ! i) \<noteq> OP_INPUT) [0 ..< length (we_nodes e)] of
        None \<Rightarrow> logits
      | Some i \<Rightarrow> (let n = min (unat (we_dims e ! i)) n_vocab in
                 arena_load (we_nodes e) p i n mem @ drop n logits))"

definition batch_env :: "tensor_info list \<Rightarrow> arch_config \<Rightarrow> graph_node list \<Rightarrow> plan \<Rightarrow> nat \<Rightarrow> nat \<Rightarrow> walk_env" where
  "batch_env ts c nodes p pos n =
     \<lparr>we_nodes = nodes, we_sinks = sink_marks nodes, we_dims = node_dims ts c nodes, we_caps = pl_cap p,
      we_pos = pos, we_n = n\<rparr>"

text \<open>With the plan in place; \<open>graph_compute\<close> is the same under a lock.\<close>

definition graph_compute_planned ::
    "'st kernel_op \<Rightarrow> tensor_info list \<Rightarrow> arch_config \<Rightarrow> graph_node list \<Rightarrow> plan \<Rightarrow> u32 list \<Rightarrow> nat
     \<Rightarrow> 'st run_state \<Rightarrow> bool \<times> 'st run_state" where
  "graph_compute_planned kern ts c nodes p toks pos rs =
     (let e = batch_env ts c nodes p pos (length toks); load = arena_load nodes p; store = arena_store nodes p in
      case walk (bind_node store nodes toks) [0 ..< length nodes] (rs_mem rs) of
        (False, mem) \<Rightarrow> (False, rs\<lparr>rs_mem := mem\<rparr>)
      | (True, mem) \<Rightarrow>
          (case walk (exec_node load store kern e) [0 ..< length nodes] (mem, rs_st rs) of
             (False, mem', st') \<Rightarrow> (False, rs\<lparr>rs_mem := mem', rs_st := st'\<rparr>)
           | (True, mem', st') \<Rightarrow>
               (True, rs\<lparr>rs_mem := mem', rs_st := st', rs_logits := publish e (c_n_vocab c) p mem' (rs_logits rs)\<rparr>)))"

section \<open>The meaning of a graph\<close>

text \<open>Every node has a value of its own; no addresses, capacities or lifetimes.\<close>

definition eval_node :: "'st kernel_op \<Rightarrow> walk_env \<Rightarrow> u32 list \<Rightarrow> nat \<Rightarrow> u32 list list \<times> 'st
     \<Rightarrow> bool \<times> u32 list list \<times> 'st" where
  "eval_node kern e toks i vs =
     (case vs of (vals, st) \<Rightarrow>
      if gn_op (we_nodes e ! i) = OP_INPUT then (True, vals @ [toks], st)
      else let ctx = node_ctx e i;
               srcs = map (\<lambda>s. case s of None \<Rightarrow> [] | Some j \<Rightarrow> vals ! j) (gn_src (we_nodes e ! i));
               (good, out, st') = graph_op_compute kern ctx srcs st in
        (good, vals @ [map out [0 ..< oc_r ctx * oc_od ctx]], st'))"

definition graph_eval :: "'st kernel_op \<Rightarrow> walk_env \<Rightarrow> u32 list \<Rightarrow> 'st \<Rightarrow> bool \<times> u32 list list \<times> 'st" where
  "graph_eval kern e toks st = walk (eval_node kern e toks) [0 ..< length (we_nodes e)] ([], st)"

text \<open>Cells of a slot in this batch, and what makes a graph runnable: it starts with its only
  input, edges go backward, the last node is the only sink, and each slot has room.\<close>

definition slot_len :: "walk_env \<Rightarrow> nat \<Rightarrow> nat" where
  "slot_len e i = (if gn_op (we_nodes e ! i) = OP_INPUT then we_n e
     else (if we_sinks e ! i then 1 else we_n e) * unat (we_dims e ! i))"

definition runnable :: "walk_env \<Rightarrow> bool" where
  "runnable e \<longleftrightarrow>
     0 < we_n e \<and> backward (we_nodes e)
     \<and> (\<forall>i < length (we_nodes e). gn_op (we_nodes e ! i) = OP_INPUT \<longleftrightarrow> i = 0)
     \<and> (\<forall>i < length (we_nodes e). we_sinks e ! i \<longleftrightarrow> is_sink (we_nodes e) i)
     \<and> (\<forall>i < length (we_nodes e). 0 < i \<longrightarrow> we_dims e ! i \<noteq> 0
          \<and> mul64 (mul64 (if we_sinks e ! i then 1 else we_n e) (unat (we_dims e ! i))) 4 \<le> we_caps e ! i)"

lemma runnableD:
  assumes "runnable e" and "0 < i" and "i < length (we_nodes e)"
  shows "gn_op (we_nodes e ! i) \<noteq> OP_INPUT" and "oc_od (node_ctx e i) \<noteq> 0" and "oc_r (node_ctx e i) \<noteq> 0"
    and "mul64 (mul64 (oc_r (node_ctx e i)) (oc_od (node_ctx e i))) 4 \<le> we_caps e ! i"
    and "slot_len e i = oc_r (node_ctx e i) * oc_od (node_ctx e i)"
  using assms by (auto simp: runnable_def node_ctx_def slot_len_def unat_eq_0 split: if_splits)

lemma runnable_source:
  assumes "runnable e" and "i < length (we_nodes e)" and "node_reads (we_nodes e ! i) j"
  shows "j < i \<and> src_len e j = slot_len e j"
proof
  show j: "j < i" using assms by (simp add: runnable_def backward_def)
  have "\<not> is_sink (we_nodes e) j" using assms(2,3) by (auto simp: is_sink_def list_ex_length)
  then have "\<not> we_sinks e ! j" using assms j by (simp add: runnable_def)
  then show "src_len e j = slot_len e j" by (simp add: src_len_def slot_len_def)
qed

text \<open>The values an evaluation may hold: as many cells as the slot's rows.\<close>

definition fitting :: "walk_env \<Rightarrow> u32 list list \<Rightarrow> nat \<Rightarrow> bool" where
  "fitting e vals i \<longleftrightarrow> length vals = i \<and> (\<forall>j < i. length (vals ! j) = slot_len e j)"

section \<open>Any slot store that keeps live values executes the graph\<close>

text \<open>What the executor relies on: a slot gives back what was stored in it, and a store into
  another slot that is \<open>apart\<close> from it does not change it.\<close>

locale slot_store =
  fixes load :: "nat \<Rightarrow> nat \<Rightarrow> 'm \<Rightarrow> u32 list"
    and store :: "nat \<Rightarrow> u32 list \<Rightarrow> 'm \<Rightarrow> 'm"
    and room :: "nat \<Rightarrow> nat \<Rightarrow> bool"
    and apart :: "nat \<Rightarrow> nat \<Rightarrow> bool"
  assumes load_same: "load j (length xs) (store j xs m) = xs"
    and load_other: "room i n \<Longrightarrow> room j (length xs) \<Longrightarrow> apart i j \<Longrightarrow> load i n (store j xs m) = load i n m"
begin

text \<open>The slots of the values that are still read, and of the last node, hold these values.\<close>

definition held :: "walk_env \<Rightarrow> u32 list list \<Rightarrow> nat \<Rightarrow> 'm \<Rightarrow> bool" where
  "held e vals i m \<longleftrightarrow>
     (\<forall>j < i. (\<exists>k. i \<le> k \<and> k < length (we_nodes e) \<and> node_reads (we_nodes e ! k) j) \<or> Suc j = length (we_nodes e)
        \<longrightarrow> load j (length (vals ! j)) m = vals ! j)"

lemma held_store:
  assumes h: "held e vals i m" and len: "length vals = i" and i: "i < length (we_nodes e)"
    and room: "\<And>j. j < i \<Longrightarrow> room j (length (vals ! j))" "room i (length x)"
    and apart: "\<And>j k. j < i \<Longrightarrow> i < k \<Longrightarrow> k < length (we_nodes e) \<Longrightarrow> node_reads (we_nodes e ! k) j \<Longrightarrow> apart j i"
  shows "held e (vals @ [x]) (Suc i) (store i x m)"
  unfolding held_def
proof (intro allI impI)
  fix j
  assume j: "j < Suc i" and live: "(\<exists>k. Suc i \<le> k \<and> k < length (we_nodes e) \<and> node_reads (we_nodes e ! k) j)
    \<or> Suc j = length (we_nodes e)"
  show "load j (length ((vals @ [x]) ! j)) (store i x m) = (vals @ [x]) ! j"
  proof (cases "j = i")
    case True
    then show ?thesis using load_same len by simp
  next
    case False
    with j have "j < i" by simp
    with live i obtain k where k: "i < k" "k < length (we_nodes e)" "node_reads (we_nodes e ! k) j"
      by (auto simp: Suc_le_eq)
    then have "load j (length (vals ! j)) (store i x m) = load j (length (vals ! j)) m"
      using \<open>j < i\<close> by (intro load_other room apart)
    also have "\<dots> = vals ! j" using h \<open>j < i\<close> k less_imp_le [OF k(1)] unfolding held_def by blast
    finally show ?thesis using \<open>j < i\<close> len by (simp add: nth_append)
  qed
qed

lemma exec_node_eval:
  assumes run: "runnable e" and i: "0 < i" "i < length (we_nodes e)" and fit: "fitting e vals i" and h: "held e vals i m"
    and room: "\<And>j. j < length (we_nodes e) \<Longrightarrow> room j (slot_len e j)"
    and apart: "\<And>j k. j < i \<Longrightarrow> i < k \<Longrightarrow> k < length (we_nodes e) \<Longrightarrow> node_reads (we_nodes e ! k) j \<Longrightarrow> apart j i"
  shows "case eval_node kern e toks i (vals, st) of (good, vals', st') \<Rightarrow>
     \<exists>m'. exec_node load store kern e i (m, st) = (good, m', st')
       \<and> fitting e vals' (Suc i) \<and> held e vals' (Suc i) m'"
proof -
  let ?ctx = "node_ctx e i"
  have op: "gn_op (we_nodes e ! i) \<noteq> OP_INPUT" and od: "oc_od ?ctx \<noteq> 0" and r: "oc_r ?ctx \<noteq> 0"
    and cap: "mul64 (mul64 (oc_r ?ctx) (oc_od ?ctx)) 4 \<le> we_caps e ! i"
    and len: "slot_len e i = oc_r ?ctx * oc_od ?ctx"
    using runnableD [OF run i] by simp_all
  have src: "(case s of None \<Rightarrow> [] | Some j \<Rightarrow> load j (src_len e j) m) = (case s of None \<Rightarrow> [] | Some j \<Rightarrow> vals ! j)"
    if "s \<in> set (gn_src (we_nodes e ! i))" for s
  proof (cases s)
    case (Some j)
    then have reads: "node_reads (we_nodes e ! i) j" using that by (simp add: node_reads_def)
    then have j: "j < i" "src_len e j = slot_len e j" using runnable_source [OF run i(2) reads] by simp_all
    have "load j (length (vals ! j)) m = vals ! j" using h j(1) reads i(2) unfolding held_def by blast
    then show ?thesis using fit j by (simp add: fitting_def Some)
  qed simp
  obtain good out st' where k: "graph_op_compute kern ?ctx
      (map (\<lambda>s. case s of None \<Rightarrow> [] | Some j \<Rightarrow> vals ! j) (gn_src (we_nodes e ! i))) st = (good, out, st')"
    by (metis prod_cases3)
  let ?x = "map out [0 ..< oc_r ?ctx * oc_od ?ctx]"
  have eval: "eval_node kern e toks i (vals, st) = (good, vals @ [?x], st')"
    using op k by (simp add: eval_node_def Let_def)
  have exec: "exec_node load store kern e i (m, st) = (good, store i ?x m, st')"
    using op od r cap k src by (simp add: exec_node_def Let_def cong: map_cong)
  have "fitting e (vals @ [?x]) (Suc i)"
    using fit len by (auto simp: fitting_def nth_append less_Suc_eq)
  moreover have "held e (vals @ [?x]) (Suc i) (store i ?x m)"
  proof (rule held_store [OF h])
    show "length vals = i" using fit by (simp add: fitting_def)
    show "room j (length (vals ! j))" if "j < i" for j using fit room [of j] that i(2) by (simp add: fitting_def)
    show "room i (length ?x)" using room [OF i(2)] len by simp
  qed (use apart i in blast)+
  ultimately show ?thesis by (simp add: eval exec)
qed

lemma walk_eval:
  assumes run: "runnable e" and room: "\<And>j. j < length (we_nodes e) \<Longrightarrow> room j (slot_len e j)"
    and apart: "\<And>i j k. j < i \<Longrightarrow> i < k \<Longrightarrow> k < length (we_nodes e) \<Longrightarrow> node_reads (we_nodes e ! k) j \<Longrightarrow> apart j i"
    and i: "0 < i" "i \<le> length (we_nodes e)" and fit: "fitting e vals i" and h: "held e vals i m"
  shows "case walk (eval_node kern e toks) [i ..< length (we_nodes e)] (vals, st) of (good, vals', st') \<Rightarrow>
     \<exists>m'. walk (exec_node load store kern e) [i ..< length (we_nodes e)] (m, st) = (good, m', st')
       \<and> (good \<longrightarrow> fitting e vals' (length (we_nodes e)) \<and> held e vals' (length (we_nodes e)) m')"
  using i fit h
proof (induction "length (we_nodes e) - i" arbitrary: i vals m st)
  case 0
  then show ?case by simp
next
  case (Suc d)
  then have lt: "i < length (we_nodes e)" by simp
  obtain good vals' st' where ev: "eval_node kern e toks i (vals, st) = (good, vals', st')" by (metis prod_cases3)
  obtain m' where m': "exec_node load store kern e i (m, st) = (good, m', st')"
      "fitting e vals' (Suc i)" "held e vals' (Suc i) m'"
  proof -
    have "case eval_node kern e toks i (vals, st) of (good, vals', st') \<Rightarrow>
       \<exists>m'. exec_node load store kern e i (m, st) = (good, m', st') \<and> fitting e vals' (Suc i) \<and> held e vals' (Suc i) m'"
      by (rule exec_node_eval [OF run Suc.prems(1) lt Suc.prems(3,4)]) (use room apart in blast)+
    then show ?thesis using ev that by auto
  qed
  have upt: "[i ..< length (we_nodes e)] = i # [Suc i ..< length (we_nodes e)]" using lt by (rule upt_conv_Cons)
  show ?case
  proof (cases good)
    case True
    then show ?thesis
      using Suc.hyps(1) [of "Suc i" vals' m' st'] Suc.hyps(2) lt m' by (simp add: upt ev)
  next
    case False
    then show ?thesis using m' by (simp add: upt ev)
  qed
qed

end

section \<open>The arena plan is such a store\<close>

definition slot_room :: "plan \<Rightarrow> nat \<Rightarrow> nat \<Rightarrow> bool" where
  "slot_room p j n \<longleftrightarrow> n * 4 \<le> pl_cap p ! j"

definition slots_apart :: "graph_node list \<Rightarrow> plan \<Rightarrow> nat \<Rightarrow> nat \<Rightarrow> bool" where
  "slots_apart nodes p i j \<longleftrightarrow>
     gn_backend (nodes ! i) \<noteq> gn_backend (nodes ! j)
     \<or> 4 dvd pl_off p ! i \<and> 4 dvd pl_off p ! j
       \<and> (\<forall>x. x < pl_off p ! i \<or> pl_off p ! i + pl_cap p ! i \<le> x \<or> x < pl_off p ! j \<or> pl_off p ! j + pl_cap p ! j \<le> x)"

lemma arena_load_store: "arena_load nodes p j (length xs) (arena_store nodes p j xs m) = xs"
  by (rule nth_equalityI) (simp_all add: arena_load_def arena_store_def Let_def)

lemma arena_load_other:
  assumes "slot_room p i n" and "slot_room p j (length xs)" and "slots_apart nodes p i j"
  shows "arena_load nodes p i n (arena_store nodes p j xs m) = arena_load nodes p i n m"
proof (cases "gn_backend (nodes ! i) = gn_backend (nodes ! j)")
  case True
  let ?i = "pl_off p ! i" and ?j = "pl_off p ! j"
  obtain a b where al: "?i = 4 * a" "?j = 4 * b" using assms(3) True unfolding slots_apart_def dvd_def by blast
  have "\<not> (b \<le> a + k \<and> a + k < b + length xs)" if "k < n" for k
  proof
    assume "b \<le> a + k \<and> a + k < b + length xs"
    moreover have "n * 4 \<le> pl_cap p ! i" "length xs * 4 \<le> pl_cap p ! j" using assms(1,2) by (simp_all add: slot_room_def)
    ultimately have "\<not> (4 * (a + k) < ?i \<or> ?i + pl_cap p ! i \<le> 4 * (a + k)
        \<or> 4 * (a + k) < ?j \<or> ?j + pl_cap p ! j \<le> 4 * (a + k))"
      using al that by simp
    then show False using assms(3) True unfolding slots_apart_def by blast
  qed
  then have "\<not> (?j div 4 \<le> ?i div 4 + k \<and> ?i div 4 + k < ?j div 4 + length xs)" if "k < n" for k
    using al that by simp
  then show ?thesis unfolding arena_load_def by (intro map_cong refl) (auto simp: arena_store_def Let_def)
qed (simp add: arena_load_def arena_store_def Let_def)

interpretation arena: slot_store "arena_load nodes p" "arena_store nodes p" "slot_room p" "slots_apart nodes p"
  for nodes p
  by unfold_locales (simp_all add: arena_load_store arena_load_other)

text \<open>Every offset is a multiple of 16.\<close>

definition aligned :: "nat \<Rightarrow> arena \<Rightarrow> bool" where
  "aligned i a \<longleftrightarrow> length (ar_off a) = i \<and> (\<forall>x \<in> set (ar_off a). 16 dvd x)
     \<and> (\<forall>b. 16 dvd ar_bump a b \<and> (\<forall>c \<in> set (ar_free a b). 16 dvd fst c))"

lemma dvd16_add64: "16 dvd x \<Longrightarrow> 16 dvd y \<Longrightarrow> 16 dvd add64 x y"
  by (simp add: add64_def dvd_mod)

lemma aligned_reclaim: "aligned i a \<Longrightarrow> aligned i (reclaim nodes needs rel i a)"
  by (auto simp: aligned_def reclaim slots_def)

lemma set_swap_remove: "f < length xs \<Longrightarrow> set (swap_remove xs f) \<subseteq> set xs"
  using swap_remove [of f xs] by (metis set_mset_mset set_subset_Cons list.set_intros(2) mset.simps(2) set_mset_add_mset_insert subset_insertI)

lemma aligned_place:
  assumes a: "aligned i a" and need: "16 dvd needs ! i"
  shows "aligned (Suc i) (place nodes needs i a)"
proof (cases "best_fit (ar_free a (gn_backend (nodes ! i))) (needs ! i)")
  case None
  then show ?thesis using a need by (auto simp: aligned_def place_def Let_def intro: dvd16_add64)
next
  case (Some f)
  then have f: "f < length (ar_free a (gn_backend (nodes ! i)))" using best_fit_some by blast
  let ?free = "ar_free a (gn_backend (nodes ! i))"
  have "16 dvd fst (?free ! f)" using a nth_mem [OF f] unfolding aligned_def by blast
  moreover have "\<forall>c \<in> set (swap_remove ?free f). 16 dvd fst c"
    using a set_swap_remove [OF f] unfolding aligned_def by blast
  ultimately show ?thesis using a Some by (simp add: aligned_def place_def Let_def)
qed

lemma plan_aligned:
  assumes "j < length nodes" and b: "backward nodes"
  shows "16 dvd pl_off (arena_plan ts c n_ubatch nodes) ! j"
proof -
  let ?needs = "node_needs ts c n_ubatch nodes"
  have need: "16 dvd ?needs ! i" if "i < length nodes" for i
    using that b by (simp add: node_needs_def node_need_def align16(2) sink_marks)
  have "aligned n (arena_sweep nodes ?needs rel n)" if "n \<le> length nodes" for n rel
    using that
  proof (induction n)
    case 0
    then show ?case by (simp add: aligned_def arena_sweep_def)
  next
    case (Suc n)
    then show ?case unfolding arena_sweep_Suc by (intro aligned_place aligned_reclaim need) simp_all
  qed
  then have "aligned (length nodes) (arena_sweep nodes ?needs (releases nodes) (length nodes))" by simp
  then show ?thesis using assms(1) nth_mem [of j] by (simp add: arena_plan_def aligned_def Let_def)
qed

section \<open>Executing a complete graph\<close>

lemma typed_input_first:
  assumes g: "graph_typed ts c g" and i: "i < length (g_nodes g)"
  shows "gn_op (g_nodes g ! i) = OP_INPUT \<longleftrightarrow> i = 0"
proof
  have t: "node_typed ts c (length (g_state g)) (node_dims ts c (g_nodes g)) i (g_nodes g ! i)"
    using g i by (simp add: graph_typed_def)
  then show "gn_op (g_nodes g ! i) = OP_INPUT \<Longrightarrow> i = 0" by (simp add: node_typed_def)
  assume z: "i = 0"
  have "case gn_src (g_nodes g ! i) ! 0 of None \<Rightarrow> operands (gn_op (g_nodes g ! i)) \<le> 0 | Some j \<Rightarrow> j < i"
    using t unfolding node_typed_def by (metis zero_less_numeral)
  then have "operands (gn_op (g_nodes g ! i)) = 0" using z by (simp split: option.splits)
  then show "gn_op (g_nodes g ! i) = OP_INPUT" by (cases "gn_op (g_nodes g ! i)") simp_all
qed

lemma node_dims_take: "i \<le> length nodes \<Longrightarrow> node_dims ts c (take i nodes) = take i (node_dims ts c nodes)"
  by (induction nodes rule: rev_induct) (auto simp: node_dims_snoc le_Suc_eq)

lemma node_dims_nth:
  assumes i: "i < length nodes" and src: "\<And>j. gn_src (nodes ! i) ! 0 = Some j \<Longrightarrow> j < i"
  shows "node_dims ts c nodes ! i = node_out_dim ts c (node_dims ts c nodes) (nodes ! i)"
proof -
  have "take (Suc i) (node_dims ts c nodes) = node_dims ts c (take i nodes @ [nodes ! i])"
    using i by (simp add: node_dims_take [symmetric] take_Suc_conv_app_nth)
  also have "\<dots> = node_dims ts c (take i nodes) @ [node_out_dim ts c (node_dims ts c (take i nodes)) (nodes ! i)]"
    by (rule node_dims_snoc)
  finally have "node_dims ts c nodes ! i = node_out_dim ts c (take i (node_dims ts c nodes)) (nodes ! i)"
    using i node_dims_take [of i nodes ts c] by (metis length_node_dims length_take less_imp_le lessI min.absorb2 nth_append_length nth_take)
  also have "\<dots> = node_out_dim ts c (node_dims ts c nodes) (nodes ! i)"
    by (rule node_out_dim_cong) (use src in simp)
  finally show ?thesis .
qed

lemma typed_dims:
  assumes g: "graph_typed ts c g" and i: "i < length (g_nodes g)" "0 < i"
  shows "node_dims ts c (g_nodes g) ! i \<noteq> 0"
proof -
  have t: "node_typed ts c (length (g_state g)) (node_dims ts c (g_nodes g)) i (g_nodes g ! i)"
    using g i by (simp add: graph_typed_def)
  have "node_dims ts c (g_nodes g) ! i = node_out_dim ts c (node_dims ts c (g_nodes g)) (g_nodes g ! i)"
    by (rule node_dims_nth [OF i(1)]) (use t in \<open>force simp: node_typed_def dest: spec [of _ 0]\<close>)
  then show ?thesis using t i(2) by (simp add: node_typed_def split: if_splits)
qed

lemma node_needs_nth:
  assumes "backward nodes" and "i < length nodes"
  shows "node_needs ts c n_ubatch nodes ! i = node_need n_ubatch (nodes ! i) (is_sink nodes i) (node_dims ts c nodes ! i)"
  using assms by (simp add: node_needs_def sink_marks)

lemma mul64_bound: "mul64 a b \<le> a * b"
  by (simp add: mul64_def)

lemma node_needs_room:
  assumes b: "backward nodes" and i: "i < length nodes" "gn_op (nodes ! i) \<noteq> OP_INPUT" and small: "n_ubatch < 2 ^ 30"
    and n: "n \<le> n_ubatch" "1 \<le> n_ubatch"
  shows "(if is_sink nodes i then 1 else n) * unat (node_dims ts c nodes ! i) * 4 \<le> node_needs ts c n_ubatch nodes ! i"
  unfolding node_needs_nth [OF b i(1)] by (rule node_need_holds [OF small _ i(2)]) (use n in auto)

text \<open>What a plan must satisfy for a batch of \<open>n\<close> rows.\<close>

definition batch_fits :: "tensor_info list \<Rightarrow> arch_config \<Rightarrow> nat \<Rightarrow> graph_node list \<Rightarrow> nat \<Rightarrow> bool" where
  "batch_fits ts c n_ubatch nodes n \<longleftrightarrow>
     0 < n \<and> n \<le> n_ubatch \<and> n_ubatch < 2 ^ 30 \<and> gn_ne0 (nodes ! 0) = int n_ubatch
     \<and> sum_list (node_needs ts c n_ubatch nodes) < 2 ^ 64"

lemma typed_runnable:
  fixes pos :: nat
  assumes g: "graph_typed ts c g" and fit: "batch_fits ts c n_ubatch (g_nodes g) n"
  defines "e \<equiv> batch_env ts c (g_nodes g) (arena_plan ts c n_ubatch (g_nodes g)) pos n"
  shows "runnable e"
    and "j < length (g_nodes g) \<Longrightarrow> slot_room (arena_plan ts c n_ubatch (g_nodes g)) j (slot_len e j)"
proof -
  let ?p = "arena_plan ts c n_ubatch (g_nodes g)" and ?nodes = "g_nodes g"
  have b: "backward ?nodes" by (rule typed_backward [OF g])
  have cap: "pl_cap ?p = node_needs ts c n_ubatch ?nodes" by (simp add: arena_plan_def Let_def)
  note in0 = typed_input_first [OF g]
  have room: "(if is_sink ?nodes i then 1 else n) * unat (node_dims ts c ?nodes ! i) * 4 \<le> pl_cap ?p ! i"
    if "i < length ?nodes" "0 < i" for i
    unfolding cap by (rule node_needs_room [OF b]) (use that in0 [OF that(1)] fit in \<open>auto simp: batch_fits_def\<close>)
  have "mul64 (mul64 (if is_sink ?nodes i then 1 else n) (unat (node_dims ts c ?nodes ! i))) 4 \<le> pl_cap ?p ! i"
    if "i < length ?nodes" "0 < i" for i
  proof -
    have "mul64 (mul64 r d) 4 \<le> r * d * 4" for r d
      using mul64_bound [of "mul64 r d" 4] mul64_bound [of r d] by (meson mult_le_mono1 order_trans)
    then show ?thesis using room [OF that] by (rule order_trans)
  qed
  moreover have "0 < n" using fit by (simp add: batch_fits_def)
  ultimately show "runnable e"
    using b in0 sink_marks(2) [OF b] typed_dims [OF g]
    unfolding runnable_def e_def batch_env_def by (simp cong: if_cong split del: if_split)
  assume j: "j < length ?nodes"
  show "slot_room ?p j (slot_len e j)"
  proof (cases "j = 0")
    case True
    then have op: "gn_op (?nodes ! 0) = OP_INPUT" using in0 j by simp
    then have "pl_cap ?p ! 0 = align16 (n_ubatch * 4)"
      using node_needs_nth [OF b, of 0 ts c n_ubatch] j fit True
      by (simp add: cap node_need_def batch_fits_def mul64_def nat_mult_distrib)
    moreover have "n_ubatch * 4 \<le> align16 (n_ubatch * 4)" using fit by (intro align16) (simp add: batch_fits_def)
    ultimately show ?thesis
      using op fit True by (simp add: slot_room_def slot_len_def e_def batch_env_def batch_fits_def)
  next
    case False
    then show ?thesis
      using room [OF j] in0 [OF j] j sink_marks(2) [OF b j]
      by (simp add: slot_room_def slot_len_def e_def batch_env_def cong: if_cong split del: if_split)
  qed
qed

lemma plan_apart:
  assumes "backward nodes" and "sum_list (node_needs ts c n_ubatch nodes) < 2 ^ 64"
    and "j < i" "i < k" "k < length nodes" "node_reads (nodes ! k) j"
  shows "slots_apart nodes (arena_plan ts c n_ubatch nodes) j i"
proof (cases "gn_backend (nodes ! j) = gn_backend (nodes ! i)")
  case True
  let ?p = "arena_plan ts c n_ubatch nodes"
  have "16 dvd pl_off ?p ! j" "16 dvd pl_off ?p ! i" using assms by (auto intro: plan_aligned)
  then have "4 dvd pl_off ?p ! j" "4 dvd pl_off ?p ! i" by (auto elim: dvd_trans [rotated])
  moreover have "x < pl_off ?p ! j \<or> pl_off ?p ! j + pl_cap ?p ! j \<le> x \<or> x < pl_off ?p ! i
      \<or> pl_off ?p ! i + pl_cap ?p ! i \<le> x" for x
    using assms True by (intro plan_slots [where m = k]) simp_all
  ultimately show ?thesis unfolding slots_apart_def by blast
qed (simp add: slots_apart_def)

lemma walk_skip: "(\<And>i. i \<in> set is \<Longrightarrow> f i s = (True, s)) \<Longrightarrow> walk f is s = (True, s)"
  by (induction "is") simp_all

lemma bind_inputs:
  assumes g: "graph_typed ts c g" and n: "g_nodes g \<noteq> []" and fit: "batch_fits ts c n_ubatch (g_nodes g) (length toks)"
  shows "walk (bind_node store (g_nodes g) toks) [0 ..< length (g_nodes g)] m = (True, store 0 toks m)"
proof -
  have upt: "[0 ..< length (g_nodes g)] = 0 # [1 ..< length (g_nodes g)]" using n by (simp add: upt_conv_Cons)
  have "bind_node store (g_nodes g) toks 0 m = (True, store 0 toks m)"
    using typed_input_first [OF g, of 0] n fit by (simp add: bind_node_def batch_fits_def nat_mod_as_int)
  moreover have "bind_node store (g_nodes g) toks i m' = (True, m')" if "i \<in> set [1 ..< length (g_nodes g)]" for i m'
    using typed_input_first [OF g, of i] that by (simp add: bind_node_def)
  moreover have "walk (bind_node store (g_nodes g) toks) [1 ..< length (g_nodes g)] m' = (True, m')" for m'
    by (rule walk_skip) (use calculation(2) in blast)
  ultimately show ?thesis unfolding upt by simp
qed

lemma publish_last:
  assumes g: "complete_graph s g" and v: "0 < c_n_vocab (bs_cfg s)"
  defines "nodes \<equiv> g_nodes g" and "c \<equiv> bs_cfg s"
  shows "publish (batch_env (bs_tensors s) c nodes p pos n) (c_n_vocab c) p mem logits
    = arena_load nodes p (length nodes - 1) (c_n_vocab c) mem @ drop (c_n_vocab c) logits"
    and "gn_op (nodes ! (length nodes - 1)) \<noteq> OP_INPUT"
    and "unat (node_dims (bs_tensors s) c nodes ! (length nodes - 1)) = c_n_vocab c"
proof -
  let ?N = "length nodes" and ?D = "node_dims (bs_tensors s) c nodes"
  have typed: "graph_typed (bs_tensors s) c g" and ne: "nodes \<noteq> []"
    and sink: "\<And>i. i < ?N \<Longrightarrow> is_sink nodes i \<longleftrightarrow> i = ?N - 1" and w: "unat (last ?D) = c_n_vocab c"
    using g by (simp_all add: complete_graph_def nodes_def c_def)
  have "?D \<noteq> []" using ne length_node_dims [of "bs_tensors s" c nodes] by fastforce
  then show w': "unat (?D ! (?N - 1)) = c_n_vocab c" using w by (simp add: last_conv_nth)
  note in0 = typed_input_first [OF typed, folded nodes_def]
  show op: "gn_op (nodes ! (?N - 1)) \<noteq> OP_INPUT"
  proof
    assume a: "gn_op (nodes ! (?N - 1)) = OP_INPUT"
    then have "?N - 1 = 0" using in0 [of "?N - 1"] ne by simp
    then obtain x where x: "nodes = [x]" by (metis One_nat_def Suc_pred' length_0_conv length_Suc_conv length_greater_0_conv ne)
    with a have "?D ! (?N - 1) = 0" using node_dims_snoc [of "bs_tensors s" c "[]" x] by (simp add: node_out_dim_def Let_def)
    then show False using w' v by (simp add: c_def)
  qed
  have marks: "sink_marks nodes ! i \<longleftrightarrow> i = ?N - 1" if "i < ?N" for i
    using sink_marks(2) [OF typed_backward [OF typed], folded nodes_def] sink that by simp
  have "find (\<lambda>i. sink_marks nodes ! i \<and> gn_op (nodes ! i) \<noteq> OP_INPUT) [0 ..< ?N] = Some (?N - 1)"
    unfolding find_Some_iff using marks op ne by (intro exI [of _ "?N - 1"]) simp
  then show "publish (batch_env (bs_tensors s) c nodes p pos n) (c_n_vocab c) p mem logits
    = arena_load nodes p (?N - 1) (c_n_vocab c) mem @ drop (c_n_vocab c) logits"
    using w' by (simp add: publish_def batch_env_def Let_def)
qed

text \<open>C37: on a complete graph whose slots fit the batch, the executor computes the meaning of the
  graph: it succeeds iff evaluation with one buffer per node does, leaves the same persistent
  state, and publishes the value of the last node as the logits; no slot reuse is observable.\<close>

theorem graph_compute_refines:
  assumes g: "complete_graph s g" and v: "0 < c_n_vocab (bs_cfg s)"
    and fit: "batch_fits (bs_tensors s) (bs_cfg s) n_ubatch (g_nodes g) (length toks)"
  defines "p \<equiv> arena_plan (bs_tensors s) (bs_cfg s) n_ubatch (g_nodes g)"
  shows "case graph_eval kern (batch_env (bs_tensors s) (bs_cfg s) (g_nodes g) p pos (length toks)) toks (rs_st rs)
    of (good, vals, st') \<Rightarrow>
      (case graph_compute_planned kern (bs_tensors s) (bs_cfg s) (g_nodes g) p toks pos rs of (good', rs') \<Rightarrow>
        good' = good \<and> rs_st rs' = st'
        \<and> (good \<longrightarrow> rs_logits rs' = last vals @ drop (c_n_vocab (bs_cfg s)) (rs_logits rs)))"
proof -
  let ?nodes = "g_nodes g" and ?N = "length (g_nodes g)" and ?c = "bs_cfg s"
  let ?e = "batch_env (bs_tensors s) ?c ?nodes p pos (length toks)"
  let ?m = "arena_store ?nodes p 0 toks (rs_mem rs)"
  have typed: "graph_typed (bs_tensors s) ?c g" and ne: "?nodes \<noteq> []" using g by (simp_all add: complete_graph_def)
  have b: "backward ?nodes" by (rule typed_backward [OF typed])
  have run: "runnable ?e" and room: "\<And>j. j < length (we_nodes ?e) \<Longrightarrow> slot_room p j (slot_len ?e j)"
    unfolding p_def using typed_runnable [OF typed fit] by (simp_all add: batch_env_def)
  have nodes: "we_nodes ?e = ?nodes" "we_n ?e = length toks" by (simp_all add: batch_env_def)
  have op0: "gn_op (?nodes ! 0) = OP_INPUT" using typed_input_first [OF typed, of 0] ne by simp
  have apart: "slots_apart ?nodes p j i"
    if "j < i" "i < k" "k < length (we_nodes ?e)" "node_reads (we_nodes ?e ! k) j" for i j k
    using plan_apart [OF b, of "bs_tensors s" ?c n_ubatch j i k] fit that(1,2) that(3,4) [unfolded nodes]
    unfolding p_def by (simp add: batch_fits_def)
  have bind: "walk (bind_node (arena_store ?nodes p) ?nodes toks) [0 ..< ?N] (rs_mem rs) = (True, ?m)"
    by (rule bind_inputs [OF typed ne fit])
  have upt: "[0 ..< ?N] = 0 # [1 ..< ?N]" using ne by (simp add: upt_conv_Cons)
  have start: "fitting ?e [toks] 1" "arena.held ?nodes p ?e [toks] 1 ?m"
    using op0 arena_load_store [of ?nodes p 0 toks "rs_mem rs"]
    by (simp_all add: fitting_def slot_len_def nodes arena.held_def)
  obtain good vals st' where ev: "walk (eval_node kern ?e toks) [1 ..< ?N] ([toks], rs_st rs) = (good, vals, st')"
    by (metis prod_cases3)
  have eval: "graph_eval kern ?e toks (rs_st rs) = (good, vals, st')"
    unfolding graph_eval_def nodes upt using op0 ev by (simp add: eval_node_def nodes)
  have "case walk (eval_node kern ?e toks) [1 ..< length (we_nodes ?e)] ([toks], rs_st rs) of (good, vals', st') \<Rightarrow>
     \<exists>m'. walk (exec_node (arena_load ?nodes p) (arena_store ?nodes p) kern ?e) [1 ..< length (we_nodes ?e)] (?m, rs_st rs)
         = (good, m', st')
       \<and> (good \<longrightarrow> fitting ?e vals' (length (we_nodes ?e)) \<and> arena.held ?nodes p ?e vals' (length (we_nodes ?e)) m')"
    by (rule arena.walk_eval [OF run room _ _ _ start]) (use apart nodes ne in \<open>auto simp: Suc_le_eq\<close>)
  with ev obtain m' where m': "walk (exec_node (arena_load ?nodes p) (arena_store ?nodes p) kern ?e) [1 ..< ?N] (?m, rs_st rs) = (good, m', st')"
    and held: "good \<Longrightarrow> fitting ?e vals ?N \<and> arena.held ?nodes p ?e vals ?N m'"
    unfolding nodes by auto
  have exec: "walk (exec_node (arena_load ?nodes p) (arena_store ?nodes p) kern ?e) [0 ..< ?N] (?m, rs_st rs) = (good, m', st')"
    unfolding upt using op0 m' by (simp add: exec_node_def nodes)
  have "rs_logits rs' = last vals @ drop (c_n_vocab ?c) (rs_logits rs)"
    if good and "rs' = rs\<lparr>rs_mem := m', rs_st := st', rs_logits := publish ?e (c_n_vocab ?c) p m' (rs_logits rs)\<rparr>" for rs'
  proof -
    note pub = publish_last [OF g v]
    have len: "length vals = ?N" "length (vals ! (?N - 1)) = slot_len ?e (?N - 1)"
      using held [OF that(1)] ne by (simp_all add: fitting_def)
    have "is_sink ?nodes (?N - 1)" using g ne by (simp add: complete_graph_def)
    then have "sink_marks ?nodes ! (?N - 1)" using sink_marks(2) [OF b, of "?N - 1"] ne by simp
    then have "slot_len ?e (?N - 1) = c_n_vocab ?c" using pub(2,3) by (simp add: slot_len_def batch_env_def)
    moreover have "arena_load ?nodes p (?N - 1) (length (vals ! (?N - 1))) m' = vals ! (?N - 1)"
      using held [OF that(1)] ne unfolding arena.held_def nodes by simp
    moreover have "last vals = vals ! (?N - 1)" using len ne by (metis last_conv_nth length_0_conv)
    ultimately show ?thesis using len(2) pub(1) that(2) by simp
  qed
  then show ?thesis
    unfolding eval by (cases good) (simp_all add: graph_compute_planned_def Let_def bind exec)
qed

text \<open>Two tokens through an embedding and a head, with an operator that also counts its calls.\<close>

definition toy_run :: graph where
  "toy_run = \<lparr>g_nodes = map (\<lambda>(op, i, src, ws, ne). \<lparr>gn_op = op, gn_idx = i, gn_layer = 0, gn_backend = BACKEND_CPU,
       gn_src = src, gn_weights = ws, gn_params = replicate 16 0, gn_ne0 = ne\<rparr>)
     [(OP_INPUT, 0, no_ref, no_ref, 2), (OP_EMBED, 1, ref1 (Some 0), ref1 (Some 0), 0),
      (OP_MATMUL, 2, ref1 (Some 1), ref1 (Some 0), 0)], g_cur_layer = 0, g_state = []\<rparr>"

definition toy_kernel :: "u32 kernel_op" where
  "toy_kernel ctx srcs st = (True, (\<lambda>k. last (hd srcs) + of_nat k + st), st + 1)"

definition toy_model_session :: build_session where
  "toy_model_session = \<lparr>bs_cfg = toy_config\<lparr>c_n_vocab := 6\<rparr>, bs_tensors = [toy_matrix],
     bs_weights = \<lparr>w_n_layer = 1, w_tensors = Map.empty, w_layers = []\<rparr>, bs_ctx_size = 8, bs_ngl = 0\<rparr>"

lemma toy_run_dims: "node_dims [toy_matrix] (toy_config\<lparr>c_n_vocab := 6\<rparr>) (g_nodes toy_run) = [0, 4, 6]"
  by (simp add: toy_run_def node_dims_def node_out_dim_def Let_def ref1_def t_dim_def t_at_def toy_matrix_def w32_def)

lemma less_4: "(\<forall>k < 4. P k) \<longleftrightarrow> P 0 \<and> P 1 \<and> P 2 \<and> P (3 :: nat)"
  by (auto simp: less_Suc_eq numeral_eq_Suc)

lemma toy_run_complete: "complete_graph toy_model_session toy_run"
proof -
  have "graph_typed [toy_matrix] (toy_config\<lparr>c_n_vocab := 6\<rparr>) toy_run"
    unfolding graph_typed_def toy_run_dims
    by (simp add: toy_run_def less_Suc_eq node_typed_def less_4 no_ref_def ref1_def toy_matrix_def node_out_dim_def
        Let_def t_dim_def t_at_def t_ndim_def ti_ndim_def w32_def widths_ok_def all_conj_distrib numeral_3_eq_3 nth_Cons')
  moreover have "\<forall>i < length (g_nodes toy_run). is_sink (g_nodes toy_run) i = (i = length (g_nodes toy_run) - 1)"
    by (simp add: toy_run_def is_sink_def node_reads_def no_ref_def ref1_def numeral_3_eq_3 less_Suc_eq)
  ultimately show ?thesis
    using toy_run_dims by (simp add: complete_graph_def toy_model_session_def toy_run_def)
qed

lemma toy_run_fits: "batch_fits [toy_matrix] (toy_config\<lparr>c_n_vocab := 6\<rparr>) 2 (g_nodes toy_run) 2"
  using toy_run_dims
  by (simp add: batch_fits_def node_needs_def toy_run_def node_need_def node_cap_rows_def align16_def add64_def mul64_def
      sink_marks_def edges_def no_ref_def ref1_def)

lemma toy_run_eval:
  "graph_eval toy_kernel (batch_env [toy_matrix] (toy_config\<lparr>c_n_vocab := 6\<rparr>) (g_nodes toy_run) p pos 2) [5, 3] 0
   = (True, [[5, 3], [3, 4, 5, 6, 7, 8, 9, 10], [11, 12, 13, 14, 15, 16]], 2)"
  unfolding graph_eval_def batch_env_def toy_run_dims
  by (simp add: eval_node_def toy_run_def sink_marks_def edges_def no_ref_def ref1_def upt_rec node_ctx_def
      graph_op_compute_def toy_kernel_def Let_def)

lemma graph_compute_refines_witness:
  "rs_logits (snd (graph_compute_planned toy_kernel [toy_matrix] (toy_config\<lparr>c_n_vocab := 6\<rparr>) (g_nodes toy_run)
     (arena_plan [toy_matrix] (toy_config\<lparr>c_n_vocab := 6\<rparr>) 2 (g_nodes toy_run)) [5, 3] 0
     \<lparr>rs_mem = (\<lambda>_ _. 0), rs_st = 0, rs_logits = replicate 6 0\<rparr>)) = [11, 12, 13, 14, 15, 16]"
proof -
  let ?rs = "\<lparr>rs_mem = (\<lambda>_ _. 0), rs_st = 0, rs_logits = replicate 6 0\<rparr> :: u32 run_state"
  have s: "bs_tensors toy_model_session = [toy_matrix]" "bs_cfg toy_model_session = toy_config\<lparr>c_n_vocab := 6\<rparr>"
    by (simp_all add: toy_model_session_def)
  have "0 < c_n_vocab (bs_cfg toy_model_session)" by (simp add: s)
  from graph_compute_refines [OF toy_run_complete this, where n_ubatch = 2 and toks = "[5, 3]" and kern = toy_kernel
      and pos = 0 and rs = ?rs]
  show ?thesis using toy_run_fits toy_run_eval
    by (simp add: s numeral_2_eq_2 [symmetric] split: prod.splits)
qed

end
