(* ===== verification/GraphSession.thy ===== *)
theory GraphSession
  imports GraphExec
begin

text \<open>A session runs tokens through its graph (\<open>graph_plan\<close>, \<open>graph_compute\<close>, \<open>graph_execute\<close>,
  \<open>graph_prepare\<close>): the graph is built and planned once, the tokens are appended to the
  session's buffer and go through in micro-batches of \<open>n_ubatch\<close>.\<close>

section \<open>Sessions\<close>

text \<open>What stays fixed.  The allocator of each backend, the upload of weights and the
  architecture's builder are parameters: \<open>ev_builder\<close> is \<open>None\<close> without a builder,
  \<open>Some None\<close> when building fails.\<close>

record 'st exec_env =
  ev_build :: build
  ev_ts :: "tensor_info list"
  ev_cfg :: arch_config
  ev_ctx :: nat
  ev_ubatch :: nat
  ev_kern :: "'st kernel_op"
  ev_alloc :: "backend_type \<Rightarrow> nat \<Rightarrow> bool"
  ev_warm :: "graph_node list \<Rightarrow> bool"
  ev_builder :: "graph option option"

text \<open>\<open>ss_shell\<close>: \<open>g->plan\<close> is not NULL; \<open>ss_plan\<close>: the plan when it is ready.\<close>

record 'st exec_session =
  ss_graph :: "graph option"
  ss_shell :: bool
  ss_plan :: "plan option"
  ss_ngl :: int
  ss_tokens :: "u32 list"
  ss_n_tokens :: nat
  ss_run :: "'st run_state"

definition graph_plan :: "'st exec_env \<Rightarrow> 'st exec_session \<Rightarrow> bool \<times> 'st exec_session" where
  "graph_plan ev s =
     (case ss_graph s of
        None \<Rightarrow> (False, s)
      | Some g \<Rightarrow>
          if ss_plan s \<noteq> None then (True, s)
          else let (ngl, nodes, primary) = assign_backends (ev_build ev) (ss_ngl s) (c_n_layer (ev_cfg ev)) (g_nodes g);
                   p = arena_plan (ev_ts ev) (ev_cfg ev) (ev_ubatch ev) nodes;
                   cache = fst (cache_build_attn_kvcache (ev_cfg ev) (ev_ctx ev) nodes);
                   got = (\<lambda>size. list_all (\<lambda>b. size b = 0 \<or> ev_alloc ev b (size b)) [BACKEND_CPU, BACKEND_CUDA, BACKEND_METAL]);
                   s' = s\<lparr>ss_graph := Some (g\<lparr>g_nodes := nodes\<rparr>), ss_ngl := ngl, ss_shell := True\<rparr> in
            if got (pl_size p) \<and> got cache \<and> ev_warm ev nodes then (True, s'\<lparr>ss_plan := Some p\<rparr>) else (False, s'))"

definition graph_compute :: "'st exec_env \<Rightarrow> u32 list \<Rightarrow> nat \<Rightarrow> 'st exec_session \<Rightarrow> bool \<times> 'st exec_session" where
  "graph_compute ev toks pos s =
     (case ss_graph s of
        None \<Rightarrow> (False, s)
      | Some g \<Rightarrow>
          if g_nodes g = [] then (False, s)
          else if toks = [] then (True, s)
          else if pos + length toks > ev_ctx ev then (False, s)
          else (case graph_plan ev s of
                  (False, s1) \<Rightarrow> (False, s1)
                | (True, s1) \<Rightarrow>
                    (case graph_compute_planned (ev_kern ev) (ev_ts ev) (ev_cfg ev) (g_nodes (the (ss_graph s1)))
                            (the (ss_plan s1)) toks pos (ss_run s1) of
                       (good, rs) \<Rightarrow> (good, s1\<lparr>ss_run := rs\<rparr>))))"

text \<open>\<open>memcpy\<close> into the token buffer.\<close>

definition write_at :: "nat \<Rightarrow> 'a list \<Rightarrow> 'a list \<Rightarrow> 'a list" where
  "write_at p xs buf = take p buf @ xs @ drop (p + length xs) buf"

text \<open>The chunk loop; a chunk of 0 tokens would never end it.\<close>

partial_function (option) exec_chunks ::
    "'st exec_env \<Rightarrow> u32 list \<Rightarrow> nat \<Rightarrow> nat \<Rightarrow> 'st exec_session \<Rightarrow> (bool \<times> 'st exec_session) option" where
  "exec_chunks ev toks pos at s =
     (if at < length toks then
        (let chunk = take (ev_ubatch ev) (drop at toks);
             s1 = s\<lparr>ss_tokens := write_at (pos + at) chunk (ss_tokens s)\<rparr> in
         case graph_compute ev chunk (pos + at) s1 of
           (good, s2) \<Rightarrow> if good then exec_chunks ev toks pos (at + length chunk) s2 else Some (False, s2))
      else Some (True, s))"

definition graph_built :: "'st exec_env \<Rightarrow> 'st exec_session \<Rightarrow> 'st exec_session option" where
  "graph_built ev s =
     (case ss_graph s of
        Some g \<Rightarrow> Some s
      | None \<Rightarrow> map_option (\<lambda>g. s\<lparr>ss_graph := Some g\<rparr>) (Option.bind (ev_builder ev) id))"

definition graph_execute :: "'st exec_env \<Rightarrow> u32 list \<Rightarrow> 'st exec_session \<Rightarrow> (bool \<times> 'st exec_session) option" where
  "graph_execute ev toks s =
     (if toks = [] then Some (False, s)
      else case graph_built ev s of
        None \<Rightarrow> Some (False, s)
      | Some s1 \<Rightarrow>
          if ss_n_tokens s1 + length toks > ev_ctx ev then Some (False, s1)
          else (case exec_chunks ev toks (ss_n_tokens s1) 0 s1 of
                  None \<Rightarrow> None
                | Some (good, s2) \<Rightarrow>
                    Some (good, if good then s2\<lparr>ss_n_tokens := ss_n_tokens s1 + length toks\<rparr> else s2)))"

text \<open>\<open>graph_prepare\<close> stops the process without a builder.\<close>

definition graph_prepare :: "'st exec_env \<Rightarrow> 'st exec_session \<Rightarrow> (bool \<times> 'st exec_session) result" where
  "graph_prepare ev s =
     (if ss_graph s = None \<and> ev_builder ev = None then Inl (Fatal ''graph_prepare: no graph builder for this architecture'')
      else case graph_built ev s of
        None \<Rightarrow> Inr (False, s)
      | Some s1 \<Rightarrow> if ss_shell s1 then Inr (True, s1) else Inr (graph_plan ev s1))"

section \<open>The chunk loop\<close>

fun chunks_from :: "nat \<Rightarrow> nat \<Rightarrow> 'a list \<Rightarrow> (nat \<times> 'a list) list" where
  "chunks_from m pos xs =
     (if m = 0 \<or> xs = [] then [] else (pos, take m xs) # chunks_from m (pos + length (take m xs)) (drop m xs))"

declare chunks_from.simps [simp del]

definition exec_chunk :: "'st exec_env \<Rightarrow> nat \<times> u32 list \<Rightarrow> 'st exec_session \<Rightarrow> bool \<times> 'st exec_session" where
  "exec_chunk ev pc s =
     (case pc of (p, chunk) \<Rightarrow> graph_compute ev chunk p (s\<lparr>ss_tokens := write_at p chunk (ss_tokens s)\<rparr>))"

lemma chunks_concat: "0 < m \<Longrightarrow> concat (map snd (chunks_from m pos xs)) = xs"
  by (induction m pos xs rule: chunks_from.induct) (subst chunks_from.simps, simp)

lemma exec_chunks_walk:
  assumes "0 < ev_ubatch ev"
  shows "exec_chunks ev toks pos at s = Some (walk (exec_chunk ev) (chunks_from (ev_ubatch ev) (pos + at) (drop at toks)) s)"
proof (induction "length toks - at" arbitrary: at s rule: less_induct)
  case less
  show ?case
  proof (cases "at < length toks")
    case True
    let ?chunk = "take (ev_ubatch ev) (drop at toks)"
    obtain good s2 where c: "exec_chunk ev (pos + at, ?chunk) s = (good, s2)" by fastforce
    have "length ?chunk \<noteq> 0" using assms True by simp
    then have IH: "exec_chunks ev toks pos (at + length ?chunk) s2 = Some (walk (exec_chunk ev)
        (chunks_from (ev_ubatch ev) (pos + (at + length ?chunk)) (drop (at + length ?chunk) toks)) s2)"
      using less True by simp
    have rest: "drop (ev_ubatch ev) (drop at toks) = drop (at + length ?chunk) toks"
      by (cases "ev_ubatch ev \<le> length toks - at") (simp_all add: min_def ac_simps)
    show ?thesis
      using True assms c IH
      by (subst exec_chunks.simps, subst chunks_from.simps)
        (simp add: Let_def exec_chunk_def rest add.assoc del: length_take drop_drop)
  next
    case False
    then show ?thesis by (subst exec_chunks.simps, subst chunks_from.simps) simp
  qed
qed

section \<open>What a call leaves alone, what it appends\<close>

lemma graph_plan_frame:
  "graph_plan ev s = (good, s') \<Longrightarrow> ss_tokens s' = ss_tokens s \<and> ss_n_tokens s' = ss_n_tokens s"
  by (auto simp: graph_plan_def Let_def split: option.splits prod.splits if_splits)

lemma graph_compute_frame:
  "graph_compute ev toks pos s = (good, s') \<Longrightarrow> ss_tokens s' = ss_tokens s \<and> ss_n_tokens s' = ss_n_tokens s"
  by (auto simp: graph_compute_def dest!: graph_plan_frame split: option.splits prod.splits if_splits bool.splits)

lemma write_at_append:
  "p + length xs \<le> length buf \<Longrightarrow> write_at (p + length xs) ys (write_at p xs buf) = write_at p (xs @ ys) buf"
proof -
  assume le: "p + length xs \<le> length buf"
  then have "take (p + length xs) (write_at p xs buf) = take p buf @ xs" by (simp add: write_at_def)
  moreover have "drop (p + length xs + length ys) (write_at p xs buf) = drop (p + length (xs @ ys)) buf"
    using le by (simp add: write_at_def ac_simps)
  ultimately show ?thesis by (simp add: write_at_def)
qed

lemma length_write_at: "p + length xs \<le> length buf \<Longrightarrow> length (write_at p xs buf) = length buf"
  by (simp add: write_at_def)

lemma write_at_Nil [simp]: "write_at p [] buf = buf"
  by (simp add: write_at_def)

lemma walk_tokens:
  assumes "0 < m" and "walk (exec_chunk ev) (chunks_from m p xs) s = (good, s')" and "p + length xs \<le> length (ss_tokens s)"
  shows "ss_n_tokens s' = ss_n_tokens s \<and> length (ss_tokens s') = length (ss_tokens s)
    \<and> take p (ss_tokens s') = take p (ss_tokens s) \<and> (good \<longrightarrow> ss_tokens s' = write_at p xs (ss_tokens s))"
  using assms
proof (induction m p xs arbitrary: s rule: chunks_from.induct)
  case (1 m p xs)
  show ?case
  proof (cases "xs = []")
    case True
    then show ?thesis using "1.prems"(2) by (simp add: chunks_from.simps)
  next
    case False
    let ?c = "take m xs"
    obtain g s1 where c: "exec_chunk ev (p, ?c) s = (g, s1)" by fastforce
    have room: "p + length ?c \<le> length (ss_tokens s)" using "1.prems"(3) by simp
    have s1: "ss_tokens s1 = write_at p ?c (ss_tokens s)" "ss_n_tokens s1 = ss_n_tokens s"
      using graph_compute_frame c by (fastforce simp: exec_chunk_def)+
    have keep: "take p (write_at p ?c (ss_tokens s)) = take p (ss_tokens s)" using room by (simp add: write_at_def)
    show ?thesis
    proof (cases g)
      case False
      then show ?thesis
        using "1.prems"(1,2) \<open>xs \<noteq> []\<close> c s1 keep length_write_at [OF room] by (simp add: chunks_from.simps [of m p xs])
    next
      case True
      then have w: "walk (exec_chunk ev) (chunks_from m (p + length ?c) (drop m xs)) s1 = (good, s')"
        using "1.prems"(1,2) \<open>xs \<noteq> []\<close> c by (simp add: chunks_from.simps [of m p xs])
      have "p + length ?c + length (drop m xs) = p + length xs" by (simp add: min_def)
      then have "p + length ?c + length (drop m xs) \<le> length (ss_tokens s1)"
        using "1.prems"(3) length_write_at [OF room] s1 by simp
      from "1.IH" [OF _ "1.prems"(1) w this] "1.prems"(1) \<open>xs \<noteq> []\<close>
      have IH: "ss_n_tokens s' = ss_n_tokens s1" "length (ss_tokens s') = length (ss_tokens s1)"
        "take (p + length ?c) (ss_tokens s') = take (p + length ?c) (ss_tokens s1)"
        "good \<longrightarrow> ss_tokens s' = write_at (p + length ?c) (drop m xs) (ss_tokens s1)" by simp_all
      have "take p (ss_tokens s') = take p (ss_tokens s1)"
        using arg_cong [OF IH(3), of "take p"] by simp
      moreover have "write_at (p + length ?c) (drop m xs) (write_at p ?c (ss_tokens s)) = write_at p xs (ss_tokens s)"
        unfolding write_at_append [OF room] by simp
      ultimately show ?thesis
        using IH(1,2,4) s1 keep length_write_at [OF room] by (intro conjI impI) (simp_all only: simp_thms)
    qed
  qed
qed

text \<open>C39: with a positive micro-batch \<open>graph_execute\<close> always returns, never touches the tokens
  already in the session, on success has appended exactly the given tokens and advanced the
  position past them, on failure has left the position where it was, and never passes the end
  of the context.\<close>

theorem graph_execute_appends:
  assumes "0 < ev_ubatch ev" and "length (ss_tokens s) = ev_ctx ev" and "ss_n_tokens s \<le> ev_ctx ev"
  shows "\<exists>good s'. graph_execute ev toks s = Some (good, s')
    \<and> length (ss_tokens s') = ev_ctx ev \<and> ss_n_tokens s' \<le> ev_ctx ev
    \<and> take (ss_n_tokens s) (ss_tokens s') = take (ss_n_tokens s) (ss_tokens s)
    \<and> take (ss_n_tokens s') (ss_tokens s') = take (ss_n_tokens s) (ss_tokens s) @ (if good then toks else [])
    \<and> ss_n_tokens s' = ss_n_tokens s + (if good then length toks else 0)"
proof -
  let ?n = "ss_n_tokens s"
  have refused: "\<exists>good s'. Some (False, s1) = Some (good, s')
    \<and> length (ss_tokens s') = ev_ctx ev \<and> ss_n_tokens s' \<le> ev_ctx ev
    \<and> take ?n (ss_tokens s') = take ?n (ss_tokens s)
    \<and> take (ss_n_tokens s') (ss_tokens s') = take ?n (ss_tokens s) @ (if good then toks else [])
    \<and> ss_n_tokens s' = ?n + (if good then length toks else 0)"
    if "ss_tokens s1 = ss_tokens s" "ss_n_tokens s1 = ?n" for s1 :: "'a exec_session"
    using that assms by (intro exI [of _ False] exI [of _ s1]) simp
  have built: "ss_tokens s1 = ss_tokens s \<and> ss_n_tokens s1 = ?n" if "graph_built ev s = Some s1" for s1
    using that by (auto simp: graph_built_def split: option.splits)
  show ?thesis
  proof (cases "toks = [] \<or> graph_built ev s = None \<or> ?n + length toks > ev_ctx ev")
    case refuse: True
    have early: "toks = [] \<or> graph_built ev s = None \<Longrightarrow> graph_execute ev toks s = Some (False, s)"
      by (auto simp: graph_execute_def)
    have full: "graph_execute ev toks s = Some (False, s1)"
      if "toks \<noteq> []" "graph_built ev s = Some s1" "?n + length toks > ev_ctx ev" for s1
      using that built [OF that(2)] by (simp add: graph_execute_def)
    show ?thesis
    proof (cases "toks = [] \<or> graph_built ev s = None")
      case True
      show ?thesis unfolding early [OF True] by (rule refused) (rule refl)+
    next
      case False
      then obtain s1 where s1: "graph_built ev s = Some s1" by auto
      have "toks \<noteq> []" "?n + length toks > ev_ctx ev" using False refuse by auto
      note full = full [OF this(1) s1 this(2)]
      show ?thesis unfolding full by (rule refused) (use built [OF s1] in simp_all)
    qed
  next
    case False
    then obtain s1 where s1: "graph_built ev s = Some s1" by auto
    obtain good s2 where w: "walk (exec_chunk ev) (chunks_from (ev_ubatch ev) ?n toks) s1 = (good, s2)" by fastforce
    have room: "?n + length toks \<le> length (ss_tokens s1)" using False built [OF s1] assms(2) by simp
    note t = walk_tokens [OF assms(1) w room]
    have ex: "graph_execute ev toks s = Some (good, if good then s2\<lparr>ss_n_tokens := ?n + length toks\<rparr> else s2)"
      using False s1 built [OF s1] w exec_chunks_walk [OF assms(1), of toks ?n 0 s1] by (simp add: graph_execute_def)
    have w: "take (?n + length toks) (write_at ?n toks (ss_tokens s)) = take ?n (ss_tokens s) @ toks"
      using room built [OF s1] by (simp add: write_at_def)
    have t': "ss_n_tokens s2 = ?n" "length (ss_tokens s2) = ev_ctx ev" "take ?n (ss_tokens s2) = take ?n (ss_tokens s)"
      "good \<Longrightarrow> ss_tokens s2 = write_at ?n toks (ss_tokens s)"
      using t built [OF s1] assms(2) by simp_all
    show ?thesis
    proof (cases good)
      case True
      have "?n + length toks \<le> ev_ctx ev" using False by simp
      then show ?thesis
        using ex True t'(2,3) w t'(4) [OF True]
        by (intro exI [of _ True] exI [of _ "s2\<lparr>ss_n_tokens := ?n + length toks\<rparr>"]) simp
    next
      case False
      then show ?thesis using ex t'(1-3) assms(3) by (intro exI [of _ False] exI [of _ s2]) simp
    qed
  qed
qed

section \<open>A session computes the meaning of its graph\<close>

text \<open>One chunk: the persistent state is threaded, the logits are the last node's value.\<close>

definition eval_chunk ::
    "'st kernel_op \<Rightarrow> tensor_info list \<Rightarrow> arch_config \<Rightarrow> graph_node list \<Rightarrow> plan \<Rightarrow> nat \<times> u32 list
     \<Rightarrow> 'st \<times> u32 list \<Rightarrow> bool \<times> 'st \<times> u32 list" where
  "eval_chunk kern ts c nodes p pc sl =
     (case pc of (pos, chunk) \<Rightarrow> case sl of (st, logits) \<Rightarrow>
      case graph_eval kern (batch_env ts c nodes p pos (length chunk)) chunk st of
        (good, vals, st') \<Rightarrow> (good, st', if good then last vals @ drop (c_n_vocab c) logits else logits))"

text \<open>A session that is planned for a complete graph.\<close>

definition session_ready :: "'st exec_env \<Rightarrow> graph \<Rightarrow> 'st exec_session \<Rightarrow> bool" where
  "session_ready ev g s \<longleftrightarrow>
     ss_graph s = Some g \<and> ss_plan s = Some (arena_plan (ev_ts ev) (ev_cfg ev) (ev_ubatch ev) (g_nodes g))
     \<and> (\<exists>bs. complete_graph bs g \<and> bs_tensors bs = ev_ts ev \<and> bs_cfg bs = ev_cfg ev)
     \<and> batch_fits (ev_ts ev) (ev_cfg ev) (ev_ubatch ev) (g_nodes g) (ev_ubatch ev) \<and> 0 < c_n_vocab (ev_cfg ev)"

lemma batch_fits_mono: "batch_fits ts c u nodes u \<Longrightarrow> 0 < n \<Longrightarrow> n \<le> u \<Longrightarrow> batch_fits ts c u nodes n"
  by (simp add: batch_fits_def)

lemma planned_logits_failed:
  "graph_compute_planned kern ts c nodes p toks pos rs = (False, rs') \<Longrightarrow> rs_logits rs' = rs_logits rs"
  by (auto simp: graph_compute_planned_def Let_def split: prod.splits bool.splits)

lemma exec_chunk_eval:
  assumes ready: "session_ready ev g s" and chunk: "chunk \<noteq> []" "length chunk \<le> ev_ubatch ev"
    and ctx: "pos + length chunk \<le> ev_ctx ev"
  defines "p \<equiv> arena_plan (ev_ts ev) (ev_cfg ev) (ev_ubatch ev) (g_nodes g)"
  shows "\<exists>s'. exec_chunk ev (pos, chunk) s = (fst (eval_chunk (ev_kern ev) (ev_ts ev) (ev_cfg ev) (g_nodes g) p (pos, chunk)
        (rs_st (ss_run s), rs_logits (ss_run s))), s')
    \<and> session_ready ev g s'
    \<and> eval_chunk (ev_kern ev) (ev_ts ev) (ev_cfg ev) (g_nodes g) p (pos, chunk) (rs_st (ss_run s), rs_logits (ss_run s))
        = (fst (eval_chunk (ev_kern ev) (ev_ts ev) (ev_cfg ev) (g_nodes g) p (pos, chunk)
             (rs_st (ss_run s), rs_logits (ss_run s))), rs_st (ss_run s'), rs_logits (ss_run s'))"
proof -
  obtain bs where bs: "complete_graph bs g" "bs_tensors bs = ev_ts ev" "bs_cfg bs = ev_cfg ev"
    and fits: "batch_fits (ev_ts ev) (ev_cfg ev) (ev_ubatch ev) (g_nodes g) (ev_ubatch ev)"
    and v: "0 < c_n_vocab (ev_cfg ev)" and sg: "ss_graph s = Some g" "ss_plan s = Some p"
    using ready unfolding session_ready_def p_def by blast
  have ne: "g_nodes g \<noteq> []" using bs(1) by (simp add: complete_graph_def)
  obtain good rs where c: "graph_compute_planned (ev_kern ev) (ev_ts ev) (ev_cfg ev) (g_nodes g) p chunk pos (ss_run s) = (good, rs)"
    by fastforce
  obtain good' vals st' where e: "graph_eval (ev_kern ev) (batch_env (ev_ts ev) (ev_cfg ev) (g_nodes g) p pos (length chunk))
      chunk (rs_st (ss_run s)) = (good', vals, st')" by (metis prod_cases3)
  have "batch_fits (ev_ts ev) (ev_cfg ev) (ev_ubatch ev) (g_nodes g) (length chunk)"
    using chunk by (intro batch_fits_mono [OF fits]) simp_all
  from graph_compute_refines [OF bs(1), unfolded bs(2,3), OF v this, where kern = "ev_kern ev" and pos = pos and rs = "ss_run s", folded p_def] e c
  have r: "good = good'" "rs_st rs = st'"
    "good \<Longrightarrow> rs_logits rs = last vals @ drop (c_n_vocab (ev_cfg ev)) (rs_logits (ss_run s))" by simp_all
  have "rs_logits rs = rs_logits (ss_run s)" if "\<not> good"
    using planned_logits_failed [of "ev_kern ev"] c that by (cases good) simp_all
  with r e have ev: "eval_chunk (ev_kern ev) (ev_ts ev) (ev_cfg ev) (g_nodes g) p (pos, chunk)
      (rs_st (ss_run s), rs_logits (ss_run s)) = (good, rs_st rs, rs_logits rs)"
    by (simp add: eval_chunk_def)
  have "exec_chunk ev (pos, chunk) s
      = (good, s\<lparr>ss_tokens := write_at pos chunk (ss_tokens s), ss_run := rs\<rparr>)"
    using sg ne chunk ctx c by (simp add: exec_chunk_def graph_compute_def graph_plan_def)
  moreover have "session_ready ev g (s\<lparr>ss_tokens := write_at pos chunk (ss_tokens s), ss_run := rs\<rparr>)"
    using ready by (simp add: session_ready_def)
  ultimately show ?thesis using ev by auto
qed

lemma walk_chunks_eval:
  assumes "0 < ev_ubatch ev" and "session_ready ev g s" and "pos + length toks \<le> ev_ctx ev"
  defines "p \<equiv> arena_plan (ev_ts ev) (ev_cfg ev) (ev_ubatch ev) (g_nodes g)"
  defines "E \<equiv> eval_chunk (ev_kern ev) (ev_ts ev) (ev_cfg ev) (g_nodes g) p"
  shows "\<exists>s'. walk (exec_chunk ev) (chunks_from (ev_ubatch ev) pos toks) s
        = (fst (walk E (chunks_from (ev_ubatch ev) pos toks) (rs_st (ss_run s), rs_logits (ss_run s))), s')
    \<and> snd (walk E (chunks_from (ev_ubatch ev) pos toks) (rs_st (ss_run s), rs_logits (ss_run s)))
        = (rs_st (ss_run s'), rs_logits (ss_run s'))"
  using assms(2,3)
proof (induction "ev_ubatch ev" pos toks arbitrary: s rule: chunks_from.induct)
  case (1 pos toks)
  show ?case
  proof (cases "toks = []")
    case True
    then show ?thesis by (simp add: chunks_from.simps)
  next
    case False
    let ?c = "take (ev_ubatch ev) toks"
    have "?c \<noteq> []" "length ?c \<le> ev_ubatch ev" "pos + length ?c \<le> ev_ctx ev"
      using False assms(1) "1.prems"(2) by simp_all
    from exec_chunk_eval [OF "1.prems"(1) this, folded p_def, folded E_def] obtain s1 where
      s1: "exec_chunk ev (pos, ?c) s = (fst (E (pos, ?c) (rs_st (ss_run s), rs_logits (ss_run s))), s1)"
        "session_ready ev g s1"
        "E (pos, ?c) (rs_st (ss_run s), rs_logits (ss_run s))
          = (fst (E (pos, ?c) (rs_st (ss_run s), rs_logits (ss_run s))), rs_st (ss_run s1), rs_logits (ss_run s1))"
      by blast
    obtain good where good: "fst (E (pos, ?c) (rs_st (ss_run s), rs_logits (ss_run s))) = good" by blast
    have step: "chunks_from (ev_ubatch ev) pos toks
        = (pos, ?c) # chunks_from (ev_ubatch ev) (pos + length ?c) (drop (ev_ubatch ev) toks)"
      using False assms(1) by (simp add: chunks_from.simps [of _ pos])
    show ?thesis
    proof (cases good)
      case True
      have "pos + length ?c + length (drop (ev_ubatch ev) toks) \<le> ev_ctx ev" using "1.prems"(2) by (simp add: min_def)
      moreover have "\<not> (ev_ubatch ev = 0 \<or> toks = [])" using \<open>toks \<noteq> []\<close> assms(1) by simp
      ultimately obtain s' where
        "walk (exec_chunk ev) (chunks_from (ev_ubatch ev) (pos + length ?c) (drop (ev_ubatch ev) toks)) s1
          = (fst (walk E (chunks_from (ev_ubatch ev) (pos + length ?c) (drop (ev_ubatch ev) toks))
                (rs_st (ss_run s1), rs_logits (ss_run s1))), s')"
        "snd (walk E (chunks_from (ev_ubatch ev) (pos + length ?c) (drop (ev_ubatch ev) toks))
            (rs_st (ss_run s1), rs_logits (ss_run s1))) = (rs_st (ss_run s'), rs_logits (ss_run s'))"
        using "1.hyps" [OF _ s1(2)] by blast
      then show ?thesis using s1 good True unfolding step by (auto split: prod.splits)
    next
      case False
      then show ?thesis using s1 good unfolding step by (auto split: prod.splits)
    qed
  qed
qed

lemma ready_execute:
  assumes ready: "session_ready ev g s" and toks: "toks \<noteq> []" "ss_n_tokens s + length toks \<le> ev_ctx ev"
  defines "W \<equiv> walk (eval_chunk (ev_kern ev) (ev_ts ev) (ev_cfg ev) (g_nodes g)
            (arena_plan (ev_ts ev) (ev_cfg ev) (ev_ubatch ev) (g_nodes g)))
          (chunks_from (ev_ubatch ev) (ss_n_tokens s) toks) (rs_st (ss_run s), rs_logits (ss_run s))"
  shows "\<exists>s'. graph_execute ev toks s = Some (fst W, s') \<and> snd W = (rs_st (ss_run s'), rs_logits (ss_run s'))"
proof -
  have u: "0 < ev_ubatch ev" using ready by (simp add: session_ready_def batch_fits_def)
  have "graph_built ev s = Some s" using ready by (simp add: session_ready_def graph_built_def)
  then have "graph_execute ev toks s = (case walk (exec_chunk ev) (chunks_from (ev_ubatch ev) (ss_n_tokens s) toks) s of
      (good, s2) \<Rightarrow> Some (good, if good then s2\<lparr>ss_n_tokens := ss_n_tokens s + length toks\<rparr> else s2))"
    using toks exec_chunks_walk [OF u, of toks "ss_n_tokens s" 0 s] by (simp add: graph_execute_def split: prod.split)
  with walk_chunks_eval [OF u ready toks(2)] show ?thesis
    by (auto simp: W_def split: prod.splits)
qed

text \<open>C38: on a planned session with a complete graph, \<open>graph_execute\<close> succeeds iff evaluating the
  chunks one after the other on private buffers does, and leaves exactly that evaluation's
  persistent state and logits.\<close>

theorem graph_execute_refines:
  assumes ready: "session_ready ev g s" and toks: "toks \<noteq> []" "ss_n_tokens s + length toks \<le> ev_ctx ev"
  shows "case walk (eval_chunk (ev_kern ev) (ev_ts ev) (ev_cfg ev) (g_nodes g)
            (arena_plan (ev_ts ev) (ev_cfg ev) (ev_ubatch ev) (g_nodes g)))
          (chunks_from (ev_ubatch ev) (ss_n_tokens s) toks) (rs_st (ss_run s), rs_logits (ss_run s))
    of (good, st', logits') \<Rightarrow>
      \<exists>s'. graph_execute ev toks s = Some (good, s') \<and> rs_st (ss_run s') = st' \<and> rs_logits (ss_run s') = logits'"
  using ready_execute [OF assms] by (auto split: prod.splits)

section \<open>Preparing a session\<close>

lemma complete_backend:
  "complete_graph bs (g\<lparr>g_nodes := map (\<lambda>n. n\<lparr>gn_backend := f n\<rparr>) (g_nodes g)\<rparr>) = complete_graph bs g"
  by (simp add: complete_graph_def graph_typed_backend node_dims_backend)

lemma node_needs_backend:
  assumes "backward nodes"
  shows "node_needs ts c u (map (\<lambda>n. n\<lparr>gn_backend := f n\<rparr>) nodes) = node_needs ts c u nodes"
proof (rule nth_equalityI)
  have b: "backward (map (\<lambda>n. n\<lparr>gn_backend := f n\<rparr>) nodes)" using assms by (simp add: backward_def node_reads_def)
  then show "length (node_needs ts c u (map (\<lambda>n. n\<lparr>gn_backend := f n\<rparr>) nodes)) = length (node_needs ts c u nodes)"
    using assms by simp
  fix i assume "i < length (node_needs ts c u (map (\<lambda>n. n\<lparr>gn_backend := f n\<rparr>) nodes))"
  then have "i < length nodes" using b by simp
  then show "node_needs ts c u (map (\<lambda>n. n\<lparr>gn_backend := f n\<rparr>) nodes) ! i = node_needs ts c u nodes ! i"
    using b assms by (simp add: node_needs_nth node_dims_backend node_need_def node_cap_rows_def)
qed

text \<open>Preparing a fresh session for a complete graph makes it ready.\<close>

lemma prepare_ready:
  assumes fresh: "ss_graph s = None" "\<not> ss_shell s" "ss_plan s = None" and build: "ev_builder ev = Some (Some g)"
    and g: "complete_graph bs g" "bs_tensors bs = ev_ts ev" "bs_cfg bs = ev_cfg ev" and v: "0 < c_n_vocab (ev_cfg ev)"
    and fits: "batch_fits (ev_ts ev) (ev_cfg ev) (ev_ubatch ev) (g_nodes g) (ev_ubatch ev)"
    and prep: "graph_prepare ev s = Inr (True, s')"
  shows "\<exists>g'. session_ready ev g' s' \<and> map gn_op (g_nodes g') = map gn_op (g_nodes g)
    \<and> ss_n_tokens s' = ss_n_tokens s \<and> ss_run s' = ss_run s"
proof -
  obtain ngl nodes primary where a: "assign_backends (ev_build ev) (ss_ngl s) (c_n_layer (ev_cfg ev)) (g_nodes g)
      = (ngl, nodes, primary)" by (metis prod_cases3)
  then obtain f where nodes: "nodes = map (\<lambda>n. n\<lparr>gn_backend := f n\<rparr>) (g_nodes g)"
    by (auto simp: assign_backends_def Let_def)
  have "graph_plan ev (s\<lparr>ss_graph := Some g\<rparr>) = (True, s')"
    using prep fresh build by (simp add: graph_prepare_def graph_built_def)
  then have s': "s' = s\<lparr>ss_graph := Some (g\<lparr>g_nodes := nodes\<rparr>), ss_ngl := ngl, ss_shell := True,
      ss_plan := Some (arena_plan (ev_ts ev) (ev_cfg ev) (ev_ubatch ev) nodes)\<rparr>"
    using fresh(3) a by (simp add: graph_plan_def Let_def split: if_splits)
  have typed: "graph_typed (ev_ts ev) (ev_cfg ev) g" and ne: "g_nodes g \<noteq> []"
    using g by (simp_all add: complete_graph_def)
  have "gn_ne0 (nodes ! 0) = gn_ne0 (g_nodes g ! 0)" using ne by (simp add: nodes)
  then have "batch_fits (ev_ts ev) (ev_cfg ev) (ev_ubatch ev) nodes (ev_ubatch ev)"
    using fits node_needs_backend [OF typed_backward [OF typed]] by (simp add: batch_fits_def nodes)
  moreover have "complete_graph bs (g\<lparr>g_nodes := nodes\<rparr>)" unfolding nodes using g(1) by (simp add: complete_backend)
  ultimately have "session_ready ev (g\<lparr>g_nodes := nodes\<rparr>) s'"
    using g(2,3) v by (auto simp: session_ready_def s')
  moreover have "map gn_op nodes = map gn_op (g_nodes g)" by (simp add: nodes comp_def)
  ultimately show ?thesis by (intro exI [of _ "g\<lparr>g_nodes := nodes\<rparr>"]) (simp add: s')
qed

text \<open>A plan that failed leaves its shell behind, and the next \<open>graph_prepare\<close> takes it for a plan.\<close>

lemma prepare_after_failure:
  assumes "ss_graph s = Some g" and "ss_plan s = None" and "graph_plan ev s = (False, s')"
  shows "graph_prepare ev s' = Inr (True, s') \<and> ss_plan s' = None"
  using assms by (auto simp: graph_plan_def graph_prepare_def graph_built_def Let_def split: if_splits prod.splits)

section \<open>Concrete runs\<close>

definition toy_env :: "u32 exec_env" where
  "toy_env = \<lparr>ev_build = CPU_BUILD, ev_ts = [toy_matrix], ev_cfg = toy_config\<lparr>c_n_vocab := 6\<rparr>, ev_ctx = 8, ev_ubatch = 2,
     ev_kern = toy_kernel, ev_alloc = (\<lambda>_ _. True), ev_warm = (\<lambda>_. True), ev_builder = Some (Some toy_run)\<rparr>"

definition toy_start :: "u32 exec_session" where
  "toy_start = \<lparr>ss_graph = None, ss_shell = False, ss_plan = None, ss_ngl = 0, ss_tokens = replicate 8 0, ss_n_tokens = 0,
     ss_run = \<lparr>rs_mem = (\<lambda>_ _. 0), rs_st = 0, rs_logits = replicate 6 0\<rparr>\<rparr>"

lemma graph_execute_appends_witness:
  "\<exists>good s'. graph_execute toy_env [5, 3, 1] toy_start = Some (good, s') \<and> length (ss_tokens s') = 8"
proof -
  have "0 < ev_ubatch toy_env" "length (ss_tokens toy_start) = ev_ctx toy_env" "ss_n_tokens toy_start \<le> ev_ctx toy_env"
    by (simp_all add: toy_env_def toy_start_def)
  from graph_execute_appends [OF this, of "[5, 3, 1]"] show ?thesis by (auto simp: toy_env_def)
qed

lemma toy_prepared: "\<exists>s g. graph_prepare toy_env toy_start = Inr (True, s) \<and> session_ready toy_env g s
    \<and> g_nodes g = g_nodes toy_run \<and> ss_n_tokens s = 0 \<and> ss_run s = ss_run toy_start"
proof -
  have "map (\<lambda>n. n\<lparr>gn_backend := node_backend CPU_BUILD 0 1 n\<rparr>) (g_nodes toy_run) = g_nodes toy_run"
    by (simp add: toy_run_def node_backend_def)
  then have a: "assign_backends CPU_BUILD 0 1 (g_nodes toy_run) = (0, g_nodes toy_run, BACKEND_CPU)"
    by (simp add: assign_backends_def clamp_layers_def primary_backend_def)
  have l: "c_n_layer (toy_config\<lparr>c_n_vocab := 6\<rparr>) = 1" by (simp add: toy_config_def)
  let ?s = "toy_start\<lparr>ss_graph := Some toy_run, ss_shell := True,
      ss_plan := Some (arena_plan [toy_matrix] (toy_config\<lparr>c_n_vocab := 6\<rparr>) 2 (g_nodes toy_run))\<rparr>"
  have "graph_prepare toy_env toy_start = Inr (True, ?s)"
    using a l by (simp add: graph_prepare_def graph_built_def graph_plan_def toy_env_def toy_start_def Let_def)
  moreover have "session_ready toy_env toy_run ?s"
    using toy_run_complete toy_run_fits by (auto simp: session_ready_def toy_env_def toy_start_def toy_model_session_def)
  ultimately show ?thesis by (intro exI [of _ ?s] exI [of _ toy_run]) (simp add: toy_start_def)
qed

lemma graph_execute_refines_witness:
  "\<exists>s s'. graph_prepare toy_env toy_start = Inr (True, s)
    \<and> graph_execute toy_env [5, 3] s = Some (True, s') \<and> rs_logits (ss_run s') = [11, 12, 13, 14, 15, 16]"
proof -
  obtain s g where s: "graph_prepare toy_env toy_start = Inr (True, s)" "session_ready toy_env g s"
    "g_nodes g = g_nodes toy_run" "ss_n_tokens s = 0" "ss_run s = ss_run toy_start"
    using toy_prepared by blast
  have "ss_n_tokens s + length [5, 3 :: u32] \<le> ev_ctx toy_env" using s(4) by (simp add: toy_env_def)
  note R = graph_execute_refines [OF s(2) _ this]
  have "chunks_from 2 0 [5, 3 :: u32] = [(0, [5, 3])]" by (simp add: chunks_from.simps)
  with R toy_run_eval show ?thesis
    using s(1,3-5) by (auto simp: toy_env_def toy_start_def eval_chunk_def numeral_2_eq_2 [symmetric] toy_config_def)
qed

end
