(* ===== verification/CpuKernels.thy ===== *)
theory CpuKernels
  imports GraphExec
begin

text \<open>The compute kernels of \<open>backend/cpu/cpu_op.c\<close> on single rows.  A float is its bit pattern
  and a \<open>float *\<close> the function from offsets to the cells behind it; a kernel that writes through
  a pointer returns the new contents.  Float arithmetic and \<open>libm\<close> are the record \<open>cpu_floats\<close>,
  applied in the order of the code, without fused operations.  Allocations succeed.\<close>

section \<open>Floats and buffers\<close>

record cpu_floats =
  fadd :: "u32 \<Rightarrow> u32 \<Rightarrow> u32"
  fsub :: "u32 \<Rightarrow> u32 \<Rightarrow> u32"
  fmul :: "u32 \<Rightarrow> u32 \<Rightarrow> u32"
  fdiv :: "u32 \<Rightarrow> u32 \<Rightarrow> u32"
  fneg :: "u32 \<Rightarrow> u32"
  fgt :: "u32 \<Rightarrow> u32 \<Rightarrow> bool"
  fint :: "int \<Rightarrow> u32"
  fsqrt :: "u32 \<Rightarrow> u32"
  fexp :: "u32 \<Rightarrow> u32"
  flog1p :: "u32 \<Rightarrow> u32"
  ftanh :: "u32 \<Rightarrow> u32"
  fcos :: "u32 \<Rightarrow> u32"
  fsin :: "u32 \<Rightarrow> u32"
  fpow :: "u32 \<Rightarrow> u32 \<Rightarrow> u32"

text \<open>\<open>1.0f\<close>, \<open>0.5f\<close>, \<open>20.0f\<close>, \<open>DEFAULT_EPS\<close> (\<open>1e-6f\<close>), and the two constants of GELU; \<open>0.0f\<close> is 0.\<close>

definition f_one :: u32 where "f_one = 0x3F800000"
definition f_half :: u32 where "f_half = 0x3F000000"
definition f_twenty :: u32 where "f_twenty = 0x41A00000"
definition f_default_eps :: u32 where "f_default_eps = 0x358637BD"
definition f_gelu_coef_a :: u32 where "f_gelu_coef_a = 0x3D372713"
definition f_sqrt_2_over_pi :: u32 where "f_sqrt_2_over_pi = 0x3F4C422A"

type_synonym buf = "nat \<Rightarrow> u32"

text \<open>\<open>p + o\<close>; a call that writes through \<open>p + o\<close>; a loop that assigns the first \<open>n\<close> cells;
  \<open>memcpy\<close> of \<open>n\<close> cells to \<open>p + o\<close>; an accumulating loop from \<open>0.0f\<close>.\<close>

definition ptr :: "buf \<Rightarrow> nat \<Rightarrow> buf" where
  "ptr b off = (\<lambda>i. b (off + i))"

definition via :: "nat \<Rightarrow> (buf \<Rightarrow> buf) \<Rightarrow> buf \<Rightarrow> buf" where
  "via off f b = (\<lambda>i. if i < off then b i else f (ptr b off) (i - off))"

definition fill :: "nat \<Rightarrow> (nat \<Rightarrow> u32) \<Rightarrow> buf \<Rightarrow> buf" where
  "fill n g b = (\<lambda>i. if i < n then g i else b i)"

definition copy_to :: "nat \<Rightarrow> nat \<Rightarrow> buf \<Rightarrow> buf \<Rightarrow> buf" where
  "copy_to off n src b = (\<lambda>i. if off \<le> i \<and> i < off + n then src (i - off) else b i)"

definition fsum :: "cpu_floats \<Rightarrow> nat \<Rightarrow> (nat \<Rightarrow> u32) \<Rightarrow> u32" where
  "fsum F n g = foldl (\<lambda>s i. fadd F s (g i)) 0 [0 ..< n]"

section \<open>Element-wise kernels\<close>

definition sigmoid :: "cpu_floats \<Rightarrow> u32 \<Rightarrow> u32" where
  "sigmoid F x = fdiv F f_one (fadd F f_one (fexp F (fneg F x)))"

definition softplus :: "cpu_floats \<Rightarrow> u32 \<Rightarrow> u32" where
  "softplus F x = (if fgt F x f_twenty then x else flog1p F (fexp F x))"

definition silu1 :: "cpu_floats \<Rightarrow> u32 \<Rightarrow> u32" where
  "silu1 F x = fdiv F x (fadd F f_one (fexp F (fneg F x)))"

text \<open>The loop bound is an \<open>int\<close>; a negative one runs no iteration.\<close>

definition silu :: "cpu_floats \<Rightarrow> buf \<Rightarrow> int \<Rightarrow> buf" where
  "silu F x n = fill (nat n) (\<lambda>i. silu1 F (x i)) x"

definition gelu_n :: "cpu_floats \<Rightarrow> buf \<Rightarrow> int \<Rightarrow> buf" where
  "gelu_n F x n = fill (nat n) (\<lambda>i. let v = x i in
     fmul F (fmul F f_half v)
       (fadd F f_one (ftanh F (fmul F (fmul F f_sqrt_2_over_pi v)
          (fadd F f_one (fmul F (fmul F f_gelu_coef_a v) v)))))) x"

definition softmax :: "cpu_floats \<Rightarrow> buf \<Rightarrow> nat \<Rightarrow> buf" where
  "softmax F x n =
     (let mx = foldl (\<lambda>m i. if fgt F (x i) m then x i else m) (x 0) [1 ..< n];
          e = fill n (\<lambda>i. fexp F (fsub F (x i) mx)) x;
          total = fsum F n e in
      fill n (\<lambda>i. fdiv F (e i) total) e)"

definition softmax_n :: "cpu_floats \<Rightarrow> buf \<Rightarrow> int \<Rightarrow> buf" where
  "softmax_n F x n = softmax F x (unat (word_of_int n :: u32))"

section \<open>Norms\<close>

definition rms_norm_inplace :: "cpu_floats \<Rightarrow> buf \<Rightarrow> nat \<Rightarrow> u32 \<Rightarrow> buf \<Rightarrow> buf" where
  "rms_norm_inplace F weight n eps x =
     (let ss = fdiv F f_one (fsqrt F (fadd F (fdiv F (fsum F n (\<lambda>j. fmul F (x j) (x j))) (fint F (int n))) eps)) in
      fill n (\<lambda>j. fmul F (fmul F (x j) ss) (weight j)) x)"

definition l2_norm_rows :: "cpu_floats \<Rightarrow> nat \<Rightarrow> nat \<Rightarrow> u32 \<Rightarrow> buf \<Rightarrow> buf" where
  "l2_norm_rows F n_rows dim eps x =
     fold (\<lambda>r. via (r * dim) (\<lambda>row.
        let inv' = fdiv F f_one (fsqrt F (fadd F (fsum F dim (\<lambda>i. fmul F (row i) (row i))) eps)) in
        fill dim (\<lambda>i. fmul F (row i) inv') row)) [0 ..< n_rows] x"

section \<open>Rotary embeddings\<close>

text \<open>One rotated pair of cells: \<open>(a c - b s, a s + b c)\<close>.\<close>

definition rotate :: "cpu_floats \<Rightarrow> u32 \<Rightarrow> u32 \<Rightarrow> nat \<Rightarrow> nat \<Rightarrow> buf \<Rightarrow> buf" where
  "rotate F c s i j b =
     (let x = b i; y = b j in
      b(i := fsub F (fmul F x c) (fmul F y s), j := fadd F (fmul F x s) (fmul F y c)))"

definition rope_angle :: "cpu_floats \<Rightarrow> u32 \<Rightarrow> u32 \<Rightarrow> u32 \<Rightarrow> nat \<Rightarrow> u32" where
  "rope_angle F pos theta rope_dim k =
     fmul F (fint F (uint pos)) (fdiv F f_one (fpow F theta (fdiv F (fint F (int k)) (fint F (uint rope_dim)))))"

definition rope_partial :: "cpu_floats \<Rightarrow> u32 \<Rightarrow> u32 \<Rightarrow> u32 \<Rightarrow> u32 \<Rightarrow> u32 \<Rightarrow> buf \<Rightarrow> buf" where
  "rope_partial F n_heads head_dim rope_dim pos theta buf =
     (let half = unat rope_dim div 2 in
      fold (\<lambda>h. via (h * unat head_dim) (\<lambda>bh.
          fold (\<lambda>i. let t = rope_angle F pos theta rope_dim (2 * i) in rotate F (fcos F t) (fsin F t) i (i + half))
            [0 ..< half] bh)) [0 ..< unat n_heads] buf)"

text \<open>The consecutive pairs of \<open>op_rope_norm\<close>; \<open>i += 2\<close> does not wrap for a \<open>rope_dim\<close> below \<open>2^32 - 1\<close>.\<close>

definition rope_pairs :: "cpu_floats \<Rightarrow> u32 \<Rightarrow> u32 \<Rightarrow> u32 \<Rightarrow> u32 \<Rightarrow> u32 \<Rightarrow> buf \<Rightarrow> buf" where
  "rope_pairs F n_heads head_dim rope_dim pos theta buf =
     fold (\<lambda>h. via (h * unat head_dim) (\<lambda>bh.
        fold (\<lambda>i. let t = rope_angle F pos theta rope_dim (2 * i) in rotate F (fcos F t) (fsin F t) (2 * i) (2 * i + 1))
          [0 ..< (unat rope_dim + 1) div 2] bh)) [0 ..< unat n_heads] buf"

section \<open>Convolution\<close>

text \<open>The window sum of channel \<open>ch\<close>: the ring buffer holds the oldest input first; tap
  \<open>ck - 1\<close> meets the current input.  The indices are \<open>u32\<close> arithmetic.\<close>

definition conv_tap :: "buf \<Rightarrow> buf \<Rightarrow> u32 \<Rightarrow> u32 \<Rightarrow> nat \<Rightarrow> nat \<Rightarrow> u32" where
  "conv_tap raw state channels ck ch k =
     (if w32 k = ck - 1 then raw ch else state (unat (w32 k * channels + w32 ch)))"

definition conv_sum :: "cpu_floats \<Rightarrow> buf \<Rightarrow> buf \<Rightarrow> buf \<Rightarrow> u32 \<Rightarrow> u32 \<Rightarrow> nat \<Rightarrow> u32" where
  "conv_sum F raw weight state channels ck ch =
     fsum F (unat ck) (\<lambda>k. fmul F (conv_tap raw state channels ck ch k) (weight (unat (w32 ch * ck + w32 k))))"

text \<open>The ring drops its oldest row and takes the current input.\<close>

definition conv_shift :: "buf \<Rightarrow> u32 \<Rightarrow> u32 \<Rightarrow> buf \<Rightarrow> buf" where
  "conv_shift raw channels ck state =
     (if ck > 1 then
        (let shift_len = unat ((ck - 2) * channels) in
         copy_to shift_len (unat channels) raw (fill shift_len (ptr state (unat channels)) state))
      else state)"

definition causal_conv1d_step ::
    "cpu_floats \<Rightarrow> buf \<Rightarrow> buf \<Rightarrow> u32 \<Rightarrow> u32 \<Rightarrow> buf \<times> buf \<Rightarrow> buf \<times> buf" where
  "causal_conv1d_step F input weight channels ck os =
     (case os of (output, state) \<Rightarrow>
      (fill (unat channels) (conv_sum F input weight state channels ck) output,
       conv_shift input channels ck state))"

section \<open>The gated delta rule\<close>

text \<open>One value head: decay, \<open>mem = S\<^sup>T k\<close>, the delta vector, the outer product update and the
  readout \<open>S\<^sup>T q\<close>.\<close>

definition delta_head ::
    "cpu_floats \<Rightarrow> nat \<Rightarrow> buf \<Rightarrow> buf \<Rightarrow> buf \<Rightarrow> u32 \<Rightarrow> u32 \<Rightarrow> buf \<Rightarrow> buf \<times> buf" where
  "delta_head F hw q k v decay upd S =
     (let S1 = fill (hw * hw) (\<lambda>i. fmul F (S i) decay) S;
          mem = (\<lambda>j. fsum F hw (\<lambda>i. fmul F (S1 (i * hw + j)) (k i)));
          delta = (\<lambda>j. fmul F (fsub F (v j) (mem j)) upd);
          S2 = fill (hw * hw) (\<lambda>x. fadd F (S1 x) (fmul F (k (x div hw)) (delta (x mod hw)))) S1 in
      (S2, \<lambda>j. fsum F hw (\<lambda>i. fmul F (S2 (i * hw + j)) (q i))))"

definition delta_step1 ::
    "cpu_floats \<Rightarrow> buf \<Rightarrow> buf \<Rightarrow> buf \<Rightarrow> buf \<Rightarrow> buf \<Rightarrow> nat \<Rightarrow> nat \<Rightarrow> nat \<Rightarrow> buf \<times> buf \<Rightarrow> buf \<times> buf" where
  "delta_step1 F Q K V g beta n_k hw grp so =
     (case so of (state, output) \<Rightarrow>
      let kh = (if n_k \<noteq> 0 then grp mod n_k else 0);
          run = delta_head F hw (ptr Q (kh * hw)) (ptr K (kh * hw)) (ptr V (grp * hw)) (g grp) (beta grp) in
      (via (grp * (hw * hw)) (\<lambda>S. fst (run S)) state,
       copy_to (grp * hw) hw (snd (run (ptr state (grp * (hw * hw))))) output))"

definition gated_delta_step ::
    "cpu_floats \<Rightarrow> buf \<Rightarrow> buf \<Rightarrow> buf \<Rightarrow> buf \<Rightarrow> buf \<Rightarrow> nat \<Rightarrow> nat \<Rightarrow> nat \<Rightarrow> buf \<times> buf \<Rightarrow> buf \<times> buf" where
  "gated_delta_step F Q K V g beta n_v n_k hw so = fold (delta_step1 F Q K V g beta n_k hw) [0 ..< n_v] so"

section \<open>The selective scan\<close>

text \<open>Head \<open>h\<close>, channel \<open>d\<close>: \<open>ds\<close> state cells decay and take \<open>B x dt\<close>; the output reads them
  through \<open>C\<close>, adds the skip and gates by \<open>silu(z)\<close>.\<close>

definition scan_cell ::
    "cpu_floats \<Rightarrow> buf \<Rightarrow> buf \<Rightarrow> buf \<Rightarrow> buf \<Rightarrow> buf \<Rightarrow> nat \<Rightarrow> u32 \<Rightarrow> u32 \<Rightarrow> u32 \<Rightarrow> nat \<Rightarrow> nat \<Rightarrow> buf \<times> buf \<Rightarrow> buf \<times> buf" where
  "scan_cell F xr bg cg pr dvec ds dtv dA hw h d so =
     (case so of (state, output) \<Rightarrow>
      let ii = unat (w32 h * hw + w32 d);
          xv = xr ii;
          xdt = fmul F xv dtv;
          state' = via (ii * ds) (\<lambda>sp. fill ds (\<lambda>i. fadd F (fmul F (sp i) dA) (fmul F (bg i) xdt)) sp) state;
          total = fsum F ds (\<lambda>i. fmul F (state' (ii * ds + i)) (cg i));
          y = fadd F total (fmul F xv (dvec h));
          z = pr ii in
      (state', output(ii := fmul F y (silu1 F z))))"

definition scan_head ::
    "cpu_floats \<Rightarrow> buf \<Rightarrow> buf \<Rightarrow> buf \<Rightarrow> buf \<Rightarrow> buf \<Rightarrow> buf \<Rightarrow> u32 \<Rightarrow> u32 \<Rightarrow> u32 \<Rightarrow> u32 \<Rightarrow> u32 \<Rightarrow> nat
     \<Rightarrow> buf \<times> buf \<Rightarrow> buf \<times> buf" where
  "scan_head F xr pr avec dvec dtb dt hw ds ng d_inner heads_per_group h so =
     (let dtv = softplus F (fadd F (dt h) (dtb h));
          dA = fexp F (fmul F dtv (avec h));
          g = unat (w32 h div heads_per_group);
          B = ptr xr (unat d_inner);
          C = ptr B (unat (ng * ds)) in
      fold (scan_cell F xr (ptr B (g * unat ds)) (ptr C (g * unat ds)) pr dvec (unat ds) dtv dA hw h)
        [0 ..< unat hw] so)"

text \<open>Words in place of floats, for concrete runs.\<close>

definition word_floats :: cpu_floats where
  "word_floats = \<lparr>fadd = (+), fsub = (-), fmul = (*), fdiv = (\<lambda>a b. a), fneg = uminus, fgt = (>), fint = of_int,
     fsqrt = id, fexp = id, flog1p = id, ftanh = id, fcos = id, fsin = id, fpow = (\<lambda>a b. a)\<rparr>"

end
