(* ===== verification/CpuOps.thy ===== *)
theory CpuOps
  imports CpuKernels
begin

text \<open>The CPU graph operators and their dispatch (\<open>backend/cpu/cpu_op.c\<close>), one definition per
  \<open>op_*\<close> function, and the checked tensor reads they use (\<open>core.c\<close>).  The SIMD routines of
  \<open>cpu.h\<close> and the element decoder \<open>gguf_dequant\<close> are fields of \<open>cpu_env\<close>; a matrix is passed to
  them as the list of its cells.  A tensor access out of bounds ends the process (\<open>Inl\<close>).\<close>

section \<open>Environment, persistent state\<close>

record cpu_env =
  ce_floats :: cpu_floats
  ce_ts :: "tensor_info list"
  ce_cfg :: arch_config
  ce_states :: "nat list"
  ce_dequant :: "nat \<Rightarrow> nat \<Rightarrow> u32"
  ce_dequant_batch :: "nat \<Rightarrow> nat \<Rightarrow> nat \<Rightarrow> buf"
  ce_dot :: "nat \<Rightarrow> nat \<Rightarrow> nat \<Rightarrow> u32 list \<Rightarrow> u32"
  ce_dotprod :: bool
  ce_quantize :: "u32 list \<Rightarrow> int list \<times> u32"
  ce_dot_i8 :: "nat \<Rightarrow> nat \<Rightarrow> nat \<Rightarrow> int list \<times> u32 \<Rightarrow> u32"
  ce_mat_mat :: "u32 list \<Rightarrow> u32 list \<Rightarrow> nat \<Rightarrow> nat \<Rightarrow> nat \<Rightarrow> buf"
  ce_mat_vec :: "u32 list \<Rightarrow> u32 list \<Rightarrow> nat \<Rightarrow> nat \<Rightarrow> buf"
  ce_threads :: nat
  ce_order :: "nat \<Rightarrow> nat list"
  ce_cache :: bool
  ce_kv :: "nat \<Rightarrow> bool"
  ce_cap :: nat

text \<open>What survives a batch: the K and V rows and the fill count of each layer, and the recurrent
  buffers, by the pointer that \<open>g->state[]\<close> holds.\<close>

datatype state_slot = KCache nat | VCache nat | KvCount nat | Recurrent nat

type_synonym cpu_state = "state_slot \<Rightarrow> buf"

section \<open>Loops that may end the process\<close>

fun rfold :: "('a \<Rightarrow> 's \<Rightarrow> 's result) \<Rightarrow> 'a list \<Rightarrow> 's \<Rightarrow> 's result" where
  "rfold f [] s = Inr s"
| "rfold f (x # xs) s = rbind (f x s) (rfold f xs)"

fun rmap :: "('a \<Rightarrow> 'b result) \<Rightarrow> 'a list \<Rightarrow> 'b list result" where
  "rmap f [] = Inr []"
| "rmap f (x # xs) = rbind (f x) (\<lambda>y. rbind (rmap f xs) (\<lambda>ys. Inr (y # ys)))"

section \<open>Tensor reads\<close>

definition tensor_get_f32 :: "cpu_env \<Rightarrow> nat \<Rightarrow> nat \<Rightarrow> u32 result" where
  "tensor_get_f32 E w i =
     (if i \<ge> ti_n_element (ce_ts E ! w) then Inl (Fatal ''Fatal: out-of-bounds tensor access'')
      else Inr (ce_dequant E w i))"

definition tensor_get_f32_batch :: "cpu_env \<Rightarrow> nat \<Rightarrow> nat \<Rightarrow> nat \<Rightarrow> buf result" where
  "tensor_get_f32_batch E w i0 nb =
     (if add64 i0 nb > ti_n_element (ce_ts E ! w) \<or> nb = 0
      then Inl (Fatal ''Fatal: out-of-bounds batch tensor access'')
      else Inr (ce_dequant_batch E w i0 nb))"

section \<open>Rows\<close>

text \<open>The cells behind a source; what lies past a slot is not specified by the model and reads as 0.\<close>

definition op_src :: "u32 list list \<Rightarrow> nat \<Rightarrow> buf" where
  "op_src srcs k = (\<lambda>i. if i < length (srcs ! k) then srcs ! k ! i else 0)"

definition op_param :: "op_ctx \<Rightarrow> nat \<Rightarrow> u32" where
  "op_param c k = gn_params (oc_node c) ! k"

definition op_weight :: "op_ctx \<Rightarrow> nat \<Rightarrow> nat" where
  "op_weight c k = the (gn_weights (oc_node c) ! k)"

definition put :: "nat \<Rightarrow> buf \<Rightarrow> buf \<Rightarrow> buf" where
  "put off x b = (\<lambda>i. if i < off then b i else x (i - off))"

text \<open>The loop of almost every operator: row \<open>p\<close> of the batch reads row \<open>base + p\<close> of each source,
  whose stride is \<open>w k\<close>, knows its absolute position, and works on \<open>dst + p * od\<close> and the state.\<close>

definition each_row ::
    "nat \<Rightarrow> nat \<Rightarrow> nat \<Rightarrow> nat \<Rightarrow> u32 list list \<Rightarrow> (nat \<Rightarrow> nat)
     \<Rightarrow> (u32 \<Rightarrow> (nat \<Rightarrow> buf) \<Rightarrow> buf \<Rightarrow> cpu_state \<Rightarrow> (buf \<times> cpu_state) result)
     \<Rightarrow> buf \<Rightarrow> cpu_state \<Rightarrow> (bool \<times> buf \<times> cpu_state) result" where
  "each_row cnt base od pos srcs w body dst st =
     rbind (rfold (\<lambda>p (d, s).
         rbind (body (w32 (pos + base + p)) (\<lambda>k. ptr (op_src srcs k) ((base + p) * w k)) (ptr d (p * od)) s)
               (\<lambda>(x, s'). Inr (put (p * od) x d, s')))
       [0 ..< cnt] (dst, st))
     (\<lambda>(d, s). Inr (True, d, s))"

text \<open>A row that neither fails nor touches the state.\<close>

definition plain :: "(u32 \<Rightarrow> (nat \<Rightarrow> buf) \<Rightarrow> buf \<Rightarrow> buf) \<Rightarrow> u32 \<Rightarrow> (nat \<Rightarrow> buf) \<Rightarrow> buf \<Rightarrow> cpu_state
    \<Rightarrow> (buf \<times> cpu_state) result" where
  "plain f pos x d s = Inr (f pos x d, s)"

section \<open>Norm, embedding, bias\<close>

text \<open>\<open>n\<close> is an \<open>int\<close>, compared as \<open>u64\<close> with the weight's length and clamped to it.\<close>

definition rms_norm :: "cpu_env \<Rightarrow> buf \<Rightarrow> nat \<Rightarrow> int \<Rightarrow> u32 \<Rightarrow> buf \<Rightarrow> buf result" where
  "rms_norm E x tw n0 eps out =
     (let F = ce_floats E; tn = t_dim (ce_ts E) (Some tw) 0;
          n = (if nat (n0 mod 2 ^ 64) > tn then sint (w32 tn) else n0);
          scale = fdiv F f_one (fsqrt F (fadd F (fdiv F (fsum F (nat n) (\<lambda>i. fmul F (x i) (x i))) (fint F n)) eps)) in
      rbind (tensor_get_f32_batch E tw 0 (nat (n mod 2 ^ 64))) (\<lambda>w_buf.
        Inr (fill (nat n) (\<lambda>i. fmul F (fmul F (x i) scale) (w_buf i)) out)))"

definition op_rms_norm :: "cpu_env \<Rightarrow> op_ctx \<Rightarrow> u32 list list \<Rightarrow> buf \<Rightarrow> cpu_state \<Rightarrow> (bool \<times> buf \<times> cpu_state) result" where
  "op_rms_norm E c srcs =
     each_row (oc_r c) (oc_base c) (oc_od c) (oc_pos c) srcs (\<lambda>_. oc_od c)
       (\<lambda>pos x d s. rbind (rms_norm E (x 0) (op_weight c 0) (sint (w32 (oc_od c))) f_default_eps d) (\<lambda>y. Inr (y, s)))"

text \<open>The whole batch, whatever \<open>r\<close> and \<open>base\<close> are; a token id is the bit pattern of its cell.\<close>

definition op_embed :: "cpu_env \<Rightarrow> op_ctx \<Rightarrow> u32 list list \<Rightarrow> buf \<Rightarrow> cpu_state \<Rightarrow> (bool \<times> buf \<times> cpu_state) result" where
  "op_embed E c srcs =
     (let te = op_weight c 0; od = oc_od c; V = c_n_vocab (ce_cfg E) in
      each_row (oc_n c) 0 od (oc_pos c) srcs (\<lambda>_. 1)
        (\<lambda>pos x d s. let tok = unat (x 0 0) in
           if t_dim (ce_ts E) (Some te) 0 = V
           then rbind (tensor_get_f32_batch E te (tok * od) od) (\<lambda>row. Inr (fill od row d, s))
           else rbind (rmap (\<lambda>j. tensor_get_f32 E te (j * V + tok)) [0 ..< od]) (\<lambda>row. Inr (fill od ((!) row) d, s))))"

definition bias_add :: "cpu_env \<Rightarrow> nat \<Rightarrow> nat \<Rightarrow> buf \<Rightarrow> buf result" where
  "bias_add E tb n d =
     rbind (tensor_get_f32_batch E tb 0 n) (\<lambda>b. Inr (fill n (\<lambda>i. fadd (ce_floats E) (d i) (b i)) d))"

definition op_bias :: "cpu_env \<Rightarrow> op_ctx \<Rightarrow> u32 list list \<Rightarrow> buf \<Rightarrow> cpu_state \<Rightarrow> (bool \<times> buf \<times> cpu_state) result" where
  "op_bias E c srcs =
     (let od = oc_od c; tb = op_weight c 0; ne = ti_n_element (ce_ts E ! tb); nb = (if ne < od then unat (w32 ne) else od) in
      each_row (oc_r c) (oc_base c) od (oc_pos c) srcs (\<lambda>_. od)
        (\<lambda>pos x d s. rbind (bias_add E tb nb (fill od (x 0) d)) (\<lambda>y. Inr (y, s))))"

section \<open>Element-wise operators\<close>

definition op_binary :: "cpu_env \<Rightarrow> op_ctx \<Rightarrow> u32 list list \<Rightarrow> buf \<Rightarrow> cpu_state \<Rightarrow> (bool \<times> buf \<times> cpu_state) result" where
  "op_binary E c srcs =
     (let F = ce_floats E; f = (if gn_op (oc_node c) = OP_ADD then fadd F else fmul F) in
      each_row (oc_r c) (oc_base c) (oc_od c) (oc_pos c) srcs (\<lambda>_. oc_od c)
        (plain (\<lambda>pos x. fill (oc_od c) (\<lambda>j. f (x 0 j) (x 1 j)))))"

definition op_unary :: "(buf \<Rightarrow> int \<Rightarrow> buf) \<Rightarrow> op_ctx \<Rightarrow> u32 list list \<Rightarrow> buf \<Rightarrow> cpu_state \<Rightarrow> (bool \<times> buf \<times> cpu_state) result" where
  "op_unary f c srcs =
     each_row (oc_r c) (oc_base c) (oc_od c) (oc_pos c) srcs (\<lambda>_. oc_od c)
       (plain (\<lambda>pos x d. f (fill (oc_od c) (x 0) d) (sint (w32 (oc_od c)))))"

definition op_scale :: "cpu_env \<Rightarrow> op_ctx \<Rightarrow> u32 list list \<Rightarrow> buf \<Rightarrow> cpu_state \<Rightarrow> (bool \<times> buf \<times> cpu_state) result" where
  "op_scale E c srcs =
     each_row (oc_r c) (oc_base c) (oc_od c) (oc_pos c) srcs (\<lambda>_. oc_od c)
       (plain (\<lambda>pos x. fill (oc_od c) (\<lambda>j. fmul (ce_floats E) (x 0 j) (op_param c 0))))"

definition op_softcap :: "cpu_env \<Rightarrow> op_ctx \<Rightarrow> u32 list list \<Rightarrow> buf \<Rightarrow> cpu_state \<Rightarrow> (bool \<times> buf \<times> cpu_state) result" where
  "op_softcap E c srcs =
     (let F = ce_floats E; cap = op_param c 0 in
      each_row (oc_r c) (oc_base c) (oc_od c) (oc_pos c) srcs (\<lambda>_. oc_od c)
        (plain (\<lambda>pos x. fill (oc_od c) (\<lambda>j. fmul F (ftanh F (fdiv F (x 0 j) cap)) cap))))"

definition op_rope ::
    "(u32 \<Rightarrow> u32 \<Rightarrow> u32 \<Rightarrow> u32 \<Rightarrow> u32 \<Rightarrow> buf \<Rightarrow> buf) \<Rightarrow> op_ctx \<Rightarrow> u32 list list \<Rightarrow> buf \<Rightarrow> cpu_state
     \<Rightarrow> (bool \<times> buf \<times> cpu_state) result" where
  "op_rope rope c srcs =
     each_row (oc_r c) (oc_base c) (oc_od c) (oc_pos c) srcs (\<lambda>_. oc_od c)
       (plain (\<lambda>pos x d. rope (op_param c 1) (op_param c 2) (op_param c 3) pos (op_param c 0) (fill (oc_od c) (x 0) d)))"

definition op_rms_norm_heads :: "cpu_env \<Rightarrow> op_ctx \<Rightarrow> u32 list list \<Rightarrow> buf \<Rightarrow> cpu_state \<Rightarrow> (bool \<times> buf \<times> cpu_state) result" where
  "op_rms_norm_heads E c srcs dst st =
     (let nh = unat (op_param c 0); hw = unat (op_param c 1); si = unat (op_param c 2); so = unat (op_param c 3) in
      rbind (tensor_get_f32_batch E (op_weight c 0) 0 hw) (\<lambda>nw.
        each_row (oc_r c) (oc_base c) (oc_od c) (oc_pos c) srcs (\<lambda>_. nh * si)
          (plain (\<lambda>pos x d. fold (\<lambda>h. via (h * so) (\<lambda>y.
              rms_norm_inplace (ce_floats E) nw hw f_default_eps (fill hw (ptr (x 0) (h * si)) y))) [0 ..< nh] d)) dst st))"

definition op_sigmoid_gate :: "cpu_env \<Rightarrow> op_ctx \<Rightarrow> u32 list list \<Rightarrow> buf \<Rightarrow> cpu_state \<Rightarrow> (bool \<times> buf \<times> cpu_state) result" where
  "op_sigmoid_gate E c srcs =
     (let F = ce_floats E; nh = unat (op_param c 0); hw = unat (op_param c 1) in
      each_row (oc_r c) (oc_base c) (oc_od c) (oc_pos c) srcs (\<lambda>k. if k = 0 then oc_od c else nh * 2 * hw)
        (plain (\<lambda>pos x. fill (nh * hw) (\<lambda>i.
           fmul F (x 0 i) (sigmoid F (x 1 (i div hw * 2 * hw + hw + i mod hw)))))))"

section \<open>Matrix products\<close>

text \<open>The thread pool runs the indices in some order; without a pool they run in turn.\<close>

definition index_order :: "cpu_env \<Rightarrow> nat \<Rightarrow> nat list" where
  "index_order E n = (if ce_threads E > 1 \<and> n > 1 then ce_order E n else [0 ..< n])"

definition mat_oriented :: "tensor_info list \<Rightarrow> nat \<Rightarrow> nat \<Rightarrow> nat \<Rightarrow> bool \<Rightarrow> bool" where
  "mat_oriented ts w rows cols tr \<longleftrightarrow>
     (let n = t_ndim ts (Some w); tc = t_dim ts (Some w) (n - 1); t0 = t_dim ts (Some w) 0 in
      n \<ge> 2 \<and> (if tr then t0 = cols \<and> tc = rows else t0 = rows \<and> tc = cols))"

definition matvec_row :: "cpu_env \<Rightarrow> nat \<Rightarrow> u32 list \<Rightarrow> nat \<Rightarrow> u32" where
  "matvec_row E w x i =
     (if ce_dotprod E \<and> (ti_type (ce_ts E ! w) = 8 \<or> ti_type (ce_ts E ! w) = 15)
      then ce_dot_i8 E w (i * length x) (length x) (ce_quantize E x)
      else ce_dot E w (i * length x) (length x) x)"

definition mat_vec_mul :: "cpu_env \<Rightarrow> nat \<Rightarrow> buf \<Rightarrow> nat \<Rightarrow> nat \<Rightarrow> bool \<Rightarrow> buf \<Rightarrow> (bool \<times> buf) result" where
  "mat_vec_mul E w x rows cols tr y =
     (if \<not> mat_oriented (ce_ts E) w rows cols tr then Inr (False, y)
      else if tr then
        rbind (rmap (\<lambda>r. rmap (\<lambda>k. tensor_get_f32 E w (k * rows + r)) [0 ..< cols]) [0 ..< rows]) (\<lambda>ws.
          Inr (True, fill rows (\<lambda>r. fsum (ce_floats E) cols (\<lambda>k. fmul (ce_floats E) (ws ! r ! k) (x k))) y))
      else Inr (True, fold (\<lambda>i y. y(i := matvec_row E w (map x [0 ..< cols]) i)) (index_order E rows) y))"

text \<open>Output rows \<open>r0\<close> to \<open>r1\<close> for the whole batch.\<close>

definition matmat_weights :: "cpu_env \<Rightarrow> nat \<Rightarrow> nat \<Rightarrow> nat \<Rightarrow> bool \<Rightarrow> nat \<Rightarrow> nat \<Rightarrow> u32 list result" where
  "matmat_weights E w rows cols tr r0 r1 =
     rbind (if tr then rmap (\<lambda>r. rmap (\<lambda>k. tensor_get_f32 E w (k * rows + r)) [0 ..< cols]) [r0 ..< r1]
            else rmap (\<lambda>r. rbind (tensor_get_f32_batch E w (r * cols) cols) (\<lambda>b. Inr (map b [0 ..< cols]))) [r0 ..< r1])
       (\<lambda>ws. Inr (concat ws))"

definition matmat_chunk ::
    "cpu_env \<Rightarrow> nat \<Rightarrow> u32 list \<Rightarrow> nat \<Rightarrow> nat \<Rightarrow> nat \<Rightarrow> bool \<Rightarrow> nat \<Rightarrow> nat \<Rightarrow> buf \<Rightarrow> buf result" where
  "matmat_chunk E w xt batch rows cols tr r0 r1 Y =
     rbind (matmat_weights E w rows cols tr r0 r1) (\<lambda>w_row.
       let tmp = ce_mat_mat E w_row xt (r1 - r0) cols batch in
       Inr (\<lambda>i. if i div rows < batch \<and> r0 \<le> i mod rows \<and> i mod rows < r1
                then tmp ((i mod rows - r0) * batch + i div rows) else Y i))"

definition matmat_worker ::
    "cpu_env \<Rightarrow> nat \<Rightarrow> u32 list \<Rightarrow> nat \<Rightarrow> nat \<Rightarrow> nat \<Rightarrow> bool \<Rightarrow> nat \<Rightarrow> buf \<Rightarrow> buf result" where
  "matmat_worker E w xt batch rows cols tr idx Y =
     (let r0 = idx * 16; r1 = (if r0 + 16 > rows then rows else r0 + 16) in
      matmat_chunk E w xt batch rows cols tr r0 r1 Y)"

definition mat_mat_mul :: "cpu_env \<Rightarrow> nat \<Rightarrow> buf \<Rightarrow> nat \<Rightarrow> nat \<Rightarrow> nat \<Rightarrow> bool \<Rightarrow> buf \<Rightarrow> (bool \<times> buf) result" where
  "mat_mat_mul E w x batch rows cols tr Y =
     (if \<not> mat_oriented (ce_ts E) w rows cols tr then Inr (False, Y)
      else if rows = 0 \<or> batch = 0 \<or> cols = 0 then Inr (True, Y)
      else let n_chunks = (rows + 15) div 16;
               xt = map (\<lambda>i. x (i mod batch * cols + i div batch)) [0 ..< cols * batch] in
        rbind (rfold (matmat_worker E w xt batch rows cols tr) (index_order E n_chunks) Y) (\<lambda>Y'. Inr (True, Y')))"

definition op_matmul :: "cpu_env \<Rightarrow> op_ctx \<Rightarrow> u32 list list \<Rightarrow> buf \<Rightarrow> cpu_state \<Rightarrow> (bool \<times> buf \<times> cpu_state) result" where
  "op_matmul E c srcs dst st =
     (let w = op_weight c 0; tr = (gn_op (oc_node c) = OP_MATMUL_T);
          cols = unat (w32 (t_dim (ce_ts E) (Some w) (if tr then 0 else 1)));
          x = ptr (op_src srcs 0) (oc_base c * cols) in
      rbind (if oc_r c = 1 then mat_vec_mul E w x (oc_od c) cols tr dst
             else mat_mat_mul E w x (oc_r c) (oc_od c) cols tr dst) (\<lambda>(good, y). Inr (good, y, st)))"

section \<open>Recurrent operators\<close>

definition op_ssm_conv :: "cpu_env \<Rightarrow> op_ctx \<Rightarrow> u32 list list \<Rightarrow> buf \<Rightarrow> cpu_state \<Rightarrow> (bool \<times> buf \<times> cpu_state) result" where
  "op_ssm_conv E c srcs dst st =
     (let sid = unat (op_param c 0); ck = op_param c 1; od = oc_od c in
      if sid \<ge> length (ce_states E) then Inr (False, dst, st)
      else let slot = Recurrent (ce_states E ! sid) in
        rbind (tensor_get_f32_batch E (op_weight c 0) 0 (unat ck * od)) (\<lambda>cw.
          each_row (oc_r c) (oc_base c) od (oc_pos c) srcs (\<lambda>_. od)
            (\<lambda>pos x d s. let raw = fill od (x 0) d;
                            (y, ring) = causal_conv1d_step (ce_floats E) raw cw (w32 od) ck (raw, s slot) in
               Inr (y, s(slot := ring))) dst st))"

text \<open>The private copy of \<open>[q | k | v]\<close>, normalised and scaled in place.\<close>

definition delta_qkv :: "cpu_floats \<Rightarrow> nat \<Rightarrow> nat \<Rightarrow> nat \<Rightarrow> buf \<Rightarrow> buf" where
  "delta_qkv F n_k hw key_dim qkv0 =
     (let qkv1 = l2_norm_rows F n_k hw f_default_eps qkv0;
          qkv2 = via key_dim (l2_norm_rows F n_k hw f_default_eps) qkv1;
          q_scale = fdiv F f_one (fsqrt F (fint F (int hw))) in
      fill key_dim (\<lambda>i. fmul F (qkv2 i) q_scale) qkv2)"

definition op_ssm_delta :: "cpu_env \<Rightarrow> op_ctx \<Rightarrow> u32 list list \<Rightarrow> buf \<Rightarrow> cpu_state \<Rightarrow> (bool \<times> buf \<times> cpu_state) result" where
  "op_ssm_delta E c srcs dst st =
     (let F = ce_floats E; sid = unat (op_param c 0); n_v = unat (op_param c 1); n_k = unat (op_param c 2);
          hw = unat (op_param c 3); kd = op_param c 2 * op_param c 3; key_dim = unat kd; val_dim = n_v * hw; od = oc_od c in
      if sid \<ge> length (ce_states E) then Inr (False, dst, st)
      else if od \<noteq> unat (w32 val_dim) then Inr (False, dst, st)
      else let slot = Recurrent (ce_states E ! sid); fstride = 2 * key_dim + val_dim in
        rbind (tensor_get_f32_batch E (op_weight c 0) 0 n_v) (\<lambda>a_log.
        rbind (tensor_get_f32_batch E (op_weight c 1) 0 n_v) (\<lambda>dt_bi.
        rbind (if gn_weights (oc_node c) ! 2 = None then Inr None
               else rbind (tensor_get_f32_batch E (op_weight c 2) 0 hw) (\<lambda>b. Inr (Some b))) (\<lambda>nw.
          each_row (oc_r c) (oc_base c) od (oc_pos c) srcs (\<lambda>k. if k = 0 then fstride else n_v)
            (\<lambda>pos x d s.
               let gv = (\<lambda>i. fexp F (fmul F (a_log i) (softplus F (fadd F (x 1 i) (dt_bi i)))));
                   bv = (\<lambda>i. sigmoid F (x 2 i));
                   qkv = delta_qkv F n_k hw key_dim (fill fstride (x 0) (\<lambda>_. 0));
                   (S, y) = gated_delta_step F qkv (ptr qkv key_dim) (ptr qkv (unat (2 * kd))) gv bv n_v n_k hw (s slot, d);
                   y' = (case nw of None \<Rightarrow> y
                         | Some b \<Rightarrow> fold (\<lambda>grp. via (grp * hw) (rms_norm_inplace F b hw f_default_eps)) [0 ..< n_v] y) in
               Inr (y', s(slot := S))) dst st))))"

definition op_mamba2_conv :: "cpu_env \<Rightarrow> op_ctx \<Rightarrow> u32 list list \<Rightarrow> buf \<Rightarrow> cpu_state \<Rightarrow> (bool \<times> buf \<times> cpu_state) result" where
  "op_mamba2_conv E c srcs dst st =
     (let F = ce_floats E; sid = unat (op_param c 0); ck = op_param c 1; d_inner = op_param c 2; ng = op_param c 3;
          ds = op_param c 4; nh = op_param c 5 in
      if sid \<ge> length (ce_states E) \<or> ck = 0 \<or> d_inner = 0 \<or> ng = 0 \<or> ds = 0 then Inr (False, dst, st)
      else let conv_dim = d_inner + 2 * ng * ds; proj_w = conv_dim + d_inner + nh in
      if oc_od c \<noteq> unat conv_dim then Inr (False, dst, st)
      else let slot = Recurrent (ce_states E ! sid) in
        rbind (tensor_get_f32_batch E (op_weight c 0) 0 (unat ck * unat conv_dim)) (\<lambda>cw.
        rbind (if gn_weights (oc_node c) ! 1 = None then Inr None
               else rbind (tensor_get_f32_batch E (op_weight c 1) 0 (unat conv_dim)) (\<lambda>b. Inr (Some b))) (\<lambda>bias.
          each_row (oc_r c) (oc_base c) (oc_od c) (oc_pos c) srcs (\<lambda>_. unat proj_w)
            (\<lambda>pos x d s.
               let raw = ptr (x 0) (unat d_inner);
                   total = (\<lambda>ch. let t = conv_sum F raw cw (s slot) conv_dim ck ch in
                              case bias of None \<Rightarrow> t | Some b \<Rightarrow> fadd F t (b ch)) in
               Inr (fill (unat conv_dim) (\<lambda>ch. silu1 F (total ch)) d, s(slot := conv_shift raw conv_dim ck (s slot)))) dst st)))"

definition op_mamba2_scan :: "cpu_env \<Rightarrow> op_ctx \<Rightarrow> u32 list list \<Rightarrow> buf \<Rightarrow> cpu_state \<Rightarrow> (bool \<times> buf \<times> cpu_state) result" where
  "op_mamba2_scan E c srcs dst st =
     (let F = ce_floats E; sid = unat (op_param c 0); nh = op_param c 1; hw = op_param c 2; ds = op_param c 3;
          ng = op_param c 4; d_inner = op_param c 5 in
      if sid \<ge> length (ce_states E) \<or> nh = 0 \<or> hw = 0 \<or> ds = 0 \<or> ng = 0 then Inr (False, dst, st)
      else if nh mod ng \<noteq> 0 \<or> nh * hw \<noteq> d_inner \<or> oc_od c \<noteq> unat d_inner then Inr (False, dst, st)
      else let conv_dim = d_inner + 2 * ng * ds; proj_w = conv_dim + d_inner + nh; gsize = unat (d_inner div ng);
               heads_per_group = nh div ng; slot = Recurrent (ce_states E ! sid) in
        rbind (tensor_get_f32_batch E (op_weight c 0) 0 (unat nh)) (\<lambda>avec.
        rbind (tensor_get_f32_batch E (op_weight c 1) 0 (unat nh)) (\<lambda>dvec.
        rbind (tensor_get_f32_batch E (op_weight c 2) 0 (unat nh)) (\<lambda>dtb.
        rbind (if gn_weights (oc_node c) ! 3 = None then Inr None
               else rbind (tensor_get_f32_batch E (op_weight c 3) 0 (unat d_inner)) (\<lambda>b. Inr (Some b))) (\<lambda>nw.
          each_row (oc_r c) (oc_base c) (oc_od c) (oc_pos c) srcs (\<lambda>k. if k = 0 then unat conv_dim else unat proj_w)
            (\<lambda>pos x d s.
               let dt = ptr (x 1) (unat d_inner + unat conv_dim);
                   (S, y) = fold (scan_head F (x 0) (x 1) avec dvec dtb dt hw ds ng d_inner heads_per_group)
                              [0 ..< unat nh] (s slot, d);
                   y' = (case nw of None \<Rightarrow> y
                         | Some b \<Rightarrow> fold (\<lambda>g. via (g * gsize) (rms_norm_inplace F (ptr b (g * gsize)) gsize f_default_eps))
                              [0 ..< unat ng] y) in
               Inr (y', s(slot := S))) dst st)))))"

section \<open>Attention\<close>

text \<open>Row \<open>i\<close> of the batch goes to position \<open>pos + i\<close> of every head of the layer's cache.\<close>

definition kv_write :: "nat \<Rightarrow> nat \<Rightarrow> nat \<Rightarrow> nat \<Rightarrow> buf \<Rightarrow> buf \<Rightarrow> buf" where
  "kv_write n_kv khd hs pos row cache =
     fold (\<lambda>h. copy_to (h * hs + pos * khd) khd (ptr row (h * khd))) [0 ..< n_kv] cache"

definition attn_head ::
    "cpu_env \<Rightarrow> nat \<Rightarrow> nat \<Rightarrow> nat \<Rightarrow> buf \<Rightarrow> buf \<Rightarrow> buf \<Rightarrow> buf \<Rightarrow> buf" where
  "attn_head E khd win n_keys kh vh qh oh =
     (let F = ce_floats E;
          start = (if win \<noteq> 0 \<and> n_keys > win then n_keys - win else 0);
          n_vis = n_keys - start;
          scale = fdiv F f_one (fsqrt F (fint F (int khd)));
          scores = ce_mat_vec E (map (ptr kh (start * khd)) [0 ..< n_vis * khd]) (map qh [0 ..< khd]) n_vis khd;
          scr = softmax F (fill n_vis (\<lambda>t. fmul F (scores t) scale) scores) n_vis;
          vt = ptr vh (start * khd) in
      fill khd (\<lambda>d. foldl (\<lambda>a t. fadd F a (fmul F (scr t) (vt (t * khd + d)))) (oh d) [0 ..< n_vis]) oh)"

definition op_attn :: "cpu_env \<Rightarrow> op_ctx \<Rightarrow> u32 list list \<Rightarrow> buf \<Rightarrow> cpu_state \<Rightarrow> (bool \<times> buf \<times> cpu_state) result" where
  "op_attn E c srcs dst st =
     (let cfg = ce_cfg E; layer = unat (op_param c 0); win = unat (op_param c 1); n = oc_n c; pos = oc_pos c in
      if \<not> ce_cache E then Inr (False, dst, st)
      else if \<not> ce_kv E layer then Inr (False, dst, st)
      else let n_kv = c_n_kv_head cfg; khd = c_kv_head_dim cfg; n_head = c_n_head cfg; hw = c_head_dim cfg;
               kv_dim = unat (w32 n_kv * w32 khd); q_dim = unat (w32 n_head * w32 hw); gqa = n_head div n_kv;
               hs = unat (w32 (ce_cap E) * w32 khd);
               write = (\<lambda>k slot. fold (\<lambda>i. kv_write n_kv khd hs (unat (w32 (pos + i))) (ptr (op_src srcs k) (i * kv_dim)))
                          [0 ..< n] (st slot));
               K = write 1 (KCache layer); V = write 2 (VCache layer);
               st' = st(KCache layer := K, VCache layer := V, KvCount layer := (st (KvCount layer))(0 := w32 (pos + n)));
               row = (\<lambda>h qi. via (qi * q_dim + h * hw) (attn_head E khd win (unat (w32 (pos + qi + 1)))
                        (ptr K (h div gqa * hs)) (ptr V (h div gqa * hs)) (ptr (op_src srcs 0) (qi * q_dim + h * hw)))) in
        Inr (True, fold (\<lambda>h. fold (row h) [0 ..< n]) [0 ..< n_head] (fill (n * q_dim) (\<lambda>_. 0) dst), st'))"

section \<open>Dispatch\<close>

definition cpu_graph_op ::
    "cpu_env \<Rightarrow> op_ctx \<Rightarrow> u32 list list \<Rightarrow> buf \<Rightarrow> cpu_state \<Rightarrow> (bool \<times> buf \<times> cpu_state) result" where
  "cpu_graph_op E c srcs dst st =
     (if oc_od c = 0 then Inr (False, dst, st)
      else case gn_op (oc_node c) of
        OP_EMBED \<Rightarrow> op_embed E c srcs dst st
      | OP_RMS_NORM \<Rightarrow> op_rms_norm E c srcs dst st
      | OP_RMS_NORM_HEADS \<Rightarrow> op_rms_norm_heads E c srcs dst st
      | OP_MATMUL \<Rightarrow> op_matmul E c srcs dst st
      | OP_MATMULARRY \<Rightarrow> op_matmul E c srcs dst st
      | OP_MATMUL_T \<Rightarrow> op_matmul E c srcs dst st
      | OP_BIAS \<Rightarrow> op_bias E c srcs dst st
      | OP_ADD \<Rightarrow> op_binary E c srcs dst st
      | OP_MUL \<Rightarrow> op_binary E c srcs dst st
      | OP_SILU \<Rightarrow> op_unary (silu (ce_floats E)) c srcs dst st
      | OP_GELU \<Rightarrow> op_unary (gelu_n (ce_floats E)) c srcs dst st
      | OP_SCALE \<Rightarrow> op_scale E c srcs dst st
      | OP_SOFTCAP \<Rightarrow> op_softcap E c srcs dst st
      | OP_SOFTMAX \<Rightarrow> op_unary (softmax_n (ce_floats E)) c srcs dst st
      | OP_ROPE_NEOX \<Rightarrow> op_rope (rope_partial (ce_floats E)) c srcs dst st
      | OP_ROPE_NORM \<Rightarrow> op_rope (rope_pairs (ce_floats E)) c srcs dst st
      | OP_SIGMOID_GATE \<Rightarrow> op_sigmoid_gate E c srcs dst st
      | OP_SSM_CONV \<Rightarrow> op_ssm_conv E c srcs dst st
      | OP_SSM_DELTA \<Rightarrow> op_ssm_delta E c srcs dst st
      | OP_MAMBA2_CONV \<Rightarrow> op_mamba2_conv E c srcs dst st
      | OP_MAMBA2_SCAN \<Rightarrow> op_mamba2_scan E c srcs dst st
      | OP_ATTN \<Rightarrow> op_attn E c srcs dst st
      | _ \<Rightarrow> Inr (False, dst, st))"

text \<open>The operator as the executor sees it, over an output slot that holds \<open>dst\<close>; when the
  process ends there is nothing after the walk, which counts as a failure here.\<close>

definition cpu_kernel :: "cpu_env \<Rightarrow> buf \<Rightarrow> cpu_state kernel_op" where
  "cpu_kernel E dst c srcs st =
     (case cpu_graph_op E c srcs dst st of Inl _ \<Rightarrow> (False, dst, st) | Inr r \<Rightarrow> r)"

end
