(* ===== verification/CpuLocal.thy ===== *)
theory CpuLocal
  imports CpuOps
begin

text \<open>Which cells a kernel writes and which it depends on.  A transformation is \<open>local_to R\<close> if it
  changes no cell outside \<open>R\<close> and what it leaves in \<open>R\<close> depends on the cells of \<open>R\<close> only; loops
  over disjoint regions then amount to their bodies, in any order.\<close>

named_theorems local_intro \<open>locality of the kernels\<close>

definition local_to :: "nat set \<Rightarrow> (buf \<Rightarrow> buf) \<Rightarrow> bool" where
  "local_to R f \<longleftrightarrow>
     (\<forall>b i. i \<notin> R \<longrightarrow> f b i = b i) \<and> (\<forall>b b' i. (\<forall>j \<in> R. b j = b' j) \<longrightarrow> i \<in> R \<longrightarrow> f b i = f b' i)"

lemma local_toI:
  assumes out: "\<And>b i. i \<notin> R \<Longrightarrow> f b i = b i"
    and dep: "\<And>b b' i. (\<And>j. j \<in> R \<Longrightarrow> b j = b' j) \<Longrightarrow> i \<in> R \<Longrightarrow> f b i = f b' i"
  shows "local_to R f"
  unfolding local_to_def
proof (intro conjI allI impI)
  show "f b i = b i" if "i \<notin> R" for b i using that by (rule out)
  show "f b i = f b' i" if "\<forall>j \<in> R. b j = b' j" "i \<in> R" for b b' i by (rule dep) (use that in simp_all)
qed

lemma local_out: "local_to R f \<Longrightarrow> i \<notin> R \<Longrightarrow> f b i = b i"
  and local_in: "local_to R f \<Longrightarrow> (\<And>j. j \<in> R \<Longrightarrow> b j = b' j) \<Longrightarrow> i \<in> R \<Longrightarrow> f b i = f b' i"
  by (simp_all add: local_to_def)

lemma local_mono: "local_to R f \<Longrightarrow> R \<subseteq> R' \<Longrightarrow> local_to R' f"
proof (rule local_toI)
  assume f: "local_to R f" and R: "R \<subseteq> R'"
  show "f b i = b i" if "i \<notin> R'" for b i using R that by (intro local_out [OF f]) blast
  show "f b i = f b' i" if eq: "\<And>j. j \<in> R' \<Longrightarrow> b j = b' j" and "i \<in> R'" for b b' i
  proof (cases "i \<in> R")
    case True
    then show ?thesis using eq R by (intro local_in [OF f]) blast+
  next
    case False
    then show ?thesis using eq that(2) by (simp add: local_out [OF f])
  qed
qed

lemma local_id [local_intro]: "local_to R id"
  by (simp add: local_to_def)

lemma local_comp: "local_to R f \<Longrightarrow> local_to R g \<Longrightarrow> local_to R (\<lambda>b. g (f b))"
proof (rule local_toI)
  assume f: "local_to R f" and g: "local_to R g"
  show "g (f b) i = b i" if "i \<notin> R" for b i using that by (simp add: local_out [OF f] local_out [OF g])
  show "g (f b) i = g (f b') i" if eq: "\<And>j. j \<in> R \<Longrightarrow> b j = b' j" and "i \<in> R" for b b' i
    by (rule local_in [OF g]) (simp_all add: that local_in [OF f, of b b'])
qed

lemma local_fold [local_intro]: "(\<And>x. x \<in> set xs \<Longrightarrow> local_to R (f x)) \<Longrightarrow> local_to R (fold f xs)"
proof (induction xs)
  case Nil
  show ?case by (simp only: fold.simps(1) local_id)
next
  case (Cons x xs)
  have "local_to R (\<lambda>b. fold f xs (f x b))" 
    by (rule local_comp [where f = "f x" and g = "fold f xs"]) (use Cons in simp_all)
  then show ?case by (simp add: comp_def)
qed

lemma local_via: "local_to R f \<Longrightarrow> (\<And>i. i \<in> R \<Longrightarrow> off + i \<in> R') \<Longrightarrow> local_to R' (via off f)"
proof (rule local_toI)
  assume f: "local_to R f" and R: "\<And>i. i \<in> R \<Longrightarrow> off + i \<in> R'"
  have out: "via off f b i = b i" if "i < off \<or> i - off \<notin> R" for b i
    using local_out [OF f] that by (auto simp: via_def ptr_def)
  show "via off f b i = b i" if "i \<notin> R'" for b i
    using R [of "i - off"] that by (intro out) (cases "i < off"; auto)
  show "via off f b i = via off f b' i" if eq: "\<And>j. j \<in> R' \<Longrightarrow> b j = b' j" and i: "i \<in> R'" for b b' i
  proof (cases "i < off \<or> i - off \<notin> R")
    case True
    then show ?thesis using eq [OF i] by (simp add: out)
  next
    case False
    then show ?thesis using local_in [OF f, of "ptr b off" "ptr b' off" "i - off"] eq R by (simp add: via_def ptr_def)
  qed
qed

lemma local_fill: "n \<le> m \<Longrightarrow> (\<And>b b' i. (\<And>j. j < m \<Longrightarrow> b j = b' j) \<Longrightarrow> i < n \<Longrightarrow> g b i = g b' i)
    \<Longrightarrow> local_to {..<m} (\<lambda>b. fill n (g b) b)"
proof (rule local_toI)
  assume n: "n \<le> m" and g: "\<And>b b' i. (\<And>j. j < m \<Longrightarrow> b j = b' j) \<Longrightarrow> i < n \<Longrightarrow> g b i = g b' i"
  show "fill n (g b) b i = b i" if "i \<notin> {..<m}" for b i using n that by (simp add: fill_def)
  show "fill n (g b) b i = fill n (g b') b' i" if "\<And>j. j \<in> {..<m} \<Longrightarrow> b j = b' j" "i \<in> {..<m}" for b b' i
    using that g [of b b' i] by (simp add: fill_def)
qed

text \<open>A loop over disjoint regions does to each region what its body does.\<close>

lemma fold_disjoint:
  assumes "distinct xs" and "\<And>x. x \<in> set xs \<Longrightarrow> local_to (R x) (f x)"
    and "\<And>x y. x \<in> set xs \<Longrightarrow> y \<in> set xs \<Longrightarrow> x \<noteq> y \<Longrightarrow> R x \<inter> R y = {}"
  shows "(x \<in> set xs \<longrightarrow> i \<in> R x \<longrightarrow> fold f xs b i = f x b i) \<and> ((\<forall>y \<in> set xs. i \<notin> R y) \<longrightarrow> fold f xs b i = b i)"
  using assms
proof (induction xs arbitrary: b)
  case (Cons a xs)
  have IH: "(x \<in> set xs \<longrightarrow> i \<in> R x \<longrightarrow> fold f xs b i = f x b i) \<and> ((\<forall>y \<in> set xs. i \<notin> R y) \<longrightarrow> fold f xs b i = b i)" for b
    using Cons.prems by (intro Cons.IH) simp_all
  have a: "local_to (R a) (f a)" using Cons.prems(2) by simp
  show ?case
  proof (intro conjI impI)
    assume x: "x \<in> set (a # xs)" "i \<in> R x"
    show "fold f (a # xs) b i = f x b i"
    proof (cases "x = a")
      case True
      then have "\<forall>y \<in> set xs. i \<notin> R y" using Cons.prems(1,3) x(2) by fastforce
      then show ?thesis using IH True by simp
    next
      case False
      then have xs: "x \<in> set xs" using x by simp
      have "f a b j = b j" if "j \<in> R x" for j
        using Cons.prems(3) [of a x] False x(1) that by (intro local_out [OF a]) auto
      then have "f x (f a b) i = f x b i" using x by (intro local_in [OF Cons.prems(2)]) simp_all
      then show ?thesis using IH xs x(2) by simp
    qed
  next
    assume "\<forall>y \<in> set (a # xs). i \<notin> R y"
    then show "fold f (a # xs) b i = b i" using IH local_out [OF a] by simp
  qed
qed simp

lemmas fold_at = fold_disjoint [THEN conjunct1, rule_format]
  and fold_off = fold_disjoint [THEN conjunct2, rule_format]

lemma fold_disjoint_perm:
  assumes "mset ys = mset xs" and "distinct xs" and "\<And>x. x \<in> set xs \<Longrightarrow> local_to (R x) (f x)"
    and "\<And>x y. x \<in> set xs \<Longrightarrow> y \<in> set xs \<Longrightarrow> x \<noteq> y \<Longrightarrow> R x \<inter> R y = {}"
  shows "fold f ys b = fold f xs b"
proof
  fix i
  have ys: "distinct ys" "set ys = set xs" using assms(1,2) by (metis mset_eq_imp_distinct_iff, metis mset_eq_setD)
  show "fold f ys b i = fold f xs b i"
  proof (cases "\<exists>x \<in> set xs. i \<in> R x")
    case True
    then obtain x where "x \<in> set xs" "i \<in> R x" by blast
    then show ?thesis using ys assms(2-4) fold_at [of xs R f x i b] fold_at [of ys R f x i b] by simp
  next
    case False
    then show ?thesis using ys assms(2-4) fold_off [of xs R f i b] fold_off [of ys R f i b] by simp
  qed
qed

section \<open>The kernels are local\<close>

lemma fsum_cong: "(\<And>i. i < n \<Longrightarrow> g i = h i) \<Longrightarrow> fsum F n g = fsum F n h"
  unfolding fsum_def by (rule foldl_cong) simp_all

lemma local_silu [local_intro]: "nat n \<le> m \<Longrightarrow> local_to {..<m} (\<lambda>b. silu F b n)"
  and local_gelu [local_intro]: "nat n \<le> m \<Longrightarrow> local_to {..<m} (\<lambda>b. gelu_n F b n)"
  unfolding silu_def gelu_n_def by (rule local_fill; simp)+

lemma softmax_cong: "(\<And>j. j < n \<Longrightarrow> b j = b' j) \<Longrightarrow> i < n \<Longrightarrow> softmax F b n i = softmax F b' n i"
proof -
  assume eq: "\<And>j. j < n \<Longrightarrow> b j = b' j" and i: "i < n"
  have "foldl (\<lambda>m i. if fgt F (b i) m then b i else m) (b 0) [1 ..< n]
      = foldl (\<lambda>m i. if fgt F (b' i) m then b' i else m) (b' 0) [1 ..< n]"
    using eq i by (intro foldl_cong) auto
  moreover have "fsum F n (fill n (\<lambda>i. fexp F (fsub F (b i) m)) b) = fsum F n (fill n (\<lambda>i. fexp F (fsub F (b' i) m)) b')" for m
    using eq by (intro fsum_cong) (simp add: fill_def)
  ultimately show ?thesis using eq i by (simp add: softmax_def Let_def fill_def)
qed

lemma local_softmax: "n \<le> m \<Longrightarrow> local_to {..<m} (\<lambda>b. softmax F b n)"
proof (rule local_toI)
  assume n: "n \<le> m"
  show "softmax F b n i = b i" if "i \<notin> {..<m}" for b i
    using n that by (simp add: softmax_def Let_def fill_def)
  show "softmax F b n i = softmax F b' n i" if eq: "\<And>j. j \<in> {..<m} \<Longrightarrow> b j = b' j" and i: "i \<in> {..<m}" for b b' i
  proof (cases "i < n")
    case True
    then show ?thesis using eq n by (intro softmax_cong) simp_all
  next
    case False
    then show ?thesis using eq i by (simp add: softmax_def Let_def fill_def)
  qed
qed

lemma unat_int32 [simp]: "unat (word_of_int (sint (w :: u32)) :: u32) = unat w"
  by simp

lemma local_softmax_n [local_intro]: "m < 2 ^ 32 \<Longrightarrow> local_to {..<m} (\<lambda>b. softmax_n F b (sint (w32 m)))"
  unfolding softmax_n_def unat_int32 w32_def by (rule local_softmax) (simp add: unat_of_nat)

lemma local_rms_inplace [local_intro]: "n \<le> m \<Longrightarrow> local_to {..<m} (rms_norm_inplace F weight n eps)"
proof -
  assume n: "n \<le> m"
  have "fsum F n (\<lambda>j. fmul F (b j) (b j)) = fsum F n (\<lambda>j. fmul F (b' j) (b' j))"
    if "\<And>j. j < m \<Longrightarrow> b j = b' j" for b b' :: buf
    using that n by (intro fsum_cong) simp
  then show ?thesis unfolding rms_norm_inplace_def Let_def using n by (intro local_fill) (simp_all cong: fsum_cong)
qed

lemma local_rotate [local_intro]: "i < m \<Longrightarrow> j < m \<Longrightarrow> local_to {..<m} (rotate F c s i j)"
  by (rule local_toI) (auto simp: rotate_def Let_def)

lemma local_heads:
  assumes "\<And>h. h < nh \<Longrightarrow> local_to {..<stride} (f h)" and "nh * stride \<le> m"
  shows "local_to {..<m} (fold (\<lambda>h. via (h * stride) (f h)) [0 ..< nh])"
proof (intro local_fold local_via)
  fix h i assume "h \<in> set [0 ..< nh]"
  then have h: "h < nh" by simp
  then show "local_to {..<stride} (f h)" by (rule assms(1))
  assume "i \<in> {..<stride}"
  then have "h * stride + i < Suc h * stride" by simp
  also have "\<dots> \<le> nh * stride" using h by (intro mult_le_mono1) simp
  finally show "h * stride + i \<in> {..<m}" using assms(2) by simp
qed

text \<open>A loop over heads of \<open>n\<close> cells, cell by cell.\<close>

lemma div_in_block: "h * n \<le> i \<Longrightarrow> i < h * n + n \<Longrightarrow> i div n = (h :: nat)"
proof -
  assume "h * n \<le> i" "i < h * n + n"
  then obtain j where "i = h * n + j" "j < n" using le_Suc_ex by fastforce
  then show ?thesis by simp
qed

lemma heads_at:
  assumes f: "\<And>h. h < nh \<Longrightarrow> local_to {..<n} (f h)"
  shows "fold (\<lambda>h. via (h * n) (f h)) [0 ..< nh] d i
    = (if i < nh * n then f (i div n) (ptr d (i div n * n)) (i mod n) else d i)"
proof -
  let ?R = "\<lambda>h. {h * n ..< h * n + n}"
  have l: "local_to (?R h) (via (h * n) (f h))" if "h \<in> set [0 ..< nh]" for h
    using that by (intro local_via [OF f]) simp_all
  have d: "?R h \<inter> ?R h' = {}" if "h \<noteq> h'" for h h'
    using div_in_block [of h n] div_in_block [of h' n] that by fastforce
  have dist: "distinct [0 ..< nh]" by simp
  show ?thesis
  proof (cases "i < nh * n")
    case True
    then have "0 < n" by (cases n) auto
    then have h: "i div n \<in> set [0 ..< nh]" "i \<in> ?R (i div n)"
      using True by (simp_all add: less_mult_imp_div_less) (metis add.commute div_mod_decomp mod_less_divisor nat_add_left_cancel_less)
    have "fold (\<lambda>h. via (h * n) (f h)) [0 ..< nh] d i = via (i div n * n) (f (i div n)) d i"
      by (rule fold_at [where R = ?R, OF dist l d h])
    moreover have "\<not> i < i div n * n" by (simp add: not_less)
    ultimately show ?thesis using True by (simp add: via_def minus_div_mult_eq_mod [symmetric])
  next
    case False
    have "h * n + n \<le> nh * n" if "h < nh" for h
      using that mult_le_mono1 [of "Suc h" nh n] by simp
    then have "\<forall>h \<in> set [0 ..< nh]. i \<notin> ?R h" using False by fastforce
    then have "fold (\<lambda>h. via (h * n) (f h)) [0 ..< nh] d i = d i"
      by (intro fold_off [where R = ?R, OF dist l d]) auto
    then show ?thesis using False by simp
  qed
qed

lemma local_rope_partial [local_intro]:
  assumes "unat nh * unat hw \<le> m" and "unat rd \<le> unat hw"
  shows "local_to {..<m} (rope_partial F nh hw rd pos theta)"
  unfolding rope_partial_def Let_def using assms
  by (intro local_heads local_fold local_rotate) auto

lemma local_rope_pairs [local_intro]:
  assumes "unat nh * unat hw \<le> m" and "unat rd \<le> unat hw" and "even (unat rd)"
  shows "local_to {..<m} (rope_pairs F nh hw rd pos theta)"
  unfolding rope_pairs_def Let_def using assms
  by (intro local_heads local_fold local_rotate) auto

end
