(* ===== verification/CpuRows.thy ===== *)
theory CpuRows
  imports CpuLocal
begin

text \<open>The operators of \<open>cpu_op.c\<close> on a batch do what they do on its rows one after the other.\<close>

section \<open>A row at a time\<close>

definition row_ctx :: "graph_node \<Rightarrow> nat \<Rightarrow> nat \<Rightarrow> op_ctx" where
  "row_ctx node od pos = \<lparr>oc_node = node, oc_od = od, oc_r = 1, oc_base = 0, oc_pos = pos, oc_n = 1\<rparr>"

definition batch_ctx :: "graph_node \<Rightarrow> nat \<Rightarrow> nat \<Rightarrow> nat \<Rightarrow> op_ctx" where
  "batch_ctx node od pos n = \<lparr>oc_node = node, oc_od = od, oc_r = n, oc_base = 0, oc_pos = pos, oc_n = n\<rparr>"

definition sink_ctx :: "graph_node \<Rightarrow> nat \<Rightarrow> nat \<Rightarrow> nat \<Rightarrow> op_ctx" where
  "sink_ctx node od pos n = \<lparr>oc_node = node, oc_od = od, oc_r = 1, oc_base = n - 1, oc_pos = pos, oc_n = n\<rparr>"

text \<open>Row \<open>p\<close> of sources whose rows have \<open>w k\<close> cells.\<close>

definition row_of :: "(nat \<Rightarrow> nat) \<Rightarrow> nat \<Rightarrow> u32 list list \<Rightarrow> u32 list list" where
  "row_of w p srcs = map (\<lambda>k. take (w k) (drop (p * w k) (srcs ! k))) [0 ..< length srcs]"

fun by_rows :: "'st kernel_op \<Rightarrow> graph_node \<Rightarrow> nat \<Rightarrow> nat \<Rightarrow> u32 list list list \<Rightarrow> 'st \<Rightarrow> bool \<times> u32 list \<times> 'st" where
  "by_rows kern node od pos [] st = (True, [], st)"
| "by_rows kern node od pos (x # xs) st =
     (case kern (row_ctx node od pos) x st of
        (good, out, st1) \<Rightarrow>
          if good then (case by_rows kern node od (Suc pos) xs st1 of (g, ys, st2) \<Rightarrow> (g, map out [0 ..< od] @ ys, st2))
          else (False, [], st1))"

section \<open>Row bodies\<close>

text \<open>A body reads the first \<open>w k\<close> cells of each of its \<open>m\<close> source rows and writes exactly the
  first \<open>od\<close> cells of its output row.\<close>

definition row_cut :: "nat \<Rightarrow> (nat \<Rightarrow> nat) \<Rightarrow> (nat \<Rightarrow> buf) \<Rightarrow> nat \<Rightarrow> buf" where
  "row_cut m w x = (\<lambda>k i. if k < m \<and> i < w k then x k i else 0)"

type_synonym row_body = "u32 \<Rightarrow> (nat \<Rightarrow> buf) \<Rightarrow> buf \<Rightarrow> cpu_state \<Rightarrow> (buf \<times> cpu_state) result"

definition row_local :: "nat \<Rightarrow> (nat \<Rightarrow> nat) \<Rightarrow> nat \<Rightarrow> row_body \<Rightarrow> bool" where
  "row_local m w od body \<longleftrightarrow>
     (\<forall>pos x d s. body pos x d s = rbind (body pos (row_cut m w x) (\<lambda>_. 0) s) (\<lambda>(y, s'). Inr (fill od y d, s')))"

fun run_rows :: "row_body \<Rightarrow> nat \<Rightarrow> (u32 \<times> (nat \<Rightarrow> buf)) list \<Rightarrow> cpu_state \<Rightarrow> (u32 list \<times> cpu_state) result" where
  "run_rows body od [] s = Inr ([], s)"
| "run_rows body od ((pos, x) # rs) s =
     rbind (body pos x (\<lambda>_. 0) s) (\<lambda>(y, s1). rbind (run_rows body od rs s1) (\<lambda>(ys, s2). Inr (map y [0 ..< od] @ ys, s2)))"

lemma row_cut_apply [simp]: "k < m \<Longrightarrow> i < w k \<Longrightarrow> row_cut m w x k i = x k i"
  by (simp add: row_cut_def)

lemma rbind_assoc: "rbind (rbind r f) g = rbind r (\<lambda>x. rbind (f x) g)"
  by (cases r) simp_all

lemma rbind_Inr_right [simp]: "rbind r Inr = r"
  by (cases r) simp_all

lemma rfold_append: "rfold f (xs @ ys) s = rbind (rfold f xs s) (rfold f ys)"
proof (induction xs arbitrary: s)
  case (Cons x xs)
  then show ?case by (cases "f x s") simp_all
qed simp

lemma run_rows_append:
  "run_rows body od (rs @ rs') s =
     rbind (run_rows body od rs s) (\<lambda>(ys, s1). rbind (run_rows body od rs' s1) (\<lambda>(ys', s2). Inr (ys @ ys', s2)))"
proof (induction rs arbitrary: s)
  case Nil
  then show ?case by (cases "run_rows body od rs' s") simp_all
next
  case (Cons r rs)
  obtain pos x where r: "r = (pos, x)" by fastforce
  show ?case
    by (cases "body pos x (\<lambda>_. 0) s") (auto simp: r Cons.IH rbind_assoc split_beta intro!: arg_cong [of _ _ "rbind _"])
qed

lemma length_run_rows: "run_rows body od rs s = Inr (ys, s') \<Longrightarrow> length ys = length rs * od"
proof (induction rs arbitrary: s ys)
  case (Cons r rs)
  obtain pos x where "r = (pos, x)" by fastforce
  with Cons show ?case by fastforce
qed simp

definition row_views :: "nat \<Rightarrow> (nat \<Rightarrow> nat) \<Rightarrow> nat \<Rightarrow> nat \<Rightarrow> u32 list list \<Rightarrow> nat \<Rightarrow> (u32 \<times> (nat \<Rightarrow> buf)) list" where
  "row_views m w pos base srcs cnt =
     map (\<lambda>p. (w32 (pos + base + p), row_cut m w (\<lambda>k. ptr (op_src srcs k) ((base + p) * w k)))) [0 ..< cnt]"

lemma row_localD:
  "row_local m w od body \<Longrightarrow> body pos x d s = rbind (body pos (row_cut m w x) (\<lambda>_. 0) s) (\<lambda>(y, s'). Inr (fill od y d, s'))"
  unfolding row_local_def by blast

definition row_step ::
    "nat \<Rightarrow> nat \<Rightarrow> nat \<Rightarrow> u32 list list \<Rightarrow> (nat \<Rightarrow> nat) \<Rightarrow> row_body \<Rightarrow> nat \<Rightarrow> buf \<times> cpu_state \<Rightarrow> (buf \<times> cpu_state) result" where
  "row_step base od pos srcs w body p ds =
     rbind (body (w32 (pos + base + p)) (\<lambda>k. ptr (op_src srcs k) ((base + p) * w k)) (ptr (fst ds) (p * od)) (snd ds))
       (\<lambda>(x, s'). Inr (put (p * od) x (fst ds), s'))"

lemma each_row_step:
  "each_row cnt base od pos srcs w body dst st =
     rbind (rfold (row_step base od pos srcs w body) [0 ..< cnt] (dst, st)) (\<lambda>(d, s). Inr (True, d, s))"
  unfolding each_row_def row_step_def by (simp add: split_def)

lemma row_step_run:
  assumes l: "row_local m w od body" and ys: "length ys = n * od"
  shows "row_step base od pos srcs w body n (\<lambda>i. if i < n * od then ys ! i else dst i, s) =
     rbind (body (w32 (pos + base + n)) (row_cut m w (\<lambda>k. ptr (op_src srcs k) ((base + n) * w k))) (\<lambda>_. 0) s)
       (\<lambda>(y, s'). Inr (\<lambda>i. if i < Suc n * od then (ys @ map y [0 ..< od]) ! i else dst i, s'))"
proof -
  let ?d = "\<lambda>i. if i < n * od then ys ! i else dst i"
  have "put (n * od) (fill od y (ptr ?d (n * od))) ?d
      = (\<lambda>i. if i < Suc n * od then (ys @ map y [0 ..< od]) ! i else dst i)" for y
    by (rule ext) (auto simp: put_def fill_def ptr_def nth_append ys)
  then show ?thesis
    unfolding row_step_def fst_conv snd_conv row_localD [OF l, of _ _ "ptr ?d (n * od)"]
    by (cases "body (w32 (pos + base + n)) (row_cut m w (\<lambda>k. ptr (op_src srcs k) ((base + n) * w k))) (\<lambda>_. 0) s") auto
qed

lemma rfold_row_step:
  assumes l: "row_local m w od body"
  shows "rfold (row_step base od pos srcs w body) [0 ..< cnt] (dst, st) =
    rbind (run_rows body od (row_views m w pos base srcs cnt) st)
      (\<lambda>(ys, s). Inr (\<lambda>i. if i < cnt * od then ys ! i else dst i, s))"
proof (induction cnt)
  case 0
  then show ?case by (simp add: row_views_def)
next
  case (Suc n)
  let ?x = "row_cut m w (\<lambda>k. ptr (op_src srcs k) ((base + n) * w k))"
  have views: "row_views m w pos base srcs (Suc n) = row_views m w pos base srcs n @ [(w32 (pos + base + n), ?x)]"
    by (simp add: row_views_def)
  show ?case
  proof (cases "run_rows body od (row_views m w pos base srcs n) st")
    case (Inl e)
    then show ?thesis by (simp add: rfold_append Suc.IH views run_rows_append)
  next
    case (Inr r)
    obtain ys s where r: "r = (ys, s)" by fastforce
    have "length ys = n * od" using length_run_rows Inr r by (fastforce simp: row_views_def)
    note step = row_step_run [OF l this]
    show ?thesis
      by (cases "body (w32 (pos + base + n)) ?x (\<lambda>_. 0) s")
        (auto simp: rfold_append Suc.IH views run_rows_append Inr r step)
  qed
qed

lemma each_row_run:
  assumes l: "row_local m w od body"
  shows "each_row cnt base od pos srcs w body dst st =
    rbind (run_rows body od (row_views m w pos base srcs cnt) st)
      (\<lambda>(ys, s). Inr (True, \<lambda>i. if i < cnt * od then ys ! i else dst i, s))"
  unfolding each_row_step rfold_row_step [OF l]
  by (cases "run_rows body od (row_views m w pos base srcs cnt) st") auto

section \<open>Bodies that copy a row and transform it\<close>

lemma row_local_plain:
  assumes f: "\<And>pos x d. f pos x d = fill od (f pos (row_cut m w x) (\<lambda>_. 0)) d"
  shows "row_local m w od (plain f)"
  unfolding row_local_def plain_def
proof (intro allI)
  show "Inr (f pos x d, s) = rbind (Inr (f pos (row_cut m w x) (\<lambda>_. 0), s)) (\<lambda>(y, s'). Inr (fill od y d, s'))" for pos x d s
    by (subst f) simp
qed

lemma row_local_fill:
  assumes "\<And>pos x i. i < od \<Longrightarrow> g pos x i = g pos (row_cut m w x) i"
  shows "row_local m w od (plain (\<lambda>pos x. fill od (g pos x)))"
proof (rule row_local_plain, rule ext)
  show "fill od (g pos x) d i = fill od (fill od (g pos (row_cut m w x)) (\<lambda>_. 0)) d i" for pos x d i
    using assms [of i pos x] by (simp add: fill_def)
qed

lemma local_fill_split:
  assumes "local_to {..<od} T"
  shows "T (fill od g d) = fill od (T (fill od g (\<lambda>_. 0))) d"
proof
  fix i
  show "T (fill od g d) i = fill od (T (fill od g (\<lambda>_. 0))) d i"
  proof (cases "i < od")
    case True
    then have "T (fill od g d) i = T (fill od g (\<lambda>_. 0)) i" by (intro local_in [OF assms]) (simp_all add: fill_def)
    with True show ?thesis by (simp add: fill_def)
  next
    case False
    then show ?thesis by (simp add: local_out [OF assms] fill_def)
  qed
qed

lemma row_local_copy:
  assumes T: "\<And>pos. local_to {..<od} (T pos)" and m: "0 < m" "w 0 = od"
  shows "row_local m w od (plain (\<lambda>pos x d. T pos (fill od (x 0) d)))"
proof (rule row_local_plain)
  fix pos x d
  have "fill od (row_cut m w x 0) (\<lambda>_. 0) = fill od (x 0) (\<lambda>_. 0)" using m by (auto simp: fill_def)
  then show "T pos (fill od (x 0) d) = fill od (T pos (fill od (row_cut m w x 0) (\<lambda>_. 0))) d"
    using local_fill_split [OF T, of pos "x 0" d] by (simp only:)
qed

lemma nat_sint_w32: "nat (sint (w32 n)) \<le> n"
proof -
  have "sint (w32 n) \<le> uint (w32 n)" by (simp add: sint_uint signed_take_bit_int_less_eq_self_iff order_trans [OF _ uint_ge_0])
  also have "\<dots> \<le> int n" by (simp add: w32_def uint_nat unat_of_nat)
  finally show ?thesis by simp
qed

section \<open>Operators that are a loop over row bodies\<close>

text \<open>The calls an executor makes: positions inside the context; embedding and attention always
  get the whole batch.\<close>

definition good_call :: "cpu_env \<Rightarrow> graph_node \<Rightarrow> nat \<Rightarrow> op_ctx \<Rightarrow> bool" where
  "good_call E node od c \<longleftrightarrow>
     oc_node c = node \<and> oc_od c = od \<and> 0 < oc_r c \<and> oc_pos c + oc_base c + oc_r c \<le> ce_cap E
     \<and> (gn_op node = OP_EMBED \<or> gn_op node = OP_ATTN \<longrightarrow> oc_r c = oc_n c \<and> oc_base c = 0)"

definition row_op :: "cpu_env \<Rightarrow> graph_node \<Rightarrow> nat \<Rightarrow> (nat \<Rightarrow> nat) \<Rightarrow> bool" where
  "row_op E node od W \<longleftrightarrow>
     (\<exists>pre body w. row_local (operands (gn_op node)) w od body \<and> (\<forall>k < operands (gn_op node). w k = W k)
       \<and> (\<forall>c srcs dst st. good_call E node od c \<longrightarrow> cpu_graph_op E c srcs dst st =
                rbind pre (\<lambda>good. if good then each_row (oc_r c) (oc_base c) od (oc_pos c) srcs w body dst st
                                  else Inr (False, dst, st))))"

lemma row_opI:
  assumes "row_local (operands (gn_op node)) w od body" and "\<And>k. k < operands (gn_op node) \<Longrightarrow> w k = W k"
    and "\<And>c srcs dst st. good_call E node od c \<Longrightarrow> cpu_graph_op E c srcs dst st =
        rbind pre (\<lambda>good. if good then each_row (oc_r c) (oc_base c) od (oc_pos c) srcs w body dst st else Inr (False, dst, st))"
  shows "row_op E node od W"
  unfolding row_op_def using assms by (intro exI [of _ pre] exI [of _ body] exI [of _ w]) blast

lemma row_op_plainI:
  assumes "row_local (operands (gn_op node)) w od body" and "\<And>k. k < operands (gn_op node) \<Longrightarrow> w k = W k"
    and "\<And>c srcs dst st. good_call E node od c \<Longrightarrow> cpu_graph_op E c srcs dst st =
        each_row (oc_r c) (oc_base c) od (oc_pos c) srcs w body dst st"
  shows "row_op E node od W"
  using assms(3) by (intro row_opI [OF assms(1,2), where pre = "Inr True"]) simp_all

lemma good_callD: "good_call E node od c \<Longrightarrow> oc_node c = node \<and> oc_od c = od"
  by (simp add: good_call_def)

lemma row_ctx_call: "pos < ce_cap E \<Longrightarrow> good_call E node od (row_ctx node od pos)"
  by (simp add: good_call_def row_ctx_def)

fun views_of :: "nat \<Rightarrow> (nat \<Rightarrow> nat) \<Rightarrow> nat \<Rightarrow> u32 list list list \<Rightarrow> (u32 \<times> (nat \<Rightarrow> buf)) list" where
  "views_of m w pos [] = []"
| "views_of m w pos (x # xs) = (w32 pos, row_cut m w (op_src x)) # views_of m w (Suc pos) xs"

lemma views_of_map:
  "views_of m w pos (map f [a ..< a + n]) = map (\<lambda>p. (w32 (pos + p), row_cut m w (op_src (f (a + p))))) [0 ..< n]"
proof (induction n arbitrary: a pos)
  case (Suc n)
  have "[a ..< a + Suc n] = a # [Suc a ..< Suc a + n]" by (simp add: upt_conv_Cons)
  moreover have "[0 ..< Suc n] = 0 # map Suc [0 ..< n]" by (simp add: upt_conv_Cons map_Suc_upt del: upt_Suc)
  ultimately show ?case by (simp only: list.map views_of.simps Suc.IH map_map) (simp add: comp_def)
qed simp

lemma views_rows:
  assumes "\<And>k. k < m \<Longrightarrow> w k = W k" and "\<And>k. k < m \<Longrightarrow> k < length srcs \<and> length (srcs ! k) = n * W k"
  shows "views_of m w pos (map (\<lambda>p. row_of W p srcs) [0 ..< n]) = row_views m w pos 0 srcs n"
proof -
  have "row_cut m w (op_src (row_of W p srcs)) = row_cut m w (\<lambda>k. ptr (op_src srcs k) (p * w k))" if "p < n" for p
  proof (intro ext)
    fix k i
    show "row_cut m w (op_src (row_of W p srcs)) k i = row_cut m w (\<lambda>k. ptr (op_src srcs k) (p * w k)) k i"
    proof (cases "k < m \<and> i < w k")
      case True
      then have len: "length (srcs ! k) = n * w k" "k < length srcs" "w k = W k" using assms by auto
      have "p * w k + i < Suc p * w k" using True by simp
      also have "\<dots> \<le> n * w k" using that by (intro mult_le_mono1) simp
      finally have i: "p * w k + i < length (srcs ! k)" using len by simp
      then have "i < length (drop (p * w k) (srcs ! k))" "drop (p * w k) (srcs ! k) ! i = srcs ! k ! (p * w k + i)"
        by simp_all
      then show ?thesis using True len i by (simp add: row_cut_def op_src_def row_of_def ptr_def)
    next
      case False
      then show ?thesis by (auto simp: row_cut_def)
    qed
  qed
  then show ?thesis using views_of_map [of m w pos _ 0 n] by (simp add: row_views_def)
qed

lemma kernel_row:
  assumes "row_local m w od body"
    and "cpu_graph_op E (row_ctx node od pos) x dst st =
      rbind pre (\<lambda>good. if good then each_row 1 0 od pos x w body dst st else Inr (False, dst, st))"
    and "cpu_kernel E dst (row_ctx node od pos) x st = (True, out, st1)"
  shows "pre = Inr True \<and> (\<exists>y. body (w32 pos) (row_cut m w (op_src x)) (\<lambda>_. 0) st = Inr (y, st1) \<and> map out [0 ..< od] = map y [0 ..< od])"
proof -
  have g: "cpu_graph_op E (row_ctx node od pos) x dst st = Inr (True, out, st1)"
    using assms(3) by (auto simp: cpu_kernel_def split: sum.splits)
  with assms(2) have pre: "pre = Inr True" by (cases pre) (auto split: if_splits)
  have v: "row_views m w pos 0 x 1 = [(w32 pos, row_cut m w (op_src x))]" by (simp add: row_views_def ptr_def)
  have "each_row 1 0 od pos x w body dst st = Inr (True, out, st1)" using g assms(2) pre by simp
  then obtain y where "body (w32 pos) (row_cut m w (op_src x)) (\<lambda>_. 0) st = Inr (y, st1)"
    "out = (\<lambda>i. if i < od then map y [0 ..< od] ! i else dst i)"
    unfolding each_row_run [OF assms(1)] v by (cases "body (w32 pos) (row_cut m w (op_src x)) (\<lambda>_. 0) st") auto
  then show ?thesis using pre by simp
qed

lemma by_rows_run:
  assumes l: "row_local m w od body"
    and op: "\<And>pos x st. pos < ce_cap E \<Longrightarrow> cpu_graph_op E (row_ctx node od pos) x dst st =
      rbind pre (\<lambda>good. if good then each_row 1 0 od pos x w body dst st else Inr (False, dst, st))"
    and cap: "pos + length rows \<le> ce_cap E" and run: "by_rows (cpu_kernel E dst) node od pos rows st = (True, ys, st')"
  shows "(rows \<noteq> [] \<longrightarrow> pre = Inr True) \<and> run_rows body od (views_of m w pos rows) st = Inr (ys, st')"
  using cap run
proof (induction rows arbitrary: pos st ys)
  case (Cons x xs)
  obtain out st1 zs where k: "cpu_kernel E dst (row_ctx node od pos) x st = (True, out, st1)"
    and rest: "by_rows (cpu_kernel E dst) node od (Suc pos) xs st1 = (True, zs, st')" and ys: "ys = map out [0 ..< od] @ zs"
    using Cons.prems(2) by (auto split: prod.splits if_splits)
  have "pos < ce_cap E" "Suc pos + length xs \<le> ce_cap E" using Cons.prems(1) by simp_all
  then show ?case using kernel_row [OF l op k] Cons.IH [OF _ rest] ys by auto
qed simp

text \<open>The batch does what its rows do in turn.\<close>

lemma row_op_batch:
  assumes op: "row_op E node od W" and n: "0 < n" and cap: "pos + n \<le> ce_cap E"
    and len: "\<And>k. k < operands (gn_op node) \<Longrightarrow> k < length srcs \<and> length (srcs ! k) = n * W k"
    and run: "by_rows (cpu_kernel E dst) node od pos (map (\<lambda>p. row_of W p srcs) [0 ..< n]) st = (True, ys, st')"
  shows "\<exists>out. cpu_kernel E dst' (batch_ctx node od pos n) srcs st = (True, out, st') \<and> map out [0 ..< n * od] = ys"
proof -
  let ?m = "operands (gn_op node)"
  obtain pre body w where l: "row_local ?m w od body" and w: "\<forall>k < ?m. w k = W k"
    and g: "\<And>c srcs dst st. good_call E node od c \<Longrightarrow> cpu_graph_op E c srcs dst st =
        rbind pre (\<lambda>good. if good then each_row (oc_r c) (oc_base c) od (oc_pos c) srcs w body dst st else Inr (False, dst, st))"
    using op unfolding row_op_def by blast
  have one: "cpu_graph_op E (row_ctx node od pos) x dst st =
      rbind pre (\<lambda>good. if good then each_row 1 0 od pos x w body dst st else Inr (False, dst, st))" if "pos < ce_cap E" for pos x st
    using g [OF row_ctx_call [OF that], of x dst st] by (simp add: row_ctx_def cong: if_cong)
  have "pos + length (map (\<lambda>p. row_of W p srcs) [0 ..< n]) \<le> ce_cap E" using cap by simp
  from by_rows_run [OF l one this run]
  have "pre = Inr True" and r: "run_rows body od (row_views ?m w pos 0 srcs n) st = Inr (ys, st')"
    using n views_rows [of ?m w W srcs n pos] w len by auto
  moreover have "good_call E node od (batch_ctx node od pos n)" using n cap by (simp add: good_call_def batch_ctx_def)
  ultimately have "cpu_graph_op E (batch_ctx node od pos n) srcs dst' st
      = Inr (True, (\<lambda>i. if i < n * od then ys ! i else dst' i), st')"
    using g [of "batch_ctx node od pos n" srcs dst' st] by (simp add: batch_ctx_def each_row_run [OF l])
  moreover have "length ys = n * od" using length_run_rows [OF r] by (simp add: row_views_def)
  ultimately show ?thesis
    by (intro exI [of _ "\<lambda>i. if i < n * od then ys ! i else dst' i"])
      (auto simp: cpu_kernel_def intro!: nth_equalityI)
qed

text \<open>As the last node it processes the last row only.\<close>

lemma row_op_sink:
  assumes op: "row_op E node od W" and n: "0 < n" and cap: "pos + n \<le> ce_cap E" and e: "gn_op node \<noteq> OP_EMBED" "gn_op node \<noteq> OP_ATTN"
    and len: "\<And>k. k < operands (gn_op node) \<Longrightarrow> k < length srcs \<and> length (srcs ! k) = n * W k"
    and run: "cpu_kernel E dst (row_ctx node od (pos + (n - 1))) (row_of W (n - 1) srcs) st = (True, out, st')"
  shows "\<exists>out'. cpu_kernel E dst' (sink_ctx node od pos n) srcs st = (True, out', st') \<and> map out' [0 ..< od] = map out [0 ..< od]"
proof -
  let ?m = "operands (gn_op node)"
  obtain pre body w where l: "row_local ?m w od body" and w: "\<forall>k < ?m. w k = W k"
    and g: "\<And>c srcs dst st. good_call E node od c \<Longrightarrow> cpu_graph_op E c srcs dst st =
        rbind pre (\<lambda>good. if good then each_row (oc_r c) (oc_base c) od (oc_pos c) srcs w body dst st else Inr (False, dst, st))"
    using op unfolding row_op_def by blast
  have "pos + (n - 1) < ce_cap E" using n cap by simp
  then have one: "cpu_graph_op E (row_ctx node od (pos + (n - 1))) x dst st =
      rbind pre (\<lambda>good. if good then each_row 1 0 od (pos + (n - 1)) x w body dst st else Inr (False, dst, st))" for x st
    using g [OF row_ctx_call, of "pos + (n - 1)" x dst st] by (simp add: row_ctx_def cong: if_cong)
  note k = kernel_row [OF l one run]
  have "views_of ?m w pos (map (\<lambda>p. row_of W p srcs) [0 ..< n]) = row_views ?m w pos 0 srcs n"
    using w len by (intro views_rows) auto
  from arg_cong [OF this, of "\<lambda>v. snd (v ! (n - 1))"] n
  have row: "row_cut ?m w (op_src (row_of W (n - 1) srcs)) = row_cut ?m w (\<lambda>k. ptr (op_src srcs k) ((n - 1) * w k))"
    using views_of_map [of ?m w pos "\<lambda>p. row_of W p srcs" 0 n] by (simp add: row_views_def)
  have v: "row_views ?m w pos (n - 1) srcs 1 = [(w32 (pos + (n - 1)), row_cut ?m w (op_src (row_of W (n - 1) srcs)))]"
    unfolding row by (simp add: row_views_def add.assoc)
  obtain y where y: "body (w32 (pos + (n - 1))) (row_cut ?m w (op_src (row_of W (n - 1) srcs))) (\<lambda>_. 0) st = Inr (y, st')"
    and out: "map out [0 ..< od] = map y [0 ..< od]" and "pre = Inr True" using k by blast
  moreover have "good_call E node od (sink_ctx node od pos n)" using n cap e by (simp add: good_call_def sink_ctx_def)
  ultimately have "cpu_graph_op E (sink_ctx node od pos n) srcs dst' st
      = Inr (True, (\<lambda>i. if i < od then map y [0 ..< od] ! i else dst' i), st')"
    using g [of "sink_ctx node od pos n" srcs dst' st] by (simp add: sink_ctx_def each_row_run [OF l] v [simplified])
  then show ?thesis unfolding out
    by (intro exI [of _ "\<lambda>i. if i < od then map y [0 ..< od] ! i else dst' i"])
      (auto simp: cpu_kernel_def intro!: nth_equalityI)
qed

end
