(* ===== verification/CpuRowOps.thy ===== *)
theory CpuRowOps
  imports CpuRows
begin

text \<open>Every operator of \<open>cpu_op.c\<close> whose loop runs over the rows of the batch has a row body that
  stays inside its row, on well typed nodes.\<close>

section \<open>Element-wise operators\<close>

lemma row_op_binary:
  assumes "gn_op node = OP_ADD \<or> gn_op node = OP_MUL" and "od \<noteq> 0" and "W 0 = od" "W 1 = od"
  shows "row_op E node od W"
proof (rule row_op_plainI [where w = "\<lambda>_. od" and body = "plain (\<lambda>pos x. fill od (\<lambda>j.
    (if gn_op node = OP_ADD then fadd (ce_floats E) else fmul (ce_floats E)) (x 0 j) (x 1 j)))"])
  have m: "operands (gn_op node) = 2" using assms(1) by auto
  show "row_local (operands (gn_op node)) (\<lambda>_. od) od (plain (\<lambda>pos x. fill od (\<lambda>j.
      (if gn_op node = OP_ADD then fadd (ce_floats E) else fmul (ce_floats E)) (x 0 j) (x 1 j))))"
    unfolding m by (rule row_local_fill) simp
  show "od = W k" if "k < operands (gn_op node)" for k using that m assms(3,4) by (cases k) auto
  show "cpu_graph_op E c srcs dst st = each_row (oc_r c) (oc_base c) od (oc_pos c) srcs (\<lambda>_. od)
      (plain (\<lambda>pos x. fill od (\<lambda>j. (if gn_op node = OP_ADD then fadd (ce_floats E) else fmul (ce_floats E)) (x 0 j) (x 1 j)))) dst st"
    if "good_call E node od c" for c srcs dst st
    using assms(1,2) good_callD [OF that] by (auto simp: cpu_graph_op_def op_binary_def Let_def)
qed

text \<open>Operators with one source of the same width.\<close>

lemma row_op_same:
  assumes m: "operands (gn_op node) = 1" and w: "W 0 = od" and od: "od \<noteq> 0"
    and l: "row_local 1 (\<lambda>_. od) od body"
    and g: "\<And>c srcs dst st. oc_node c = node \<Longrightarrow> oc_od c = od \<Longrightarrow> cpu_graph_op E c srcs dst st =
      each_row (oc_r c) (oc_base c) od (oc_pos c) srcs (\<lambda>_. od) body dst st"
  shows "row_op E node od W"
  using l w g unfolding m [symmetric] by (intro row_op_plainI [where w = "\<lambda>_. od" and body = body]) (auto simp: m dest: good_callD)

lemma row_op_unary:
  assumes "(gn_op node, f) \<in> {(OP_SILU, silu (ce_floats E)), (OP_GELU, gelu_n (ce_floats E)), (OP_SOFTMAX, softmax_n (ce_floats E))}"
    and "od \<noteq> 0" "od < 2 ^ 32" and "W 0 = od"
  shows "row_op E node od W"
proof (rule row_op_same [where body = "plain (\<lambda>pos x d. f (fill od (x 0) d) (sint (w32 od)))"])
  have "local_to {..<od} (\<lambda>b. f b (sint (w32 od)))"
    using assms(1,3) by (auto intro!: local_intro nat_sint_w32)
  then show "row_local 1 (\<lambda>_. od) od (plain (\<lambda>pos x d. f (fill od (x 0) d) (sint (w32 od))))"
    by (intro row_local_copy) simp_all
  show "cpu_graph_op E c srcs dst st = each_row (oc_r c) (oc_base c) od (oc_pos c) srcs (\<lambda>_. od)
      (plain (\<lambda>pos x d. f (fill od (x 0) d) (sint (w32 od)))) dst st"
    if "oc_node c = node" "oc_od c = od" for c srcs dst st
    using assms(1,2) that by (auto simp: cpu_graph_op_def op_unary_def)
qed (use assms in auto)

lemma row_op_scale:
  assumes "gn_op node = OP_SCALE" and "od \<noteq> 0" and "W 0 = od"
  shows "row_op E node od W"
proof (rule row_op_same [where body = "plain (\<lambda>pos x. fill od (\<lambda>j. fmul (ce_floats E) (x 0 j) (gn_params node ! 0)))"])
  show "row_local 1 (\<lambda>_. od) od (plain (\<lambda>pos x. fill od (\<lambda>j. fmul (ce_floats E) (x 0 j) (gn_params node ! 0))))"
    by (rule row_local_fill) simp
qed (use assms in \<open>auto simp: cpu_graph_op_def op_scale_def op_param_def\<close>)

lemma row_op_softcap:
  assumes "gn_op node = OP_SOFTCAP" and "od \<noteq> 0" and "W 0 = od"
  shows "row_op E node od W"
proof (rule row_op_same [where body = "plain (\<lambda>pos x. fill od (\<lambda>j. fmul (ce_floats E)
    (ftanh (ce_floats E) (fdiv (ce_floats E) (x 0 j) (gn_params node ! 0))) (gn_params node ! 0)))"])
  show "row_local 1 (\<lambda>_. od) od (plain (\<lambda>pos x. fill od (\<lambda>j. fmul (ce_floats E)
    (ftanh (ce_floats E) (fdiv (ce_floats E) (x 0 j) (gn_params node ! 0))) (gn_params node ! 0))))"
    by (rule row_local_fill) simp
qed (use assms in \<open>auto simp: cpu_graph_op_def op_softcap_def op_param_def Let_def\<close>)

lemma row_op_rope:
  assumes op: "(gn_op node, f) \<in> {(OP_ROPE_NEOX, rope_partial (ce_floats E)), (OP_ROPE_NORM, rope_pairs (ce_floats E))}"
    and od: "od \<noteq> 0" and w: "W 0 = od" and heads: "unat (gn_params node ! 1) * unat (gn_params node ! 2) = od"
    and rd: "unat (gn_params node ! 3) \<le> unat (gn_params node ! 2)"
    and ev: "gn_op node = OP_ROPE_NORM \<Longrightarrow> even (unat (gn_params node ! 3))"
  shows "row_op E node od W"
proof (rule row_op_same [where body = "plain (\<lambda>pos x d.
    f (gn_params node ! 1) (gn_params node ! 2) (gn_params node ! 3) pos (gn_params node ! 0) (fill od (x 0) d))"])
  have "local_to {..<od} (f (gn_params node ! 1) (gn_params node ! 2) (gn_params node ! 3) pos (gn_params node ! 0))" for pos
    using op heads rd ev by (auto intro!: local_intro)
  then show "row_local 1 (\<lambda>_. od) od (plain (\<lambda>pos x d.
      f (gn_params node ! 1) (gn_params node ! 2) (gn_params node ! 3) pos (gn_params node ! 0) (fill od (x 0) d)))"
    by (intro row_local_copy) simp_all
qed (use assms in \<open>auto simp: cpu_graph_op_def op_rope_def op_param_def\<close>)

lemma head_index: "i < nh * hw \<Longrightarrow> i div hw * 2 * hw + hw + i mod hw < nh * 2 * (hw :: nat)"
proof -
  assume i: "i < nh * hw"
  then have "0 < hw" by (cases hw) auto
  then have "i div hw < nh" "i mod hw < hw" using i by (simp_all add: less_mult_imp_div_less)
  then have "i div hw * 2 * hw + hw + i mod hw < (2 * (i div hw) + 2) * hw" by (simp add: algebra_simps)
  also have "\<dots> \<le> nh * 2 * hw" using \<open>i div hw < nh\<close> by (intro mult_le_mono1) simp
  finally show ?thesis .
qed

lemma row_op_sigmoid_gate:
  assumes op: "gn_op node = OP_SIGMOID_GATE" and od: "od \<noteq> 0" and w: "W 0 = od"
    and heads: "od = unat (gn_params node ! 0) * unat (gn_params node ! 1)"
    and w1: "W 1 = unat (gn_params node ! 0) * 2 * unat (gn_params node ! 1)"
  shows "row_op E node od W"
proof -
  let ?nh = "unat (gn_params node ! 0)" and ?hw = "unat (gn_params node ! 1)" and ?F = "ce_floats E"
  let ?w = "\<lambda>k. if k = 0 then od else ?nh * 2 * ?hw"
  let ?body = "plain (\<lambda>pos x. fill od (\<lambda>i. fmul ?F (x 0 i) (sigmoid ?F (x 1 (i div ?hw * 2 * ?hw + ?hw + i mod ?hw)))))"
  have m: "operands (gn_op node) = 2" using op by simp
  have "row_local 2 ?w od ?body"
    using head_index [of _ ?nh ?hw] heads by (intro row_local_fill) (auto simp: row_cut_def)
  then show ?thesis
    using w w1 op od heads
    by (intro row_op_plainI [where w = ?w and body = ?body])
      (auto simp: m cpu_graph_op_def op_sigmoid_gate_def op_param_def Let_def less_2_cases_iff dest!: good_callD cong: if_cong)
qed

section \<open>Norms, embedding, bias\<close>

lemma sint_small: "n < 2 ^ 31 \<Longrightarrow> sint (w32 n) = int n"
  by (simp add: w32_def sint_uint uint_nat unat_of_nat signed_take_bit_int_eq_self)

lemma fill_at: "fill n g b i = (if i < n then g i else b i)"
  by (simp add: fill_def)

lemma fill_fill: "fill n (fill n g b') b = fill n g b"
  by (rule ext) (simp add: fill_def)

lemma row_op_rms_norm:
  assumes op: "gn_op node = OP_RMS_NORM" and od: "od \<noteq> 0" "od < 2 ^ 31" and w: "W 0 = od"
    and t: "od \<le> t_dim (ce_ts E) (Some (the (gn_weights node ! 0))) 0"
  shows "row_op E node od W"
proof -
  let ?tw = "the (gn_weights node ! 0)" and ?F = "ce_floats E"
  let ?body = "\<lambda>pos x d s. rbind (rms_norm E (x 0) ?tw (sint (w32 od)) f_default_eps d) (\<lambda>y. Inr (y, s))"
  define G where "G = (\<lambda>x w i. fmul ?F (fmul ?F (x i) (fdiv ?F f_one (fsqrt ?F (fadd ?F (fdiv ?F
    (fsum ?F od (\<lambda>i. fmul ?F (x i) (x i))) (fint ?F (int od))) f_default_eps)))) (w i))"
  have "nat (int od mod 2 ^ 64) = od" using od by simp
  then have body: "?body pos x d s = rbind (tensor_get_f32_batch E ?tw 0 od) (\<lambda>b. Inr (fill od (G (x 0) b) d, s))"
    for pos :: u32 and x d and s :: cpu_state
    using t by (cases "tensor_get_f32_batch E ?tw 0 od") (simp_all add: rms_norm_def Let_def sint_small [OF od(2)] G_def)
  have cut: "fill od (G (row_cut 1 (\<lambda>_. od) x 0) b) d = fill od (G (x 0) b) d" for x b d
  proof -
    have "fsum ?F od (\<lambda>i. fmul ?F (row_cut 1 (\<lambda>_. od) x 0 i) (row_cut 1 (\<lambda>_. od) x 0 i)) = fsum ?F od (\<lambda>i. fmul ?F (x 0 i) (x 0 i))"
      by (rule fsum_cong) simp
    then show ?thesis by (intro ext) (simp add: fill_def G_def)
  qed
  have "row_local 1 (\<lambda>_. od) od ?body"
    unfolding row_local_def body cut by (cases "tensor_get_f32_batch E ?tw 0 od") (simp_all add: fill_fill)
  then show ?thesis
    using op od w by (intro row_op_same [where body = ?body]) (auto simp: cpu_graph_op_def op_rms_norm_def op_weight_def)
qed

lemma row_op_bias:
  assumes op: "gn_op node = OP_BIAS" and od: "od \<noteq> 0" "od < 2 ^ 32" and w: "W 0 = od"
  shows "row_op E node od W"
proof -
  let ?tb = "the (gn_weights node ! 0)"
  let ?ne = "ti_n_element (ce_ts E ! ?tb)"
  define nb where "nb = (if ?ne < od then unat (w32 ?ne) else od)"
  let ?body = "\<lambda>pos x d s. rbind (bias_add E ?tb nb (fill od (x 0) d)) (\<lambda>y. Inr (y, s))"
  have nb: "nb \<le> od" by (auto simp: nb_def w32_def unat_of_nat intro: order_trans [OF mod_less_eq_dividend])
  have "row_local 1 (\<lambda>_. od) od ?body"
    unfolding row_local_def
  proof (intro allI)
    fix pos x d s
    have "fill n (\<lambda>i. fadd F (fill od (x 0) d i) (b i)) (fill od (x 0) d)
        = fill od (fill n (\<lambda>i. fadd F (fill od (row_cut 1 (\<lambda>_. od) x 0) (\<lambda>_. 0) i) (b i)) (fill od (row_cut 1 (\<lambda>_. od) x 0) (\<lambda>_. 0))) d"
      if "n \<le> od" for F n b using that by (intro ext) (simp add: fill_def)
    from this [OF nb] show "?body pos x d s = rbind (?body pos (row_cut 1 (\<lambda>_. od) x) (\<lambda>_. 0) s) (\<lambda>(y, s'). Inr (fill od y d, s'))"
      unfolding bias_add_def by (cases "tensor_get_f32_batch E ?tb 0 nb") simp_all
  qed
  then show ?thesis
    using op od w by (intro row_op_same [where body = ?body]) (auto simp: cpu_graph_op_def op_bias_def op_weight_def Let_def nb_def)
qed

lemma row_op_embed:
  assumes op: "gn_op node = OP_EMBED" and od: "od \<noteq> 0" and w: "W 0 = 1"
  shows "row_op E node od W"
proof -
  let ?te = "the (gn_weights node ! 0)" and ?V = "c_n_vocab (ce_cfg E)"
  let ?body = "\<lambda>pos x d s. let tok = unat (x 0 0 :: u32) in
     if t_dim (ce_ts E) (Some ?te) 0 = ?V
     then rbind (tensor_get_f32_batch E ?te (tok * od) od) (\<lambda>row. Inr (fill od row d, s))
     else rbind (rmap (\<lambda>j. tensor_get_f32 E ?te (j * ?V + tok)) [0 ..< od]) (\<lambda>row. Inr (fill od ((!) row) d, s))"
  have "row_local 1 (\<lambda>_. 1) od ?body"
    unfolding row_local_def
  proof (intro allI)
    fix pos x d s
    have "row_cut 1 (\<lambda>_. 1) x 0 0 = x 0 0" by simp
    then show "?body pos x d s = rbind (?body pos (row_cut 1 (\<lambda>_. 1) x) (\<lambda>_. 0) s) (\<lambda>(y, s'). Inr (fill od y d, s'))"
      by (cases "tensor_get_f32_batch E ?te (unat (x 0 0) * od) od";
          cases "rmap (\<lambda>j. tensor_get_f32 E ?te (j * ?V + unat (x 0 0))) [0 ..< od]") (simp_all add: Let_def fill_fill)
  qed
  then show ?thesis
    using op od w by (intro row_op_plainI [where w = "\<lambda>_. 1" and body = ?body]) (auto simp: cpu_graph_op_def op_embed_def op_weight_def Let_def good_call_def)
qed

lemma rms_inplace_cong:
  assumes "\<And>i. i < n \<Longrightarrow> b i = b' i" and "i < n"
  shows "rms_norm_inplace F w n eps b i = rms_norm_inplace F w n eps b' i"
  by (rule local_in [OF local_rms_inplace [of n n]]) (use assms in simp_all)

lemma row_op_rms_norm_heads:
  assumes op: "gn_op node = OP_RMS_NORM_HEADS" and od: "od \<noteq> 0"
    and w: "W 0 = unat (gn_params node ! 0) * unat (gn_params node ! 2)"
    and p: "od = unat (gn_params node ! 0) * unat (gn_params node ! 3)" "gn_params node ! 1 = gn_params node ! 3"
      "unat (gn_params node ! 1) \<le> unat (gn_params node ! 2)"
  shows "row_op E node od W"
proof -
  let ?p = "\<lambda>k. unat (gn_params node ! k)" and ?F = "ce_floats E"
  let ?h = "\<lambda>nw x h y. rms_norm_inplace ?F nw (?p 3) f_default_eps (fill (?p 3) (ptr (x (0 :: nat)) (h * ?p 2)) y)"
  let ?f = "\<lambda>nw pos x d. fold (\<lambda>h. via (h * ?p 3) (?h nw x h)) [0 ..< ?p 0] d"
  let ?w = "\<lambda>_ :: nat. ?p 0 * ?p 2"
  have loc: "local_to {..<?p 3} (?h nw x h)" for nw x h
  proof (rule local_comp [where f = "fill (?p 3) (ptr (x 0) (h * ?p 2))"])
    show "local_to {..<?p 3} (fill (?p 3) (ptr (x 0) (h * ?p 2)))" by (rule local_fill) simp_all
  qed (rule local_intro, simp)
  have "row_local 1 ?w od (plain (?f nw))" for nw
  proof (rule row_local_plain, rule ext)
    fix pos :: u32 and x :: "nat \<Rightarrow> buf" and d i
    have at: "?f nw pos x d i = (if i < od then ?h nw x (i div ?p 3) (ptr d (i div ?p 3 * ?p 3)) (i mod ?p 3) else d i)"
      for x d i unfolding p(1) by (rule heads_at) (rule loc)
    have split: "fill od (?f nw pos x (\<lambda>_. 0)) d i
        = (if i < od then ?h nw x (i div ?p 3) (ptr (\<lambda>_. 0) (i div ?p 3 * ?p 3)) (i mod ?p 3) else d i)" for x d i
      by (subst fill_at) (simp only: at split: if_split, simp)
    show "?f nw pos x d i = fill od (?f nw pos (row_cut 1 ?w x) (\<lambda>_. 0)) d i"
    proof (cases "i < od")
      case True
      then have "0 < ?p 3" using p(1) by (cases "?p 3") auto
      then have j: "i div ?p 3 < ?p 0" "i mod ?p 3 < ?p 3" using True p(1) by (simp_all add: less_mult_imp_div_less)
      have "i div ?p 3 * ?p 2 + k < ?p 0 * ?p 2" if "k < ?p 3" for k
      proof -
        have "i div ?p 3 * ?p 2 + k < Suc (i div ?p 3) * ?p 2" using that p(2,3) by simp
        also have "\<dots> \<le> ?p 0 * ?p 2" using j(1) by (intro mult_le_mono1) simp
        finally show ?thesis .
      qed
      then have "?h nw x (i div ?p 3) b (i mod ?p 3) = ?h nw (row_cut 1 ?w x) (i div ?p 3) b' (i mod ?p 3)" for b b'
        using j(2) by (intro rms_inplace_cong) (simp_all add: fill_def ptr_def)
      then show ?thesis using True unfolding at split by simp
    next
      case False
      then show ?thesis unfolding at split by simp
    qed
  qed
  then show ?thesis
    using op od w p(2)
    by (intro row_opI [where w = ?w and body = "case tensor_get_f32_batch E (the (gn_weights node ! 0)) 0 (?p 1) of Inr nw \<Rightarrow> plain (?f nw) | _ \<Rightarrow> plain (?f (\<lambda>_. 0))"
          and pre = "rbind (tensor_get_f32_batch E (the (gn_weights node ! 0)) 0 (?p 1)) (\<lambda>_. Inr True)"])
      (auto simp: cpu_graph_op_def op_rms_norm_heads_def op_weight_def op_param_def Let_def dest!: good_callD split: sum.split)
qed

end
