(* ===== verification/CpuRowRec.thy ===== *)
theory CpuRowRec
  imports CpuRowOps
begin

text \<open>The recurrent operators: a row reads and advances the recurrent buffer of its node.\<close>

section \<open>Convolutions\<close>

lemma conv_sum_cong: "raw ch = raw' ch \<Longrightarrow> conv_sum F raw cw st n ck ch = conv_sum F raw' cw st n ck ch"
  unfolding conv_sum_def conv_tap_def by (rule fsum_cong) simp

lemma conv_shift_cong: "(\<And>i. i < unat n \<Longrightarrow> raw i = raw' i) \<Longrightarrow> conv_shift raw n ck st = conv_shift raw' n ck st"
  unfolding conv_shift_def by (auto simp: copy_to_def Let_def intro!: ext)

text \<open>An operator that reads its weights first, then runs its rows.\<close>

lemma row_op_weights:
  assumes l: "\<And>w. row_local (operands (gn_op node)) wd od (body w)" and w: "\<And>k. k < operands (gn_op node) \<Longrightarrow> wd k = W k"
    and e: "gn_op node \<noteq> OP_EMBED"
    and g: "\<And>c srcs dst st. oc_node c = node \<Longrightarrow> oc_od c = od \<Longrightarrow> cpu_graph_op E c srcs dst st =
      (if bad then Inr (False, dst, st)
       else rbind weights (\<lambda>w. each_row (oc_r c) (oc_base c) od (oc_pos c) srcs wd (body w) dst st))"
  shows "row_op E node od W"
proof (rule row_opI [where w = wd and body = "case weights of Inr w \<Rightarrow> body w | Inl _ \<Rightarrow> body undefined"
      and pre = "if bad then Inr False else rbind weights (\<lambda>_. Inr True)"])
  show "row_local (operands (gn_op node)) wd od (case weights of Inr w \<Rightarrow> body w | Inl _ \<Rightarrow> body undefined)"
    using l by (simp split: sum.split)
  show "cpu_graph_op E c srcs dst st =
      rbind (if bad then Inr False else rbind weights (\<lambda>_. Inr True)) (\<lambda>good. if good
        then each_row (oc_r c) (oc_base c) od (oc_pos c) srcs wd (case weights of Inr w \<Rightarrow> body w | Inl _ \<Rightarrow> body undefined) dst st
        else Inr (False, dst, st))" if "good_call E node od c" for c srcs dst st
    using g good_callD [OF that] by (simp split: sum.split)
qed (use w in auto)

lemma row_op_ssm_conv:
  assumes op: "gn_op node = OP_SSM_CONV" and od: "od \<noteq> 0" "od < 2 ^ 32" and w: "W 0 = od"
  shows "row_op E node od W"
proof -
  let ?F = "ce_floats E" and ?sid = "unat (gn_params node ! 0)" and ?ck = "gn_params node ! 1"
  let ?slot = "Recurrent (ce_states E ! ?sid)"
  let ?body = "\<lambda>cw pos x d s. let raw = fill od (x 0) d;
      (y, ring) = causal_conv1d_step ?F raw cw (w32 od) ?ck (raw, s ?slot) in Inr (y, s(?slot := ring))"
  have n: "unat (w32 od) = od" using od by (simp add: w32_def unat_of_nat)
  have "row_local 1 (\<lambda>_. od) od (?body cw)" for cw
    unfolding row_local_def
  proof (intro allI)
    fix pos x d s
    let ?raw = "fill od (x 0) d" and ?raw' = "fill od (row_cut 1 (\<lambda>_. od) x 0) (\<lambda>_. 0)"
    have eq: "?raw i = ?raw' i" if "i < od" for i using that by (simp add: fill_def)
    have "conv_shift ?raw (w32 od) ?ck (s ?slot) = conv_shift ?raw' (w32 od) ?ck (s ?slot)"
      by (rule conv_shift_cong) (simp add: n eq)
    moreover have "fill od (conv_sum ?F ?raw cw (s ?slot) (w32 od) ?ck) ?raw
        = fill od (fill od (conv_sum ?F ?raw' cw (s ?slot) (w32 od) ?ck) ?raw') d"
    proof
      fix i
      show "fill od (conv_sum ?F ?raw cw (s ?slot) (w32 od) ?ck) ?raw i
          = fill od (fill od (conv_sum ?F ?raw' cw (s ?slot) (w32 od) ?ck) ?raw') d i"
        using conv_sum_cong [of ?raw i ?raw' ?F cw "s ?slot" "w32 od" ?ck] eq
        by (cases "i < od") (simp_all add: fill_at)
    qed
    ultimately show "?body cw pos x d s = rbind (?body cw pos (row_cut 1 (\<lambda>_. od) x) (\<lambda>_. 0) s) (\<lambda>(y, s'). Inr (fill od y d, s'))"
      by (simp add: causal_conv1d_step_def n Let_def)
  qed
  then show ?thesis
    using op od w
    by (intro row_op_weights [where wd = "\<lambda>_. od" and body = ?body and bad = "?sid \<ge> length (ce_states E)"
          and weights = "tensor_get_f32_batch E (the (gn_weights node ! 0)) 0 (unat ?ck * od)"])
      (auto simp: cpu_graph_op_def op_ssm_conv_def op_weight_def op_param_def Let_def)
qed

lemma unat_add3: "unat a + unat b + unat c < 2 ^ 32 \<Longrightarrow> unat (a + b + c :: u32) = unat a + unat b + unat c"
  by (simp add: unat_word_ariths)

lemma row_op_mamba2_conv:
  assumes op: "gn_op node = OP_MAMBA2_CONV" and od: "od \<noteq> 0"
    and w: "W 0 = od + unat (gn_params node ! 2) + unat (gn_params node ! 5)" "W 0 < 2 ^ 32"
  shows "row_op E node od W"
proof -
  let ?p = "\<lambda>k. gn_params node ! k" and ?F = "ce_floats E"
  let ?cd = "?p 2 + 2 * ?p 3 * ?p 4" and ?slot = "Recurrent (ce_states E ! unat (gn_params node ! 0))"
  let ?pw = "?cd + ?p 2 + ?p 5"
  let ?body = "\<lambda>(cw, bias) pos x d s.
      let raw = ptr (x 0) (unat (?p 2));
          total = (\<lambda>ch. let t = conv_sum ?F raw cw (s ?slot) ?cd (?p 1) ch in case bias of None \<Rightarrow> t | Some b \<Rightarrow> fadd ?F t (b ch)) in
      Inr (fill (unat ?cd) (\<lambda>ch. silu1 ?F (total ch)) d, s(?slot := conv_shift raw ?cd (?p 1) (s ?slot)))"
  let ?bad = "unat (?p 0) \<ge> length (ce_states E) \<or> ?p 1 = 0 \<or> ?p 2 = 0 \<or> ?p 3 = 0 \<or> ?p 4 = 0 \<or> od \<noteq> unat ?cd"
  let ?weights = "rbind (tensor_get_f32_batch E (the (gn_weights node ! 0)) 0 (unat (?p 1) * unat ?cd)) (\<lambda>cw.
      rbind (if gn_weights node ! 1 = None then Inr None
             else rbind (tensor_get_f32_batch E (the (gn_weights node ! 1)) 0 (unat ?cd)) (\<lambda>b. Inr (Some b))) (\<lambda>bias. Inr (cw, bias)))"
  show ?thesis
  proof (cases "od = unat ?cd")
    case True
    have pw: "unat ?pw = W 0" using w by (simp only: True) (rule unat_add3)
    have "row_local 1 (\<lambda>_. unat ?pw) od (?body wb)" for wb
      unfolding row_local_def
    proof (intro allI)
      fix pos x d s
      let ?x' = "row_cut 1 (\<lambda>_. unat ?pw) x"
      let ?raw = "ptr (x 0) (unat (?p 2))" and ?raw' = "ptr (?x' 0) (unat (?p 2))"
      have eq: "?raw i = ?raw' i" if "i < od" for i using that w pw by (simp add: ptr_def)
      obtain cw bias where wb: "wb = (cw, bias)" by fastforce
      have "conv_shift ?raw ?cd (?p 1) (s ?slot) = conv_shift ?raw' ?cd (?p 1) (s ?slot)"
        by (rule conv_shift_cong) (simp only: eq True [symmetric])
      moreover have "fill od (\<lambda>ch. f ch (conv_sum ?F ?raw cw (s ?slot) ?cd (?p 1) ch)) d
          = fill od (fill od (\<lambda>ch. f ch (conv_sum ?F ?raw' cw (s ?slot) ?cd (?p 1) ch)) (\<lambda>_. 0)) d" for f
      proof
        fix i
        show "fill od (\<lambda>ch. f ch (conv_sum ?F ?raw cw (s ?slot) ?cd (?p 1) ch)) d i
          = fill od (fill od (\<lambda>ch. f ch (conv_sum ?F ?raw' cw (s ?slot) ?cd (?p 1) ch)) (\<lambda>_. 0)) d i"
          using conv_sum_cong [of ?raw i ?raw' ?F cw "s ?slot" ?cd "?p 1"] eq by (cases "i < od") (simp_all only: fill_at if_True if_False)
      qed
      ultimately show "?body wb pos x d s = rbind (?body wb pos ?x' (\<lambda>_. 0) s) (\<lambda>(y, s'). Inr (fill od y d, s'))"
        by (simp add: wb Let_def True [symmetric])
    qed
    then show ?thesis
      using op od w pw True
      by (intro row_op_weights [where wd = "\<lambda>_. unat ?pw" and body = ?body and bad = ?bad and weights = ?weights])
        (auto simp: cpu_graph_op_def op_mamba2_conv_def op_weight_def op_param_def Let_def rbind_assoc split_def)
  next
    case False
    have "row_local 1 (\<lambda>_. W 0) od (\<lambda>pos x d s. Inr (fill od (\<lambda>_. 0) d, s))"
      by (simp add: row_local_def fill_fill)
    then show ?thesis using op od False
      by (intro row_op_weights [where wd = "\<lambda>_. W 0" and body = "\<lambda>(_ :: unit) pos x d s. Inr (fill od (\<lambda>_. 0) d, s)"
            and bad = True and weights = "Inr ()"])
        (auto simp: cpu_graph_op_def op_mamba2_conv_def op_param_def Let_def)
  qed
qed

section \<open>The gated delta rule\<close>

lemma delta_steps:
  "\<exists>S' e. \<forall>d. fold (delta_step1 F Q K V g beta n_k hw) [0 ..< m] (S, d) = (S', fill (m * hw) e d)"
proof (induction m)
  case 0
  then show ?case by (intro exI [of _ S]) (simp add: fill_def)
next
  case (Suc m)
  then obtain S1 e where IH: "\<And>d. fold (delta_step1 F Q K V g beta n_k hw) [0 ..< m] (S, d) = (S1, fill (m * hw) e d)" by blast
  let ?kh = "if n_k \<noteq> 0 then m mod n_k else 0"
  let ?run = "delta_head F hw (ptr Q (?kh * hw)) (ptr K (?kh * hw)) (ptr V (m * hw)) (g m) (beta m)"
  let ?y = "snd (?run (ptr S1 (m * (hw * hw))))"
  have "copy_to (m * hw) hw ?y (fill (m * hw) e d) = fill (Suc m * hw) (\<lambda>i. if i < m * hw then e i else ?y (i - m * hw)) d" for d
    by (intro ext) (auto simp: copy_to_def fill_def)
  moreover have "delta_step1 F Q K V g beta n_k hw m (S1, D)
      = (via (m * (hw * hw)) (\<lambda>S. fst (?run S)) S1, copy_to (m * hw) hw ?y D)" for D
    by (simp add: delta_step1_def Let_def)
  moreover have "fold (delta_step1 F Q K V g beta n_k hw) [0 ..< Suc m] (S, d)
      = delta_step1 F Q K V g beta n_k hw m (fold (delta_step1 F Q K V g beta n_k hw) [0 ..< m] (S, d))" for d by simp
  ultimately have "fold (delta_step1 F Q K V g beta n_k hw) [0 ..< Suc m] (S, d)
      = (via (m * (hw * hw)) (\<lambda>S. fst (?run S)) S1, fill (Suc m * hw) (\<lambda>i. if i < m * hw then e i else ?y (i - m * hw)) d)" for d
    by (simp only: IH)
  then show ?case by blast
qed

lemma gated_delta_cong:
  assumes "\<And>i. i < n_v \<Longrightarrow> g i = g' i \<and> b i = b' i"
  shows "gated_delta_step F Q K V g b n_v n_k hw so = gated_delta_step F Q K V g' b' n_v n_k hw so"
  unfolding gated_delta_step_def using assms by (intro fold_cong) (auto simp: delta_step1_def Let_def)

lemma row_op_ssm_delta:
  assumes op: "gn_op node = OP_SSM_DELTA" and od: "od \<noteq> 0"
    and w: "W 0 = 2 * (unat (gn_params node ! 2) * unat (gn_params node ! 3)) + unat (gn_params node ! 1) * unat (gn_params node ! 3)"
      "W 0 < 2 ^ 32" "W 1 = unat (gn_params node ! 1)" "W 2 = unat (gn_params node ! 1)"
    and p: "od = unat (gn_params node ! 1) * unat (gn_params node ! 3)"
  shows "row_op E node od W"
proof -
  let ?p = "\<lambda>k. unat (gn_params node ! k)" and ?F = "ce_floats E"
  let ?slot = "Recurrent (ce_states E ! ?p 0)" and ?kd = "gn_params node ! 2 * gn_params node ! 3"
  let ?fs = "2 * unat ?kd + ?p 1 * ?p 3"
  let ?w = "\<lambda>k. if k = 0 then ?fs else ?p 1"
  let ?qkv = "\<lambda>x. delta_qkv ?F (?p 2) (?p 3) (unat ?kd) (fill ?fs (x (0 :: nat)) (\<lambda>_. 0))"
  let ?gv = "\<lambda>a_log dt_bi x i. fexp ?F (fmul ?F (a_log i) (softplus ?F (fadd ?F (x (1 :: nat) i) (dt_bi i))))"
  let ?bv = "\<lambda>x i. sigmoid ?F (x (2 :: nat) i)"
  let ?run = "\<lambda>a_log dt_bi x so. gated_delta_step ?F (?qkv x) (ptr (?qkv x) (unat ?kd)) (ptr (?qkv x) (unat (2 * ?kd)))
      (?gv a_log dt_bi x) (?bv x) (?p 1) (?p 2) (?p 3) so"
  let ?norm = "\<lambda>nw y. case nw of None \<Rightarrow> y | Some b \<Rightarrow>
      fold (\<lambda>grp. via (grp * ?p 3) (rms_norm_inplace ?F b (?p 3) f_default_eps)) [0 ..< ?p 1] y"
  let ?body = "\<lambda>(a_log, dt_bi, nw) pos x d s.
      let (S, y) = ?run a_log dt_bi x (s ?slot, d) in Inr (?norm nw y, s(?slot := S))"
  have kd: "unat ?kd = ?p 2 * ?p 3" using w(1,2) by (intro unat_mult_lem [THEN iffD1]) simp
  have fs: "?fs = W 0" using w(1) kd by simp
  have od': "unat (w32 (?p 1 * ?p 3)) = ?p 1 * ?p 3" using w(1,2) by (intro unat_w32) simp
  have norm: "local_to {..<od} (?norm nw)" for nw
  proof (cases nw)
    case (Some b)
    have "local_to {..<od} (fold (\<lambda>grp. via (grp * ?p 3) (rms_norm_inplace ?F b (?p 3) f_default_eps)) [0 ..< ?p 1])"
      using p by (intro local_heads local_intro) simp_all
    then show ?thesis using Some by simp
  qed (simp add: local_id [unfolded id_def])
  have "row_local 3 ?w od (?body wb)" for wb
    unfolding row_local_def
  proof (intro allI)
    fix pos :: u32 and x d s
    obtain a_log dt_bi nw where wb: "wb = (a_log, dt_bi, nw)" by (cases wb) auto
    let ?x = "row_cut 3 ?w x"
    have "fill ?fs (x 0) (\<lambda>_. 0) = fill ?fs (?x 0) (\<lambda>_. 0)" by (intro ext) (simp add: fill_def)
    then have "?qkv x = ?qkv ?x" by (simp only:)
    moreover have "?gv a_log dt_bi x i = ?gv a_log dt_bi ?x i \<and> ?bv x i = ?bv ?x i" if "i < ?p 1" for i
      using that by (simp add: row_cut_def)
    ultimately have run: "?run a_log dt_bi x so = ?run a_log dt_bi ?x so" for so
      by (simp only:) (rule gated_delta_cong, simp_all only:)
    obtain S e where e: "\<And>d. ?run a_log dt_bi ?x (s ?slot, d) = (S, fill od e d)"
      using delta_steps [of ?F "?qkv ?x" "ptr (?qkv ?x) (unat ?kd)" "ptr (?qkv ?x) (unat (2 * ?kd))" "?gv a_log dt_bi ?x" "?bv ?x"
          "?p 2" "?p 3" "?p 1" "s ?slot"] unfolding gated_delta_step_def p by blast
    show "?body wb pos x d s = rbind (?body wb pos ?x (\<lambda>_. 0) s) (\<lambda>(y, s'). Inr (fill od y d, s'))"
      unfolding wb prod.case run e Let_def rbind_simps local_fill_split [OF norm, symmetric] ..
  qed
  moreover have "?w k = W k" if "k < 3" for k
  proof -
    from that have "k = 0 \<or> k = 1 \<or> k = 2" by arith
    then show ?thesis using fs w(3,4) by auto
  qed
  ultimately show ?thesis
    using op od p od'
    by (intro row_op_weights [where wd = ?w and body = ?body and bad = "?p 0 \<ge> length (ce_states E)" and
          weights = "rbind (tensor_get_f32_batch E (the (gn_weights node ! 0)) 0 (?p 1)) (\<lambda>a_log.
            rbind (tensor_get_f32_batch E (the (gn_weights node ! 1)) 0 (?p 1)) (\<lambda>dt_bi.
            rbind (if gn_weights node ! 2 = None then Inr None
              else rbind (tensor_get_f32_batch E (the (gn_weights node ! 2)) 0 (?p 3)) (\<lambda>b. Inr (Some b))) (\<lambda>nw. Inr (a_log, dt_bi, nw))))"])
      (simp_all add: cpu_graph_op_def op_ssm_delta_def op_weight_def op_param_def Let_def rbind_assoc cong: if_cong)
qed

end
