(* ===== verification/CpuRowScan.thy ===== *)
theory CpuRowScan
  imports CpuRowRec
begin

text \<open>The selective scan: every head advances its state cells and writes its output cells.\<close>

section \<open>Loops over a state and an output\<close>

text \<open>The state develops by itself; the output cells of \<open>A\<close> are functions of it, others stay.\<close>

definition pair_local :: "nat set \<Rightarrow> ('s \<times> buf \<Rightarrow> 's \<times> buf) \<Rightarrow> bool" where
  "pair_local A g \<longleftrightarrow> (\<exists>f e. \<forall>S d. g (S, d) = (f S, \<lambda>i. if i \<in> A then e S i else d i))"

lemma pair_localI: "(\<And>S d. g (S, d) = (f S, \<lambda>i. if i \<in> A then e S i else d i)) \<Longrightarrow> pair_local A g"
  unfolding pair_local_def by blast

lemma pair_local_comp: "pair_local A g \<Longrightarrow> pair_local B h \<Longrightarrow> pair_local (A \<union> B) (\<lambda>x. h (g x))"
proof -
  assume "pair_local A g" "pair_local B h"
  then obtain f e f' e' where g: "\<And>S d. g (S, d) = (f S, \<lambda>i. if i \<in> A then e S i else d i)"
    and h: "\<And>S d. h (S, d) = (f' S, \<lambda>i. if i \<in> B then e' S i else d i)" unfolding pair_local_def by blast
  show ?thesis
    by (rule pair_localI [where f = "\<lambda>S. f' (f S)" and e = "\<lambda>S i. if i \<in> B then e' (f S) i else e S i"]) (auto simp: g h)
qed

lemma pair_local_fold: "(\<And>x. x \<in> set xs \<Longrightarrow> pair_local (A x) (g x)) \<Longrightarrow> pair_local (\<Union>x \<in> set xs. A x) (fold g xs)"
proof (induction xs)
  case Nil
  show ?case by (rule pair_localI [where f = id]) simp
next
  case (Cons x xs)
  then show ?case using pair_local_comp [of "A x" "g x" "\<Union>x \<in> set xs. A x" "fold g xs"] by (simp add: comp_def)
qed

section \<open>One head\<close>

definition scan_index :: "u32 \<Rightarrow> nat \<Rightarrow> nat \<Rightarrow> nat" where
  "scan_index hw h d = unat (w32 h * hw + w32 d)"

lemma pair_local_cell: "pair_local {scan_index hw h d} (scan_cell F xr bg cg pr dvec ds dtv dA hw h d)"
  by (rule pair_localI) (auto simp: scan_cell_def Let_def scan_index_def fun_upd_def)

lemma pair_local_head:
  "pair_local (\<Union>d \<in> {0 ..< unat hw}. {scan_index hw h d}) (scan_head F xr pr avec dvec dtb dt hw ds ng d_inner hpg h)"
proof -
  let ?cell = "scan_cell F xr (ptr (ptr xr (unat d_inner)) (unat (w32 h div hpg) * unat ds))
    (ptr (ptr (ptr xr (unat d_inner)) (unat (ng * ds))) (unat (w32 h div hpg) * unat ds)) pr dvec (unat ds)
    (softplus F (fadd F (dt h) (dtb h))) (fexp F (fmul F (softplus F (fadd F (dt h) (dtb h))) (avec h))) hw h"
  have "scan_head F xr pr avec dvec dtb dt hw ds ng d_inner hpg h = fold ?cell [0 ..< unat hw]"
    by (rule ext) (simp only: scan_head_def Let_def)
  then show ?thesis using pair_local_fold [of "[0 ..< unat hw]" "\<lambda>d. {scan_index hw h d}" ?cell] pair_local_cell by simp
qed

lemma fill_cong: "(\<And>i. i < n \<Longrightarrow> g i = g' i) \<Longrightarrow> fill n g = fill n g'"
  by (intro ext) (simp add: fill_def)

lemma scan_cell_cong:
  assumes "xr (scan_index hw h d) = xr' (scan_index hw h d)" and "pr (scan_index hw h d) = pr' (scan_index hw h d)"
    and "\<And>i. i < ds \<Longrightarrow> bg i = bg' i" and "\<And>i. i < ds \<Longrightarrow> cg i = cg' i"
  shows "scan_cell F xr bg cg pr dvec ds dtv dA hw h d = scan_cell F xr' bg' cg' pr' dvec ds dtv dA hw h d"
proof (rule ext)
  fix so
  have "fill ds (\<lambda>i. fadd F (f i) (fmul F (bg i) v)) = fill ds (\<lambda>i. fadd F (f i) (fmul F (bg' i) v))" for f v
    using assms(3) by (intro fill_cong) simp
  moreover have "fsum F ds (\<lambda>i. fmul F (f i) (cg i)) = fsum F ds (\<lambda>i. fmul F (f i) (cg' i))" for f
    using assms(4) by (intro fsum_cong) simp
  ultimately show "scan_cell F xr bg cg pr dvec ds dtv dA hw h d so = scan_cell F xr' bg' cg' pr' dvec ds dtv dA hw h d so"
    using assms(1,2) by (cases so) (simp add: scan_cell_def Let_def scan_index_def)
qed

lemma scan_head_cong:
  assumes "\<And>d. d < unat hw \<Longrightarrow> xr (scan_index hw h d) = xr' (scan_index hw h d) \<and> pr (scan_index hw h d) = pr' (scan_index hw h d)"
    and "dt h = dt' h" and "g = unat (w32 h div hpg)"
    and "\<And>i. i < unat ds \<Longrightarrow> xr (unat d_inner + g * unat ds + i) = xr' (unat d_inner + g * unat ds + i)"
    and "\<And>i. i < unat ds \<Longrightarrow>
      xr (unat d_inner + unat (ng * ds) + g * unat ds + i) = xr' (unat d_inner + unat (ng * ds) + g * unat ds + i)"
  shows "scan_head F xr pr avec dvec dtb dt hw ds ng d_inner hpg h so = scan_head F xr' pr' avec dvec dtb dt' hw ds ng d_inner hpg h so"
  unfolding scan_head_def Let_def assms(2) assms(3) [symmetric] using assms(1,4,5)
  by (intro fold_cong refl scan_cell_cong) (simp_all add: ptr_def add.assoc)

section \<open>The operator\<close>

text \<open>Word arithmetic of the geometry is exact when the widths are.\<close>

lemma scan_geometry:
  fixes nh hw ds ng d_inner :: u32
  assumes nz: "ds \<noteq> 0" "ng \<noteq> 0" and dvd: "nh mod ng = 0" and od: "unat nh * unat hw = unat d_inner"
    and w: "unat d_inner + 2 * unat ng * unat ds + unat d_inner + unat nh < 2 ^ 32"
  shows "unat (d_inner + 2 * ng * ds) = unat d_inner + 2 * unat ng * unat ds"
    and "unat (d_inner + 2 * ng * ds + d_inner + nh) = unat d_inner + 2 * unat ng * unat ds + unat d_inner + unat nh"
    and "unat (ng * ds) = unat ng * unat ds"
    and "h < unat nh \<Longrightarrow> unat (w32 h div (nh div ng)) < unat ng"
    and "h < unat nh \<Longrightarrow> d < unat hw \<Longrightarrow> scan_index hw h d = h * unat hw + d"
proof -
  have ds: "0 < unat ds" "0 < unat ng" using nz by (simp_all add: unat_gt_0)
  have "2 * unat ng * 1 \<le> 2 * unat ng * unat ds" using ds by (intro mult_le_mono2) simp
  then have le: "2 * unat ng < 2 ^ 32" using w by linarith
  show ngds: "unat (ng * ds) = unat ng * unat ds" using w by (intro unat_mult_lem [THEN iffD1]) simp
  have two: "unat (2 * ng) = 2 * unat ng" using le by (subst unat_mult_lem [THEN iffD1]) simp_all
  have "2 * unat ng * unat ds < 2 ^ 32" using w by linarith
  then have "unat (2 * ng) * unat ds < 2 ^ LENGTH(32)" unfolding two by simp
  from unat_mult_lem [THEN iffD1, OF this] have two': "unat (2 * ng * ds) = 2 * unat ng * unat ds" by (simp only: two)
  show cd: "unat (d_inner + 2 * ng * ds) = unat d_inner + 2 * unat ng * unat ds"
    using w two' by (subst unat_add_lem [THEN iffD1]) simp_all
  show "unat (d_inner + 2 * ng * ds + d_inner + nh) = unat d_inner + 2 * unat ng * unat ds + unat d_inner + unat nh"
    using w cd by (subst unat_add3) simp_all
  assume h: "h < unat nh"
  have h32: "unat (w32 h) = h" using h w by (intro unat_w32) simp
  have "unat nh mod unat ng = 0" using dvd by (metis unat_0 unat_mod)
  then obtain q where q: "unat nh = unat ng * q" by blast
  then have "0 < q" using h by (cases q) auto
  have "unat (nh div ng) = q" using q ds by (simp add: unat_div)
  then have "unat (w32 h div (nh div ng)) = h div q" by (simp add: unat_div h32)
  also have "\<dots> < unat ng" using h q \<open>0 < q\<close> by (simp add: less_mult_imp_div_less)
  finally show "unat (w32 h div (nh div ng)) < unat ng" .
  assume d: "d < unat hw"
  then have d32: "unat (w32 d) = d" using unsigned_less [of hw, where 'a = nat] by (intro unat_w32) simp
  have "h * unat hw + d < Suc h * unat hw" using d by simp
  also have "\<dots> \<le> unat nh * unat hw" using h by (intro mult_le_mono1) simp
  also have "\<dots> < 2 ^ 32" using od w by simp
  finally have hd: "h * unat hw + d < 2 ^ 32" .
  then have "unat (w32 h * hw) = h * unat hw" using h32 by (subst unat_mult_lem [THEN iffD1]) simp_all
  then show "scan_index hw h d = h * unat hw + d"
    unfolding scan_index_def using hd d32 by (subst unat_add_lem [THEN iffD1]) simp_all
qed


lemma row_op_mamba2_scan:
  assumes op: "gn_op node = OP_MAMBA2_SCAN" and od: "od \<noteq> 0"
    and w: "W 0 = unat (gn_params node ! 5) + 2 * unat (gn_params node ! 4) * unat (gn_params node ! 3)"
      "W 1 = W 0 + unat (gn_params node ! 5) + unat (gn_params node ! 1)" "W 1 < 2 ^ 32"
    and p: "od = unat (gn_params node ! 5)" "unat (gn_params node ! 1) * unat (gn_params node ! 2) = unat (gn_params node ! 5)"
  shows "row_op E node od W"
proof -
  let ?p = "\<lambda>k. gn_params node ! k" and ?F = "ce_floats E"
  let ?cd = "?p 5 + 2 * ?p 4 * ?p 3" and ?slot = "Recurrent (ce_states E ! unat (gn_params node ! 0))"
  let ?pw = "?cd + ?p 5 + ?p 1" and ?gs = "unat (?p 5 div ?p 4)"
  let ?w = "\<lambda>k. if k = 0 then unat ?cd else unat ?pw"
  let ?run = "\<lambda>avec dvec dtb x. fold (scan_head ?F (x 0) (x 1) avec dvec dtb (ptr (x (1 :: nat)) (unat (?p 5) + unat ?cd))
      (?p 2) (?p 3) (?p 4) (?p 5) (?p 1 div ?p 4)) [0 ..< unat (?p 1)]"
  let ?norm = "\<lambda>nw y. case nw of None \<Rightarrow> y | Some b \<Rightarrow>
      fold (\<lambda>g. via (g * ?gs) (rms_norm_inplace ?F (ptr b (g * ?gs)) ?gs f_default_eps)) [0 ..< unat (?p 4)] y"
  let ?body = "\<lambda>(avec, dvec, dtb, nw) pos x d s.
      let (S, y) = ?run avec dvec dtb x (s ?slot, d) in Inr (?norm nw y, s(?slot := S))"
  let ?bad = "unat (?p 0) \<ge> length (ce_states E) \<or> ?p 1 = 0 \<or> ?p 2 = 0 \<or> ?p 3 = 0 \<or> ?p 4 = 0
      \<or> ?p 1 mod ?p 4 \<noteq> 0 \<or> ?p 1 * ?p 2 \<noteq> ?p 5 \<or> od \<noteq> unat (?p 5)"
  show ?thesis
  proof (cases ?bad)
    case True
    have "row_local 2 W od (\<lambda>pos x d s. Inr (fill od (\<lambda>_. 0) d, s))"
      by (simp add: row_local_def fill_fill)
    then show ?thesis using op od True
      by (intro row_op_weights [where wd = W and body = "\<lambda>(_ :: unit) pos x d s. Inr (fill od (\<lambda>_. 0) d, s)"
            and bad = True and weights = "Inr ()"])
        (auto simp: cpu_graph_op_def op_mamba2_scan_def op_param_def Let_def)
  next
    case False
    have fits: "unat (?p 5) + 2 * unat (?p 4) * unat (?p 3) + unat (?p 5) + unat (?p 1) < 2 ^ 32" using w by linarith
    have nz: "?p 3 \<noteq> 0" "?p 4 \<noteq> 0" "?p 1 mod ?p 4 = 0" using False by blast+
    note geo = scan_geometry [OF nz p(2) fits]
    have W: "unat ?cd = W 0" "unat ?pw = W 1" using geo(1,2) w by simp_all
    have gs: "unat (?p 4) * ?gs \<le> od" unfolding p(1) unat_div by simp
    have norm: "local_to {..<od} (?norm nw)" for nw
    proof (cases nw)
      case (Some b)
      have "local_to {..<od} (fold (\<lambda>g. via (g * ?gs) (rms_norm_inplace ?F (ptr b (g * ?gs)) ?gs f_default_eps)) [0 ..< unat (?p 4)])"
        using gs by (intro local_heads local_intro) simp_all
      then show ?thesis using Some by simp
    qed (simp add: local_id [unfolded id_def])
    have cells: "(\<Union>h \<in> set [0 ..< unat (?p 1)]. \<Union>d \<in> {0 ..< unat (?p 2)}. {scan_index (?p 2) h d}) = {..<od}"
    proof (intro equalityI subsetI)
      fix i assume "i \<in> {..<od}"
      then have i: "i < unat (?p 1) * unat (?p 2)" using p by simp
      then have "0 < unat (?p 2)" by (cases "unat (?p 2)") auto
      then have "i div unat (?p 2) < unat (?p 1)" "i mod unat (?p 2) < unat (?p 2)" "scan_index (?p 2) (i div unat (?p 2)) (i mod unat (?p 2)) = i"
        using i geo(5) by (simp_all add: less_mult_imp_div_less)
      then show "i \<in> (\<Union>h \<in> set [0 ..< unat (?p 1)]. \<Union>d \<in> {0 ..< unat (?p 2)}. {scan_index (?p 2) h d})" by force
    next
      fix i assume "i \<in> (\<Union>h \<in> set [0 ..< unat (?p 1)]. \<Union>d \<in> {0 ..< unat (?p 2)}. {scan_index (?p 2) h d})"
      then obtain h d where hd: "h < unat (?p 1)" "d < unat (?p 2)" "i = h * unat (?p 2) + d" using geo(5) by auto
      then have "i < Suc h * unat (?p 2)" by simp
      also have "\<dots> \<le> unat (?p 1) * unat (?p 2)" using hd(1) by (intro mult_le_mono1) simp
      finally show "i \<in> {..<od}" using p by simp
    qed
    have "row_local 2 ?w od (?body wb)" for wb
      unfolding row_local_def
    proof (intro allI)
      fix pos :: u32 and x d s
      obtain avec dvec dtb nw where wb: "wb = (avec, dvec, dtb, nw)" by (cases wb) auto
      let ?x = "row_cut 2 ?w x"
      have r0: "?x 0 i = x 0 i" if "i < W 0" for i using that W by simp
      have r1: "?x 1 i = x 1 i" if "i < W 1" for i using that W by simp
      have run: "?run avec dvec dtb x so = ?run avec dvec dtb ?x so" for so
      proof (intro fold_cong refl ext)
        fix h so assume "h \<in> set [0 ..< unat (?p 1)]"
        then have h: "h < unat (?p 1)" by simp
        have g: "unat (w32 h div (?p 1 div ?p 4)) * unat (?p 3) + i < unat (?p 4) * unat (?p 3)" if "i < unat (?p 3)" for i
        proof -
          have "unat (w32 h div (?p 1 div ?p 4)) * unat (?p 3) + i < Suc (unat (w32 h div (?p 1 div ?p 4))) * unat (?p 3)"
            using that by simp
          also have "\<dots> \<le> unat (?p 4) * unat (?p 3)" using geo(4) [OF h] by (intro mult_le_mono1) simp
          finally show ?thesis .
        qed
        have ii: "scan_index (?p 2) h d < od" if "d < unat (?p 2)" for d
        proof -
          have "scan_index (?p 2) h d \<in> (\<Union>h \<in> set [0 ..< unat (?p 1)]. \<Union>d \<in> {0 ..< unat (?p 2)}. {scan_index (?p 2) h d})"
            using h that by (intro UN_I [of h] UN_I [of d]) simp_all
          then show ?thesis unfolding cells by simp
        qed
        show "scan_head ?F (x 0) (x 1) avec dvec dtb (ptr (x 1) (unat (?p 5) + unat ?cd)) (?p 2) (?p 3) (?p 4) (?p 5) (?p 1 div ?p 4) h so
          = scan_head ?F (?x 0) (?x 1) avec dvec dtb (ptr (?x 1) (unat (?p 5) + unat ?cd)) (?p 2) (?p 3) (?p 4) (?p 5) (?p 1 div ?p 4) h so"
        proof (rule scan_head_cong [OF _ _ refl])
          show "x 0 (scan_index (?p 2) h d) = ?x 0 (scan_index (?p 2) h d) \<and> x 1 (scan_index (?p 2) h d) = ?x 1 (scan_index (?p 2) h d)"
            if "d < unat (?p 2)" for d using ii [OF that] w p(1) by (intro conjI r0 [symmetric] r1 [symmetric]) linarith+
          show "ptr (x 1) (unat (?p 5) + unat ?cd) h = ptr (?x 1) (unat (?p 5) + unat ?cd) h"
            unfolding ptr_def using h w W by (intro r1 [symmetric]) linarith
          show "x 0 (unat (?p 5) + unat (w32 h div (?p 1 div ?p 4)) * unat (?p 3) + i)
              = ?x 0 (unat (?p 5) + unat (w32 h div (?p 1 div ?p 4)) * unat (?p 3) + i)" if "i < unat (?p 3)" for i
            using g [OF that] w by (intro r0 [symmetric]) linarith
          show "x 0 (unat (?p 5) + unat (?p 4 * ?p 3) + unat (w32 h div (?p 1 div ?p 4)) * unat (?p 3) + i)
              = ?x 0 (unat (?p 5) + unat (?p 4 * ?p 3) + unat (w32 h div (?p 1 div ?p 4)) * unat (?p 3) + i)" if "i < unat (?p 3)" for i
            using g [OF that] w geo(3) by (intro r0 [symmetric]) linarith
        qed
      qed
      have "pair_local (\<Union>h \<in> set [0 ..< unat (?p 1)]. \<Union>d \<in> {0 ..< unat (?p 2)}. {scan_index (?p 2) h d}) (?run avec dvec dtb ?x)"
        by (rule pair_local_fold) (rule pair_local_head)
      then have "pair_local {..<od} (?run avec dvec dtb ?x)" by (simp only: cells)
      then obtain S e where e: "\<And>d. ?run avec dvec dtb ?x (s ?slot, d) = (S, fill od e d)"
        unfolding pair_local_def fill_def by auto
      show "?body wb pos x d s = rbind (?body wb pos ?x (\<lambda>_. 0) s) (\<lambda>(y, s'). Inr (fill od y d, s'))"
        unfolding wb prod.case run e Let_def rbind_simps local_fill_split [OF norm, symmetric] ..
    qed
    moreover have "?w k = W k" if "k < 2" for k using that W by (auto simp: less_2_cases_iff)
    ultimately show ?thesis
      using op od False
      by (intro row_op_weights [where wd = ?w and body = ?body and bad = ?bad and
          weights = "rbind (tensor_get_f32_batch E (the (gn_weights node ! 0)) 0 (unat (?p 1))) (\<lambda>avec.
            rbind (tensor_get_f32_batch E (the (gn_weights node ! 1)) 0 (unat (?p 1))) (\<lambda>dvec.
            rbind (tensor_get_f32_batch E (the (gn_weights node ! 2)) 0 (unat (?p 1))) (\<lambda>dtb.
            rbind (if gn_weights node ! 3 = None then Inr None
              else rbind (tensor_get_f32_batch E (the (gn_weights node ! 3)) 0 (unat (?p 5))) (\<lambda>b. Inr (Some b)))
              (\<lambda>nw. Inr (avec, dvec, dtb, nw)))))"])
        (simp_all add: cpu_graph_op_def op_mamba2_scan_def op_weight_def op_param_def Let_def rbind_assoc cong: if_cong)
  qed
qed

end
