(* ===== verification/CpuMatmul.thy ===== *)
theory CpuMatmul
  imports CpuRowScan
begin

text \<open>Matrix products: the chunked batch product, its chunks run by the pool in any order, is the
  row-by-row product.  What \<open>cpu.h\<close> promises of the SIMD routines is \<open>simd_sums\<close>: they are the sums
  their comments state, taken in index order.\<close>

section \<open>Loops\<close>

lemma rmap_Inr: "(\<And>x. x \<in> set xs \<Longrightarrow> f x = Inr (g x)) \<Longrightarrow> rmap f xs = Inr (map g xs)"
  by (induction xs) simp_all

lemma rfold_Inr: "(\<And>x s. x \<in> set xs \<Longrightarrow> f x s = Inr (g x s)) \<Longrightarrow> rfold f xs s = Inr (fold g xs s)"
  by (induction xs arbitrary: s) simp_all

lemma fold_upd_at: "fold (\<lambda>i y. y(i := v i)) xs y = (\<lambda>i. if i \<in> set xs then v i else y i)"
  by (induction xs arbitrary: y) auto

lemma fold_if: "fold (\<lambda>x y i. if P x i then v i else y i) xs y = (\<lambda>i. if \<exists>x \<in> set xs. P x i then v i else y i)"
  by (induction xs arbitrary: y) auto

lemma concat_nth_rows:
  "(\<And>x. x \<in> set xss \<Longrightarrow> length x = n) \<Longrightarrow> r < length xss \<Longrightarrow> k < n \<Longrightarrow> concat xss ! (r * n + k) = xss ! r ! k"
proof (induction xss arbitrary: r)
  case (Cons x xss)
  then have x: "length x = n" by simp
  show ?case
  proof (cases r)
    case 0
    then show ?thesis using Cons.prems(3) x by (simp add: nth_append)
  next
    case (Suc q)
    then have "concat xss ! (q * n + k) = xss ! q ! k" using Cons by simp
    then show ?thesis using Suc x by (simp add: nth_append)
  qed
qed simp

section \<open>The product\<close>

definition simd_sums :: "cpu_env \<Rightarrow> bool" where
  "simd_sums E \<longleftrightarrow>
     \<not> ce_dotprod E
     \<and> (\<forall>w i x. ce_dot E w i (length x) x = fsum (ce_floats E) (length x) (\<lambda>j. fmul (ce_floats E) (ce_dequant E w (i + j)) (x ! j)))
     \<and> (\<forall>w i n k. k < n \<longrightarrow> ce_dequant_batch E w i n k = ce_dequant E w (i + k))
     \<and> (\<forall>A B M K N r b. r < M \<longrightarrow> b < N \<longrightarrow> length A = M * K \<longrightarrow> length B = K * N \<longrightarrow>
          ce_mat_mat E A B M K N (r * N + b) = fsum (ce_floats E) K (\<lambda>k. fmul (ce_floats E) (A ! (r * K + k)) (B ! (k * N + b))))
     \<and> (\<forall>n. mset (ce_order E n) = mset [0 ..< n])"

definition mat_product :: "cpu_env \<Rightarrow> nat \<Rightarrow> nat \<Rightarrow> nat \<Rightarrow> bool \<Rightarrow> buf \<Rightarrow> nat \<Rightarrow> u32" where
  "mat_product E w rows cols tr x r =
     fsum (ce_floats E) cols (\<lambda>k. fmul (ce_floats E) (ce_dequant E w (if tr then k * rows + r else r * cols + k)) (x k))"

definition tensor_holds :: "cpu_env \<Rightarrow> nat \<Rightarrow> nat \<Rightarrow> bool" where
  "tensor_holds E w n \<longleftrightarrow> n \<le> ti_n_element (ce_ts E ! w) \<and> n < 2 ^ 64"

lemma cell_bound: "r < rows \<Longrightarrow> k < cols \<Longrightarrow> r * cols + k < rows * (cols :: nat)"
proof -
  assume "r < rows" "k < cols"
  then have "r * cols + k < Suc r * cols" by simp
  also have "\<dots> \<le> rows * cols" using \<open>r < rows\<close> by (intro mult_le_mono1) simp
  finally show ?thesis .
qed

lemma order_set: "simd_sums E \<Longrightarrow> set (index_order E n) = {0 ..< n}"
proof -
  assume "simd_sums E"
  then have "mset (ce_order E n) = mset [0 ..< n]" by (simp add: simd_sums_def)
  then have "set (ce_order E n) = {0 ..< n}" by (metis mset_eq_setD set_upt)
  then show ?thesis by (simp add: index_order_def)
qed

lemma trans_weights:
  assumes "tensor_holds E w (rows * cols)" and "set rs \<subseteq> {..<rows}"
  shows "rmap (\<lambda>r. rmap (\<lambda>k. tensor_get_f32 E w (k * rows + r)) [0 ..< cols]) rs
    = Inr (map (\<lambda>r. map (\<lambda>k. ce_dequant E w (k * rows + r)) [0 ..< cols]) rs)"
proof (intro rmap_Inr)
  fix r k assume "r \<in> set rs" "k \<in> set [0 ..< cols]"
  then have "k * rows + r < rows * cols" using cell_bound [of k cols r rows] assms(2) by (auto simp: mult.commute)
  then show "tensor_get_f32 E w (k * rows + r) = Inr (ce_dequant E w (k * rows + r))"
    using assms(1) by (simp add: tensor_get_f32_def tensor_holds_def)
qed

lemma simd_dot:
  "simd_sums E \<Longrightarrow> ce_dot E w i (length x) x = fsum (ce_floats E) (length x) (\<lambda>j. fmul (ce_floats E) (ce_dequant E w (i + j)) (x ! j))"
  by (simp add: simd_sums_def)

lemma matvec_row_sum:
  "simd_sums E \<Longrightarrow> matvec_row E w (map x [0 ..< cols]) r = mat_product E w rows cols False x r"
proof -
  assume s: "simd_sums E"
  have "ce_dot E w (r * cols) (length (map x [0 ..< cols])) (map x [0 ..< cols])
      = fsum (ce_floats E) (length (map x [0 ..< cols]))
          (\<lambda>j. fmul (ce_floats E) (ce_dequant E w (r * cols + j)) (map x [0 ..< cols] ! j))"
    by (rule simd_dot [OF s])
  also have "\<dots> = mat_product E w rows cols False x r"
    unfolding mat_product_def length_map length_upt diff_zero by (rule fsum_cong) simp
  finally show ?thesis using s by (simp add: matvec_row_def simd_sums_def)
qed

text \<open>One row.\<close>

lemma mat_vec_mul_product:
  assumes s: "simd_sums E" and o': "mat_oriented (ce_ts E) w rows cols tr" and h: "tensor_holds E w (rows * cols)"
  shows "mat_vec_mul E w x rows cols tr y = Inr (True, fill rows (mat_product E w rows cols tr x) y)"
proof (cases tr)
  case True
  have "fill rows (\<lambda>r. fsum (ce_floats E) cols (\<lambda>k. fmul (ce_floats E)
      (map (\<lambda>r. map (\<lambda>k. ce_dequant E w (k * rows + r)) [0 ..< cols]) [0 ..< rows] ! r ! k) (x k))) y
      = fill rows (mat_product E w rows cols tr x) y"
    by (rule ext) (auto simp: fill_def mat_product_def True intro!: fsum_cong)
  then show ?thesis
    using o' True trans_weights [OF h, of "[0 ..< rows]"] by (simp add: mat_vec_mul_def atLeast0LessThan)
next
  case False
  then show ?thesis
    using o' by (auto simp: mat_vec_mul_def fold_upd_at order_set [OF s] fill_def matvec_row_sum [OF s])
qed

section \<open>Chunks\<close>

lemma matmat_weights_rows:
  assumes s: "simd_sums E" and h: "tensor_holds E w (rows * cols)" and c: "cols \<noteq> 0" and r1: "r1 \<le> rows"
  shows "matmat_weights E w rows cols tr r0 r1
    = Inr (concat (map (\<lambda>r. map (\<lambda>k. ce_dequant E w (if tr then k * rows + r else r * cols + k)) [0 ..< cols]) [r0 ..< r1]))"
proof (cases tr)
  case True
  have "set [r0 ..< r1] \<subseteq> {..<rows}" using r1 by auto
  then show ?thesis using True by (simp add: matmat_weights_def trans_weights [OF h])
next
  case False
  have "rbind (tensor_get_f32_batch E w (r * cols) cols) (\<lambda>b. Inr (map b [0 ..< cols]))
      = Inr (map (\<lambda>k. ce_dequant E w (r * cols + k)) [0 ..< cols])" if "r \<in> set [r0 ..< r1]" for r
  proof -
    have "r * cols + cols \<le> rows * cols" using that r1 mult_le_mono1 [of "Suc r" rows cols] by simp
    then have "add64 (r * cols) cols \<le> ti_n_element (ce_ts E ! w)" using h by (simp add: tensor_holds_def)
    then show ?thesis using c s by (simp add: tensor_get_f32_batch_def simd_sums_def)
  qed
  then have "rmap (\<lambda>r. rbind (tensor_get_f32_batch E w (r * cols) cols) (\<lambda>b. Inr (map b [0 ..< cols]))) [r0 ..< r1]
      = Inr (map (\<lambda>r. map (\<lambda>k. ce_dequant E w (r * cols + k)) [0 ..< cols]) [r0 ..< r1])" by (rule rmap_Inr)
  then show ?thesis using False by (simp add: matmat_weights_def)
qed

lemma matmat_chunk_product:
  assumes s: "simd_sums E" and h: "tensor_holds E w (rows * cols)" and c: "cols \<noteq> 0" and r1: "r1 \<le> rows"
    and xt: "xt = map (\<lambda>i. x (i mod batch * cols + i div batch)) [0 ..< cols * batch]"
  shows "matmat_chunk E w xt batch rows cols tr r0 r1 Y
    = Inr (\<lambda>i. if i div rows < batch \<and> r0 \<le> i mod rows \<and> i mod rows < r1
               then mat_product E w rows cols tr (ptr x (i div rows * cols)) (i mod rows) else Y i)"
proof -
  let ?W = "map (\<lambda>r. map (\<lambda>k. ce_dequant E w (if tr then k * rows + r else r * cols + k)) [0 ..< cols]) [r0 ..< r1]"
  have len: "length (concat ?W) = (r1 - r0) * cols" by (simp add: length_concat comp_def sum_list_triv)
  have cell: "ce_mat_mat E (concat ?W) xt (r1 - r0) cols batch ((q - r0) * batch + b)
      = mat_product E w rows cols tr (ptr x (b * cols)) q" if "b < batch" "r0 \<le> q" "q < r1" for q b
  proof -
    have "ce_mat_mat E (concat ?W) xt (r1 - r0) cols batch ((q - r0) * batch + b)
        = fsum (ce_floats E) cols (\<lambda>k. fmul (ce_floats E) (concat ?W ! ((q - r0) * cols + k)) (xt ! (k * batch + b)))"
      using s that len unfolding simd_sums_def by (simp add: xt)
    also have "\<dots> = mat_product E w rows cols tr (ptr x (b * cols)) q"
      unfolding mat_product_def
    proof (rule fsum_cong)
      fix k assume k: "k < cols"
      have "concat ?W ! ((q - r0) * cols + k) = ?W ! (q - r0) ! k"
        using that k by (intro concat_nth_rows) auto
      also have "\<dots> = ce_dequant E w (if tr then k * rows + q else q * cols + k)" using that k by simp
      finally have "concat ?W ! ((q - r0) * cols + k) = ce_dequant E w (if tr then k * rows + q else q * cols + k)" .
      moreover have "xt ! (k * batch + b) = x (b * cols + k)"
        using cell_bound [OF k that(1)] that(1) by (simp add: xt)
      ultimately show "fmul (ce_floats E) (concat ?W ! ((q - r0) * cols + k)) (xt ! (k * batch + b))
          = fmul (ce_floats E) (ce_dequant E w (if tr then k * rows + q else q * cols + k)) (ptr x (b * cols) k)"
        by (simp add: ptr_def)
    qed
    finally show ?thesis .
  qed
  show ?thesis
    unfolding matmat_chunk_def matmat_weights_rows [OF s h c r1] Let_def rbind_simps
    by (intro arg_cong [of _ _ Inr] ext) (simp add: cell)
qed

text \<open>The batch.\<close>

lemma mat_mat_mul_product:
  assumes s: "simd_sums E" and o': "mat_oriented (ce_ts E) w rows cols tr" and h: "tensor_holds E w (rows * cols)"
    and rows: "rows \<noteq> 0" and cols: "cols \<noteq> 0"
  shows "mat_mat_mul E w x batch rows cols tr Y
    = Inr (True, \<lambda>i. if i < batch * rows then mat_product E w rows cols tr (ptr x (i div rows * cols)) (i mod rows) else Y i)"
proof (cases "batch = 0")
  case True
  then show ?thesis using o' by (simp add: mat_mat_mul_def)
next
  case False
  let ?xt = "map (\<lambda>i. x (i mod batch * cols + i div batch)) [0 ..< cols * batch]"
  let ?P = "\<lambda>idx i. i div rows < batch \<and> idx * 16 \<le> i mod rows \<and> i mod rows < (if idx * 16 + 16 > rows then rows else idx * 16 + 16)"
  let ?v = "\<lambda>i. mat_product E w rows cols tr (ptr x (i div rows * cols)) (i mod rows)"
  have worker: "matmat_worker E w ?xt batch rows cols tr idx Y = Inr (\<lambda>i. if ?P idx i then ?v i else Y i)" for idx Y
    unfolding matmat_worker_def Let_def
    by (rule matmat_chunk_product [OF s h cols _ refl]) simp
  have all: "(\<exists>idx \<in> {0 ..< (rows + 15) div 16}. ?P idx i) = (i < batch * rows)" for i
  proof
    assume "\<exists>idx \<in> {0 ..< (rows + 15) div 16}. ?P idx i"
    then show "i < batch * rows" using rows by (auto simp: div_less_iff_less_mult)
  next
    assume "i < batch * rows"
    then have "i div rows < batch" by (simp add: less_mult_imp_div_less)
    moreover have "i mod rows < rows" using rows by simp
    then have "i mod rows div 16 < (rows + 15) div 16" "i mod rows div 16 * 16 \<le> i mod rows" "i mod rows < i mod rows div 16 * 16 + 16"
      by linarith+
    ultimately show "\<exists>idx \<in> {0 ..< (rows + 15) div 16}. ?P idx i"
      using \<open>i mod rows < rows\<close> by (intro bexI [of _ "i mod rows div 16"]) auto
  qed
  have "rfold (matmat_worker E w ?xt batch rows cols tr) (index_order E ((rows + 15) div 16)) Y
      = Inr (\<lambda>i. if i < batch * rows then ?v i else Y i)"
    by (subst rfold_Inr [where g = "\<lambda>idx Y i. if ?P idx i then ?v i else Y i"])
      (simp_all only: worker fold_if order_set [OF s] all)
  then show ?thesis using o' rows cols False by (simp add: mat_mat_mul_def Let_def)
qed


section \<open>The operator\<close>

lemma each_row_plain:
  "each_row cnt base od pos srcs w (plain (\<lambda>pos x. fill od (g x))) dst st =
     Inr (True, \<lambda>i. if i < cnt * od then g (\<lambda>k. ptr (op_src srcs k) ((base + i div od) * w k)) (i mod od) else dst i, st)"
proof -
  let ?v = "\<lambda>i. g (\<lambda>k. ptr (op_src srcs k) ((base + i div od) * w k)) (i mod od)"
  have "rfold (row_step base od pos srcs w (plain (\<lambda>pos x. fill od (g x)))) [0 ..< cnt] (dst, st)
      = Inr (\<lambda>i. if i < cnt * od then ?v i else dst i, st)"
  proof (induction cnt)
    case (Suc n)
    have "put (n * od) (fill od (g (\<lambda>k. ptr (op_src srcs k) ((base + n) * w k))) (ptr d (n * od))) d
        = (\<lambda>i. if n * od \<le> i \<and> i < Suc n * od then ?v i else d i)" for d
    proof
      fix i
      show "put (n * od) (fill od (g (\<lambda>k. ptr (op_src srcs k) ((base + n) * w k))) (ptr d (n * od))) d i
          = (if n * od \<le> i \<and> i < Suc n * od then ?v i else d i)"
      proof (cases "n * od \<le> i \<and> i < Suc n * od")
        case True
        then have "i div od = n" by (intro div_in_block) simp_all
        moreover have "i mod od = i - n * od" using calculation by (simp add: minus_div_mult_eq_mod [symmetric])
        ultimately show ?thesis using True by (auto simp: put_def fill_def)
      next
        case False
        then show ?thesis by (auto simp: put_def fill_def ptr_def)
      qed
    qed
    then have step: "row_step base od pos srcs w (plain (\<lambda>pos x. fill od (g x))) n (d, s)
        = Inr (\<lambda>i. if n * od \<le> i \<and> i < Suc n * od then ?v i else d i, s)" for d s
      by (simp add: row_step_def plain_def)
    have "(\<lambda>i. if n * od \<le> i \<and> i < Suc n * od then ?v i else if i < n * od then ?v i else dst i)
        = (\<lambda>i. if i < Suc n * od then ?v i else dst i)" by (rule ext) auto
    then show ?case by (simp add: rfold_append Suc.IH step)
  qed simp
  then show ?thesis by (simp add: each_row_step)
qed

lemma row_op_matmul:
  assumes s: "simd_sums E" and op: "gn_op node \<in> {OP_MATMUL, OP_MATMULARRY, OP_MATMUL_T}" and od: "od \<noteq> 0" and w0: "W 0 \<noteq> 0" "W 0 < 2 ^ 32"
    and dims: "t_ndim (ce_ts E) (Some (the (gn_weights node ! 0))) = 2"
      "if gn_op node = OP_MATMUL_T
       then W 0 = t_dim (ce_ts E) (Some (the (gn_weights node ! 0))) 0 \<and> od = t_dim (ce_ts E) (Some (the (gn_weights node ! 0))) 1
       else W 0 = t_dim (ce_ts E) (Some (the (gn_weights node ! 0))) 1 \<and> od = t_dim (ce_ts E) (Some (the (gn_weights node ! 0))) 0"
    and h: "tensor_holds E (the (gn_weights node ! 0)) (od * W 0)"
  shows "row_op E node od W"
proof -
  let ?w = "the (gn_weights node ! 0)" and ?tr = "gn_op node = OP_MATMUL_T"
  let ?body = "plain (\<lambda>pos x. fill od (mat_product E ?w od (W 0) ?tr (x 0)))"
  have or: "mat_oriented (ce_ts E) ?w od (W 0) ?tr" using dims by (auto simp: mat_oriented_def Let_def split: if_splits)
  have m: "operands (gn_op node) = 1" using op by auto
  have cols: "unat (w32 (t_dim (ce_ts E) (Some ?w) (if ?tr then 0 else 1))) = W 0"
    using dims(2) w0(2) by (auto simp: unat_w32 split: if_splits)
  have "row_local 1 (\<lambda>_. W 0) od ?body"
    by (rule row_local_fill) (auto simp: mat_product_def intro!: fsum_cong)
  moreover have "op_matmul E c srcs dst st = each_row (oc_r c) (oc_base c) od (oc_pos c) srcs (\<lambda>_. W 0) ?body dst st"
    if "oc_node c = node" "oc_od c = od" for c srcs dst st
  proof -
    have "ptr (ptr (op_src srcs 0) (oc_base c * W 0)) (k * W 0) = ptr (op_src srcs 0) ((oc_base c + k) * W 0)" for k
      by (auto simp: ptr_def algebra_simps)
    moreover have "fill od (mat_product E ?w od (W 0) ?tr (ptr (op_src srcs 0) (oc_base c * W 0))) dst
        = (\<lambda>i. if i < 1 * od then mat_product E ?w od (W 0) ?tr (ptr (op_src srcs 0) ((oc_base c + i div od) * W 0)) (i mod od) else dst i)"
      by (rule ext) (simp add: fill_def)
    ultimately show ?thesis
      using mat_vec_mul_product [OF s or h] mat_mat_mul_product [OF s or h od w0(1)] that cols
      by (cases "oc_r c = 1") (simp_all add: op_matmul_def op_weight_def Let_def each_row_plain cong: if_cong)
  qed
  then have "cpu_graph_op E c srcs dst st = each_row (oc_r c) (oc_base c) od (oc_pos c) srcs (\<lambda>_. W 0) ?body dst st"
    if "oc_node c = node" "oc_od c = od" for c srcs dst st
    using that op od by (auto simp: cpu_graph_op_def)
  ultimately show ?thesis using m by (intro row_op_plainI [where w = "\<lambda>_. W 0" and body = ?body]) (auto dest: good_callD)
qed

section \<open>Concrete operators\<close>

text \<open>The pool runs its indices backward.\<close>

definition toy_cpu :: cpu_env where
  "toy_cpu = \<lparr>ce_floats = word_floats, ce_ts = [toy_matrix], ce_cfg = toy_config\<lparr>c_n_vocab := 6\<rparr>, ce_states = [],
     ce_dequant = (\<lambda>w i. of_nat i), ce_dequant_batch = (\<lambda>w i n k. of_nat (i + k)),
     ce_dot = (\<lambda>w i n x. fsum word_floats n (\<lambda>j. of_nat (i + j) * x ! j)), ce_dotprod = False,
     ce_quantize = (\<lambda>x. ([], 0)), ce_dot_i8 = (\<lambda>w i n q. 0),
     ce_mat_mat = (\<lambda>A B M K N j. fsum word_floats K (\<lambda>k. A ! (j div N * K + k) * B ! (k * N + j mod N))),
     ce_mat_vec = (\<lambda>A x M K r. fsum word_floats K (\<lambda>k. A ! (r * K + k) * x ! k)),
     ce_threads = 3, ce_order = (\<lambda>n. rev [0 ..< n]), ce_cache = True, ce_kv = (\<lambda>_. True), ce_cap = 8\<rparr>"

lemma toy_cpu_sums: "simd_sums toy_cpu"
  by (auto simp: simd_sums_def toy_cpu_def word_floats_def)

lemma toy_product:
  "case mat_mat_mul toy_cpu 0 (\<lambda>i. [20, 21, 22, 23, 12, 13, 14, 15] ! i) 2 6 4 False (\<lambda>_. 0) of
     Inl e \<Rightarrow> False | Inr (good, Y) \<Rightarrow> Y 0 = 134 \<and> Y 7 = 302 \<and> Y 12 = 0"
  by code_simp


end
