(* ===== verification/CpuAttn.thy ===== *)
theory CpuAttn
  imports CpuMatmul
begin

text \<open>Attention: writing the keys and values of the whole batch first and then attending row by row is
  the same as writing and attending one row at a time, because row \<open>qi\<close> reads the keys up to its own
  position only and the later rows write behind them.\<close>

section \<open>Rows that thread a state\<close>

definition row_states ::
    "nat \<Rightarrow> u32 list list \<Rightarrow> (nat \<Rightarrow> nat) \<Rightarrow> (u32 \<Rightarrow> (nat \<Rightarrow> buf) \<Rightarrow> cpu_state \<Rightarrow> cpu_state) \<Rightarrow> cpu_state \<Rightarrow> nat \<Rightarrow> cpu_state" where
  "row_states pos srcs w N st p = fold (\<lambda>q. N (w32 (pos + q)) (\<lambda>k. ptr (op_src srcs k) (q * w k))) [0 ..< p] st"

lemma each_row_states:
  fixes pos srcs w N st
  assumes body: "\<And>pos x d s. body pos x d s = Inr (fill od (C pos x s) d, N pos x s)"
  defines "S \<equiv> row_states pos srcs w N st"
  shows "each_row cnt 0 od pos srcs w body dst st =
     Inr (True, \<lambda>i. if i < cnt * od
       then C (w32 (pos + i div od)) (\<lambda>k. ptr (op_src srcs k) (i div od * w k)) (S (i div od)) (i mod od) else dst i, S cnt)"
proof -
  let ?v = "\<lambda>i. C (w32 (pos + i div od)) (\<lambda>k. ptr (op_src srcs k) (i div od * w k)) (S (i div od)) (i mod od)"
  have "rfold (row_step 0 od pos srcs w body) [0 ..< cnt] (dst, st) = Inr (\<lambda>i. if i < cnt * od then ?v i else dst i, S cnt)"
  proof (induction cnt)
    case 0
    then show ?case by (simp add: S_def row_states_def)
  next
    case (Suc n)
    let ?row = "C (w32 (pos + n)) (\<lambda>k. ptr (op_src srcs k) (n * w k)) (S n)"
    have put: "put (n * od) (fill od ?row (ptr d (n * od))) d = (\<lambda>i. if n * od \<le> i \<and> i < Suc n * od then ?v i else d i)" for d
    proof
      fix i
      show "put (n * od) (fill od ?row (ptr d (n * od))) d i = (if n * od \<le> i \<and> i < Suc n * od then ?v i else d i)"
      proof (cases "n * od \<le> i \<and> i < Suc n * od")
        case True
        then have n: "i div od = n" by (intro div_in_block) simp_all
        then have "i mod od = i - n * od" by (simp add: minus_div_mult_eq_mod [symmetric])
        then show ?thesis using True n by (auto simp: put_def fill_def)
      next
        case False
        then show ?thesis by (auto simp: put_def fill_def ptr_def)
      qed
    qed
    have step: "row_step 0 od pos srcs w body n (d, S n)
        = Inr (\<lambda>i. if n * od \<le> i \<and> i < Suc n * od then ?v i else d i, S (Suc n))" for d
      using put by (simp add: row_step_def body S_def row_states_def)
    have "(\<lambda>i. if n * od \<le> i \<and> i < Suc n * od then ?v i else if i < n * od then ?v i else dst i)
        = (\<lambda>i. if i < Suc n * od then ?v i else dst i)" by (rule ext) auto
    then show ?case by (simp add: rfold_append Suc.IH step)
  qed
  then show ?thesis by (simp add: each_row_step)
qed

section \<open>The cache\<close>

lemma kv_write_at:
  assumes "khd * Suc p \<le> hs"
  shows "kv_write n_kv khd hs p row cache i =
    (if i div hs < n_kv \<and> p * khd \<le> i mod hs \<and> i mod hs < p * khd + khd
     then row (i div hs * khd + (i mod hs - p * khd)) else cache i)"
proof (cases "khd = 0")
  case True
  then have "copy_to off khd src b = b" for off src b by (intro ext) (auto simp: copy_to_def)
  then have "fold (\<lambda>h. copy_to (h * hs + p * khd) khd (ptr row (h * khd))) xs cache = cache" for xs
    by (induction xs) simp_all
  then show ?thesis using True by (simp add: kv_write_def)
next
  case False
  then have hs: "0 < hs" using assms by (cases hs) auto
  have p: "p * khd + khd \<le> hs" using assms by (simp add: mult.commute)
  have "kv_write m khd hs p row cache i =
    (if i div hs < m \<and> p * khd \<le> i mod hs \<and> i mod hs < p * khd + khd
     then row (i div hs * khd + (i mod hs - p * khd)) else cache i)" for m
  proof (induction m)
    case 0
    then show ?case by (simp add: kv_write_def)
  next
    case (Suc m)
    have "m * hs + p * khd \<le> i \<and> i < m * hs + p * khd + khd \<longleftrightarrow> i div hs = m \<and> p * khd \<le> i mod hs \<and> i mod hs < p * khd + khd"
    proof
      assume r: "m * hs + p * khd \<le> i \<and> i < m * hs + p * khd + khd"
      then have "i div hs = m" using p by (intro div_in_block) linarith+
      moreover have "i = i div hs * hs + i mod hs" by simp
      ultimately show "i div hs = m \<and> p * khd \<le> i mod hs \<and> i mod hs < p * khd + khd" using r by simp
    next
      assume r: "i div hs = m \<and> p * khd \<le> i mod hs \<and> i mod hs < p * khd + khd"
      then have "i = m * hs + i mod hs" using div_mult_mod_eq [of i hs] by simp
      with r show "m * hs + p * khd \<le> i \<and> i < m * hs + p * khd + khd" by linarith
    qed
    moreover have "i - (m * hs + p * khd) = i mod hs - p * khd" if "i div hs = m"
      using div_mult_mod_eq [of i hs] that by simp
    moreover have "kv_write (Suc m) khd hs p row cache i
        = copy_to (m * hs + p * khd) khd (ptr row (m * khd)) (kv_write m khd hs p row cache) i" by (simp add: kv_write_def)
    ultimately show ?case using Suc.IH by (auto simp: copy_to_def ptr_def less_Suc_eq)
  qed
  then show ?thesis .
qed

definition kv_rows :: "nat \<Rightarrow> nat \<Rightarrow> nat \<Rightarrow> nat \<Rightarrow> buf \<Rightarrow> nat \<Rightarrow> nat \<Rightarrow> buf \<Rightarrow> buf" where
  "kv_rows n_kv khd hs pos src kv_dim n cache =
     fold (\<lambda>i. kv_write n_kv khd hs (pos + i) (ptr src (i * kv_dim))) [0 ..< n] cache"

lemma kv_rows_stable:
  assumes "m \<le> n" and "khd * (pos + n) \<le> hs" and "j < (pos + m) * khd"
  shows "kv_rows n_kv khd hs pos src kv_dim n cache (h * hs + j) = kv_rows n_kv khd hs pos src kv_dim m cache (h * hs + j)"
  using assms
proof (induction n)
  case (Suc n)
  show ?case
  proof (cases "m = Suc n")
    case False
    then have m: "m \<le> n" using Suc.prems(1) by simp
    have fits: "khd * (pos + n) \<le> hs" using Suc.prems(2) by simp
    have "(pos + m) * khd \<le> (pos + n) * khd" using m by (intro mult_le_mono1) simp
    then have "j < (pos + n) * khd" using Suc.prems(3) by linarith
    moreover have "(pos + n) * khd \<le> hs" using fits by (simp add: mult.commute)
    ultimately have "(h * hs + j) mod hs = j" "\<not> (pos + n) * khd \<le> j" by simp_all
    then have "kv_write n_kv khd hs (pos + n) r c (h * hs + j) = c (h * hs + j)" for r c
      using Suc.prems(2) by (subst kv_write_at) simp_all
    then show ?thesis using Suc.IH [OF m fits Suc.prems(3)] by (simp add: kv_rows_def)
  qed simp
qed simp

lemma kv_write_cong:
  assumes "\<And>i. i < n_kv * khd \<Longrightarrow> row i = row' i"
  shows "kv_write n_kv khd hs p row cache = kv_write n_kv khd hs p row' cache"
  unfolding kv_write_def
proof (intro fold_cong refl ext)
  fix h c i assume h: "h \<in> set [0 ..< n_kv]"
  have "ptr row (h * khd) j = ptr row' (h * khd) j" if "j < khd" for j
    using h cell_bound [OF _ that] assms by (simp add: ptr_def)
  then show "copy_to (h * hs + p * khd) khd (ptr row (h * khd)) c i = copy_to (h * hs + p * khd) khd (ptr row' (h * khd)) c i"
    by (auto simp: copy_to_def)
qed

section \<open>One head\<close>

lemma attn_head_cong:
  assumes "\<And>i. i < n_keys * khd \<Longrightarrow> kh i = kh' i \<and> vh i = vh' i" and "\<And>i. i < khd \<Longrightarrow> qh i = qh' i"
  shows "attn_head E khd win n_keys kh vh qh = attn_head E khd win n_keys kh' vh' qh'"
proof -
  define start where "start = (if win \<noteq> 0 \<and> n_keys > win then n_keys - win else 0)"
  define n_vis where "n_vis = n_keys - start"
  have sv: "start + n_vis = n_keys" by (auto simp: start_def n_vis_def)
  have idx: "start * khd + i < n_keys * khd" if "i < n_vis * khd" for i
    using that sv by (metis add_less_cancel_left distrib_right)
  have keys: "map (ptr kh (start * khd)) [0 ..< n_vis * khd] = map (ptr kh' (start * khd)) [0 ..< n_vis * khd]"
    and q: "map qh [0 ..< khd] = map qh' [0 ..< khd]"
    using assms idx by (simp_all add: ptr_def)
  have v: "ptr vh (start * khd) (t * khd + d) = ptr vh' (start * khd) (t * khd + d)" if "t < n_vis" "d < khd" for t d
    using assms(1) idx [OF cell_bound [OF that]] by (simp add: ptr_def)
  have out: "fill khd (\<lambda>d. foldl (\<lambda>a t. fadd F a (fmul F (scr t) (ptr vh (start * khd) (t * khd + d)))) (oh d) [0 ..< n_vis]) oh
      = fill khd (\<lambda>d. foldl (\<lambda>a t. fadd F a (fmul F (scr t) (ptr vh' (start * khd) (t * khd + d)))) (oh d) [0 ..< n_vis]) oh" for F scr oh
    by (rule fun_cong [OF fill_cong], rule foldl_cong) (simp_all add: v)
  show ?thesis
    by (rule ext) (simp only: attn_head_def Let_def start_def [symmetric] n_vis_def [symmetric] keys q out)
qed

lemma local_attn_head: "khd \<le> hw \<Longrightarrow> local_to {..<hw} (attn_head E khd win n_keys kh vh qh)"
  unfolding attn_head_def Let_def by (intro local_fill) simp_all

section \<open>One row\<close>

definition attn_state :: "cpu_env \<Rightarrow> nat \<Rightarrow> u32 \<Rightarrow> (nat \<Rightarrow> buf) \<Rightarrow> cpu_state \<Rightarrow> cpu_state" where
  "attn_state E layer pos x s =
     (let n_kv = c_n_kv_head (ce_cfg E); khd = c_kv_head_dim (ce_cfg E); hs = unat (w32 (ce_cap E) * w32 khd) in
      s(KCache layer := kv_write n_kv khd hs (unat pos) (x 1) (s (KCache layer)),
        VCache layer := kv_write n_kv khd hs (unat pos) (x 2) (s (VCache layer)),
        KvCount layer := (s (KvCount layer))(0 := pos + 1)))"

text \<open>Cell \<open>j\<close> of the output row, once the caches hold the keys and values up to \<open>pos\<close>.\<close>

definition attn_cell :: "cpu_env \<Rightarrow> nat \<Rightarrow> nat \<Rightarrow> u32 \<Rightarrow> buf \<Rightarrow> buf \<Rightarrow> buf \<Rightarrow> nat \<Rightarrow> u32" where
  "attn_cell E layer win pos q K V j =
     (let cfg = ce_cfg E; khd = c_kv_head_dim cfg; hw = c_head_dim cfg; hs = unat (w32 (ce_cap E) * w32 khd);
          h = j div hw; kv_h = h div (c_n_head cfg div c_n_kv_head cfg) in
      attn_head E khd win (unat (pos + 1)) (ptr K (kv_h * hs)) (ptr V (kv_h * hs)) (ptr q (h * hw)) (\<lambda>_. 0) (j mod hw))"

definition attn_body :: "cpu_env \<Rightarrow> nat \<Rightarrow> nat \<Rightarrow> nat \<Rightarrow> row_body" where
  "attn_body E layer win od pos x d s =
     (let s' = attn_state E layer pos x s in
      Inr (fill od (attn_cell E layer win pos (x 0) (s' (KCache layer)) (s' (VCache layer))) d, s'))"

text \<open>The geometry of a well typed attention node in a cache of \<open>ce_cap\<close> positions.\<close>

definition attn_geometry :: "cpu_env \<Rightarrow> nat \<Rightarrow> bool" where
  "attn_geometry E od \<longleftrightarrow>
     (let cfg = ce_cfg E in od = c_n_head cfg * c_head_dim cfg \<and> od < 2 ^ 32 \<and> c_n_kv_head cfg * c_kv_head_dim cfg < 2 ^ 32
        \<and> c_kv_head_dim cfg \<le> c_head_dim cfg \<and> 0 < c_kv_head_dim cfg \<and> ce_cap E * c_kv_head_dim cfg < 2 ^ 32)"

lemma w32_mult: "a * b < 2 ^ 32 \<Longrightarrow> unat (w32 a * w32 b) = a * b"
  by (metis of_nat_mult unat_w32 w32_def)

lemma w32_Suc: "w32 (Suc n) = w32 n + 1"
  by (simp add: w32_def add.commute)

lemma attn_row_states:
  assumes g: "attn_geometry E od" and cap: "pos + p \<le> ce_cap E"
  defines "khd \<equiv> c_kv_head_dim (ce_cfg E)" and "n_kv \<equiv> c_n_kv_head (ce_cfg E)"
  defines "W \<equiv> \<lambda>k. if k = 0 then od else n_kv * khd"
  shows "row_states pos srcs W (attn_state E layer) st p =
    (if p = 0 then st else
     st(KCache layer := kv_rows n_kv khd (ce_cap E * khd) pos (op_src srcs 1) (n_kv * khd) p (st (KCache layer)),
        VCache layer := kv_rows n_kv khd (ce_cap E * khd) pos (op_src srcs 2) (n_kv * khd) p (st (VCache layer)),
        KvCount layer := (st (KvCount layer))(0 := w32 (pos + p))))"
  using cap
proof (induction p)
  case 0
  then show ?case by (simp add: row_states_def)
next
  case (Suc p)
  have geo: "0 < khd" "ce_cap E * khd < 2 ^ 32" using g by (simp_all add: attn_geometry_def khd_def Let_def)
  have "ce_cap E * 1 \<le> ce_cap E * khd" using geo(1) by (intro mult_le_mono2) simp
  then have pos: "unat (w32 (pos + p)) = pos + p" using geo(2) Suc.prems by (intro unat_w32) linarith
  have hs: "unat (w32 (ce_cap E) * w32 khd) = ce_cap E * khd" using geo(2) by (rule w32_mult)
  have step: "row_states pos srcs W (attn_state E layer) st (Suc p)
      = attn_state E layer (w32 (pos + p)) (\<lambda>k. ptr (op_src srcs k) (p * W k)) (row_states pos srcs W (attn_state E layer) st p)"
    by (simp add: row_states_def)
  let ?R = "\<lambda>p. if p = 0 then st else
     st(KCache layer := kv_rows n_kv khd (ce_cap E * khd) pos (op_src srcs 1) (n_kv * khd) p (st (KCache layer)),
        VCache layer := kv_rows n_kv khd (ce_cap E * khd) pos (op_src srcs 2) (n_kv * khd) p (st (VCache layer)),
        KvCount layer := (st (KvCount layer))(0 := w32 (pos + p)))"
  have IH: "row_states pos srcs W (attn_state E layer) st p = ?R p" using Suc by simp
  have "attn_state E layer (w32 (pos + p)) (\<lambda>k. ptr (op_src srcs k) (p * W k)) (?R p) = ?R (Suc p)"
    unfolding attn_state_def Let_def khd_def [symmetric] n_kv_def [symmetric] hs pos
    by (intro ext) (simp add: W_def kv_rows_def w32_Suc)
  then show ?case by (simp only: step IH)
qed

section \<open>Heads in the outer loop, rows in the inner one\<close>

lemma fold_concat_map: "fold f (concat (map g xs)) y = fold (\<lambda>x. fold f (g x)) xs y"
  by (induction xs arbitrary: y) simp_all

lemma blocks_perm: "mset (concat (map (\<lambda>h. map (\<lambda>q. q * nh + h) [0 ..< n]) [0 ..< nh])) = mset [0 ..< n * nh]"
proof -
  let ?bs = "concat (map (\<lambda>h. map (\<lambda>q. q * nh + h) [0 ..< n]) [0 ..< nh])"
  have set_bs: "set ?bs = {0 ..< n * nh}"
  proof (intro equalityI subsetI)
    fix b assume "b \<in> set ?bs"
    then obtain h q where "h < nh" "q < n" "b = q * nh + h" by auto
    then show "b \<in> {0 ..< n * nh}" using cell_bound [of q n h nh] by simp
  next
    fix b assume "b \<in> {0 ..< n * nh}"
    then have b: "b < n * nh" by simp
    then have "0 < nh" by (cases nh) auto
    then have "b div nh < n" "b mod nh < nh" using b by (simp_all add: less_mult_imp_div_less)
    moreover have "b \<in> (\<lambda>q. q * nh + b mod nh) ` {0 ..< n}" using \<open>b div nh < n\<close> by (intro image_eqI [of _ _ "b div nh"]) simp_all
    ultimately show "b \<in> set ?bs" by auto
  qed
  moreover have "length ?bs = n * nh" by (simp add: length_concat comp_def sum_list_triv)
  ultimately have "distinct ?bs" by (intro card_distinct) simp
  then show ?thesis using set_bs set_eq_iff_mset_eq_distinct [of ?bs "[0 ..< n * nh]"] by simp
qed

lemma nested_heads:
  assumes f: "\<And>h q. h < nh \<Longrightarrow> local_to {..<hw} (f h q)"
  shows "fold (\<lambda>h. fold (\<lambda>q. via (q * (nh * hw) + h * hw) (f h q)) [0 ..< n]) [0 ..< nh] D i =
    (if i < n * (nh * hw) then f (i div hw mod nh) (i div hw div nh) (ptr D (i div hw * hw)) (i mod hw) else D i)"
proof -
  let ?g = "\<lambda>b. via (b * hw) (f (b mod nh) (b div nh))" and ?R = "\<lambda>b. {b * hw ..< b * hw + hw}"
  let ?bs = "concat (map (\<lambda>h. map (\<lambda>q. q * nh + h) [0 ..< n]) [0 ..< nh])"
  have loc: "local_to {..<hw} (f (b mod nh) (b div nh))" if "b < n * nh" for b
  proof (rule f)
    from that have "0 < nh" by (cases nh) auto
    then show "b mod nh < nh" by simp
  qed
  have "via (q * (nh * hw) + h * hw) (f h q) = ?g (q * nh + h)" if "h < nh" for h q
    using that by (simp add: algebra_simps)
  then have "fold (\<lambda>h. fold (\<lambda>q. via (q * (nh * hw) + h * hw) (f h q)) [0 ..< n]) [0 ..< nh] D
      = fold (\<lambda>h. fold (\<lambda>q. ?g (q * nh + h)) [0 ..< n]) [0 ..< nh] D" by (intro fold_cong refl) simp
  also have "\<dots> = fold ?g ?bs D" by (simp add: fold_concat_map fold_map comp_def)
  also have "\<dots> = fold ?g [0 ..< n * nh] D"
  proof (rule fold_disjoint_perm [where R = ?R, OF blocks_perm])
    show "local_to (?R b) (?g b)" if "b \<in> set [0 ..< n * nh]" for b using that by (intro local_via [OF loc]) auto
    show "?R b \<inter> ?R b' = {}" if "b \<noteq> b'" for b b'
      using div_in_block [of b hw] div_in_block [of b' hw] that by fastforce
  qed simp
  finally have "fold (\<lambda>h. fold (\<lambda>q. via (q * (nh * hw) + h * hw) (f h q)) [0 ..< n]) [0 ..< nh] D i = fold ?g [0 ..< n * nh] D i"
    by (rule fun_cong)
  also have "\<dots> = (if i < n * nh * hw then f (i div hw mod nh) (i div hw div nh) (ptr D (i div hw * hw)) (i mod hw) else D i)"
    by (rule heads_at [where f = "\<lambda>b. f (b mod nh) (b div nh)"]) (rule loc)
  finally show ?thesis by (simp add: mult.assoc)
qed


section \<open>The operator\<close>

lemma op_attn_rows:
  assumes g: "attn_geometry E od" and call: "good_call E node od c" "gn_op node = OP_ATTN" and E: "ce_cache E" "ce_kv E (unat (op_param c 0))"
  shows "op_attn E c srcs dst st =
    each_row (oc_r c) (oc_base c) od (oc_pos c) srcs
      (\<lambda>k. if k = 0 then od else c_n_kv_head (ce_cfg E) * c_kv_head_dim (ce_cfg E))
      (attn_body E (unat (op_param c 0)) (unat (op_param c 1)) od) dst st"
proof -
  define khd where "khd = c_kv_head_dim (ce_cfg E)"
  define hw where "hw = c_head_dim (ce_cfg E)"
  define n_kv where "n_kv = c_n_kv_head (ce_cfg E)"
  define n_head where "n_head = c_n_head (ce_cfg E)"
  define layer where "layer = unat (op_param c 0)"
  define win where "win = unat (op_param c 1)"
  define hs where "hs = ce_cap E * khd"
  define pos where "pos = oc_pos c"
  define n where "n = oc_n c"
  let ?W = "\<lambda>k. if k = 0 then od else n_kv * khd" and ?gqa = "n_head div n_kv"
  note defs = khd_def [symmetric] hw_def [symmetric] n_kv_def [symmetric] n_head_def [symmetric] layer_def [symmetric]
    win_def [symmetric] pos_def [symmetric] n_def [symmetric]
  have geo: "od = n_head * hw" "n_head * hw < 2 ^ 32" "n_kv * khd < 2 ^ 32" "khd \<le> hw" "0 < khd" "hs < 2 ^ 32"
    using g by (simp_all add: attn_geometry_def Let_def defs hs_def)
  have n: "0 < n" "pos + n \<le> ce_cap E" "oc_r c = n" "oc_base c = 0"
    using call by (auto simp: good_call_def pos_def n_def)
  have "ce_cap E * 1 \<le> ce_cap E * khd" using geo(5) by (intro mult_le_mono2) simp
  then have pos32: "unat (w32 (pos + i)) = pos + i" if "i \<le> n" for i
    using geo(6) n(2) that unfolding hs_def by (intro unat_w32) linarith
  note q_dim = w32_mult [OF geo(2)] and kv_dim = w32_mult [OF geo(3)] and hs' = w32_mult [OF geo(6) [unfolded hs_def], folded hs_def]
  define KV where "KV = (\<lambda>k m cache. kv_rows n_kv khd hs pos (op_src srcs k) (n_kv * khd) m cache)"
  have wr: "fold (\<lambda>i. kv_write n_kv khd hs (unat (w32 (pos + i))) (ptr (op_src srcs k) (i * (n_kv * khd)))) [0 ..< n] cache
      = KV k n cache" for k cache
    unfolding KV_def kv_rows_def using pos32 by (intro fold_cong) simp_all
  define f where "f = (\<lambda>h qi. attn_head E khd win (unat (w32 (pos + qi + 1))) (ptr (KV 1 n (st (KCache layer))) (h div ?gqa * hs))
    (ptr (KV 2 n (st (VCache layer))) (h div ?gqa * hs)) (ptr (op_src srcs 0) (qi * (n_head * hw) + h * hw)))"
  have f: "local_to {..<hw} (f h qi)" for h qi unfolding f_def by (rule local_attn_head) (rule geo)
  let ?st = "st(KCache layer := KV 1 n (st (KCache layer)), VCache layer := KV 2 n (st (VCache layer)),
      KvCount layer := (st (KvCount layer))(0 := w32 (pos + n)))"
  have lhs: "op_attn E c srcs dst st = Inr (True, fold (\<lambda>h. fold (\<lambda>qi. via (qi * (n_head * hw) + h * hw) (f h qi)) [0 ..< n]) [0 ..< n_head]
      (fill (n * od) (\<lambda>_. 0) dst), ?st)"
    using E unfolding op_attn_def Let_def defs q_dim kv_dim hs' wr f_def geo(1) by simp
  let ?S = "row_states pos srcs ?W (attn_state E layer) st"
  have S: "?S p = (if p = 0 then st else st(KCache layer := KV 1 p (st (KCache layer)), VCache layer := KV 2 p (st (VCache layer)),
      KvCount layer := (st (KvCount layer))(0 := w32 (pos + p))))" if "p \<le> n" for p
    using attn_row_states [OF g, of pos p srcs layer st] that n(2) unfolding KV_def hs_def defs by simp
  have S_Suc: "attn_state E layer (w32 (pos + p)) (\<lambda>k. ptr (op_src srcs k) (p * ?W k)) (?S p) = ?S (Suc p)" for p
    by (simp add: row_states_def)
  have rhs: "each_row n 0 od pos srcs ?W (attn_body E layer win od) dst st = Inr (True, \<lambda>i. if i < n * od
      then attn_cell E layer win (w32 (pos + i div od)) (ptr (op_src srcs 0) (i div od * od))
        (?S (Suc (i div od)) (KCache layer)) (?S (Suc (i div od)) (VCache layer)) (i mod od) else dst i, ?S n)"
    using each_row_states [where body = "attn_body E layer win od" and N = "attn_state E layer" and od = od and
        C = "\<lambda>pos x s. attn_cell E layer win pos (x 0) (attn_state E layer pos x s (KCache layer)) (attn_state E layer pos x s (VCache layer))"
        and pos = pos and srcs = srcs and w = ?W and cnt = n and dst = dst and st = st]
    unfolding S_Suc by (simp add: attn_body_def Let_def)
  have cell: "f (i div hw mod n_head) (i div hw div n_head) (ptr (fill (n * od) (\<lambda>_. 0) dst) (i div hw * hw)) (i mod hw)
      = attn_cell E layer win (w32 (pos + i div od)) (ptr (op_src srcs 0) (i div od * od))
        (?S (Suc (i div od)) (KCache layer)) (?S (Suc (i div od)) (VCache layer)) (i mod od)" if i: "i < n * od" for i
  proof -
    define p where "p = i div od"
    define h where "h = i mod od div hw"
    have p: "p < n" using i by (simp add: p_def less_mult_imp_div_less)
    have "0 < hw" using geo(4,5) by simp
    have b: "i div hw mod n_head = h" "i div hw div n_head = p" "i mod od mod hw = i mod hw"
      using \<open>0 < hw\<close> by (simp_all add: h_def p_def geo(1) mod_mult2_eq [of i hw n_head] div_mult2_eq [of i hw n_head] mult.commute [of n_head])
    have "i div hw < n * n_head" using i geo(1) by (simp add: less_mult_imp_div_less mult.assoc [symmetric])
    then have "i div hw * hw + j < n * od" if "j < hw" for j
      using cell_bound [OF _ that] geo(1) by (simp add: mult.assoc [symmetric])
    then have zero: "f h p (ptr (fill (n * od) (\<lambda>_. 0) dst) (i div hw * hw)) (i mod hw) = f h p (\<lambda>_. 0) (i mod hw)"
      using \<open>0 < hw\<close> by (intro local_in [OF f]) (simp_all add: ptr_def fill_def)
    have keys: "unat (w32 (pos + p + 1)) = pos + p + 1" "unat (w32 (pos + p) + 1) = pos + p + 1"
      using pos32 [of "p + 1"] w32_Suc [of "pos + p"] p by (simp_all add: add.assoc)
    have stable: "KV k n cache (g * hs + x) = KV k (Suc p) cache (g * hs + x)" if "x < (pos + p + 1) * khd" for k cache g x
      unfolding KV_def using p n(2) that by (intro kv_rows_stable) (simp_all add: hs_def mult.commute)
    have "f h p = attn_head E khd win (pos + p + 1) (ptr (KV 1 (Suc p) (st (KCache layer))) (h div ?gqa * hs))
        (ptr (KV 2 (Suc p) (st (VCache layer))) (h div ?gqa * hs)) (ptr (ptr (op_src srcs 0) (p * od)) (h * hw))"
      unfolding f_def keys(1) using stable by (intro attn_head_cong) (simp_all add: ptr_def geo(1) add.assoc)
    then show ?thesis
      unfolding b zero attn_cell_def Let_def defs hs' p_def [symmetric] h_def [symmetric] keys(2) using S [of "Suc p"] p by simp
  qed
  show ?thesis
    unfolding defs n(3,4) lhs rhs using cell S [of n] n(1)
    by (auto simp: nested_heads [OF f] geo(1) fill_def intro!: ext)
qed


lemma row_op_attn:
  assumes op: "gn_op node = OP_ATTN" and g: "attn_geometry E od" and od: "od \<noteq> 0"
    and w: "W 0 = od" "W 1 = c_n_kv_head (ce_cfg E) * c_kv_head_dim (ce_cfg E)" "W 2 = W 1"
    and E: "ce_cache E" "ce_kv E (unat (gn_params node ! 0))"
  shows "row_op E node od W"
proof (rule row_op_plainI)
  let ?w = "\<lambda>k :: nat. if k = 0 then od else c_n_kv_head (ce_cfg E) * c_kv_head_dim (ce_cfg E)"
  let ?body = "attn_body E (unat (gn_params node ! 0)) (unat (gn_params node ! 1)) od"
  have m: "operands (gn_op node) = 3" using op by simp
  have geo: "od = c_n_head (ce_cfg E) * c_head_dim (ce_cfg E)" "c_kv_head_dim (ce_cfg E) \<le> c_head_dim (ce_cfg E)"
    using g by (simp_all add: attn_geometry_def Let_def)
  show "row_local (operands (gn_op node)) ?w od ?body"
    unfolding m row_local_def
  proof (intro allI)
    fix pos x d s
    let ?x = "row_cut 3 ?w x"
    have st: "attn_state E l pos x s = attn_state E l pos ?x s" for l
      unfolding attn_state_def Let_def
      by (intro arg_cong2 [of _ _ _ _ "\<lambda>K V. s(KCache l := K, VCache l := V, KvCount l := _)"] kv_write_cong) (simp_all add: row_cut_def)
    have "attn_cell E l win pos (x 0) K V j = attn_cell E l win pos (?x 0) K V j" if j: "j < od" for l win K V j
    proof -
      let ?hw = "c_head_dim (ce_cfg E)"
      have h: "j div ?hw < c_n_head (ce_cfg E)" using j geo(1) by (simp add: less_mult_imp_div_less)
      have "ptr (x 0) (j div ?hw * ?hw) i = ptr (?x 0) (j div ?hw * ?hw) i" if "i < c_kv_head_dim (ce_cfg E)" for i
      proof -
        have "j div ?hw * ?hw + i < od" unfolding geo(1) using that geo(2) by (intro cell_bound [OF h]) simp
        then show ?thesis by (simp add: ptr_def)
      qed
      then show ?thesis unfolding attn_cell_def Let_def by (intro fun_cong [OF attn_head_cong, THEN fun_cong] refl conjI) auto
    qed
    then have "fill od (attn_cell E l win pos (x 0) K V) b = fill od (attn_cell E l win pos (?x 0) K V) b" for l win K V b
      by (intro fun_cong [OF fill_cong])
    then show "?body pos x d s = rbind (?body pos ?x (\<lambda>_. 0) s) (\<lambda>(y, s'). Inr (fill od y d, s'))"
      unfolding attn_body_def Let_def st by (simp add: fill_fill)
  qed
  show "?w k = W k" if "k < operands (gn_op node)" for k
  proof -
    from that m have "k = 0 \<or> k = 1 \<or> k = 2" by arith
    then show ?thesis using w by auto
  qed
  show "cpu_graph_op E c srcs dst st = each_row (oc_r c) (oc_base c) od (oc_pos c) srcs ?w ?body dst st"
    if "good_call E node od c" for c srcs dst st
  proof -
    have "op_param c = (!) (gn_params node)" "gn_op (oc_node c) = OP_ATTN" "oc_od c = od"
      using good_callD [OF that] op by (auto simp: op_param_def)
    then show ?thesis using op_attn_rows [OF g that op E(1)] E(2) od by (simp add: cpu_graph_op_def)
  qed
qed

end
