(* ===== verification/CpuFrame.thy ===== *)
theory CpuFrame
  imports CpuAttn
begin

text \<open>An operator touches no persistent buffer but those of its node.\<close>

definition node_slots :: "cpu_env \<Rightarrow> graph_node \<Rightarrow> state_slot set" where
  "node_slots E node =
     (let p0 = unat (gn_params node ! 0) in
      case gn_op node of
        OP_ATTN \<Rightarrow> {KCache p0, VCache p0, KvCount p0}
      | OP_SSM_CONV \<Rightarrow> {Recurrent (ce_states E ! p0)}
      | OP_SSM_DELTA \<Rightarrow> {Recurrent (ce_states E ! p0)}
      | OP_MAMBA2_CONV \<Rightarrow> {Recurrent (ce_states E ! p0)}
      | OP_MAMBA2_SCAN \<Rightarrow> {Recurrent (ce_states E ! p0)}
      | _ \<Rightarrow> {})"

text \<open>The buffers of \<open>A\<close>, others emptied; \<open>s\<close> with those of \<open>A\<close> taken from \<open>s'\<close>.\<close>

definition keep :: "state_slot set \<Rightarrow> cpu_state \<Rightarrow> cpu_state" where
  "keep A s = (\<lambda>x. if x \<in> A then s x else (\<lambda>_. 0))"

definition over :: "state_slot set \<Rightarrow> cpu_state \<Rightarrow> cpu_state \<Rightarrow> cpu_state" where
  "over A s s' = (\<lambda>x. if x \<in> A then s' x else s x)"

lemma over_simps [simp]:
  "over A s (keep A s) = s" "over A (over A s s1) s2 = over A s s2" "over A s (over A s1 s2) = over A s s2"
  "keep A (over A s s1) = keep A s1" "x \<in> A \<Longrightarrow> keep A s x = s x"
  by (auto simp: over_def keep_def)

lemma over_upd [simp]: "x \<in> A \<Longrightarrow> over A s (s'(x := b)) = (over A s s')(x := b)"
  by (auto simp: over_def)

definition slocal :: "state_slot set \<Rightarrow> ('a \<times> cpu_state \<Rightarrow> ('b \<times> cpu_state) result) \<Rightarrow> bool" where
  "slocal A g \<longleftrightarrow> (\<forall>d s. g (d, s) = rbind (g (d, keep A s)) (\<lambda>(d', s'). Inr (d', over A s s')))"

lemma slocalD: "slocal A g \<Longrightarrow> g (d, s) = rbind (g (d, keep A s)) (\<lambda>(d', s'). Inr (d', over A s s'))"
  unfolding slocal_def by blast

lemma slocal_Inr: "slocal A (\<lambda>(d, s). Inr (f d, s))"
  by (simp add: slocal_def)

lemma slocal_rbind:
  assumes "slocal A g" and "slocal A h"
  shows "slocal A (\<lambda>x. rbind (g x) h)"
  unfolding slocal_def
proof (intro allI)
  fix d s
  show "rbind (g (d, s)) h = rbind (rbind (g (d, keep A s)) h) (\<lambda>(d', s'). Inr (d', over A s s'))"
  proof (cases "g (d, keep A s)")
    case (Inl e)
    then show ?thesis using slocalD [OF assms(1), of d s] by simp
  next
    case (Inr r)
    obtain d1 s1 where r: "r = (d1, s1)" by fastforce
    have "rbind (g (d, s)) h = h (d1, over A s s1)" using slocalD [OF assms(1), of d s] Inr r by simp
    also have "\<dots> = rbind (h (d1, keep A s1)) (\<lambda>(d', s'). Inr (d', over A s s'))"
      using slocalD [OF assms(2), of d1 "over A s s1"] by simp
    also have "\<dots> = rbind (h (d1, s1)) (\<lambda>(d', s'). Inr (d', over A s s'))"
      using slocalD [OF assms(2), of d1 s1] by (cases "h (d1, keep A s1)") auto
    finally show ?thesis using Inr r by simp
  qed
qed

lemma slocal_rfold: "(\<And>x. x \<in> set xs \<Longrightarrow> slocal A (f x)) \<Longrightarrow> slocal A (rfold f xs)"
proof (induction xs)
  case Nil
  show ?case using slocal_Inr [of A "\<lambda>d. d"] by (simp add: slocal_def)
next
  case (Cons x xs)
  have "rfold f (x # xs) = (\<lambda>s. rbind (f x s) (rfold f xs))" by (rule ext) simp
  moreover have "slocal A (\<lambda>s. rbind (f x s) (rfold f xs))" using Cons by (intro slocal_rbind) simp_all
  ultimately show ?case by (simp only:)
qed

text \<open>Row bodies and operators.\<close>

definition body_local :: "state_slot set \<Rightarrow> row_body \<Rightarrow> bool" where
  "body_local A body \<longleftrightarrow> (\<forall>pos x. slocal A (\<lambda>(d, s). body pos x d s))"

lemma body_localI: "(\<And>pos x. slocal A (\<lambda>(d, s). body pos x d s)) \<Longrightarrow> body_local A body"
  unfolding body_local_def by blast

lemma slocal_free: "slocal A (\<lambda>(d, s). rbind (r d) (\<lambda>y. Inr (f d y, s)))"
  unfolding slocal_def
proof (intro allI)
  show "(case (d, s) of (d, s) \<Rightarrow> rbind (r d) (\<lambda>y. Inr (f d y, s)))
      = rbind (case (d, keep A s) of (d, s) \<Rightarrow> rbind (r d) (\<lambda>y. Inr (f d y, s))) (\<lambda>(d', s'). Inr (d', over A s s'))" for d s
    by (cases "r d") simp_all
qed

lemma slocal_slot:
  assumes "slot \<in> A"
  shows "slocal A (\<lambda>(d, s). case F d (s slot) of (y, b) \<Rightarrow> Inr (y, s(slot := b)))"
    and "slocal A (\<lambda>(d, s). Inr (h d (s slot), s(slot := k (s slot))))"
    and "slocal A (\<lambda>(d, s). case G (s slot, d) of (b, y) \<Rightarrow> Inr (g y, s(slot := b)))"
  unfolding slocal_def using assms by (simp_all add: split_def)

lemma body_plain: "body_local A (plain f)"
  unfolding body_local_def plain_def by (intro allI slocal_Inr)

definition op_local :: "state_slot set \<Rightarrow> (buf \<Rightarrow> cpu_state \<Rightarrow> (bool \<times> buf \<times> cpu_state) result) \<Rightarrow> bool" where
  "op_local A g \<longleftrightarrow> (\<forall>d s. g d s = rbind (g d (keep A s)) (\<lambda>(good, d', s'). Inr (good, d', over A s s')))"

lemma each_row_local:
  assumes "body_local A body"
  shows "op_local A (each_row cnt base od pos srcs w body)"
proof -
  have "slocal A (row_step base od pos srcs w body p)" for p
    unfolding slocal_def
  proof (intro allI)
    fix d s
    let ?b = "body (w32 (pos + base + p)) (\<lambda>k. ptr (op_src srcs k) ((base + p) * w k)) (ptr d (p * od))"
    have "slocal A (\<lambda>(d, s). body (w32 (pos + base + p)) (\<lambda>k. ptr (op_src srcs k) ((base + p) * w k)) d s)"
      using assms unfolding body_local_def by blast
    from slocalD [OF this, of "ptr d (p * od)" s]
    have "?b s = rbind (?b (keep A s)) (\<lambda>(d', s'). Inr (d', over A s s'))" by simp
    then show "row_step base od pos srcs w body p (d, s)
        = rbind (row_step base od pos srcs w body p (d, keep A s)) (\<lambda>(d', s'). Inr (d', over A s s'))"
      by (cases "?b (keep A s)") (auto simp: row_step_def)
  qed
  then have "slocal A (rfold (row_step base od pos srcs w body) [0 ..< cnt])" by (rule slocal_rfold)
  note run = slocalD [OF this]
  show ?thesis
    unfolding op_local_def
  proof (intro allI)
    fix d s
    show "each_row cnt base od pos srcs w body d s
        = rbind (each_row cnt base od pos srcs w body d (keep A s)) (\<lambda>(good, d', s'). Inr (good, d', over A s s'))"
      unfolding each_row_step run [of d s]
      by (cases "rfold (row_step base od pos srcs w body) [0 ..< cnt] (d, keep A s)") (simp_all add: split_def)
  qed
qed

lemma op_local_fail: "op_local A (\<lambda>d s. Inr (g, f d, s))"
  by (simp add: op_local_def)

lemma op_local_rbind:
  assumes "\<And>x. op_local A (g x)"
  shows "op_local A (\<lambda>d s. rbind r (\<lambda>x. g x d s))"
proof (cases r)
  case (Inl e)
  then show ?thesis by (simp add: op_local_def)
next
  case (Inr x)
  then show ?thesis using assms [of x] by simp
qed

lemma op_local_if: "(b \<Longrightarrow> op_local A g) \<Longrightarrow> (\<not> b \<Longrightarrow> op_local A h) \<Longrightarrow> op_local A (\<lambda>d s. if b then g d s else h d s)"
  by (cases b) simp_all

lemma op_local_result: "op_local A (\<lambda>d s. rbind (r d) (\<lambda>(good, y). Inr (good, y, s)))"
  unfolding op_local_def
proof (intro allI)
  show "rbind (r d) (\<lambda>(good, y). Inr (good, y, s)) = rbind (rbind (r d) (\<lambda>(good, y). Inr (good, y, keep A s)))
      (\<lambda>(good, d', s'). Inr (good, d', over A s s'))" for d s
    by (cases "r d") (auto simp: split_def)
qed

lemma op_local_plain: "op_local A (each_row cnt base od pos srcs w (plain f))"
  by (rule each_row_local) (rule body_plain)

section \<open>The operators\<close>

lemma op_local_element:
  "op_local A (op_binary E c srcs)" "op_local A (op_unary f c srcs)" "op_local A (op_scale E c srcs)" "op_local A (op_softcap E c srcs)"
  "op_local A (op_rope g c srcs)" "op_local A (op_sigmoid_gate E c srcs)"
  unfolding op_binary_def op_unary_def op_scale_def op_softcap_def op_rope_def op_sigmoid_gate_def Let_def by (rule op_local_plain)+

lemma op_local_rms_norm: "op_local A (op_rms_norm E c srcs)"
  unfolding op_rms_norm_def by (intro each_row_local body_localI slocal_free)

lemma op_local_bias: "op_local A (op_bias E c srcs)"
  unfolding op_bias_def Let_def by (intro each_row_local body_localI slocal_free)

lemma op_local_embed: "op_local A (op_embed E c srcs)"
  unfolding op_embed_def Let_def
proof (intro each_row_local body_localI)
  fix pos :: u32 and x :: "nat \<Rightarrow> buf"
  let ?te = "op_weight c 0" and ?tok = "unat (x 0 0)"
  show "slocal A (\<lambda>(d, s). if t_dim (ce_ts E) (Some ?te) 0 = c_n_vocab (ce_cfg E)
      then rbind (tensor_get_f32_batch E ?te (?tok * oc_od c) (oc_od c)) (\<lambda>row. Inr (fill (oc_od c) row d, s))
      else rbind (rmap (\<lambda>j. tensor_get_f32 E ?te (j * c_n_vocab (ce_cfg E) + ?tok)) [0 ..< oc_od c])
             (\<lambda>row. Inr (fill (oc_od c) ((!) row) d, s)))"
    by (cases "t_dim (ce_ts E) (Some ?te) 0 = c_n_vocab (ce_cfg E)") (simp_all add: slocal_free)
qed

lemma op_local_heads: "op_local A (op_rms_norm_heads E c srcs)"
  unfolding op_rms_norm_heads_def [abs_def] Let_def by (intro op_local_rbind op_local_plain)

lemma op_local_matmul: "op_local A (op_matmul E c srcs)"
  unfolding op_matmul_def [abs_def] Let_def by (rule op_local_result)

lemma op_local_conv: "Recurrent (ce_states E ! unat (op_param c 0)) \<in> A \<Longrightarrow> op_local A (op_ssm_conv E c srcs)"
  unfolding op_ssm_conv_def [abs_def] Let_def by (intro op_local_if op_local_rbind op_local_fail each_row_local body_localI slocal_slot)

lemma op_local_delta: "Recurrent (ce_states E ! unat (op_param c 0)) \<in> A \<Longrightarrow> op_local A (op_ssm_delta E c srcs)"
  unfolding op_ssm_delta_def [abs_def] Let_def
  by (intro op_local_if op_local_rbind op_local_fail each_row_local body_localI slocal_slot)

lemma op_local_mamba2_conv: "Recurrent (ce_states E ! unat (op_param c 0)) \<in> A \<Longrightarrow> op_local A (op_mamba2_conv E c srcs)"
  unfolding op_mamba2_conv_def [abs_def] Let_def
  by (intro op_local_if op_local_rbind op_local_fail each_row_local body_localI slocal_slot(2))

lemma op_local_mamba2_scan: "Recurrent (ce_states E ! unat (op_param c 0)) \<in> A \<Longrightarrow> op_local A (op_mamba2_scan E c srcs)"
  unfolding op_mamba2_scan_def [abs_def] Let_def
  by (intro op_local_if op_local_rbind op_local_fail each_row_local body_localI slocal_slot)

lemma op_local_attn:
  "{KCache (unat (op_param c 0)), VCache (unat (op_param c 0)), KvCount (unat (op_param c 0))} \<subseteq> A \<Longrightarrow> op_local A (op_attn E c srcs)"
  unfolding op_attn_def [abs_def] Let_def
  by (intro op_local_if op_local_fail) (simp add: op_local_def)

text \<open>Every operator reads and writes the buffers of its node only.\<close>

lemma cpu_graph_op_local: "op_local (node_slots E (oc_node c)) (cpu_graph_op E c srcs)"
proof (cases "oc_od c = 0")
  case True
  then show ?thesis by (simp add: cpu_graph_op_def op_local_def)
next
  case False
  show ?thesis
    by (cases "gn_op (oc_node c)")
      (simp_all add: cpu_graph_op_def [abs_def] False op_local_fail op_local_element op_local_rms_norm op_local_bias op_local_embed op_local_heads
        op_local_matmul op_local_conv op_local_delta op_local_mamba2_conv op_local_mamba2_scan op_local_attn node_slots_def op_param_def Let_def)
qed

end
