(* ===== verification/BatchSplit.thy ===== *)
theory BatchSplit
  imports CpuRows GraphSession
begin

text \<open>Node by node over a batch, or token by token over the graph: for operators that work row by row
  on buffers of their own the two orders of the loops agree, so the size of the micro-batches cannot
  be observed.\<close>

section \<open>Walks\<close>

lemma walk_append:
  "walk f (xs @ ys) s = (case walk f xs s of (good, s') \<Rightarrow> if good then walk f ys s' else (False, s'))"
  by (induction xs arbitrary: s) (auto split: prod.splits)

lemma walk_prefix: "walk f [0 ..< N] s = (True, s') \<Longrightarrow> i \<le> N \<Longrightarrow> \<exists>t. walk f [0 ..< i] s = (True, t)"
proof -
  assume w: "walk f [0 ..< N] s = (True, s')" and "i \<le> N"
  then have "[0 ..< N] = [0 ..< i] @ [i ..< N]" using upt_add_eq_append [of 0 i "N - i"] by simp
  with w show ?thesis by (cases "walk f [0 ..< i] s") (auto simp: walk_append split: if_splits)
qed

lemma walk_Suc:
  "walk f [0 ..< Suc i] s = (True, s2) \<longleftrightarrow> (\<exists>s1. walk f [0 ..< i] s = (True, s1) \<and> f i s1 = (True, s2))"
  by (cases "walk f [0 ..< i] s") (auto simp: walk_append split: prod.splits if_splits)

text \<open>The states and values along a successful evaluation.\<close>

definition source_values :: "u32 list list \<Rightarrow> graph_node \<Rightarrow> u32 list list" where
  "source_values vals node = map (\<lambda>s. case s of None \<Rightarrow> [] | Some j \<Rightarrow> vals ! j) (gn_src node)"

lemma source_values_append:
  "(\<And>j. node_reads node j \<Longrightarrow> j < length vals) \<Longrightarrow> source_values (vals @ xs) node = source_values vals node"
  by (auto simp: source_values_def node_reads_def nth_append split: option.split)

definition traced :: "'st kernel_op \<Rightarrow> walk_env \<Rightarrow> u32 list \<Rightarrow> u32 list list \<Rightarrow> (nat \<Rightarrow> 'st) \<Rightarrow> (nat \<Rightarrow> buf) \<Rightarrow> nat \<Rightarrow> bool" where
  "traced kern e toks V U out i \<longleftrightarrow>
     (if gn_op (we_nodes e ! i) = OP_INPUT then V ! i = toks \<and> U (Suc i) = U i
      else graph_op_compute kern (node_ctx e i) (source_values V (we_nodes e ! i)) (U i) = (True, out i, U (Suc i))
        \<and> V ! i = map (out i) [0 ..< oc_r (node_ctx e i) * oc_od (node_ctx e i)])"

lemma eval_node_source:
  "eval_node kern e toks i (vals, st) =
     (if gn_op (we_nodes e ! i) = OP_INPUT then (True, vals @ [toks], st)
      else case graph_op_compute kern (node_ctx e i) (source_values vals (we_nodes e ! i)) st of
        (good, out, st') \<Rightarrow> (good, vals @ [map out [0 ..< oc_r (node_ctx e i) * oc_od (node_ctx e i)]], st'))"
  by (simp add: eval_node_def source_values_def Let_def)

lemma eval_trace:
  assumes b: "backward (we_nodes e)" and "N \<le> length (we_nodes e)"
    and "walk (eval_node kern e toks) [0 ..< N] ([], s) = (True, V, s')"
  shows "length V = N \<and> (\<exists>U out. U 0 = s \<and> U N = s' \<and> (\<forall>i < N. traced kern e toks V U out i))"
  using assms(2,3)
proof (induction N arbitrary: V s')
  case (Suc N)
  then obtain V1 s1 where w: "walk (eval_node kern e toks) [0 ..< N] ([], s) = (True, V1, s1)"
    and n: "eval_node kern e toks N (V1, s1) = (True, V, s')"
    unfolding walk_Suc by (metis prod.collapse)
  have "N \<le> length (we_nodes e)" using Suc.prems(1) by simp
  from Suc.IH [OF this w] obtain U out where len: "length V1 = N" and U: "U 0 = s" "U N = s1" "\<forall>i < N. traced kern e toks V1 U out i"
    by blast
  have reads: "j < i" if "node_reads (we_nodes e ! i) j" "i \<le> N" for i j
    using b that Suc.prems(1) by (simp add: backward_def)
  obtain x o' where V: "V = V1 @ [x]" and x: "if gn_op (we_nodes e ! N) = OP_INPUT then x = toks \<and> s' = s1
      else graph_op_compute kern (node_ctx e N) (source_values V1 (we_nodes e ! N)) s1 = (True, o', s')
        \<and> x = map o' [0 ..< oc_r (node_ctx e N) * oc_od (node_ctx e N)]"
    using n by (auto simp: eval_node_source split: if_splits prod.splits)
  have src: "source_values V (we_nodes e ! i) = source_values V1 (we_nodes e ! i)" if "i \<le> N" for i
    unfolding V using reads [of i] that len by (intro source_values_append) fastforce
  let ?U = "U(Suc N := s')" and ?out = "out(N := o')"
  have "traced kern e toks V ?U ?out i" if "i < Suc N" for i
  proof (cases "i = N")
    case True
    have "V ! N = x" using len by (simp add: V)
    then show ?thesis using x U(2) True src [of N] by (simp add: traced_def split: if_splits)
  next
    case False
    then have "V ! i = V1 ! i" using that len by (simp add: V nth_append)
    then show ?thesis using U(3) src [of i] that False by (simp add: traced_def)
  qed
  moreover have "?U 0 = s" "?U (Suc N) = s'" "length V = Suc N" using len U(1) V by simp_all
  ultimately show ?case by blast
qed (auto intro!: exI [of _ "\<lambda>_. s"])

section \<open>The contract of a row-wise kernel\<close>

text \<open>What a source of node \<open>node\<close> has per row, in a graph whose rows have these widths.\<close>

definition slot_width :: "graph_node list \<Rightarrow> u32 list \<Rightarrow> nat \<Rightarrow> nat" where
  "slot_width nodes dims j = (if gn_op (nodes ! j) = OP_INPUT then 1 else unat (dims ! j))"

definition src_width :: "graph_node list \<Rightarrow> u32 list \<Rightarrow> graph_node \<Rightarrow> nat \<Rightarrow> nat" where
  "src_width nodes dims node k = (case gn_src node ! k of None \<Rightarrow> 0 | Some j \<Rightarrow> slot_width nodes dims j)"

text \<open>The graph, its token-by-token run, and the batch.\<close>

definition run_env :: "graph_node list \<Rightarrow> bool list \<Rightarrow> u32 list \<Rightarrow> nat list \<Rightarrow> nat \<Rightarrow> nat \<Rightarrow> walk_env" where
  "run_env nodes sinks dims caps pos n =
     \<lparr>we_nodes = nodes, we_sinks = sinks, we_dims = dims, we_caps = caps, we_pos = pos, we_n = n\<rparr>"

definition splittable ::
    "(graph_node \<Rightarrow> nat \<Rightarrow> (nat \<Rightarrow> nat) \<Rightarrow> bool) \<Rightarrow> (graph_node \<Rightarrow> 's set) \<Rightarrow> (graph_node \<Rightarrow> bool) \<Rightarrow> graph_node list \<Rightarrow> bool list \<Rightarrow> u32 list \<Rightarrow> bool" where
  "splittable fit owns final nodes sinks dims \<longleftrightarrow>
     backward nodes \<and> 1 < length nodes
     \<and> (\<forall>i < length nodes. (gn_op (nodes ! i) = OP_INPUT \<longleftrightarrow> i = 0) \<and> gn_op (nodes ! i) \<noteq> OP_H2D \<and> gn_op (nodes ! i) \<noteq> OP_D2H
          \<and> (sinks ! i \<longleftrightarrow> Suc i = length nodes) \<and> (\<forall>j. node_reads (nodes ! i) j \<longrightarrow> Suc j < length nodes)
          \<and> (\<forall>k < operands (gn_op (nodes ! i)). k < length (gn_src (nodes ! i)) \<and> gn_src (nodes ! i) ! k \<noteq> None)
          \<and> (0 < i \<longrightarrow> fit (nodes ! i) (unat (dims ! i)) (src_width nodes dims (nodes ! i)))
          \<and> (\<forall>j < length nodes. i \<noteq> j \<longrightarrow> owns (nodes ! i) \<inter> owns (nodes ! j) = {}))
     \<and> final (nodes ! (length nodes - 1))"

lemma splittableD:
  assumes "splittable fit owns final nodes sinks dims" and "i < length nodes"
  shows "(gn_op (nodes ! i) = OP_INPUT \<longleftrightarrow> i = 0) \<and> gn_op (nodes ! i) \<noteq> OP_H2D \<and> gn_op (nodes ! i) \<noteq> OP_D2H
    \<and> (sinks ! i \<longleftrightarrow> Suc i = length nodes) \<and> (\<forall>j. node_reads (nodes ! i) j \<longrightarrow> Suc j < length nodes)
    \<and> (\<forall>k < operands (gn_op (nodes ! i)). k < length (gn_src (nodes ! i)) \<and> gn_src (nodes ! i) ! k \<noteq> None)
    \<and> (0 < i \<longrightarrow> fit (nodes ! i) (unat (dims ! i)) (src_width nodes dims (nodes ! i)))
    \<and> (\<forall>j < length nodes. i \<noteq> j \<longrightarrow> owns (nodes ! i) \<inter> owns (nodes ! j) = {})"
  using assms unfolding splittable_def by blast

locale row_kernel =
  fixes kern :: "('s \<Rightarrow> 'b) kernel_op" and owns :: "graph_node \<Rightarrow> 's set"
    and fit :: "graph_node \<Rightarrow> nat \<Rightarrow> (nat \<Rightarrow> nat) \<Rightarrow> bool" and final :: "graph_node \<Rightarrow> bool" and cap :: nat
  assumes batch: "fit node od W \<Longrightarrow> 0 < n \<Longrightarrow> pos + n \<le> cap
      \<Longrightarrow> (\<And>k. k < operands (gn_op node) \<Longrightarrow> k < length srcs \<and> length (srcs ! k) = n * W k)
      \<Longrightarrow> by_rows kern node od pos (map (\<lambda>p. row_of W p srcs) [0 ..< n]) st = (True, ys, st')
      \<Longrightarrow> \<exists>out. kern (batch_ctx node od pos n) srcs st = (True, out, st') \<and> map out [0 ..< n * od] = ys"
    and sink: "fit node od W \<Longrightarrow> final node \<Longrightarrow> 0 < n \<Longrightarrow> pos + n \<le> cap
      \<Longrightarrow> (\<And>k. k < operands (gn_op node) \<Longrightarrow> k < length srcs \<and> length (srcs ! k) = n * W k)
      \<Longrightarrow> kern (row_ctx node od (pos + (n - 1))) (row_of W (n - 1) srcs) st = (True, out, st')
      \<Longrightarrow> \<exists>out'. kern (sink_ctx node od pos n) srcs st = (True, out', st') \<and> map out' [0 ..< od] = map out [0 ..< od]"
    and final_owns: "final node \<Longrightarrow> owns node = {}"
    and input_owns: "gn_op node = OP_INPUT \<Longrightarrow> owns node = {}"
    and own: "fit node od W \<Longrightarrow> pos < cap \<Longrightarrow> kern (row_ctx node od pos) srcs st = (True, out, st')
      \<Longrightarrow> (\<And>x. x \<in> owns node \<Longrightarrow> st2 x = st x)
      \<Longrightarrow> kern (row_ctx node od pos) srcs st2 = (True, out, \<lambda>x. if x \<in> owns node then st' x else st2 x)"
begin

lemma frame:
  "fit node od W \<Longrightarrow> pos < cap \<Longrightarrow> kern (row_ctx node od pos) srcs st = (True, out, st') \<Longrightarrow> x \<notin> owns node \<Longrightarrow> st' x = st x"
  using fun_cong [of st' "\<lambda>x. if x \<in> owns node then st' x else st x" x] own [of node od W pos srcs st out st' st] by simp

text \<open>The rows of one node, given the values and states of the token-by-token run.\<close>

lemma node_rows_run:
  assumes f: "fit node od W"
    and run: "\<And>p. p < n \<Longrightarrow> kern (row_ctx node od (pos + p)) (rows ! p) (U p) = (True, out p, U' p)"
    and link: "\<And>p x. p < n \<Longrightarrow> x \<in> owns node \<Longrightarrow> U p x = S p x \<and> U' p x = S (Suc p) x"
    and len: "length rows = n" and cap: "pos + n \<le> cap" and st: "\<And>x. x \<in> owns node \<Longrightarrow> st x = S 0 x"
  shows "by_rows kern node od pos rows st
    = (True, concat (map (\<lambda>p. map (out p) [0 ..< od]) [0 ..< n]), \<lambda>x. if x \<in> owns node then S n x else st x)"
proof -
  have "by_rows kern node od (pos + p) (drop p rows) s
      = (True, concat (map (\<lambda>p. map (out p) [0 ..< od]) [p ..< n]), \<lambda>x. if x \<in> owns node then S n x else s x)"
    if "p \<le> n" "\<And>x. x \<in> owns node \<Longrightarrow> s x = S p x" for p s
    using that
  proof (induction "n - p" arbitrary: p s)
    case 0
    then have "p = n" by simp
    moreover have "(\<lambda>x. if x \<in> owns node then S n x else s x) = s" using 0 \<open>p = n\<close> by auto
    ultimately show ?case using len by simp
  next
    case (Suc m)
    then have p: "p < n" by simp
    have k: "kern (row_ctx node od (pos + p)) (rows ! p) s = (True, out p, \<lambda>x. if x \<in> owns node then U' p x else s x)"
      using p cap link Suc.prems(2) by (intro own [OF f _ run [OF p]]) simp_all
    have IH: "by_rows kern node od (pos + Suc p) (drop (Suc p) rows) (\<lambda>x. if x \<in> owns node then U' p x else s x)
      = (True, concat (map (\<lambda>p. map (out p) [0 ..< od]) [Suc p ..< n]),
         \<lambda>x. if x \<in> owns node then S n x else (if x \<in> owns node then U' p x else s x))"
      using Suc.hyps(2) p link by (intro Suc.hyps(1)) simp_all
    have "drop p rows = rows ! p # drop (Suc p) rows" using p len by (simp add: Cons_nth_drop_Suc)
    moreover have "[p ..< n] = p # [Suc p ..< n]" using p by (simp add: upt_conv_Cons)
    ultimately show ?case using k IH by (simp cong: if_cong)
  qed
  from this [of 0 st] st show ?thesis by simp
qed


text \<open>One token: a node runs on its row, and the buffers of a node change at that node only.\<close>

lemma traced_row:
  assumes g: "splittable fit owns final nodes sinks dims" and i: "i < length nodes" "0 < i"
    and tr: "traced kern (run_env nodes sinks dims caps q 1) toks V U out i"
  shows "kern (row_ctx (nodes ! i) (unat (dims ! i)) q) (source_values V (nodes ! i)) (U i) = (True, out i, U (Suc i))
    \<and> V ! i = map (out i) [0 ..< unat (dims ! i)]"
proof -
  have op: "gn_op (nodes ! i) \<noteq> OP_INPUT" "gn_op (nodes ! i) \<noteq> OP_H2D" "gn_op (nodes ! i) \<noteq> OP_D2H"
    using g i by (auto simp: splittable_def)
  have "node_ctx (run_env nodes sinks dims caps q 1) i = row_ctx (nodes ! i) (unat (dims ! i)) q"
    by (simp add: node_ctx_def run_env_def row_ctx_def)
  then show ?thesis using tr op by (simp add: traced_def run_env_def graph_op_compute_def row_ctx_def)
qed

lemma traced_keeps:
  assumes g: "splittable fit owns final nodes sinks dims" and q: "q < cap"
    and tr: "\<And>j. j < length nodes \<Longrightarrow> traced kern (run_env nodes sinks dims caps q 1) toks V U out j"
    and x: "\<And>j. a \<le> j \<Longrightarrow> j < b \<Longrightarrow> x \<notin> owns (nodes ! j)" and ab: "a \<le> b" "b \<le> length nodes"
  shows "U b x = U a x"
proof -
  have step: "U (Suc j) x = U j x" if j: "j < length nodes" "x \<notin> owns (nodes ! j)" for j
  proof (cases "j = 0")
    case True
    then show ?thesis using tr [OF j(1)] splittableD [OF g j(1)] by (simp add: traced_def run_env_def)
  next
    case False
    then have "fit (nodes ! j) (unat (dims ! j)) (src_width nodes dims (nodes ! j))"
      using splittableD [OF g j(1)] by blast
    then show ?thesis using traced_row [OF g j(1) _ tr [OF j(1)]] False q j(2) by (intro frame) auto
  qed
  show ?thesis using ab x
  proof (induction b)
    case (Suc b)
    then show ?case by (cases "a = Suc b") (simp_all add: step)
  qed simp
qed

lemma traced_slots:
  assumes g: "splittable fit owns final nodes sinks dims" and q: "q < cap" and i: "i < length nodes" and x: "x \<in> owns (nodes ! i)"
    and tr: "\<And>j. j < length nodes \<Longrightarrow> traced kern (run_env nodes sinks dims caps q 1) toks V U out j"
  shows "U i x = U 0 x \<and> U (Suc i) x = U (length nodes) x"
proof -
  have "x \<notin> owns (nodes ! j)" if "j < length nodes" "j \<noteq> i" for j
    using splittableD [OF g i] x that by blast
  then show ?thesis using traced_keeps [OF g q tr, of 0 i] traced_keeps [OF g q tr, of "Suc i" "length nodes"] i by simp
qed

end

lemma length_blocks: "(\<And>p. p < n \<Longrightarrow> length (f p) = w) \<Longrightarrow> length (concat (map f [0 ..< n])) = n * w"
  by (induction n) simp_all

lemma concat_block:
  assumes "\<And>p. p < n \<Longrightarrow> length (f p) = w" and "p < n"
  shows "take w (drop (p * w) (concat (map f [0 ..< n]))) = f p"
  using assms
proof (induction n arbitrary: p)
  case (Suc n)
  have len: "length (concat (map f [0 ..< n])) = n * w" using Suc.prems(1) by (intro length_blocks) simp
  show ?case
  proof (cases "p = n")
    case True
    then show ?thesis using len Suc.prems(1) [of n] by simp
  next
    case False
    then have p: "p < n" using Suc.prems(2) by simp
    then have "p * w + w \<le> n * w" using mult_le_mono1 [of "Suc p" n w] by simp
    then show ?thesis using Suc.IH [OF _ p] Suc.prems(1) p len by simp
  qed
qed simp

context row_kernel
begin

text \<open>The rows of the sources.\<close>

lemma batch_sources:
  assumes g: "splittable fit owns final nodes sinks dims" and i: "i < length nodes"
    and V: "\<And>p j. p < n \<Longrightarrow> j < i \<Longrightarrow> length (V p ! j) = slot_width nodes dims j"
    and B: "\<And>j. j < i \<Longrightarrow> B ! j = concat (map (\<lambda>p. V p ! j) [0 ..< n])"
  defines "W \<equiv> src_width nodes dims (nodes ! i)"
  shows "p < n \<Longrightarrow> row_of W p (source_values B (nodes ! i)) = source_values (V p) (nodes ! i)"
    and "k < operands (gn_op (nodes ! i)) \<Longrightarrow>
      k < length (source_values B (nodes ! i)) \<and> length (source_values B (nodes ! i) ! k) = n * W k"
proof -
  have reads: "j < i" if "gn_src (nodes ! i) ! k = Some j" "k < length (gn_src (nodes ! i))" for j k
    using g i that by (auto simp: splittable_def backward_def node_reads_def in_set_conv_nth)
  have row: "take (W k) (drop (p * W k) (source_values B (nodes ! i) ! k)) = source_values (V p) (nodes ! i) ! k"
    if k: "k < length (gn_src (nodes ! i))" and p: "p < n" for k p
  proof (cases "gn_src (nodes ! i) ! k")
    case None
    then show ?thesis using k by (simp add: source_values_def W_def src_width_def)
  next
    case (Some j)
    have "j < i" using reads Some k by blast
    then show ?thesis
      using concat_block [of n "\<lambda>p. V p ! j" "slot_width nodes dims j" p] V B p k Some
      by (simp add: source_values_def W_def src_width_def)
  qed
  show "row_of W p (source_values B (nodes ! i)) = source_values (V p) (nodes ! i)" if "p < n"
    using row [OF _ that] by (intro nth_equalityI) (simp_all add: row_of_def source_values_def)
  assume k: "k < operands (gn_op (nodes ! i))"
  then have "k < length (gn_src (nodes ! i)) \<and> gn_src (nodes ! i) ! k \<noteq> None" using splittableD [OF g i] by blast
  then obtain j where j: "gn_src (nodes ! i) ! k = Some j" "k < length (gn_src (nodes ! i))" by blast
  have "length (B ! j) = n * slot_width nodes dims j"
    unfolding B [OF reads [OF j]] using V [OF _ reads [OF j]] by (rule length_blocks)
  then show "k < length (source_values B (nodes ! i)) \<and> length (source_values B (nodes ! i) ! k) = n * W k"
    using j by (simp add: source_values_def W_def src_width_def)
qed

text \<open>The batch, given the traces of the single tokens.\<close>

lemma batch_node:
  fixes nodes sinks dims caps
  defines "run \<equiv> run_env nodes sinks dims caps"
  assumes g: "splittable fit owns final nodes sinks dims" and n: "0 < n" "pos + n \<le> cap"
    and tr: "\<And>p i. p < n \<Longrightarrow> i < length nodes \<Longrightarrow> traced kern (run (pos + p) 1) [toks ! p] (V p) (U p) (out p) i"
    and U: "\<And>p. p < n \<Longrightarrow> U p 0 = S p \<and> U p (length nodes) = S (Suc p)"
    and i: "0 < i" "i < length nodes"
    and B: "\<And>j. j < i \<Longrightarrow> B ! j = concat (map (\<lambda>p. V p ! j) [0 ..< n])"
    and st: "\<And>x. x \<in> owns (nodes ! i) \<Longrightarrow> st x = S 0 x"
  shows "eval_node kern (run pos n) toks i (B, st) =
    (True, B @ [if Suc i = length nodes then V (n - 1) ! i else concat (map (\<lambda>p. V p ! i) [0 ..< n])],
     \<lambda>y. if y \<in> owns (nodes ! i) then S n y else st y)"
proof -
  let ?od = "unat (dims ! i)" and ?W = "src_width nodes dims (nodes ! i)" and ?srcs = "source_values B (nodes ! i)"
  note nd = splittableD [OF g i(2)]
  then have f: "fit (nodes ! i) ?od ?W" and op: "gn_op (nodes ! i) \<noteq> OP_INPUT" "gn_op (nodes ! i) \<noteq> OP_H2D" "gn_op (nodes ! i) \<noteq> OP_D2H"
    using i by auto
  have Vj: "length (V p ! j) = slot_width nodes dims j" if "p < n" "j < i" for p j
  proof (cases "j = 0")
    case True
    have z: "0 < length nodes" using i by linarith
    show ?thesis using tr [OF that(1) z] splittableD [OF g z] True by (simp add: traced_def run_def run_env_def slot_width_def)
  next
    case False
    have j: "j < length nodes" using that i by simp
    then show ?thesis
      using traced_row [OF g j _ tr [OF that(1) j, unfolded run_def]] False splittableD [OF g j] by (simp add: slot_width_def)
  qed
  note row = traced_row [OF g i(2,1) tr [OF _ i(2), unfolded run_def]]
  have rows: "map (\<lambda>p. row_of ?W p ?srcs) [0 ..< n] = map (\<lambda>p. source_values (V p) (nodes ! i)) [0 ..< n]"
    using batch_sources(1) [OF g i(2) Vj B] by simp
  have link: "U p i x = S p x \<and> U p (Suc i) x = S (Suc p) x" if "p < n" "x \<in> owns (nodes ! i)" for p x
    using traced_slots [OF g _ i(2) that(2) tr [OF that(1), unfolded run_def]] U [OF that(1)] that(1) n(2) by simp
  have all: "by_rows kern (nodes ! i) ?od pos (map (\<lambda>p. row_of ?W p ?srcs) [0 ..< n]) st
      = (True, concat (map (\<lambda>p. map (out p i) [0 ..< ?od]) [0 ..< n]), \<lambda>x. if x \<in> owns (nodes ! i) then S n x else st x)"
    unfolding rows using row link st n(2)
    by (intro node_rows_run [OF f, where U = "\<lambda>p. U p i" and U' = "\<lambda>p. U p (Suc i)"]) simp_all
  have cat: "concat (map (\<lambda>p. map (out p i) [0 ..< ?od]) [0 ..< n]) = concat (map (\<lambda>p. V p ! i) [0 ..< n])"
    using row by (intro arg_cong [of _ _ concat] map_cong) simp_all
  show ?thesis
  proof (cases "Suc i = length nodes")
    case False
    then have ctx: "node_ctx (run pos n) i = batch_ctx (nodes ! i) ?od pos n"
      using nd by (simp add: node_ctx_def run_def run_env_def batch_ctx_def)
    from batch [OF f n batch_sources(2) [OF g i(2) Vj B] all] obtain o' where
      k: "kern (batch_ctx (nodes ! i) ?od pos n) ?srcs st = (True, o', \<lambda>x. if x \<in> owns (nodes ! i) then S n x else st x)"
      "map o' [0 ..< n * ?od] = concat (map (\<lambda>p. V p ! i) [0 ..< n])" unfolding cat by blast
    have "graph_op_compute kern (node_ctx (run pos n) i) ?srcs st = (True, o', \<lambda>x. if x \<in> owns (nodes ! i) then S n x else st x)"
      using k(1) op unfolding ctx by (simp add: graph_op_compute_def batch_ctx_def)
    moreover have "oc_r (node_ctx (run pos n) i) * oc_od (node_ctx (run pos n) i) = n * ?od" by (simp add: ctx batch_ctx_def)
    ultimately show ?thesis using False op k(2) by (simp add: eval_node_source run_def run_env_def)
  next
    case True
    then have ctx: "node_ctx (run pos n) i = sink_ctx (nodes ! i) ?od pos n"
      using nd by (simp add: node_ctx_def run_def run_env_def sink_ctx_def)
    have "length nodes - 1 = i" using True by simp
    then have fin: "final (nodes ! i)" using g by (simp add: splittable_def)
    then have none: "owns (nodes ! i) = {}" by (rule final_owns)
    have "kern (row_ctx (nodes ! i) ?od (pos + (n - 1))) (row_of ?W (n - 1) ?srcs) st = (True, out (n - 1) i, st)"
      using own [OF f _ conjunct1 [OF row], of "n - 1" st] n none batch_sources(1) [OF g i(2) Vj B, of "n - 1"] by simp
    from sink [OF f fin n batch_sources(2) [OF g i(2) Vj B] this] obtain o' where
      k: "kern (sink_ctx (nodes ! i) ?od pos n) ?srcs st = (True, o', st)" "map o' [0 ..< ?od] = map (out (n - 1) i) [0 ..< ?od]" by blast
    have "graph_op_compute kern (node_ctx (run pos n) i) ?srcs st = (True, o', st)"
      using k(1) op unfolding ctx by (simp add: graph_op_compute_def sink_ctx_def)
    moreover have "oc_r (node_ctx (run pos n) i) * oc_od (node_ctx (run pos n) i) = ?od" by (simp add: ctx sink_ctx_def)
    ultimately show ?thesis using True op k(2) row [of "n - 1"] n none by (simp add: eval_node_source run_def run_env_def)
  qed
qed

text \<open>The whole graph.\<close>

theorem batch_eval:
  fixes nodes sinks dims caps
  defines "run \<equiv> run_env nodes sinks dims caps"
  assumes g: "splittable fit owns final nodes sinks dims" and n: "0 < n" "pos + n \<le> cap" "length toks = n"
    and one: "\<And>p. p < n \<Longrightarrow> graph_eval kern (run (pos + p) 1) [toks ! p] (S p) = (True, V p, S (Suc p))"
  shows "\<exists>B. graph_eval kern (run pos n) toks (S 0) = (True, B, S n) \<and> length B = length nodes \<and> last B = last (V (n - 1))"
proof -
  let ?N = "length nodes"
  have N: "1 < ?N" "backward nodes" using g by (simp_all add: splittable_def)
  have "\<exists>U out. length (V p) = ?N \<and> U 0 = S p \<and> U ?N = S (Suc p)
      \<and> (\<forall>i < ?N. traced kern (run (pos + p) 1) [toks ! p] (V p) U out i)" if "p < n" for p
    using eval_trace [of "run (pos + p) 1" ?N kern "[toks ! p]" "S p" "V p" "S (Suc p)"] one [OF that] N(2)
    by (simp add: run_def run_env_def graph_eval_def)
  then obtain U out where len: "\<And>p. p < n \<Longrightarrow> length (V p) = ?N"
    and U: "\<And>p. p < n \<Longrightarrow> U p 0 = S p \<and> U p ?N = S (Suc p)"
    and tr: "\<And>p i. p < n \<Longrightarrow> i < ?N \<Longrightarrow> traced kern (run (pos + p) 1) [toks ! p] (V p) (U p) (out p) i"
    by metis
  let ?B = "\<lambda>j. if Suc j = ?N then V (n - 1) ! j else concat (map (\<lambda>p. V p ! j) [0 ..< n])"
  let ?st = "\<lambda>i y. if \<exists>j < i. y \<in> owns (nodes ! j) then S n y else S 0 y"
  have "walk (eval_node kern (run pos n) toks) [0 ..< i] ([], S 0) = (True, map ?B [0 ..< i], ?st i)" if "i \<le> ?N" for i
    using that
  proof (induction i)
    case (Suc i)
    have "eval_node kern (run pos n) toks i (map ?B [0 ..< i], ?st i) = (True, map ?B [0 ..< Suc i], ?st (Suc i))"
    proof (cases "i = 0")
      case True
      have z: "0 < ?N" using N by linarith
      have input: "gn_op (nodes ! 0) = OP_INPUT" using splittableD [OF g z] by simp
      then have "owns (nodes ! 0) = {}" by (rule input_owns)
      moreover have "concat (map (\<lambda>p. V p ! 0) [0 ..< n]) = toks"
      proof -
        have "map (\<lambda>p. V p ! 0) [0 ..< n] = map (\<lambda>p. [toks ! p]) [0 ..< n]"
          using tr [OF _ z] input by (simp add: traced_def run_def run_env_def)
        then show ?thesis using n(3) map_nth [of toks] by (simp only: concat_map_singleton)
      qed
      moreover have "Suc 0 \<noteq> ?N" using N(1) by simp
      ultimately show ?thesis using True input by (simp add: eval_node_source run_def run_env_def)
    next
      case False
      have i: "0 < i" "i < ?N" using False Suc.prems by simp_all
      have "y \<notin> owns (nodes ! j)" if "y \<in> owns (nodes ! i)" "j < i" for y j
      proof -
        have "owns (nodes ! i) \<inter> owns (nodes ! j) = {}"
          using conjunct2 [OF splittableD [OF g i(2)]] that(2) i(2) by simp
        then show ?thesis using that(1) by blast
      qed
      then have S0: "?st i y = S 0 y" if "y \<in> owns (nodes ! i)" for y using that by auto
      have B: "map ?B [0 ..< i] ! j = concat (map (\<lambda>p. V p ! j) [0 ..< n])" if "j < i" for j
        using that i(2) by simp
      have st: "(\<lambda>y. if y \<in> owns (nodes ! i) then S n y else ?st i y) = ?st (Suc i)"
        by (rule ext) (auto simp: less_Suc_eq)
      show ?thesis
        using batch_node [OF g n(1,2) tr [unfolded run_def] U i B S0] st by (simp add: run_def)
    qed
    with Suc show ?case by (simp add: walk_append)
  qed simp
  from this [of ?N] have "graph_eval kern (run pos n) toks (S 0) = (True, map ?B [0 ..< ?N], ?st ?N)"
    by (simp add: graph_eval_def run_def run_env_def)
  moreover have "?st ?N = S n"
  proof (rule ext)
    fix y
    have "S p y = S 0 y" if "\<not> (\<exists>j < ?N. y \<in> owns (nodes ! j))" "p \<le> n" for p
      using that(2)
    proof (induction p)
      case (Suc p)
      then have p: "p < n" "pos + p < cap" using n(2) by simp_all
      have "U p ?N y = U p 0 y"
        using that(1) by (intro traced_keeps [OF g p(2) tr [OF p(1), unfolded run_def]]) auto
      then show ?case using U [OF p(1)] Suc.IH p(1) by simp
    qed simp
    from this [of n] show "?st ?N y = S n y" by (cases "\<exists>j < ?N. y \<in> owns (nodes ! j)") simp_all
  qed
  moreover have "last (map ?B [0 ..< ?N]) = last (V (n - 1))"
    using N(1) len [of "n - 1"] n(1) by (subst (1 2) last_conv_nth) auto
  ultimately show ?thesis by (intro exI [of _ "map ?B [0 ..< ?N]"]) simp
qed

end

end
