(* ===== verification/CpuBatch.thy ===== *)
theory CpuBatch
  imports BatchSplit CpuRowOps CpuRowRec CpuRowScan CpuMatmul CpuAttn CpuFrame
begin

text \<open>The CPU operators satisfy the contract of \<open>BatchSplit\<close>: every operator of a well typed graph
  works row by row and touches the buffers of its node only.  A session that runs on them cannot
  observe the size of its micro-batches.\<close>

section \<open>Operators of a typed graph\<close>

text \<open>What the operators need beyond the widths: sizes that fit the C types, an embedding that reads
  the token ids, a matrix whose elements the file holds, an even number of rotated cells, the
  caches of attention.\<close>

definition node_ready :: "cpu_env \<Rightarrow> (nat \<Rightarrow> nat) \<Rightarrow> nat \<Rightarrow> graph_node \<Rightarrow> bool" where
  "node_ready E W od node \<longleftrightarrow>
     od \<noteq> 0 \<and> od < 2 ^ 31 \<and> (\<forall>k < operands (gn_op node). W k < 2 ^ 32)
     \<and> (\<forall>k < weight_operands (gn_op node). gn_weights node ! k \<noteq> None)
     \<and> (let p = (\<lambda>k. unat (gn_params node ! k)); mat = W 0 \<noteq> 0 \<and> tensor_holds E (the (gn_weights node ! 0)) (od * W 0) in
        case gn_op node of
          OP_INPUT \<Rightarrow> False
        | OP_H2D \<Rightarrow> False
        | OP_D2H \<Rightarrow> False
        | OP_EMBED \<Rightarrow> W 0 = 1
        | OP_RMS_NORM_HEADS \<Rightarrow> p 1 = p 3 \<and> p 1 \<le> p 2
        | OP_ROPE_NORM \<Rightarrow> even (p 3)
        | OP_MATMUL \<Rightarrow> mat
        | OP_MATMUL_T \<Rightarrow> mat
        | OP_MATMULARRY \<Rightarrow> mat
        | OP_ATTN \<Rightarrow> ce_cache E \<and> ce_kv E (p 0) \<and> attn_geometry E od
        | _ \<Rightarrow> True)"

lemma row_op_cong: "(\<And>k. k < operands (gn_op node) \<Longrightarrow> W k = W' k) \<Longrightarrow> row_op E node od W = row_op E node od W'"
  unfolding row_op_def by (intro ex_cong1 conj_cong) auto

lemmas row_op_facts = node_ready_def widths_ok_def Let_def

lemma some_the: "x \<noteq> None \<Longrightarrow> Some (the x) = x"
  by simp

lemma row_op_all:
  assumes s: "simd_sums E" and w: "widths_ok (ce_ts E) (ce_cfg E) ns W od node" and r: "node_ready E W od node"
  shows "row_op E node od W"
proof -
  have od: "od \<noteq> 0" "od < 2 ^ 31" "od < 2 ^ 32" using r by (simp_all add: node_ready_def)
  have wt: "Some (the (gn_weights node ! k)) = gn_weights node ! k" if "k < weight_operands (gn_op node)" for k
    using r that by (simp add: node_ready_def)
  have small: "W k < 2 ^ 32" if "k < operands (gn_op node)" for k using r that by (simp add: node_ready_def)
  show ?thesis
  proof (cases "gn_op node")
    case OP_ADD
    then show ?thesis using od w by (intro row_op_binary) (simp_all add: widths_ok_def Let_def)
  next
    case OP_MUL
    then show ?thesis using od w by (intro row_op_binary) (simp_all add: widths_ok_def Let_def)
  next
    case OP_MATMUL
    then show ?thesis using od w r s wt [of 0] small [of 0] by (intro row_op_matmul) (simp_all add: row_op_facts)
  next
    case OP_MATMULARRY
    then show ?thesis using od w r s wt [of 0] small [of 0] by (intro row_op_matmul) (simp_all add: row_op_facts)
  next
    case OP_MATMUL_T
    then show ?thesis using od w r s wt [of 0] small [of 0] by (intro row_op_matmul) (simp_all add: row_op_facts)
  next
    case OP_SCALE
    then show ?thesis using od w by (intro row_op_scale) (simp_all add: widths_ok_def Let_def)
  next
    case OP_RMS_NORM
    then show ?thesis using od w wt [of 0] by (intro row_op_rms_norm) (simp_all add: widths_ok_def Let_def)
  next
    case OP_RMS_NORM_HEADS
    then show ?thesis using od w r by (intro row_op_rms_norm_heads) (simp_all add: row_op_facts word_unat_eq_iff)
  next
    case OP_SIGMOID_GATE
    then show ?thesis using od w by (intro row_op_sigmoid_gate) (simp_all add: widths_ok_def Let_def)
  next
    case OP_ROPE_NEOX
    then show ?thesis using od w by (intro row_op_rope [where f = "rope_partial (ce_floats E)"]) (simp_all add: widths_ok_def Let_def)
  next
    case OP_ROPE_NORM
    then show ?thesis using od w r by (intro row_op_rope [where f = "rope_pairs (ce_floats E)"]) (simp_all add: row_op_facts)
  next
    case OP_SOFTMAX
    then show ?thesis using od w by (intro row_op_unary [where f = "softmax_n (ce_floats E)"]) (simp_all add: widths_ok_def Let_def)
  next
    case OP_SILU
    then show ?thesis using od w by (intro row_op_unary [where f = "silu (ce_floats E)"]) (simp_all add: widths_ok_def Let_def)
  next
    case OP_GELU
    then show ?thesis using od w by (intro row_op_unary [where f = "gelu_n (ce_floats E)"]) (simp_all add: widths_ok_def Let_def)
  next
    case OP_EMBED
    then show ?thesis using od r by (intro row_op_embed) (simp_all add: row_op_facts)
  next
    case OP_BIAS
    then show ?thesis using od w by (intro row_op_bias) (simp_all add: widths_ok_def Let_def)
  next
    case OP_ATTN
    then show ?thesis using od w r by (intro row_op_attn) (simp_all add: row_op_facts)
  next
    case OP_SSM_CONV
    then show ?thesis using od w by (intro row_op_ssm_conv) (simp_all add: widths_ok_def Let_def)
  next
    case OP_SSM_DELTA
    then show ?thesis using od w small [of 0] by (intro row_op_ssm_delta) (simp_all add: widths_ok_def Let_def)
  next
    case OP_MAMBA2_CONV
    then show ?thesis using od w small [of 0] by (intro row_op_mamba2_conv) (simp_all add: widths_ok_def Let_def)
  next
    case OP_MAMBA2_SCAN
    then show ?thesis using od w small [of 1] by (intro row_op_mamba2_scan) (simp_all add: widths_ok_def Let_def)
  next
    case OP_SOFTCAP
    then show ?thesis using od w by (intro row_op_softcap) (simp_all add: widths_ok_def Let_def)
  qed (use r in \<open>simp_all add: row_op_facts\<close>)
qed

section \<open>What a call reads and writes\<close>

lemma row_views_cong:
  assumes "\<And>k i. k < m \<Longrightarrow> i < (base + cnt) * w k \<Longrightarrow> op_src srcs k i = op_src srcs' k i"
  shows "row_views m w pos base srcs cnt = row_views m w pos base srcs' cnt"
proof -
  have "row_cut m w (\<lambda>k. ptr (op_src srcs k) ((base + p) * w k)) = row_cut m w (\<lambda>k. ptr (op_src srcs' k) ((base + p) * w k))"
    if "p < cnt" for p
  proof (intro ext)
    fix k i
    show "row_cut m w (\<lambda>k. ptr (op_src srcs k) ((base + p) * w k)) k i = row_cut m w (\<lambda>k. ptr (op_src srcs' k) ((base + p) * w k)) k i"
      using assms [of k "(base + p) * w k + i"] cell_bound [of "base + p" "base + cnt" i "w k"] that
      by (simp add: row_cut_def ptr_def)
  qed
  then show ?thesis by (simp add: row_views_def)
qed

lemma rbind_InrE: "rbind r f = Inr y \<Longrightarrow> (\<And>x. r = Inr x \<Longrightarrow> f x = Inr y \<Longrightarrow> P) \<Longrightarrow> P"
  by (cases r) simp_all

lemma op_local_frame: "op_local A h \<Longrightarrow> h d s = Inr (good, d', s') \<Longrightarrow> x \<notin> A \<Longrightarrow> s' x = s x"
  unfolding op_local_def by (drule spec [of _ d], drule spec [of _ s]) (auto elim!: rbind_InrE simp: over_def)


text \<open>Two rows through the matrix of the toy graph.\<close>

definition toy_call :: op_ctx where
  "toy_call = \<lparr>oc_node = g_nodes toy_run ! 2, oc_od = 6, oc_r = 2, oc_base = 0, oc_pos = 0, oc_n = 2\<rparr>"

lemma toy_call_run:
  "case cpu_graph_op toy_cpu toy_call [[20, 21, 22, 23, 12, 13, 14, 15]] (\<lambda>_. 7) (\<lambda>_ _. 0) of
     Inl e \<Rightarrow> False | Inr (good, out, st) \<Rightarrow> good \<and> out 0 = 134 \<and> out 11 = 1166"
  by code_simp


section \<open>The contract\<close>

definition final_op :: "cpu_env \<Rightarrow> graph_node \<Rightarrow> bool" where
  "final_op E node \<longleftrightarrow> node_slots E node = {} \<and> gn_op node \<noteq> OP_EMBED \<and> gn_op node \<noteq> OP_ATTN"

lemma cpu_kernel_own:
  assumes k: "cpu_kernel E dst c srcs st = (True, out, st')" and eq: "\<And>x. x \<in> node_slots E (oc_node c) \<Longrightarrow> st2 x = st x"
  shows "cpu_kernel E dst c srcs st2 = (True, out, \<lambda>x. if x \<in> node_slots E (oc_node c) then st' x else st2 x)"
proof -
  let ?A = "node_slots E (oc_node c)"
  have loc: "cpu_graph_op E c srcs dst s = rbind (cpu_graph_op E c srcs dst (keep ?A s)) (\<lambda>(good, d', s'). Inr (good, d', over ?A s s'))" for s
    using cpu_graph_op_local [of E c srcs] unfolding op_local_def by blast
  have same: "keep ?A st2 = keep ?A st" using eq by (auto simp: keep_def)
  have g: "cpu_graph_op E c srcs dst st = Inr (True, out, st')"
    using k by (simp add: cpu_kernel_def split: sum.splits)
  then obtain s' where s': "cpu_graph_op E c srcs dst (keep ?A st) = Inr (True, out, s')" "st' = over ?A st s'"
    using loc [of st] by (cases "cpu_graph_op E c srcs dst (keep ?A st)") auto
  then have "cpu_graph_op E c srcs dst st2 = Inr (True, out, over ?A st2 s')" using loc [of st2] same by simp
  moreover have "over ?A st2 s' = (\<lambda>x. if x \<in> ?A then st' x else st2 x)" using s'(2) by (auto simp: over_def)
  ultimately show ?thesis by (simp add: cpu_kernel_def)
qed

interpretation cpu_rows: row_kernel "cpu_kernel E dst" "node_slots E" "row_op E" "final_op E" "ce_cap E" for E dst
proof unfold_locales
  show "\<exists>out. cpu_kernel E dst (batch_ctx node od pos n) srcs st = (True, out, st') \<and> map out [0 ..< n * od] = ys"
    if "row_op E node od W" "0 < n" "pos + n \<le> ce_cap E"
      "\<And>k. k < operands (gn_op node) \<Longrightarrow> k < length srcs \<and> length (srcs ! k) = n * W k"
      "by_rows (cpu_kernel E dst) node od pos (map (\<lambda>p. row_of W p srcs) [0 ..< n]) st = (True, ys, st')"
    for node od W n pos srcs st ys st'
    using that by (rule row_op_batch)
  show "\<exists>out'. cpu_kernel E dst (sink_ctx node od pos n) srcs st = (True, out', st') \<and> map out' [0 ..< od] = map out [0 ..< od]"
    if "row_op E node od W" "final_op E node" "0 < n" "pos + n \<le> ce_cap E"
      "\<And>k. k < operands (gn_op node) \<Longrightarrow> k < length srcs \<and> length (srcs ! k) = n * W k"
      "cpu_kernel E dst (row_ctx node od (pos + (n - 1))) (row_of W (n - 1) srcs) st = (True, out, st')"
    for node od W n pos srcs st out st'
    using that(1,3-) that(2) unfolding final_op_def by (intro row_op_sink) auto
  show "cpu_kernel E dst (row_ctx node od pos) srcs st2 = (True, out, \<lambda>x. if x \<in> node_slots E node then st' x else st2 x)"
    if "cpu_kernel E dst (row_ctx node od pos) srcs st = (True, out, st')" "\<And>x. x \<in> node_slots E node \<Longrightarrow> st2 x = st x"
    for node od pos srcs st out st' st2
    using cpu_kernel_own [OF that(1), of st2] that(2) by (simp add: row_ctx_def)
qed (simp_all add: final_op_def node_slots_def)

section \<open>Graphs a session can batch\<close>

definition batchable :: "cpu_env \<Rightarrow> graph \<Rightarrow> bool" where
  "batchable E g \<longleftrightarrow>
     (let nodes = g_nodes g; dims = node_dims (ce_ts E) (ce_cfg E) nodes in
      1 < length nodes \<and> final_op E (last nodes)
      \<and> (\<forall>i < length nodes. 0 < i \<longrightarrow> node_ready E (src_width nodes dims (nodes ! i)) (unat (dims ! i)) (nodes ! i)
           \<and> (node_reads (nodes ! i) 0 \<longleftrightarrow> gn_op (nodes ! i) = OP_EMBED))
      \<and> (\<forall>i < length nodes. \<forall>j < length nodes. i \<noteq> j \<longrightarrow> node_slots E (nodes ! i) \<inter> node_slots E (nodes ! j) = {}))"

lemma typed_src:
  assumes g: "graph_typed ts c g" and i: "i < length (g_nodes g)" and k: "k < operands (gn_op (g_nodes g ! i))"
  shows "k < length (gn_src (g_nodes g ! i)) \<and> gn_src (g_nodes g ! i) ! k \<noteq> None"
proof -
  have t: "node_typed ts c (length (g_state g)) (node_dims ts c (g_nodes g)) i (g_nodes g ! i)"
    using g i by (simp add: graph_typed_def)
  have "operands op \<le> 3" for op by (cases op) simp_all
  from this [of "gn_op (g_nodes g ! i)"] have k4: "k < 4" using k by simp
  then have "case gn_src (g_nodes g ! i) ! k of None \<Rightarrow> operands (gn_op (g_nodes g ! i)) \<le> k | Some j \<Rightarrow> j < i"
    using t unfolding node_typed_def by blast
  then show ?thesis using k k4 t by (auto simp: node_typed_def split: option.splits)
qed

lemma src_width_typed:
  assumes g: "graph_typed ts c g" and i: "i < length (g_nodes g)" and k: "k < operands (gn_op (g_nodes g ! i))"
    and no: "\<not> node_reads (g_nodes g ! i) 0"
  shows "src_width (g_nodes g) dims (g_nodes g ! i) k = unat (dims ! the (gn_src (g_nodes g ! i) ! k))"
proof -
  obtain j where j: "gn_src (g_nodes g ! i) ! k = Some j" "k < length (gn_src (g_nodes g ! i))"
    using typed_src [OF g i k] by blast
  then have r: "node_reads (g_nodes g ! i) j" by (auto simp: node_reads_def in_set_conv_nth)
  with no have "j \<noteq> 0" by (cases j) auto
  moreover have "j < i" using r typed_backward [OF g] i by (simp add: backward_def)
  ultimately have "gn_op (g_nodes g ! j) \<noteq> OP_INPUT" using typed_input_first [OF g, of j] i by simp
  then show ?thesis using j by (simp add: src_width_def slot_width_def)
qed

lemma batchable_row_op:
  assumes s: "simd_sums E" and g: "graph_typed (ce_ts E) (ce_cfg E) g" and b: "batchable E g"
    and i: "i < length (g_nodes g)" "0 < i"
  defines "dims \<equiv> node_dims (ce_ts E) (ce_cfg E) (g_nodes g)"
  shows "row_op E (g_nodes g ! i) (unat (dims ! i)) (src_width (g_nodes g) dims (g_nodes g ! i))"
proof -
  let ?n = "g_nodes g ! i" and ?W = "\<lambda>k. unat (dims ! the (gn_src (g_nodes g ! i) ! k))"
  have r: "node_ready E (src_width (g_nodes g) dims ?n) (unat (dims ! i)) ?n"
    and e: "node_reads ?n 0 \<longleftrightarrow> gn_op ?n = OP_EMBED"
    using b i by (simp_all add: batchable_def dims_def Let_def)
  show ?thesis
  proof (cases "gn_op ?n = OP_EMBED")
    case True
    then show ?thesis using r by (intro row_op_embed) (simp_all add: row_op_facts)
  next
    case False
    have t: "node_typed (ce_ts E) (ce_cfg E) (length (g_state g)) dims i ?n"
      using g i by (simp add: graph_typed_def dims_def)
    have "dims ! i = node_out_dim (ce_ts E) (ce_cfg E) dims ?n"
      unfolding dims_def by (rule node_dims_nth [OF i(1)]) (use t in \<open>force simp: node_typed_def dest: spec [of _ 0]\<close>)
    then have w: "widths_ok (ce_ts E) (ce_cfg E) (length (g_state g)) ?W (unat (dims ! i)) ?n"
      using t by (simp add: node_typed_def)
    have eq: "src_width (g_nodes g) dims ?n k = ?W k" if "k < operands (gn_op ?n)" for k
      by (rule src_width_typed [OF g i(1) that]) (use e False in simp)
    have "widths_ok (ce_ts E) (ce_cfg E) (length (g_state g)) (src_width (g_nodes g) dims ?n) (unat (dims ! i)) ?n"
      by (rule widths_ok_cong [OF _ order_refl w]) (simp add: eq)
    from row_op_all [OF s this r] show ?thesis .
  qed
qed

lemma batchable_splittable:
  assumes s: "simd_sums E" and g: "complete_graph bs g" "bs_tensors bs = ce_ts E" "bs_cfg bs = ce_cfg E" and b: "batchable E g"
  shows "splittable (row_op E) (node_slots E) (final_op E) (g_nodes g) (sink_marks (g_nodes g))
    (node_dims (ce_ts E) (ce_cfg E) (g_nodes g))"
proof -
  let ?nodes = "g_nodes g" and ?dims = "node_dims (ce_ts E) (ce_cfg E) (g_nodes g)"
  have t: "graph_typed (ce_ts E) (ce_cfg E) g" and sinks: "\<And>i. i < length ?nodes \<Longrightarrow> is_sink ?nodes i \<longleftrightarrow> i = length ?nodes - 1"
    using g by (simp_all add: complete_graph_def)
  have N: "1 < length ?nodes" using b by (simp add: batchable_def Let_def)
  have "?nodes \<noteq> []" using N by auto
  from last_conv_nth [OF this] have fin: "final_op E (?nodes ! (length ?nodes - 1))"
    using b by (simp add: batchable_def Let_def)
  note bw = typed_backward [OF t]
  have ready: "gn_op (?nodes ! i) \<noteq> OP_H2D \<and> gn_op (?nodes ! i) \<noteq> OP_D2H" if "i < length ?nodes" for i
  proof (cases "i = 0")
    case True
    then show ?thesis using typed_input_first [OF t, of 0] that by simp
  next
    case False
    then have "node_ready E (src_width ?nodes ?dims (?nodes ! i)) (unat (?dims ! i)) (?nodes ! i)"
      using b that by (simp add: batchable_def Let_def)
    then show ?thesis by (auto simp: node_ready_def)
  qed
  have sink: "sink_marks ?nodes ! i \<longleftrightarrow> Suc i = length ?nodes" if "i < length ?nodes" for i
    using sink_marks(2) [OF bw that] sinks [OF that] that by auto
  have reads: "Suc j < length ?nodes" if "i < length ?nodes" "node_reads (?nodes ! i) j" for i j
    using bw that unfolding backward_def by fastforce
  show ?thesis
    unfolding splittable_def
    using bw N fin typed_input_first [OF t] ready sink reads typed_src [OF t] batchable_row_op [OF s t b] b
    by (simp add: batchable_def Let_def)
qed

section \<open>Chunks\<close>

lemma walk_trace:
  "walk f xs s = (True, s') \<Longrightarrow> \<exists>T. T 0 = s \<and> T (length xs) = s' \<and> (\<forall>p < length xs. f (xs ! p) (T p) = (True, T (Suc p)))"
proof (induction xs arbitrary: s)
  case (Cons x xs)
  then obtain s1 where s1: "f x s = (True, s1)" "walk f xs s1 = (True, s')" by (auto split: prod.splits if_splits)
  from Cons.IH [OF this(2)] obtain T where
    T: "T 0 = s1" "T (length xs) = s'" "\<forall>p < length xs. f (xs ! p) (T p) = (True, T (Suc p))" by blast
  then show ?case
    using s1(1) by (intro exI [of _ "\<lambda>p. case p of 0 \<Rightarrow> s | Suc q \<Rightarrow> T q"]) (auto simp: less_Suc_eq_0_disj)
qed auto

lemma chunks_single: "chunks_from 1 pos xs = map (\<lambda>p. (pos + p, [xs ! p])) [0 ..< length xs]"
proof (induction xs arbitrary: pos)
  case (Cons x xs)
  have "[0 ..< length (x # xs)] = 0 # map Suc [0 ..< length xs]" by (simp add: upt_conv_Cons map_Suc_upt del: upt_Suc)
  then show ?case using Cons [of "Suc pos"] by (subst chunks_from.simps) (simp add: comp_def)
qed (simp add: chunks_from.simps)

lemma chunks_single_append:
  "chunks_from 1 pos (xs @ ys) = chunks_from 1 pos xs @ chunks_from 1 (pos + length xs) ys"
proof (induction xs arbitrary: pos)
  case (Cons x xs)
  then show ?case by (subst (1 2) chunks_from.simps) (simp add: ac_simps)
qed (simp add: chunks_from.simps [of _ _ "[]"])

lemma walk_appendD:
  "walk f (xs @ ys) s = (True, s') \<Longrightarrow> \<exists>s1. walk f xs s = (True, s1) \<and> walk f ys s1 = (True, s')"
  by (auto simp: walk_append split: prod.splits if_splits)

context row_kernel
begin

lemma last_length:
  assumes g: "splittable fit owns final nodes sinks dims"
    and e: "graph_eval kern (run_env nodes sinks dims caps q 1) toks st = (True, V, st')"
  shows "length (last V) = unat (dims ! (length nodes - 1))"
proof -
  have N: "1 < length nodes" "backward nodes" using g by (simp_all add: splittable_def)
  have walk: "walk (eval_node kern (run_env nodes sinks dims caps q 1) toks) [0 ..< length nodes] ([], st) = (True, V, st')"
    using e by (simp add: graph_eval_def run_env_def)
  from eval_trace [OF _ _ walk] obtain U out where len: "length V = length nodes"
    and tr: "\<forall>i < length nodes. traced kern (run_env nodes sinks dims caps q 1) toks V U out i"
    using N(2) by (auto simp: run_env_def)
  have i: "length nodes - 1 < length nodes" "0 < length nodes - 1" using N(1) by simp_all
  have "V \<noteq> []" using len N(1) by auto
  then show ?thesis using conjunct2 [OF traced_row [OF g i tr [rule_format, OF i(1)]]] len by (simp add: last_conv_nth)
qed

lemma stateless:
  assumes g: "splittable fit owns final nodes sinks dims" and q: "q < cap" and none: "\<And>i. i < length nodes \<Longrightarrow> owns (nodes ! i) = {}"
    and e: "graph_eval kern (run_env nodes sinks dims caps q 1) toks st = (True, V, st')"
  shows "st' = st"
proof (rule ext)
  fix x
  have walk: "walk (eval_node kern (run_env nodes sinks dims caps q 1) toks) [0 ..< length nodes] ([], st) = (True, V, st')"
    using e by (simp add: graph_eval_def run_env_def)
  have "backward nodes" using g by (simp add: splittable_def)
  with eval_trace [OF _ _ walk] obtain U out where U: "U 0 = st" "U (length nodes) = st'"
    and tr: "\<forall>i < length nodes. traced kern (run_env nodes sinks dims caps q 1) toks V U out i"
    by (auto simp: run_env_def)
  show "st' x = st x"
    using traced_keeps [OF g q tr [rule_format], of 0 "length nodes" x] none U by simp
qed

end

lemma batch_env_run: "batch_env ts c nodes p pos n = run_env nodes (sink_marks nodes) (node_dims ts c nodes) (pl_cap p) pos n"
  by (simp add: batch_env_def run_env_def)

text \<open>Capacities matter to the executor only.\<close>

lemma graph_eval_caps:
  "graph_eval kern (run_env nodes sinks dims caps pos n) = graph_eval kern (run_env nodes sinks dims caps' pos n)"
proof -
  have "eval_node kern (run_env nodes sinks dims caps pos n) = eval_node kern (run_env nodes sinks dims caps' pos n)"
    by (intro ext) (simp add: eval_node_def node_ctx_def run_env_def Let_def cong: if_cong split: prod.split)
  then show ?thesis by (intro ext) (simp add: graph_eval_def run_env_def)
qed

lemma chunk_eval:
  fixes E dst g
  defines "ev \<equiv> eval_chunk (cpu_kernel E dst) (ce_ts E) (ce_cfg E) (g_nodes g)"
  assumes s: "simd_sums E" and g: "complete_graph bs g" "bs_tensors bs = ce_ts E" "bs_cfg bs = ce_cfg E" and b: "batchable E g"
    and chunk: "chunk \<noteq> []" "pos + length chunk \<le> ce_cap E"
    and w: "walk (ev p1) (chunks_from 1 pos chunk) (st, l) = (True, st', l')"
  shows "ev p (pos, chunk) (st, l) = (True, st', l')"
proof -
  let ?n = "length chunk" and ?nv = "c_n_vocab (ce_cfg E)" and ?nodes = "g_nodes g"
  let ?dims = "node_dims (ce_ts E) (ce_cfg E) ?nodes"
  let ?run = "\<lambda>q pos n. run_env ?nodes (sink_marks ?nodes) ?dims (pl_cap q) pos n"
  note sp = batchable_splittable [OF s g b]
  have "?nodes \<noteq> []" using g by (simp add: complete_graph_def)
  then have "?dims \<noteq> []" by (metis length_node_dims length_0_conv)
  then have nv: "unat (?dims ! (length ?nodes - 1)) = ?nv"
    using g by (simp add: complete_graph_def last_conv_nth)
  from walk_trace [OF w [unfolded chunks_single]] obtain T where T: "T 0 = (st, l)" "T ?n = (st', l')"
    "\<forall>q < ?n. ev p1 (pos + q, [chunk ! q]) (T q) = (True, T (Suc q))" by auto
  have "\<exists>V. graph_eval (cpu_kernel E dst) (?run p1 (pos + q) 1) [chunk ! q] (fst (T q)) = (True, V, fst (T (Suc q)))
      \<and> snd (T (Suc q)) = last V @ drop ?nv (snd (T q))" if "q < ?n" for q
  proof -
    obtain good V st1 where e: "graph_eval (cpu_kernel E dst) (?run p1 (pos + q) 1) [chunk ! q] (fst (T q)) = (good, V, st1)"
      by (metis prod_cases3)
    have "ev p1 (pos + q, [chunk ! q]) (T q) = (True, T (Suc q))" using T(3) that by blast
    then have "(good, st1, if good then last V @ drop ?nv (snd (T q)) else snd (T q)) = (True, T (Suc q))"
      using e by (cases "T q"; cases good) (simp_all add: ev_def eval_chunk_def batch_env_run)
    then show ?thesis using e by (cases "T (Suc q)") simp
  qed
  then obtain V where V: "\<And>q. q < ?n \<Longrightarrow> graph_eval (cpu_kernel E dst) (?run p1 (pos + q) 1) [chunk ! q] (fst (T q)) = (True, V q, fst (T (Suc q)))"
    and L: "\<And>q. q < ?n \<Longrightarrow> snd (T (Suc q)) = last (V q) @ drop ?nv (snd (T q))" by metis
  have tail: "drop ?nv (snd (T q)) = drop ?nv l" if "q \<le> ?n" for q
    using that
  proof (induction q)
    case (Suc q)
    then show ?case using L [of q] cpu_rows.last_length [OF sp V [of q]] nv by simp
  qed (simp add: T(1))
  obtain B where B: "graph_eval (cpu_kernel E dst) (?run p1 pos ?n) chunk (fst (T 0)) = (True, B, fst (T ?n))" "last B = last (V (?n - 1))"
    using cpu_rows.batch_eval [OF sp _ chunk(2) refl V] chunk(1) by auto
  have "l' = last (V (?n - 1)) @ drop ?nv l"
    using L [of "?n - 1"] tail [of "?n - 1"] T(2) chunk(1) by simp
  moreover have "graph_eval (cpu_kernel E dst) (?run p pos ?n) chunk st = (True, B, st')"
    using B(1) T(1,2) graph_eval_caps [of "cpu_kernel E dst" ?nodes "sink_marks ?nodes" ?dims "pl_cap p" pos ?n "pl_cap p1"] by simp
  ultimately show ?thesis using B(2) by (simp add: ev_def eval_chunk_def batch_env_run)
qed

lemma chunks_eval:
  fixes E dst g
  defines "ev \<equiv> eval_chunk (cpu_kernel E dst) (ce_ts E) (ce_cfg E) (g_nodes g)"
  assumes s: "simd_sums E" and g: "complete_graph bs g" "bs_tensors bs = ce_ts E" "bs_cfg bs = ce_cfg E" and b: "batchable E g"
    and m: "0 < m" and cap: "pos + length toks \<le> ce_cap E"
    and w: "walk (ev p1) (chunks_from 1 pos toks) sl = (True, sl')"
  shows "walk (ev p) (chunks_from m pos toks) sl = (True, sl')"
  using m cap w
proof (induction m pos toks arbitrary: sl rule: chunks_from.induct)
  case (1 m pos toks)
  show ?case
  proof (cases "toks = []")
    case True
    then show ?thesis using "1.prems"(3) by (simp add: chunks_from.simps)
  next
    case False
    let ?c = "take m toks" and ?r = "drop m toks"
    have len: "pos + length ?c + length ?r = pos + length toks" by (simp add: min_def)
    have "chunks_from 1 pos toks = chunks_from 1 pos ?c @ chunks_from 1 (pos + length ?c) ?r"
      using chunks_single_append [of pos ?c ?r] by simp
    then obtain sl1 where one: "walk (ev p1) (chunks_from 1 pos ?c) sl = (True, sl1)"
      and more: "walk (ev p1) (chunks_from 1 (pos + length ?c) ?r) sl1 = (True, sl')"
      using walk_appendD "1.prems"(3) by metis
    have "?c \<noteq> []" "pos + length ?c \<le> ce_cap E" using False "1.prems"(1,2) by (simp_all add: min_def)
    then have "ev p (pos, ?c) sl = (True, sl1)"
      using chunk_eval [OF s g b, of ?c pos dst p1 "fst sl" "snd sl" "fst sl1" "snd sl1" p] one by (simp add: ev_def)
    moreover have "walk (ev p) (chunks_from m (pos + length ?c) ?r) sl1 = (True, sl')"
      by (rule "1.IH" [OF _ "1.prems"(1) _ more]) (use False "1.prems"(1,2) len in simp_all)
    ultimately show ?thesis using False "1.prems"(1) by (subst chunks_from.simps) simp
  qed
qed

section \<open>Micro-batches cannot be observed\<close>

text \<open>A session on the CPU operators \<open>E\<close>.\<close>

definition cpu_session :: "cpu_env \<Rightarrow> buf \<Rightarrow> cpu_state exec_env \<Rightarrow> bool" where
  "cpu_session E dst ev \<longleftrightarrow> ev_kern ev = cpu_kernel E dst \<and> ev_ts ev = ce_ts E \<and> ev_cfg ev = ce_cfg E \<and> ev_ctx ev \<le> ce_cap E"


section \<open>A concrete session\<close>

definition toy_cpu_session :: "cpu_state exec_env" where
  "toy_cpu_session = \<lparr>ev_build = CPU_BUILD, ev_ts = [toy_matrix], ev_cfg = toy_config\<lparr>c_n_vocab := 6\<rparr>, ev_ctx = 8, ev_ubatch = 2,
     ev_kern = cpu_kernel toy_cpu (\<lambda>_. 0), ev_alloc = (\<lambda>_ _. True), ev_warm = (\<lambda>_. True), ev_builder = Some (Some toy_run)\<rparr>"

definition toy_cpu_ready :: "cpu_state exec_session" where
  "toy_cpu_ready = \<lparr>ss_graph = Some toy_run, ss_shell = True,
     ss_plan = Some (arena_plan [toy_matrix] (toy_config\<lparr>c_n_vocab := 6\<rparr>) 2 (g_nodes toy_run)), ss_ngl = 0,
     ss_tokens = replicate 8 0, ss_n_tokens = 0, ss_run = \<lparr>rs_mem = (\<lambda>_ _. 0), rs_st = (\<lambda>_ _. 0), rs_logits = replicate 6 0\<rparr>\<rparr>"

lemma toy_cpu_session_ready: "session_ready toy_cpu_session toy_run toy_cpu_ready"
  using toy_run_complete toy_run_fits by (auto simp: session_ready_def toy_cpu_session_def toy_cpu_ready_def toy_model_session_def)

lemma toy_run_slots: "i < length (g_nodes toy_run) \<Longrightarrow> node_slots toy_cpu (g_nodes toy_run ! i) = {}"
  by (auto simp: toy_run_def node_slots_def less_Suc_eq nth_Cons' split: if_splits)

lemma toy_cpu_tables: "ce_ts toy_cpu = [toy_matrix]" "ce_cfg toy_cpu = toy_config\<lparr>c_n_vocab := 6\<rparr>"
  by (simp_all add: toy_cpu_def)

lemma toy_run_batchable: "batchable toy_cpu toy_run"
proof -
  have n: "length (g_nodes toy_run) = 3" by (simp add: toy_run_def)
  have "node_ready toy_cpu (src_width (g_nodes toy_run) [0, 4, 6] (g_nodes toy_run ! i)) (unat (([0, 4, 6] :: u32 list) ! i)) (g_nodes toy_run ! i)
      \<and> (node_reads (g_nodes toy_run ! i) 0 \<longleftrightarrow> gn_op (g_nodes toy_run ! i) = OP_EMBED)" if "i < 3" "0 < i" for i
  proof -
    from that have "i = 1 \<or> i = 2" by auto
    then show ?thesis
      by (elim disjE) (simp_all add: toy_run_def node_ready_def src_width_def slot_width_def ref1_def node_reads_def
        tensor_holds_def toy_cpu_tables toy_matrix_def Let_def)
  qed
  moreover have "final_op toy_cpu (last (g_nodes toy_run))" by (simp add: final_op_def toy_run_def node_slots_def)
  ultimately show ?thesis
    using toy_run_slots n by (simp add: batchable_def toy_cpu_tables toy_run_dims)
qed

definition toy_value :: "nat \<Rightarrow> u32 \<Rightarrow> bool \<times> u32 list list" where
  "toy_value pos t = (let r = graph_eval (cpu_kernel toy_cpu (\<lambda>_. 0)) (batch_env [toy_matrix] (toy_config\<lparr>c_n_vocab := 6\<rparr>)
      (g_nodes toy_run) (arena_plan [toy_matrix] (toy_config\<lparr>c_n_vocab := 6\<rparr>) 1 (g_nodes toy_run)) pos 1) [t] (\<lambda>_ _. 0)
    in (fst r, fst (snd r)))"

lemma toy_values:
  "toy_value 0 5 = (True, [[5], [20, 21, 22, 23], [134, 478, 822, 1166, 1510, 1854]])"
  "toy_value 1 3 = (True, [[3], [12, 13, 14, 15], [86, 302, 518, 734, 950, 1166]])"
  by code_simp+


end
