(* ===== verification/Quants.thy ===== *)
theory Quants
  imports ModelWeights CpuKernels
begin

unbundle bit_operations_syntax

text \<open>The scalar decoders of \<open>quants.c\<close>: element \<open>i\<close> of a tensor from the bytes of its block.  A
  tensor's data is a function from offsets to bytes, a float its bit pattern, float arithmetic
  the record \<open>cpu_floats\<close>; \<open>double\<close> to \<open>float\<close> is the parameter \<open>cvt\<close>.  \<open>gguf_dequant\<close> dispatches
  on the type.\<close>

section \<open>Bytes\<close>

type_synonym cells = "nat \<Rightarrow> u8"

definition cells_at :: "cells \<Rightarrow> nat \<Rightarrow> cells" where
  "cells_at data off = (\<lambda>k. data (off + k))"

definition le16 :: "cells \<Rightarrow> nat \<Rightarrow> u16" where
  "le16 b k = ucast (b k) OR push_bit 8 (ucast (b (k + 1)))"

definition le32 :: "cells \<Rightarrow> nat \<Rightarrow> u32" where
  "le32 b k = ucast (le16 b k) OR push_bit 16 (ucast (le16 b (k + 2)))"

definition le64 :: "cells \<Rightarrow> nat \<Rightarrow> u64" where
  "le64 b k = ucast (le32 b k) OR push_bit 32 (ucast (le32 b (k + 4)))"

text \<open>\<open>(b >> s) & (2 ^ n - 1)\<close> on a promoted byte.\<close>

definition field :: "u8 \<Rightarrow> nat \<Rightarrow> nat \<Rightarrow> nat" where
  "field b s n = unat (drop_bit s b) mod 2 ^ n"

text \<open>The block of element \<open>i\<close> and the element's place in it.\<close>

definition in_block :: "nat \<Rightarrow> nat \<Rightarrow> (cells \<Rightarrow> nat \<Rightarrow> u32) \<Rightarrow> cells \<Rightarrow> nat \<Rightarrow> u32" where
  "in_block be bb f data i = f (cells_at data (i div be * bb)) (i mod be)"

section \<open>Half precision\<close>

text \<open>The loop over a subnormal mantissa: shift until bit 10 is set.  The bounds, which the code
  has from its call and the mask, only make the function total.\<close>

function f16_shift :: "u32 \<Rightarrow> int \<Rightarrow> u32 \<times> int" where
  "f16_shift mant e =
     (if mant AND 0x400 = 0 \<and> 0 < mant \<and> mant < 0x400 then f16_shift (push_bit 1 mant) (e - 1) else (mant, e))"
  by pat_completeness auto

termination f16_shift
proof (relation "measure (\<lambda>(m, e). 0x400 - unat m)")
  fix mant :: u32 and e :: int
  assume a: "mant AND 0x400 = 0 \<and> 0 < mant \<and> mant < 0x400"
  then have m: "unat mant < 0x400" "0 < unat mant" by (simp_all add: word_less_nat_alt word_gt_0 unat_gt_0)
  have "unat (push_bit 1 mant) = 2 * unat mant"
    using m by (simp add: push_bit_eq_mult unat_mult_lem [THEN iffD1] mult.commute)
  then show "((push_bit 1 mant, e - 1), mant, e) \<in> measure (\<lambda>(m, e). 0x400 - unat m)" using m by simp
qed simp

declare f16_shift.simps [simp del]

definition f16_to_f32 :: "u16 \<Rightarrow> u32" where
  "f16_to_f32 bits =
     (let sign = push_bit 31 (ucast (drop_bit 15 bits)) :: u32;
          ex = ucast (drop_bit 10 bits AND 0x1F) :: u32;
          mant = ucast (bits AND 0x3FF) :: u32 in
      if ex = 0 then
        (if mant = 0 then sign
         else case f16_shift mant (1 - 15) of
           (m, e) \<Rightarrow> sign OR push_bit 23 (word_of_int (e + 127)) OR push_bit 13 (m AND 0x3FF))
      else if ex = 31 then sign OR push_bit 23 0xFF OR push_bit 13 mant
      else sign OR push_bit 23 (ex - 15 + 127) OR push_bit 13 mant)"

section \<open>Tables\<close>

text \<open>The tables repeat a short run of values; as bit patterns.\<close>

definition iq2_xxs_grid :: "u32 list" where
  "iq2_xxs_grid = concat (replicate 32
    [0xBE800000, 0xBE400000, 0xBE000000, 0xBD800000, 0x00000000, 0x3D800000, 0x3E000000, 0x3E400000])"

definition iq2_xs_grid :: "u32 list" where
  "iq2_xs_grid = concat (replicate 16
    [0xBEA00000, 0xBE8FF972, 0xBE800000, 0xBE600D1B, 0xBE400000, 0xBE1FF2E5, 0xBE000000, 0xBDC01A37,
     0xBD800000, 0xBCFF9724, 0x00000000, 0x3CFF9724, 0x3D800000, 0x3DC01A37, 0x3E000000, 0x3E1FF2E5,
     0x3E400000, 0x3E600D1B, 0x3E800000, 0x3E8FF972, 0x3EA00000, 0x3EB0068E, 0x3EC00000, 0x3ECFF972,
     0x3EE00000, 0x3EF0068E, 0x3F000000, 0x3F07FCB9, 0x3F100000, 0x3F180347, 0x3F200000, 0x3F27FCB9])"

definition iq3_xxs_grid :: "u32 list" where
  "iq3_xxs_grid = concat (replicate 16
    [0xBEE00000, 0xBEC00000, 0xBEA00000, 0xBE800000, 0xBE400000, 0xBE000000, 0xBD800000, 0x00000000,
     0x3D800000, 0x3E000000, 0x3E400000, 0x3E800000, 0x3EA00000, 0x3EC00000, 0x3EE00000, 0x3F000000])"

definition iq1_s_grid :: "u32 list" where
  "iq1_s_grid = concat (replicate 16
    [0xBF800000, 0xBF600000, 0xBF400000, 0xBF200000, 0xBF000000, 0xBEC00000, 0xBE800000, 0xBE000000,
     0x00000000, 0x3E000000, 0x3E800000, 0x3EC00000, 0x3F000000, 0x3F200000, 0x3F400000, 0x3F600000])"

definition iq4_nl_values :: "u32 list" where
  "iq4_nl_values =
    [0xC2FE0000, 0xC2D00000, 0xC2A60000, 0xC2820000, 0xC2440000, 0xC20C0000, 0xC1B00000, 0xC1200000,
     0x3F800000, 0x41500000, 0x41C80000, 0x42180000, 0x42540000, 0x428A0000, 0x42B20000, 0x42E20000]"

definition iq3_s_grid :: "u32 list" where
  "iq3_s_grid = concat (replicate 16
    [0xBF600000, 0xBF500000, 0xBF400000, 0xBF300000, 0xBF200000, 0xBF100000, 0xBF000000, 0xBEE00000,
     0xBEC00000, 0xBEA00000, 0xBE800000, 0xBE400000, 0xBE000000, 0xBD800000, 0x00000000, 0x3D800000,
     0x3E000000, 0x3E400000, 0x3E800000, 0x3EA00000, 0x3EC00000, 0x3EE00000, 0x3F000000, 0x3F100000,
     0x3F200000, 0x3F300000, 0x3F400000, 0x3F500000, 0x3F600000, 0x3F700000, 0x3F800000, 0x3F880000])"

section \<open>Plain types\<close>

definition dequant_f32 :: "cells \<Rightarrow> nat \<Rightarrow> u32" where
  "dequant_f32 data i = le32 data (4 * i)"

definition dequant_f16 :: "cells \<Rightarrow> nat \<Rightarrow> u32" where
  "dequant_f16 data i = f16_to_f32 (le16 data (2 * i))"

definition dequant_bf16 :: "cells \<Rightarrow> nat \<Rightarrow> u32" where
  "dequant_bf16 data i = push_bit 16 (ucast (le16 data (2 * i)))"

definition dequant_f64 :: "(u64 \<Rightarrow> u32) \<Rightarrow> cells \<Rightarrow> nat \<Rightarrow> u32" where
  "dequant_f64 cvt data i = cvt (le64 data (8 * i))"

definition dequant_i8 :: "cpu_floats \<Rightarrow> cells \<Rightarrow> nat \<Rightarrow> u32" where
  "dequant_i8 F data i = fint F (sint (data i))"

definition dequant_i16 :: "cpu_floats \<Rightarrow> cells \<Rightarrow> nat \<Rightarrow> u32" where
  "dequant_i16 F data i = fint F (sint (le16 data (2 * i)))"

definition dequant_i32 :: "cpu_floats \<Rightarrow> cells \<Rightarrow> nat \<Rightarrow> u32" where
  "dequant_i32 F data i = fint F (sint (le32 data (4 * i)))"

definition dequant_i64 :: "cpu_floats \<Rightarrow> cells \<Rightarrow> nat \<Rightarrow> u32" where
  "dequant_i64 F data i = fint F (sint (le64 data (8 * i)))"

section \<open>Blocks of 32\<close>

definition f_eight :: u32 where "f_eight = 0x41000000"
definition f_sixteen :: u32 where "f_sixteen = 0x41800000"

definition q4_nibble :: "cells \<Rightarrow> nat \<Rightarrow> nat" where
  "q4_nibble qs k = field (qs (k mod 16)) (if k < 16 then 0 else 4) 4"

definition dequant_q8_0 :: "cpu_floats \<Rightarrow> cells \<Rightarrow> nat \<Rightarrow> u32" where
  "dequant_q8_0 F =
     in_block 32 34 (\<lambda>b k. let d = f16_to_f32 (le16 b 0) in
      fmul F (fint F (sint (b (2 + k)))) d)"

definition dequant_q8_1 :: "cpu_floats \<Rightarrow> cells \<Rightarrow> nat \<Rightarrow> u32" where
  "dequant_q8_1 F =
     in_block 32 40 (\<lambda>b k. let d = le32 b 0 in
      fmul F (fint F (sint (b (8 + k)))) d)"

definition dequant_q4_0 :: "cpu_floats \<Rightarrow> cells \<Rightarrow> nat \<Rightarrow> u32" where
  "dequant_q4_0 F =
     in_block 32 18 (\<lambda>b k. let d = f16_to_f32 (le16 b 0);
          nib = q4_nibble (cells_at b 2) k in
      fmul F (fsub F (fint F (int nib)) f_eight) d)"

definition dequant_q4_1 :: "cpu_floats \<Rightarrow> cells \<Rightarrow> nat \<Rightarrow> u32" where
  "dequant_q4_1 F =
     in_block 32 20 (\<lambda>b k. let d = f16_to_f32 (le16 b 0); m = f16_to_f32 (le16 b 2);
          nib = q4_nibble (cells_at b 4) k in
      fadd F (fmul F (fint F (int nib)) d) m)"

definition dequant_q5_0 :: "cpu_floats \<Rightarrow> cells \<Rightarrow> nat \<Rightarrow> u32" where
  "dequant_q5_0 F =
     in_block 32 22 (\<lambda>b k. let d = f16_to_f32 (le16 b 0);
          hi = unat (drop_bit k (le32 b 2) AND 1); lo = q4_nibble (cells_at b 6) k in
      fmul F (fsub F (fint F (int (push_bit 4 hi OR lo))) f_sixteen) d)"

definition dequant_q5_1 :: "cpu_floats \<Rightarrow> cells \<Rightarrow> nat \<Rightarrow> u32" where
  "dequant_q5_1 F =
     in_block 32 24 (\<lambda>b k. let d = f16_to_f32 (le16 b 0); m = f16_to_f32 (le16 b 2);
          hi = unat (drop_bit k (le32 b 4) AND 1); lo = q4_nibble (cells_at b 8) k in
      fadd F (fmul F (fint F (int (push_bit 4 hi OR lo))) d) m)"

section \<open>Blocks of 256\<close>

definition q4k_scale_min :: "cells \<Rightarrow> nat \<Rightarrow> nat \<times> nat" where
  "q4k_scale_min s sb =
     (let d = s (sb mod 4); m = s (4 + sb mod 4); md = s (8 + sb mod 4) in
      if sb < 4 then (unat (d AND 0x3F), unat (m AND 0x3F))
      else (unat ((md AND 0x0F) OR (drop_bit 2 d AND 0x30)), unat (drop_bit 4 md OR (drop_bit 2 m AND 0x30))))"

definition dequant_q8_k :: "cpu_floats \<Rightarrow> cells \<Rightarrow> nat \<Rightarrow> u32" where
  "dequant_q8_k F =
     in_block 256 292 (\<lambda>b k. let d = le32 b 0;
          bs = f16_to_f32 (le16 b (4 + 2 * (k div 16))) in
      fmul F (fmul F (fint F (sint (b (36 + k)))) bs) d)"

definition dequant_q6_k :: "cpu_floats \<Rightarrow> cells \<Rightarrow> nat \<Rightarrow> u32" where
  "dequant_q6_k F =
     in_block 256 210 (\<lambda>b k. let d = f16_to_f32 (le16 b 208);
          sc = sint (b (192 + k div 16));
          hl = k mod 128; which = hl div 32; l = hl mod 32; half = k div 128;
          ql_off = half * 64 + which mod 2 * 32 + l;
          lo = (if which \<ge> 2 then field (b ql_off) 4 4 else field (b ql_off) 0 4);
          hi = field (b (128 + half * 32 + l)) (which * 2) 2;
          q = int (lo OR push_bit 4 hi) - 32 in
      fmul F (fmul F d (fint F sc)) (fint F q))"

definition dequant_q5_k :: "cpu_floats \<Rightarrow> cells \<Rightarrow> nat \<Rightarrow> u32" where
  "dequant_q5_k F =
     in_block 256 176 (\<lambda>b k. let d = f16_to_f32 (le16 b 0); dmin = f16_to_f32 (le16 b 2);
          (sc, mn) = q4k_scale_min (cells_at b 4) (k div 32);
          lo = field (b (48 + k div 64 * 32 + k mod 32)) (k div 32 mod 2 * 4) 4;
          hi = field (b (16 + k mod 32)) (k div 32) 1;
          q = int (lo OR push_bit 4 hi) in
      fsub F (fmul F (fmul F d (fint F (int sc))) (fint F q)) (fmul F dmin (fint F (int mn))))"

definition dequant_q4_k :: "cpu_floats \<Rightarrow> cells \<Rightarrow> nat \<Rightarrow> u32" where
  "dequant_q4_k F =
     in_block 256 144 (\<lambda>b k. let d = f16_to_f32 (le16 b 0); dmin = f16_to_f32 (le16 b 2);
          (sc, mn) = q4k_scale_min (cells_at b 4) (k div 32);
          nib = field (b (16 + k div 64 * 32 + k mod 32)) (k div 32 mod 2 * 4) 4 in
      fsub F (fmul F (fmul F d (fint F (int sc))) (fint F (int nib))) (fmul F dmin (fint F (int mn))))"

definition dequant_q3_k :: "cpu_floats \<Rightarrow> cells \<Rightarrow> nat \<Rightarrow> u32" where
  "dequant_q3_k F =
     in_block 256 110 (\<lambda>b k. let d = f16_to_f32 (le16 b 108); s = k div 16;
          lo = field (b (32 + k div 128 * 32 + k mod 32)) (k div 32 mod 4 * 2) 2;
          hi = field (b (k mod 32)) (k div 32) 1;
          sc_low = field (b (96 + s mod 8)) (if s \<ge> 8 then 4 else 0) 4;
          sc_high = field (b (104 + s mod 4)) (s div 4 * 2) 2;
          sc = int (sc_low OR push_bit 4 sc_high) - 32;
          q = int (lo OR push_bit 2 hi) - 4 in
      fmul F (fmul F d (fint F sc)) (fint F q))"

definition dequant_q2_k :: "cpu_floats \<Rightarrow> cells \<Rightarrow> nat \<Rightarrow> u32" where
  "dequant_q2_k F =
     in_block 256 84 (\<lambda>b k. let d = f16_to_f32 (le16 b 80); mn = f16_to_f32 (le16 b 82);
          sb = k div 16; sc = (if odd sb then field (b (64 + sb div 2)) 4 4 else field (b (64 + sb div 2)) 0 4);
          q2 = field (b (k div 4)) (k mod 4 * 2) 2;
          q = int q2 - int (field (b (k div 8)) (k mod 8) 1) * 4 in
      fsub F (fmul F (fmul F d (fint F (int sc))) (fint F q)) mn)"

section \<open>The IQ types\<close>

definition dequant_iq2_xxs :: "cpu_floats \<Rightarrow> cells \<Rightarrow> nat \<Rightarrow> u32" where
  "dequant_iq2_xxs F =
     in_block 256 66 (\<lambda>b k. let d = f16_to_f32 (le16 b 0);
          q = field (b (2 + k div 4)) (k mod 4 * 2) 2; sign_bit = field (b (2 + k div 8)) (k mod 8) 1 in
      fmul F (iq2_xxs_grid ! (q OR push_bit 2 sign_bit)) d)"

definition dequant_iq2_xs :: "cpu_floats \<Rightarrow> cells \<Rightarrow> nat \<Rightarrow> u32" where
  "dequant_iq2_xs F =
     in_block 256 74 (\<lambda>b k. let d = f16_to_f32 (le16 b 0);
          sh = field (b (2 + k div 8)) (k mod 8) 1; q = field (b (2 + 32 + k div 4)) (k mod 4 * 2) 2;
          sc = sint (b (2 + 32 + 64 + k div 16)) in
      fmul F (fmul F d (fint F sc)) (iq2_xs_grid ! (q OR push_bit 2 sh)))"

definition dequant_iq3_xxs :: "cpu_floats \<Rightarrow> cells \<Rightarrow> nat \<Rightarrow> u32" where
  "dequant_iq3_xxs F =
     in_block 256 98 (\<lambda>b k. let d = f16_to_f32 (le16 b 0);
          qh = field (b (2 + k div 32)) (k mod 32) 1; qm = field (b (2 + 8 + k div 8)) (k mod 8) 1;
          ql = field (b (2 + 8 + 32 + k div 2)) (k mod 2 * 4) 4;
          grp = field (b (2 + 8 + 32 + 128 + k div 8)) (k mod 8 * 2) 2;
          idx = ql OR push_bit 4 qm OR push_bit 5 qh OR push_bit 6 grp;
          sc = sint (b (2 + 8 + 32 + 128 + 64 + k div 16)) in
      fmul F (fmul F d (fint F sc)) (iq3_xxs_grid ! idx))"

definition dequant_iq1_s :: "cpu_floats \<Rightarrow> cells \<Rightarrow> nat \<Rightarrow> u32" where
  "dequant_iq1_s F =
     in_block 256 110 (\<lambda>b k. let d = f16_to_f32 (le16 b 0);
          q = field (b (2 + k div 8)) (k mod 8) 1 OR push_bit 1 (field (b (2 + 32 + k div 8)) (k mod 8) 1) in
      fmul F d (iq1_s_grid ! (q OR push_bit 2 (k div 16 mod 16))))"

definition dequant_iq4_nl :: "cpu_floats \<Rightarrow> cells \<Rightarrow> nat \<Rightarrow> u32" where
  "dequant_iq4_nl F =
     in_block 32 18 (\<lambda>b k. let d = f16_to_f32 (le16 b 0);
          q = (if k < 16 then field (b (2 + k)) 0 4 else field (b (2 + k - 16)) 4 4) in
      fmul F d (iq4_nl_values ! q))"

definition dequant_iq1_m :: "cpu_floats \<Rightarrow> cells \<Rightarrow> nat \<Rightarrow> u32" where
  "dequant_iq1_m F =
     in_block 256 56 (\<lambda>b k. let d = f16_to_f32 (le16 b 54); sb = k div 16;
          sc = field (b (sb div 2)) (sb mod 2 * 4) 4; sc_f = fadd F (fint F (int sc)) f_one;
          val = field (b (8 + k div 8)) (k mod 8) 1; sign = field (b (8 + 32 + k div 8)) (k mod 8) 1;
          v = (if sign \<noteq> 0 then fneg F (fint F (int val)) else fint F (int val)) in
      fmul F (fmul F v sc_f) d)"

definition dequant_iq3_s :: "cpu_floats \<Rightarrow> cells \<Rightarrow> nat \<Rightarrow> u32" where
  "dequant_iq3_s F =
     in_block 256 110 (\<lambda>b k. let d = f16_to_f32 (le16 b 0);
          sign = field (b (2 + k div 8)) (k mod 8) 1; qh = field (b (2 + 32 + k div 32)) (k mod 32) 1;
          qm = field (b (2 + 32 + 8 + k div 8)) (k mod 8) 1;
          ql = field (b (2 + 32 + 8 + 32 + k div 2)) (k mod 2 * 4) 4;
          idx = ql OR push_bit 4 qm OR push_bit 5 qh OR push_bit 6 sign;
          sc = sint (b (2 + 32 + 8 + 32 + 128 + k div 16)) in
      fmul F (fmul F d (fint F sc)) (iq3_s_grid ! idx))"

definition f_eighth :: u32 where "f_eighth = 0x3E000000"
definition f_127 :: u32 where "f_127 = 0x42FE0000"

definition dequant_iq2_s :: "cpu_floats \<Rightarrow> cells \<Rightarrow> nat \<Rightarrow> u32" where
  "dequant_iq2_s F =
     in_block 256 82 (\<lambda>b k. let d = f16_to_f32 (le16 b 0);
          sign = field (b (2 + k div 8)) (k mod 8) 1; qh = field (b (2 + 32 + k div 32)) (k mod 32) 1;
          ql = field (b (2 + 32 + 8 + k div 2)) (k mod 2 * 4) 4;
          idx = ql OR push_bit 4 qh OR push_bit 5 sign;
          sc = sint (b (2 + 32 + 8 + 128 + k div 16 + k div 16 mod 2 * 16));
          sc_l = field (b (2 + 32 + 8 + 128 + k div 32)) (k mod 32 div 4) 2;
          sc_f = fadd F (fint F sc) (fmul F f_eighth (fint F (int sc_l))) in
      fmul F (fmul F d sc_f) (iq2_xs_grid ! idx))"

text \<open>\<open>q\<close> ranges over 5 bits, the table has 16 entries; a read past it is not specified by the model.\<close>

definition dequant_iq4_xs :: "cpu_floats \<Rightarrow> cells \<Rightarrow> nat \<Rightarrow> u32" where
  "dequant_iq4_xs F =
     in_block 256 136 (\<lambda>b k. let d = f16_to_f32 (le16 b 0);
          qh = field (b (2 + k div 32)) (k mod 32) 1; ql = field (b (2 + 8 + k div 2)) (k mod 2 * 4) 4;
          q = ql OR push_bit 4 qh;
          sc_l = sint (b (2 + 8 + 128 + k div 16)); sc_h = sint (b (2 + 8 + 128 + 16 + k div 16));
          sc = fadd F (fint F sc_l) (fdiv F (fint F sc_h) f_127) in
      fmul F (fmul F d sc) (iq4_nl_values ! q))"

section \<open>Dispatch\<close>

definition gguf_dequant :: "cpu_floats \<Rightarrow> (u64 \<Rightarrow> u32) \<Rightarrow> nat \<Rightarrow> cells \<Rightarrow> nat \<Rightarrow> u32" where
  "gguf_dequant F cvt ty data i =
     (if ty = 0 then dequant_f32 data i
      else if ty = 1 then dequant_f16 data i
      else if ty = 30 then dequant_bf16 data i
      else if ty = 28 then dequant_f64 cvt data i
      else if ty = 24 then dequant_i8 F data i
      else if ty = 25 then dequant_i16 F data i
      else if ty = 26 then dequant_i32 F data i
      else if ty = 27 then dequant_i64 F data i
      else if ty = 8 then dequant_q8_0 F data i
      else if ty = 9 then dequant_q8_1 F data i
      else if ty = 2 then dequant_q4_0 F data i
      else if ty = 3 then dequant_q4_1 F data i
      else if ty = 6 then dequant_q5_0 F data i
      else if ty = 7 then dequant_q5_1 F data i
      else if ty = 15 then dequant_q8_k F data i
      else if ty = 14 then dequant_q6_k F data i
      else if ty = 13 then dequant_q5_k F data i
      else if ty = 12 then dequant_q4_k F data i
      else if ty = 11 then dequant_q3_k F data i
      else if ty = 10 then dequant_q2_k F data i
      else if ty = 16 then dequant_iq2_xxs F data i
      else if ty = 17 then dequant_iq2_xs F data i
      else if ty = 18 then dequant_iq3_xxs F data i
      else if ty = 19 then dequant_iq1_s F data i
      else if ty = 20 then dequant_iq4_nl F data i
      else if ty = 29 then dequant_iq1_m F data i
      else if ty = 21 then dequant_iq3_s F data i
      else if ty = 22 then dequant_iq2_s F data i
      else if ty = 23 then dequant_iq4_xs F data i
      else 0)"

section \<open>Reads stay in the block\<close>

text \<open>An element of a tensor with blocks of \<open>be\<close> elements and \<open>bb\<close> bytes depends on the bytes of its
  block only.\<close>

named_theorems block_locals

definition block_local :: "nat \<Rightarrow> nat \<Rightarrow> (cells \<Rightarrow> nat \<Rightarrow> u32) \<Rightarrow> bool" where
  "block_local be bb g \<longleftrightarrow>
     (\<forall>data data' i. (\<forall>j < bb. data (i div be * bb + j) = data' (i div be * bb + j)) \<longrightarrow> g data i = g data' i)"

lemma block_localI:
  "(\<And>data data' i. (\<And>j. j < bb \<Longrightarrow> data (i div be * bb + j) = data' (i div be * bb + j)) \<Longrightarrow> g data i = g data' i)
   \<Longrightarrow> block_local be bb g"
  unfolding block_local_def by blast

lemma in_block_local:
  assumes "\<And>b b' k. (\<And>j. j < bb \<Longrightarrow> b j = b' j) \<Longrightarrow> k < be \<Longrightarrow> f b k = f b' k" and "0 < be"
  shows "block_local be bb (in_block be bb f)"
proof (rule block_localI)
  fix data data' :: cells and i :: nat
  assume "\<And>j. j < bb \<Longrightarrow> data (i div be * bb + j) = data' (i div be * bb + j)"
  then show "in_block be bb f data i = in_block be bb f data' i"
    unfolding in_block_def using assms(2) by (intro assms(1)) (simp_all add: cells_at_def)
qed

lemmas byte_reads = cells_at_def le16_def le32_def le64_def q4_nibble_def q4k_scale_min_def Let_def split_def

lemma le_at:
  "le16 (cells_at d off) k = le16 d (off + k)" "le32 (cells_at d off) k = le32 d (off + k)" "le64 (cells_at d off) k = le64 d (off + k)"
  by (simp_all add: le16_def le32_def le64_def cells_at_def ac_simps)

lemma plain_blocks:
  "dequant_f32 = in_block 1 4 (\<lambda>b k. le32 b 0)" "dequant_f16 = in_block 1 2 (\<lambda>b k. f16_to_f32 (le16 b 0))"
  "dequant_bf16 = in_block 1 2 (\<lambda>b k. push_bit 16 (ucast (le16 b 0)))"
  "dequant_f64 cvt = in_block 1 8 (\<lambda>b k. cvt (le64 b 0))" "dequant_i8 F = in_block 1 1 (\<lambda>b k. fint F (sint (b 0)))"
  "dequant_i16 F = in_block 1 2 (\<lambda>b k. fint F (sint (le16 b 0)))"
  "dequant_i32 F = in_block 1 4 (\<lambda>b k. fint F (sint (le32 b 0)))"
  "dequant_i64 F = in_block 1 8 (\<lambda>b k. fint F (sint (le64 b 0)))"
  by (intro ext; simp add: in_block_def dequant_f32_def dequant_f16_def dequant_bf16_def dequant_f64_def
      dequant_i16_def dequant_i32_def dequant_i64_def le_at mult.commute; simp add: cells_at_def dequant_i8_def)+

lemma block_plain [block_locals]:
  "block_local 1 4 dequant_f32" "block_local 1 2 dequant_f16" "block_local 1 2 dequant_bf16" "block_local 1 8 (dequant_f64 cvt)"
  "block_local 1 1 (dequant_i8 F)" "block_local 1 2 (dequant_i16 F)" "block_local 1 4 (dequant_i32 F)" "block_local 1 8 (dequant_i64 F)"
  unfolding plain_blocks by (rule in_block_local, simp_all add: byte_reads)+

text \<open>The two-level indices of the K types.\<close>

lemma q_bounds:
  assumes "k < (256 :: nat)"
  shows "32 + k div 128 * 32 + k mod 32 < 110" "16 + k div 64 * 32 + k mod 32 < 144" "48 + k div 64 * 32 + k mod 32 < 176"
    "k div 128 * 64 + k mod 128 div 32 mod 2 * 32 + k mod 128 mod 32 < 210" "128 + k div 128 * 32 + k mod 128 mod 32 < 210"
proof -
  have "k div 128 < 2" "k div 64 < 4" using assms by simp_all
  moreover have "k mod 32 < 32" "k mod 128 mod 32 < 32" "k mod 128 div 32 mod 2 < 2" by simp_all
  ultimately show "32 + k div 128 * 32 + k mod 32 < 110" "16 + k div 64 * 32 + k mod 32 < 144" "48 + k div 64 * 32 + k mod 32 < 176"
    "k div 128 * 64 + k mod 128 div 32 mod 2 * 32 + k mod 128 mod 32 < 210" "128 + k div 128 * 32 + k mod 128 mod 32 < 210"
    by linarith+
qed

lemma block_q8_0 [block_locals]: "block_local 32 34 (dequant_q8_0 F)"
  unfolding dequant_q8_0_def by (rule in_block_local) (simp_all add: byte_reads)

lemma block_q8_1 [block_locals]: "block_local 32 40 (dequant_q8_1 F)"
  unfolding dequant_q8_1_def by (rule in_block_local) (simp_all add: byte_reads)

lemma block_q4_0 [block_locals]: "block_local 32 18 (dequant_q4_0 F)"
  unfolding dequant_q4_0_def by (rule in_block_local) (simp_all add: byte_reads)

lemma block_q4_1 [block_locals]: "block_local 32 20 (dequant_q4_1 F)"
  unfolding dequant_q4_1_def by (rule in_block_local) (simp_all add: byte_reads)

lemma block_q5_0 [block_locals]: "block_local 32 22 (dequant_q5_0 F)"
  unfolding dequant_q5_0_def by (rule in_block_local) (simp_all add: byte_reads)

lemma block_q5_1 [block_locals]: "block_local 32 24 (dequant_q5_1 F)"
  unfolding dequant_q5_1_def by (rule in_block_local) (simp_all add: byte_reads)

lemma block_iq4_nl [block_locals]: "block_local 32 18 (dequant_iq4_nl F)"
  unfolding dequant_iq4_nl_def by (rule in_block_local) (simp_all add: byte_reads)

lemma block_q8_k [block_locals]: "block_local 256 292 (dequant_q8_k F)"
  unfolding dequant_q8_k_def by (rule in_block_local) (simp_all add: byte_reads)

lemma block_q6_k [block_locals]: "block_local 256 210 (dequant_q6_k F)"
  unfolding dequant_q6_k_def Let_def
  apply (rule in_block_local)
  subgoal premises p for b b' k
  proof -
    have "le16 b 208 = le16 b' 208" "b (192 + k div 16) = b' (192 + k div 16)"
      using p by (simp_all add: le16_def)
    then show ?thesis
      unfolding p(1) [OF q_bounds(4) [OF p(2)]] p(1) [OF q_bounds(5) [OF p(2)]] by (simp only:)
  qed
  by simp

lemma block_q5_k [block_locals]: "block_local 256 176 (dequant_q5_k F)"
  unfolding dequant_q5_k_def Let_def
  apply (rule in_block_local)
  subgoal premises p for b b' k
  proof -
    have "le16 b 0 = le16 b' 0" "le16 b 2 = le16 b' 2" "b (16 + k mod 32) = b' (16 + k mod 32)"
      "q4k_scale_min (cells_at b 4) (k div 32) = q4k_scale_min (cells_at b' 4) (k div 32)"
      using p by (simp_all add: byte_reads)
    then show ?thesis
      unfolding p(1) [OF q_bounds(3) [OF p(2)]] by (simp only:)
  qed
  by simp

lemma block_q4_k [block_locals]: "block_local 256 144 (dequant_q4_k F)"
  unfolding dequant_q4_k_def by (rule in_block_local) (simp_all add: byte_reads q_bounds split del: if_split)

lemma block_q3_k [block_locals]: "block_local 256 110 (dequant_q3_k F)"
  unfolding dequant_q3_k_def by (rule in_block_local) (simp_all add: byte_reads q_bounds split del: if_split)

lemma block_q2_k [block_locals]: "block_local 256 84 (dequant_q2_k F)"
  unfolding dequant_q2_k_def by (rule in_block_local) (simp_all add: byte_reads)

lemma block_iq2_xxs [block_locals]: "block_local 256 66 (dequant_iq2_xxs F)"
  unfolding dequant_iq2_xxs_def by (rule in_block_local) (simp_all add: byte_reads)

lemma block_iq1_s [block_locals]: "block_local 256 110 (dequant_iq1_s F)"
  unfolding dequant_iq1_s_def by (rule in_block_local) (simp_all add: byte_reads)

section \<open>Decoding a loaded tensor\<close>

text \<open>The types whose decoder keeps to the block size of the type table.\<close>

definition block_bounded :: "nat \<Rightarrow> bool" where
  "block_bounded ty \<longleftrightarrow>
     ty \<in> set [0, 1, 2, 3, 6, 7, 8, 9, 10, 11, 12, 13, 14, 15, 16, 19, 20, 24, 25, 26, 27, 28, 30]"

lemma gguf_dequant_local:
  assumes "block_bounded ty" and "tensor_type ty = Some (nm, be, bb)"
  shows "block_local be bb (gguf_dequant F cvt ty)"
  using assms
  by (auto simp: block_bounded_def tensor_type_def gguf_types_def gguf_dequant_def [abs_def] intro: block_locals block_locals [unfolded One_nat_def] split: if_splits)

lemma block_bounded_type: "block_bounded ty \<Longrightarrow> \<exists>nm be bb. tensor_type ty = Some (nm, be, bb)"
  by (auto simp: block_bounded_def tensor_type_def gguf_types_def)


text \<open>The other IQ types read past their blocks: on a tensor of one block (256 elements) the last
  element depends on bytes that are not the tensor's.\<close>

definition plus_floats :: cpu_floats where
  "plus_floats = word_floats\<lparr>fmul := (+), fdiv := (+)\<rparr>"

definition beyond :: "nat \<Rightarrow> u8 \<Rightarrow> u8 \<Rightarrow> cells" where
  "beyond n x y = (\<lambda>k. if k < n then x else y)"

lemma beyond_reads:
  "cells_at (beyond n x y) 0 k = (if k < n then x else y)" "k + 1 < n \<Longrightarrow> le16 (cells_at (beyond n x y) 0) k = le16 (\<lambda>_. x) 0"
  "le16 (\<lambda>_. 0) 0 = 0"
  by (simp_all add: beyond_def cells_at_def le16_def)

lemma field_consts:
  "field 0 s n = 0" "field 1 0 4 = 1" "field 1 4 4 = 0" "field 1 6 2 = 0" "field 1 14 2 = 0" "field 1 7 (Suc 0) = 0" "field 1 7 2 = 0"
  "field 1 31 (Suc 0) = 0" "field 1 4 (Suc 0) = 0" "field 128 7 (Suc 0) = 1"
  by (simp_all add: field_def)

lemma f16_zero: "f16_to_f32 0 = 0"
  by code_simp

lemma plus_floats: "fmul plus_floats a b = a + b" "fint plus_floats i = of_int i" "fadd plus_floats a b = a + b"
    "fdiv plus_floats a b = a + b" "fneg plus_floats a = - a"
  by (simp_all add: plus_floats_def word_floats_def)

lemmas overread_simps = gguf_dequant_def in_block_def Let_def plus_floats beyond_reads field_consts f16_zero

lemma overread_256:
  "gguf_dequant plus_floats cvt 17 (beyond 74 0 0) 255 \<noteq> gguf_dequant plus_floats cvt 17 (beyond 74 0 1) 255"
  "gguf_dequant plus_floats cvt 18 (beyond 98 0 0) 255 \<noteq> gguf_dequant plus_floats cvt 18 (beyond 98 0 1) 255"
  "gguf_dequant plus_floats cvt 21 (beyond 110 0 0) 255 \<noteq> gguf_dequant plus_floats cvt 21 (beyond 110 0 1) 255"
  "gguf_dequant plus_floats cvt 22 (beyond 82 0 0) 255 \<noteq> gguf_dequant plus_floats cvt 22 (beyond 82 0 1) 255"
  "gguf_dequant plus_floats cvt 23 (beyond 136 0 0) 255 \<noteq> gguf_dequant plus_floats cvt 23 (beyond 136 0 1) 255"
  "gguf_dequant plus_floats cvt 29 (beyond 56 128 0) 255 \<noteq> gguf_dequant plus_floats cvt 29 (beyond 56 128 128) 255"
  by (simp_all add: overread_simps dequant_iq2_xs_def dequant_iq3_xxs_def dequant_iq3_s_def dequant_iq2_s_def dequant_iq4_xs_def dequant_iq1_m_def)

lemma dequant_overreads:
  assumes "ty \<in> {17, 18, 21, 22, 23, 29}"
  shows "\<exists>n data data'. tensor_bytes ty 256 = Some n \<and> (\<forall>k < n. data k = data' k)
    \<and> gguf_dequant plus_floats cvt ty data 255 \<noteq> gguf_dequant plus_floats cvt ty data' 255"
proof -
  have bytes: "tensor_bytes 17 256 = Some 74" "tensor_bytes 18 256 = Some 98" "tensor_bytes 21 256 = Some 110"
    "tensor_bytes 22 256 = Some 82" "tensor_bytes 23 256 = Some 136" "tensor_bytes 29 256 = Some 56"
    by code_simp+
  have same: "\<forall>k < n. beyond n x y k = beyond n x z k" for n x y z by (simp add: beyond_def)
  from assms show ?thesis using bytes overread_256 same by blast
qed

text \<open>\<open>iq4_xs\<close> also indexes its table of 16 values with 5 bits.\<close>

lemma iq4_xs_index: "length iq4_nl_values = 16" "field 0xFF 0 4 OR push_bit 4 (field 0xFF 0 1) = 31"
  by (simp add: iq4_nl_values_def, code_simp)


end
