(* ===== verification/Pthreads.thy ===== *)
theory Pthreads
  imports Prelude "HOL-Library.Multiset"
begin

text \<open>The thread pool of the kernels (\<open>pthreads.c\<close>) as an interleaving of atomic steps: a worker
  loads \<open>current\<close>, claims an index by compare-and-swap, compares it with \<open>end\<close>, calls the work
  function, adds to the counters; the caller of \<open>pthreads_parallel_for\<close> publishes the range and
  waits.  Code between lock and unlock is one step, a thread in \<open>pthread_cond_wait\<close> is asleep until
  a signal, the broadcast or a spurious wakeup.  \<open>int\<close> counters are unbounded here.  A worker's
  \<open>tid\<close> is its position in the table of threads, and the work function with its argument is a
  value of type \<open>'j\<close>, recorded with the thread and the index whenever it is called.\<close>

section \<open>State\<close>

datatype pt_worker = At_wait | Asleep | At_load | At_cas int | Claimed int | Busy int | At_done | Exited

datatype pt_caller = Idle | Checking int | Sleeping int

record 'j pthreads =
  pt_start :: int
  pt_end :: int
  pt_current :: int
  pt_done_count :: nat
  pt_done_work :: int
  pt_work :: "'j option"
  pt_shutdown :: bool
  pt_workers :: "pt_worker list"
  pt_caller :: pt_caller
  pt_calls :: "(nat \<times> int \<times> 'j option) list"

abbreviation pt_nthreads :: "'j pthreads \<Rightarrow> nat" where
  "pt_nthreads s \<equiv> length (pt_workers s)"

definition goto_pc :: "nat \<Rightarrow> pt_worker \<Rightarrow> 'j pthreads \<Rightarrow> 'j pthreads" where
  "goto_pc t w s = s\<lparr>pt_workers := (pt_workers s)[t := w]\<rparr>"

section \<open>Pool lifecycle\<close>

text \<open>\<open>spawn i\<close> is whether the system creates the thread.  A failure joins the threads created so
  far and returns NULL.\<close>

definition pthreads_create :: "(nat \<Rightarrow> bool) \<Rightarrow> int \<Rightarrow> 'j pthreads option" where
  "pthreads_create spawn nthreads =
     (let n = nat (if nthreads < 1 then 1 else nthreads) in
      if list_all spawn [0 ..< n]
      then Some \<lparr>pt_start = 0, pt_end = 0, pt_current = 0, pt_done_count = 0, pt_done_work = 0, pt_work = None,
             pt_shutdown = False, pt_workers = replicate n At_wait, pt_caller = Idle, pt_calls = []\<rparr>
      else None)"

definition wake_worker :: "pt_worker \<Rightarrow> pt_worker" where
  "wake_worker w = (if w = Asleep then At_wait else w)"

definition broadcast :: "'j pthreads \<Rightarrow> 'j pthreads" where
  "broadcast s = s\<lparr>pt_workers := List.map wake_worker (pt_workers s),
     pt_caller := (case pt_caller s of Sleeping e \<Rightarrow> Checking e | c \<Rightarrow> c)\<rparr>"

definition pthreads_destroy :: "'j pthreads \<Rightarrow> 'j pthreads" where
  "pthreads_destroy s = broadcast (s\<lparr>pt_shutdown := True\<rparr>)"

section \<open>Worker loop\<close>

text \<open>\<open>pthread_cond_signal\<close> wakes one thread asleep on the condition, worker or caller, if there is
  one.  The possible successors of a step are a list.\<close>

definition signal :: "'j pthreads \<Rightarrow> 'j pthreads list" where
  "signal s =
     (let us = List.filter (\<lambda>u. pt_workers s ! u = Asleep) [0 ..< pt_nthreads s];
          cs = (case pt_caller s of Sleeping e \<Rightarrow> [s\<lparr>pt_caller := Checking e\<rparr>] | _ \<Rightarrow> []) in
      if us = [] \<and> cs = [] then [s] else cs @ List.map (\<lambda>u. goto_pc u At_wait s) us)"

definition worker_loop :: "nat \<Rightarrow> 'j pthreads \<Rightarrow> 'j pthreads list" where
  "worker_loop t s =
     (case pt_workers s ! t of
        At_wait \<Rightarrow>
          [goto_pc t (if \<not> pt_shutdown s \<and> pt_work s = None then Asleep else if pt_shutdown s then Exited else At_load) s]
      | Asleep \<Rightarrow> []
      | At_load \<Rightarrow> [goto_pc t (At_cas (pt_current s)) s]
      | At_cas i \<Rightarrow>
          [if pt_current s = i then goto_pc t (Claimed i) (s\<lparr>pt_current := i + 1\<rparr>) else goto_pc t At_load s]
      | Claimed i \<Rightarrow>
          [if i \<ge> pt_end s then goto_pc t At_done s
           else goto_pc t (Busy i) (s\<lparr>pt_calls := pt_calls s @ [(t, i, pt_work s)]\<rparr>)]
      | Busy i \<Rightarrow> [goto_pc t At_load (s\<lparr>pt_done_work := pt_done_work s + 1\<rparr>)]
      | At_done \<Rightarrow> signal (goto_pc t At_wait (s\<lparr>pt_done_count := pt_done_count s + 1\<rparr>))
      | Exited \<Rightarrow> [])"

section \<open>Dispatch\<close>

definition pthreads_parallel_for :: "int \<Rightarrow> int \<Rightarrow> 'j \<Rightarrow> 'j pthreads \<Rightarrow> 'j pthreads" where
  "pthreads_parallel_for start e work s =
     (if pt_nthreads s < 1 \<or> start \<ge> e then s
      else (broadcast (s\<lparr>pt_start := start, pt_end := e, pt_current := start, pt_done_count := 0,
              pt_done_work := start, pt_work := Some work\<rparr>))\<lparr>pt_caller := Checking e\<rparr>)"

definition parallel_for_wait :: "'j pthreads \<Rightarrow> 'j pthreads list" where
  "parallel_for_wait s =
     (case pt_caller s of
        Checking e \<Rightarrow>
          [if pt_done_count s < pt_nthreads s \<or> pt_done_work s < e then s\<lparr>pt_caller := Sleeping e\<rparr>
           else s\<lparr>pt_work := None, pt_caller := Idle\<rparr>]
      | _ \<Rightarrow> [])"

section \<open>Interleavings\<close>

inductive pt_step :: "'j pthreads \<Rightarrow> 'j pthreads \<Rightarrow> bool" where
  worker: "t < pt_nthreads s \<Longrightarrow> s' \<in> set (worker_loop t s) \<Longrightarrow> pt_step s s'"
| caller: "s' \<in> set (parallel_for_wait s) \<Longrightarrow> pt_step s s'"

text \<open>A wait that ends without a signal.\<close>

inductive pt_spurious :: "'j pthreads \<Rightarrow> 'j pthreads \<Rightarrow> bool" where
  worker: "t < pt_nthreads s \<Longrightarrow> pt_workers s ! t = Asleep \<Longrightarrow> pt_spurious s (goto_pc t At_wait s)"
| caller: "pt_caller s = Sleeping e \<Longrightarrow> pt_spurious s (s\<lparr>pt_caller := Checking e\<rparr>)"

inductive pt_reach :: "'j pthreads \<Rightarrow> 'j pthreads \<Rightarrow> bool" for s0 where
  start: "pt_reach s0 s0"
| step: "pt_reach s0 s \<Longrightarrow> pt_step s s' \<Longrightarrow> pt_reach s0 s'"
| spurious: "pt_reach s0 s \<Longrightarrow> pt_spurious s s' \<Longrightarrow> pt_reach s0 s'"

inductive_cases pt_stepE: "pt_step s s'"
inductive_cases pt_spuriousE: "pt_spurious s s'"

text \<open>Before a call: no worker holds an index and the pool is not shut down.\<close>

definition at_rest :: "'j pthreads \<Rightarrow> bool" where
  "at_rest s \<longleftrightarrow> pt_caller s = Idle \<and> \<not> pt_shutdown s \<and> pt_workers s \<noteq> []
     \<and> list_all (\<lambda>w. case w of Claimed i \<Rightarrow> False | Busy i \<Rightarrow> False | Exited \<Rightarrow> False | _ \<Rightarrow> True) (pt_workers s)"

lemma create_at_rest: "pthreads_create spawn n = Some s \<Longrightarrow> at_rest s"
  by (auto simp: pthreads_create_def at_rest_def Let_def list_all_iff split: if_splits)

section \<open>The invariant of a call\<close>

fun claim :: "int \<Rightarrow> pt_worker \<Rightarrow> int multiset" where
  "claim e (Claimed i) = (if i < e then {#i#} else {#})"
| "claim e w = {#}"

fun busy :: "pt_worker \<Rightarrow> nat" where
  "busy (Busy i) = 1"
| "busy w = 0"

definition claims :: "int \<Rightarrow> pt_worker list \<Rightarrow> int multiset" where
  "claims e ws = sum_list (List.map (claim e) ws)"

definition n_busy :: "pt_worker list \<Rightarrow> nat" where
  "n_busy ws = sum_list (List.map busy ws)"

definition indices :: "(nat \<times> int \<times> 'j option) list \<Rightarrow> int list" where
  "indices cs = List.map (\<lambda>(t, i, j). i) cs"

lemma indices_snoc [simp]: "indices (cs @ [(t, i, j)]) = indices cs @ [i]" "length (indices cs) = length cs"
  by (simp_all add: indices_def)

definition calls_ok :: "nat \<Rightarrow> 'j \<Rightarrow> (nat \<times> int \<times> 'j option) list \<Rightarrow> bool" where
  "calls_ok n job cs \<longleftrightarrow> (\<forall>(t, i, j) \<in> set cs. t < n \<and> j = Some job)"

definition in_call :: "nat \<Rightarrow> int \<Rightarrow> int \<Rightarrow> 'j \<Rightarrow> (nat \<times> int \<times> 'j option) list \<Rightarrow> 'j pthreads \<Rightarrow> bool" where
  "in_call n a e job cs s \<longleftrightarrow>
     pt_nthreads s = n \<and> pt_end s = e \<and> pt_work s = Some job \<and> \<not> pt_shutdown s
     \<and> Asleep \<notin> set (pt_workers s) \<and> Exited \<notin> set (pt_workers s) \<and> pt_caller s \<in> {Checking e, Sleeping e}
     \<and> a \<le> pt_current s \<and> calls_ok n job cs
     \<and> mset (indices cs) + claims e (pt_workers s) = mset [a .. min (pt_current s) e - 1]
     \<and> pt_done_work s + int (n_busy (pt_workers s)) = a + int (length cs)"

definition after_call :: "nat \<Rightarrow> int \<Rightarrow> int \<Rightarrow> 'j \<Rightarrow> (nat \<times> int \<times> 'j option) list \<Rightarrow> 'j pthreads \<Rightarrow> bool" where
  "after_call n a e job cs s \<longleftrightarrow>
     pt_nthreads s = n \<and> pt_end s = e \<and> pt_caller s = Idle \<and> pt_work s = None \<and> e \<le> pt_current s
     \<and> n_busy (pt_workers s) = 0 \<and> claims e (pt_workers s) = {#}
     \<and> calls_ok n job cs \<and> mset (indices cs) = mset [a .. e - 1]"

lemma claims_update:
  "t < length ws \<Longrightarrow> claims e (ws[t := w]) + claim e (ws ! t) = claims e ws + claim e w"
  unfolding claims_def by (rule sum_list_map_update)

lemma busy_update: "t < length ws \<Longrightarrow> n_busy (ws[t := w]) + busy (ws ! t) = n_busy ws + busy w"
  unfolding n_busy_def by (rule sum_list_map_update)

lemma goto_pc_sel [simp]:
  "pt_start (goto_pc t w s) = pt_start s" "pt_end (goto_pc t w s) = pt_end s" "pt_current (goto_pc t w s) = pt_current s"
  "pt_done_count (goto_pc t w s) = pt_done_count s" "pt_done_work (goto_pc t w s) = pt_done_work s"
  "pt_work (goto_pc t w s) = pt_work s" "pt_shutdown (goto_pc t w s) = pt_shutdown s"
  "pt_workers (goto_pc t w s) = (pt_workers s)[t := w]" "pt_caller (goto_pc t w s) = pt_caller s" "pt_calls (goto_pc t w s) = pt_calls s"
  by (simp_all add: goto_pc_def)

lemma not_in_update: "x \<notin> set ws \<Longrightarrow> w \<noteq> x \<Longrightarrow> x \<notin> set (ws[t := w])"
  by (auto dest!: set_update_subset_insert [THEN subsetD])

lemma signal_awake:
  assumes "Asleep \<notin> set (pt_workers s)"
  shows "signal s = [s\<lparr>pt_caller := (case pt_caller s of Sleeping e \<Rightarrow> Checking e | c \<Rightarrow> c)\<rparr>]"
proof -
  have "List.filter (\<lambda>u. pt_workers s ! u = Asleep) [0 ..< pt_nthreads s] = []"
    using assms by (auto simp: filter_empty_conv) (metis nth_mem)
  then show ?thesis by (simp add: signal_def split: pt_caller.split)
qed

lemma signalD:
  assumes "s' \<in> set (signal s)" and "pt_caller s = Idle"
  shows "s' = s \<or> (\<exists>u < pt_nthreads s. pt_workers s ! u = Asleep \<and> s' = goto_pc u At_wait s)"
  using assms by (auto simp: signal_def Let_def split: if_splits)

lemma sum_list_map_0:
  fixes f :: "'a \<Rightarrow> 'b::comm_monoid_add"
  shows "(\<And>w. w \<in> set ws \<Longrightarrow> f w = 0) \<Longrightarrow> sum_list (List.map f ws) = 0"
  by (induction ws) auto

lemma sum_list_zero: "sum_list (List.map f ws) = {#} \<Longrightarrow> w \<in> set ws \<Longrightarrow> f w = {#}"
  by (induction ws) auto

text \<open>An index is claimed at most once because the range grows at its end only.\<close>

lemma upto_grow:
  fixes a c e :: int
  assumes "a \<le> c"
  shows "mset [a .. min (c + 1) e - 1] = mset [a .. min c e - 1] + (if c < e then {#c#} else {#})"
  using assms upto_rec2 [of a c] by (auto simp: min_def)

lemma in_call_quiet:
  assumes "in_call n a e job cs s" and t: "t < n"
    and "claim e w = claim e (pt_workers s ! t)" "busy w = busy (pt_workers s ! t)" "w \<noteq> Asleep" "w \<noteq> Exited"
  shows "in_call n a e job cs (goto_pc t w s)"
  using assms claims_update [of t "pt_workers s" e w] busy_update [of t "pt_workers s" w]
  by (auto simp: in_call_def not_in_update)

lemma in_call_worker:
  assumes i: "in_call n a e job cs s" and t: "t < n" and s': "s' \<in> set (worker_loop t s)"
  shows "\<exists>cs'. pt_calls s' = pt_calls s @ cs' \<and> in_call n a e job (cs @ cs') s'"
proof -
  have n: "pt_nthreads s = n" and en: "pt_end s = e" and wk: "pt_work s = Some job" and c: "a \<le> pt_current s"
    and sh: "\<not> pt_shutdown s" and as: "Asleep \<notin> set (pt_workers s)" and le: "Exited \<notin> set (pt_workers s)"
    using i by (auto simp: in_call_def)
  note u = claims_update [of t "pt_workers s" e] busy_update [of t "pt_workers s"]
  note q = in_call_quiet [OF i t]
  show ?thesis
  proof (cases "pt_workers s ! t")
    case (At_cas k)
    show ?thesis
    proof (cases "pt_current s = k")
      case True
      have "in_call n a e job cs (goto_pc t (Claimed k) (s\<lparr>pt_current := k + 1\<rparr>))"
        using i t At_cas True u [of "Claimed k"] upto_grow [OF c, of e]
        by (auto simp: in_call_def not_in_update split: if_splits)
      with s' At_cas True show ?thesis by (simp add: worker_loop_def)
    next
      case False
      with s' At_cas q [of At_load] show ?thesis by (simp add: worker_loop_def)
    qed
  next
    case (Claimed k)
    show ?thesis
    proof (cases "k < e")
      case True
      let ?c = "(t, k, Some job)"
      have g: "claims e (pt_workers s) = add_mset k (claims e ((pt_workers s)[t := Busy k]))"
        using u(1) [of "Busy k"] n t Claimed True by simp
      have "in_call n a e job (cs @ [?c]) (goto_pc t (Busy k) (s\<lparr>pt_calls := pt_calls s @ [?c]\<rparr>))"
        using i t Claimed True u(2) [of "Busy k"] unfolding in_call_def by (simp add: g not_in_update calls_ok_def)
      with s' Claimed True en wk show ?thesis by (intro exI [of _ "[?c]"]) (simp add: worker_loop_def)
    next
      case False
      with s' Claimed en q [of At_done] show ?thesis by (simp add: worker_loop_def)
    qed
  next
    case (Busy k)
    have "in_call n a e job cs (goto_pc t At_load (s\<lparr>pt_done_work := pt_done_work s + 1\<rparr>))"
      using i t Busy u [of At_load] by (auto simp: in_call_def not_in_update)
    with s' Busy show ?thesis by (simp add: worker_loop_def)
  next
    case At_done
    let ?s = "goto_pc t At_wait (s\<lparr>pt_done_count := pt_done_count s + 1\<rparr>)"
    have "in_call n a e job cs (goto_pc t At_wait s)" using q [of At_wait] At_done by simp
    then have "in_call n a e job cs (?s\<lparr>pt_caller := (case pt_caller ?s of Sleeping e \<Rightarrow> Checking e | c \<Rightarrow> c)\<rparr>)"
      by (auto simp: in_call_def)
    moreover have "Asleep \<notin> set (pt_workers ?s)" using as by (simp add: not_in_update)
    ultimately show ?thesis using s' At_done by (simp add: worker_loop_def signal_awake)
  next
    case Asleep
    with as n t show ?thesis by (metis nth_mem)
  next
    case Exited
    with le n t show ?thesis by (metis nth_mem)
  qed (use s' sh wk q [of At_load] q [of "At_cas (pt_current s)"] in \<open>simp_all add: worker_loop_def\<close>)
qed

text \<open>When the counters let the caller go, every index has been run.\<close>

lemma in_call_returns:
  assumes i: "in_call n a e job cs s" and d: "e \<le> pt_done_work s" and ae: "a < e"
  shows "after_call n a e job cs (s\<lparr>pt_work := None, pt_caller := Idle\<rparr>)"
proof -
  let ?r = "[a .. min (pt_current s) e - 1]"
  have m: "mset (indices cs) + claims e (pt_workers s) = mset ?r"
    and w: "pt_done_work s + int (n_busy (pt_workers s)) = a + int (length cs)" using i by (auto simp: in_call_def)
  have sz: "length cs + size (claims e (pt_workers s)) = length ?r"
    using arg_cong [OF m, of size] by simp
  have "int (length ?r) = min (pt_current s) e - a" using i ae by (auto simp: in_call_def)
  with sz w d ae have b: "n_busy (pt_workers s) = 0" and z: "size (claims e (pt_workers s)) = 0" and c: "e \<le> pt_current s"
    by (auto simp: min_def simp del: size_eq_0_iff_empty split: if_splits)
  with m i show ?thesis by (auto simp: in_call_def after_call_def min_def)
qed

lemma in_call_caller:
  assumes i: "in_call n a e job cs s" and ae: "a < e" and s': "s' \<in> set (parallel_for_wait s)"
  shows "pt_calls s' = pt_calls s \<and> (in_call n a e job cs s' \<or> after_call n a e job cs s')"
proof (cases "pt_caller s")
  case (Checking e')
  then have "e' = e" using i by (auto simp: in_call_def)
  with s' Checking i in_call_returns [OF i _ ae] show ?thesis
    by (auto simp: parallel_for_wait_def in_call_def split: if_splits)
qed (use s' in \<open>auto simp: parallel_for_wait_def\<close>)

lemma after_call_quiet:
  assumes "after_call n a e job cs s" and t: "t < n"
    and "claim e w = claim e (pt_workers s ! t)" "busy w = busy (pt_workers s ! t)"
  shows "after_call n a e job cs (goto_pc t w s)"
  using assms claims_update [of t "pt_workers s" e w] busy_update [of t "pt_workers s" w]
  by (auto simp: after_call_def)

lemma after_call_worker:
  assumes i: "after_call n a e job cs s" and t: "t < n" and s': "s' \<in> set (worker_loop t s)"
  shows "pt_calls s' = pt_calls s \<and> after_call n a e job cs s'"
proof -
  have n: "pt_nthreads s = n" and en: "pt_end s = e" and c: "e \<le> pt_current s" and id: "pt_caller s = Idle"
    and b: "n_busy (pt_workers s) = 0" and cl: "claims e (pt_workers s) = {#}"
    using i by (auto simp: after_call_def)
  have "pt_workers s ! t \<in> set (pt_workers s)" using n t by simp
  with b cl have bt: "busy (pt_workers s ! t) = 0" and ct: "claim e (pt_workers s ! t) = {#}"
    by (auto simp: n_busy_def claims_def sum_list_zero)
  note q = after_call_quiet [OF i t, unfolded bt ct]
  show ?thesis
  proof (cases "pt_workers s ! t")
    case (At_cas k)
    have "after_call n a e job cs (goto_pc t (Claimed k) (s\<lparr>pt_current := k + 1\<rparr>))" if "pt_current s = k"
      using q [of "Claimed k"] that c by (auto simp: after_call_def)
    with s' At_cas q [of At_load] show ?thesis by (auto simp: worker_loop_def)
  next
    case (Claimed k)
    with s' en ct q [of At_done] show ?thesis by (auto simp: worker_loop_def split: if_splits)
  next
    case At_done
    let ?s = "goto_pc t At_wait (s\<lparr>pt_done_count := pt_done_count s + 1\<rparr>)"
    have a: "after_call n a e job cs ?s" using q [of At_wait] by (auto simp: after_call_def)
    have "after_call n a e job cs (goto_pc u At_wait ?s)" if "u < n" "pt_workers ?s ! u = Asleep" for u
      using after_call_quiet [OF a that(1), of At_wait] that(2) by simp
    with a s' At_done n id signalD [of s' ?s] show ?thesis by (auto simp: worker_loop_def)
  qed (use s' bt q in \<open>auto simp: worker_loop_def\<close>)
qed

lemma subset_mset_upto: fixes a :: int shows "c \<le> e \<Longrightarrow> mset [a .. c] \<subseteq># mset [a .. e]"
  by (subst (1 2) mset_set_set [symmetric]) (auto intro: subset_imp_msubset_mset_set)

text \<open>Both phases together, from the state in which the call was made.\<close>

definition phase :: "nat \<Rightarrow> int \<Rightarrow> int \<Rightarrow> 'j \<Rightarrow> 'j pthreads \<Rightarrow> 'j pthreads \<Rightarrow> bool" where
  "phase n a e job s0 s \<longleftrightarrow>
     (\<exists>cs. pt_calls s = pt_calls s0 @ cs \<and> (in_call n a e job cs s \<or> after_call n a e job cs s))"

lemma phase_step:
  assumes "phase n a e job s0 s" and "a < e" and "pt_step s s'"
  shows "phase n a e job s0 s'"
  using assms(3)
proof cases
  case (worker t)
  with assms(1) in_call_worker [of n a e job _ s t s'] after_call_worker [of n a e job _ s t s'] show ?thesis
    by (fastforce simp: phase_def in_call_def after_call_def)
next
  case caller
  have "pt_caller s \<noteq> Idle" using caller by (auto simp: parallel_for_wait_def)
  with assms(1,2) caller in_call_caller [of n a e job _ s s'] show ?thesis
    by (fastforce simp: phase_def after_call_def)
qed

lemma phase_spurious:
  assumes "phase n a e job s0 s" and "pt_spurious s s'"
  shows "phase n a e job s0 s'"
  using assms(2)
proof cases
  case (worker t)
  then have "Asleep \<in> set (pt_workers s)" by (metis nth_mem)
  with assms(1) obtain cs where cs: "pt_calls s = pt_calls s0 @ cs" "after_call n a e job cs s"
    by (auto simp: phase_def in_call_def)
  with worker have "t < n" by (auto simp: after_call_def)
  with worker cs after_call_quiet [of n a e job cs s t At_wait] show ?thesis by (auto simp: phase_def)
next
  case (caller e')
  with assms(1) show ?thesis by (auto simp: phase_def in_call_def after_call_def)
qed

lemma at_rest_claims: "at_rest s \<Longrightarrow> claims e (pt_workers s) = {#} \<and> n_busy (pt_workers s) = 0"
proof -
  assume "at_rest s"
  then have "claim e w = {#} \<and> busy w = 0" if "w \<in> set (pt_workers s)" for w
    using that by (cases w) (auto simp: at_rest_def list_all_iff)
  then show ?thesis unfolding claims_def n_busy_def by (simp add: sum_list_map_0)
qed

lemma claims_wake: "claims e (List.map wake_worker ws) = claims e ws" "n_busy (List.map wake_worker ws) = n_busy ws"
  unfolding claims_def n_busy_def by (induction ws) (auto simp: wake_worker_def)

lemma call_starts:
  assumes "at_rest s" and "a < e"
  shows "phase (pt_nthreads s) a e job s (pthreads_parallel_for a e job s)"
proof -
  have n: "\<not> pt_nthreads s < 1" using assms(1) by (cases "pt_workers s") (simp_all add: at_rest_def)
  have "in_call (pt_nthreads s) a e job [] (pthreads_parallel_for a e job s)"
    using assms n at_rest_claims [OF assms(1), of e]
    by (auto simp: in_call_def pthreads_parallel_for_def broadcast_def claims_wake calls_ok_def indices_def
      wake_worker_def at_rest_def list_all_iff split: if_splits)
  then show ?thesis using n assms(2) by (auto simp: phase_def pthreads_parallel_for_def broadcast_def)
qed

lemma reach_phase:
  assumes "at_rest s" and "a < e" and "pt_reach (pthreads_parallel_for a e job s) s'"
  shows "phase (pt_nthreads s) a e job s s'"
  using assms(3)
proof (induction rule: pt_reach.induct)
  case start
  show ?case by (rule call_starts [OF assms(1,2)])
next
  case (step s1 s2)
  show ?case by (rule phase_step [OF step.IH assms(2) step.hyps(2)])
next
  case (spurious s1 s2)
  show ?case by (rule phase_spurious [OF spurious.IH spurious.hyps(2)])
qed

section \<open>A call can always still return\<close>

text \<open>Thread \<open>t\<close> running alone: how far it is from finishing an index that it has or can get, and
  from reporting when there is none left.\<close>

definition has_index :: "int \<Rightarrow> nat \<Rightarrow> 'j pthreads \<Rightarrow> bool" where
  "has_index e t s \<longleftrightarrow> (case pt_workers s ! t of Busy i \<Rightarrow> True | Claimed i \<Rightarrow> i < e | _ \<Rightarrow> False)"

definition solo :: "int \<Rightarrow> nat \<Rightarrow> 'j pthreads \<Rightarrow> nat" where
  "solo e t s = (case pt_workers s ! t of
     Claimed i \<Rightarrow> if i < e then 1 else 7
   | At_done \<Rightarrow> 6 | At_wait \<Rightarrow> 5 | At_cas i \<Rightarrow> if i = pt_current s then 2 else 5 | At_load \<Rightarrow> 3 | _ \<Rightarrow> 0)"

definition report :: "nat \<Rightarrow> 'j pthreads \<Rightarrow> nat" where
  "report t s = (case pt_workers s ! t of
     Claimed i \<Rightarrow> 1 | At_wait \<Rightarrow> 5 | At_cas i \<Rightarrow> if i = pt_current s then 2 else 5 | At_load \<Rightarrow> 3 | _ \<Rightarrow> 0)"

lemma in_call_at:
  assumes "in_call n a e job cs s" and "t < n"
  shows "pt_workers s ! t \<noteq> Asleep" "pt_workers s ! t \<noteq> Exited" "pt_nthreads s = n" "pt_end s = e"
    "pt_work s = Some job" "\<not> pt_shutdown s" "Asleep \<notin> set ((pt_workers s)[t := At_wait])" "pt_caller s = Checking e \<or> pt_caller s = Sleeping e"
  using assms by (auto simp: in_call_def not_in_update) (metis nth_mem)+

lemma solo_step:
  assumes i: "in_call n a e job cs s" and t: "t < n" and h: "has_index e t s \<or> pt_current s < e"
  shows "\<exists>s' cs'. pt_step s s' \<and> in_call n a e job cs' s' \<and>
    (pt_done_work s' = pt_done_work s + 1
     \<or> pt_done_work s' = pt_done_work s \<and> solo e t s' < solo e t s \<and> (has_index e t s' \<or> pt_current s' < e))"
proof -
  note at = in_call_at [OF i t]
  obtain s' where s': "worker_loop t s = [s']" and f: "pt_done_work s' = pt_done_work s + 1
     \<or> pt_done_work s' = pt_done_work s \<and> solo e t s' < solo e t s \<and> (has_index e t s' \<or> pt_current s' < e)"
    using at t h by (cases "pt_workers s ! t") (auto simp: worker_loop_def signal_awake solo_def has_index_def)
  show ?thesis using in_call_worker [OF i t, of s'] pt_step.worker [of t s s'] at(3) t s' f by auto
qed

lemma solo_index:
  assumes "in_call n a e job cs s" and "t < n" and "has_index e t s \<or> pt_current s < e"
  shows "\<exists>s' cs'. pt_step\<^sup>*\<^sup>* s s' \<and> in_call n a e job cs' s' \<and> pt_done_work s' = pt_done_work s + 1"
  using assms
proof (induction "solo e t s" arbitrary: s cs rule: less_induct)
  case less
  from solo_step [OF less.prems] obtain s' cs' where st: "pt_step s s'" and i: "in_call n a e job cs' s'"
    and f: "pt_done_work s' = pt_done_work s + 1
     \<or> pt_done_work s' = pt_done_work s \<and> solo e t s' < solo e t s \<and> (has_index e t s' \<or> pt_current s' < e)"
    by blast
  from f show ?case
  proof
    assume "pt_done_work s' = pt_done_work s + 1"
    then show ?thesis using st i by blast
  next
    assume g: "pt_done_work s' = pt_done_work s \<and> solo e t s' < solo e t s \<and> (has_index e t s' \<or> pt_current s' < e)"
    then obtain s'' cs'' where "pt_step\<^sup>*\<^sup>* s' s''" "in_call n a e job cs'' s''" "pt_done_work s'' = pt_done_work s' + 1"
      using less.hyps [OF _ i less.prems(2)] by blast
    then show ?thesis using st g converse_rtranclp_into_rtranclp by (metis (no_types))
  qed
qed

text \<open>While an index is missing, some thread has it or can claim one.\<close>

lemma some_index:
  assumes i: "in_call n a e job cs s" and d: "pt_done_work s < e" and n: "0 < n"
  shows "\<exists>t < n. has_index e t s \<or> pt_current s < e"
proof (cases "\<exists>t < n. has_index e t s")
  case False
  have "claim e w = {#} \<and> busy w = 0" if w: "w \<in> set (pt_workers s)" for w
  proof -
    obtain t where "t < pt_nthreads s" "pt_workers s ! t = w" using w by (auto simp: in_set_conv_nth)
    moreover have "pt_nthreads s = n" using i by (simp add: in_call_def)
    ultimately have "t < n" "pt_workers s ! t = w" by simp_all
    with False show ?thesis by (cases w) (auto simp: has_index_def)
  qed
  then have "claims e (pt_workers s) = {#}" "n_busy (pt_workers s) = 0"
    unfolding claims_def n_busy_def by (simp_all add: sum_list_map_0)
  with i have m: "mset (indices cs) = mset [a .. min (pt_current s) e - 1]" "pt_done_work s = a + int (length cs)" "a \<le> pt_current s"
    by (auto simp: in_call_def)
  from arg_cong [OF m(1), of size] have "length cs = length [a .. min (pt_current s) e - 1]" by simp
  with m d have "pt_current s < e" by (auto simp: min_def split: if_splits)
  with n show ?thesis by blast
qed blast

lemma all_indices:
  assumes "in_call n a e job cs s" and "0 < n"
  shows "\<exists>s' cs'. pt_step\<^sup>*\<^sup>* s s' \<and> in_call n a e job cs' s' \<and> e \<le> pt_done_work s'"
  using assms(1)
proof (induction "nat (e - pt_done_work s)" arbitrary: s cs rule: less_induct)
  case less
  show ?case
  proof (cases "e \<le> pt_done_work s")
    case False
    with some_index [OF less.prems _ assms(2)] obtain t where "t < n" "has_index e t s \<or> pt_current s < e" by auto
    from solo_index [OF less.prems this] obtain s' cs' where
      s': "pt_step\<^sup>*\<^sup>* s s'" "in_call n a e job cs' s'" "pt_done_work s' = pt_done_work s + 1" by blast
    moreover have "nat (e - pt_done_work s') < nat (e - pt_done_work s)" using s'(3) False by simp
    ultimately show ?thesis using less.hyps [OF _ s'(2)] by (meson rtranclp_trans)
  qed (use less.prems in blast)
qed

text \<open>Once they are all done, every thread that reaches the end reports, and its signal wakes the
  caller.\<close>

lemma report_step:
  assumes i: "in_call n a e job cs s" and t: "t < n" and d: "e \<le> pt_done_work s" and ae: "a < e"
  shows "\<exists>s'. pt_step s s' \<and> in_call n a e job cs s' \<and> e \<le> pt_done_work s' \<and>
    (pt_done_count s' = pt_done_count s + 1 \<and> pt_caller s' = Checking e
     \<or> pt_done_count s' = pt_done_count s \<and> report t s' < report t s)"
proof -
  note at = in_call_at [OF i t]
  have af: "after_call n a e job cs (s\<lparr>pt_work := None, pt_caller := Idle\<rparr>)" by (rule in_call_returns [OF i d ae])
  have m: "pt_workers s ! t \<in> set (pt_workers s)" using at(3) t by simp
  have nb: "busy (pt_workers s ! t) = 0" "claim e (pt_workers s ! t) = {#}"
    using af m sum_list_zero [of "claim e" "pt_workers s"] by (auto simp: after_call_def n_busy_def claims_def)
  obtain s' where s': "worker_loop t s = [s']" "pt_calls s' = pt_calls s" "e \<le> pt_done_work s'"
    and f: "pt_done_count s' = pt_done_count s + 1 \<and> pt_caller s' = Checking e
     \<or> pt_done_count s' = pt_done_count s \<and> report t s' < report t s"
    using at t nb d by (cases "pt_workers s ! t") (auto simp: worker_loop_def signal_awake report_def split: if_splits)
  show ?thesis using in_call_worker [OF i t, of s'] pt_step.worker [of t s s'] at(3) t s' f by auto
qed

lemma reports:
  assumes "in_call n a e job cs s" and "t < n" and "e \<le> pt_done_work s" and "a < e"
  shows "\<exists>s'. pt_step\<^sup>*\<^sup>* s s' \<and> in_call n a e job cs s' \<and> e \<le> pt_done_work s'
    \<and> pt_done_count s' = pt_done_count s + 1 \<and> pt_caller s' = Checking e"
  using assms(1-3)
proof (induction "report t s" arbitrary: s rule: less_induct)
  case less
  from report_step [OF less.prems assms(4)] obtain s' where st: "pt_step s s'" and i: "in_call n a e job cs s'"
    and d: "e \<le> pt_done_work s'"
    and f: "pt_done_count s' = pt_done_count s + 1 \<and> pt_caller s' = Checking e
      \<or> pt_done_count s' = pt_done_count s \<and> report t s' < report t s" by blast
  from f show ?case
  proof
    assume "pt_done_count s' = pt_done_count s \<and> report t s' < report t s"
    with less.hyps [OF _ i less.prems(2) d] st show ?thesis by (metis converse_rtranclp_into_rtranclp)
  qed (use st i d in blast)
qed

lemma all_reports:
  assumes "in_call n a e job cs s" and "0 < n" and "e \<le> pt_done_work s" and "a < e"
  shows "\<exists>s'. pt_step\<^sup>*\<^sup>* s s' \<and> in_call n a e job cs s' \<and> e \<le> pt_done_work s'
    \<and> k < pt_done_count s' \<and> pt_caller s' = Checking e"
proof (induction k)
  case 0
  with reports [OF assms(1,2,3,4)] show ?case by force
next
  case (Suc k)
  then obtain s' where s': "pt_step\<^sup>*\<^sup>* s s'" "in_call n a e job cs s'" "e \<le> pt_done_work s'" "k < pt_done_count s'" by blast
  from reports [OF s'(2) assms(2) s'(3) assms(4)] s' show ?case by (metis Suc_eq_plus1 Suc_mono rtranclp_trans)
qed

lemma in_call_can_return:
  assumes "in_call n a e job cs s" and "0 < n" and "a < e"
  shows "\<exists>s'. pt_step\<^sup>*\<^sup>* s s' \<and> pt_caller s' = Idle"
proof -
  obtain s1 cs1 where 1: "pt_step\<^sup>*\<^sup>* s s1" "in_call n a e job cs1 s1" "e \<le> pt_done_work s1"
    using all_indices [OF assms(1,2)] by blast
  obtain s2 where 2: "pt_step\<^sup>*\<^sup>* s1 s2" "in_call n a e job cs1 s2" "e \<le> pt_done_work s2" "n < pt_done_count s2" "pt_caller s2 = Checking e"
    using all_reports [OF 1(2) assms(2) 1(3) assms(3)] by blast
  have "pt_step s2 (s2\<lparr>pt_work := None, pt_caller := Idle\<rparr>)"
    using 2 by (intro pt_step.caller) (auto simp: parallel_for_wait_def in_call_def)
  with 2(1) have "pt_step\<^sup>*\<^sup>* s1 (s2\<lparr>pt_work := None, pt_caller := Idle\<rparr>)" by (rule rtranclp.rtrancl_into_rtrancl)
  with 1(1) have "pt_step\<^sup>*\<^sup>* s (s2\<lparr>pt_work := None, pt_caller := Idle\<rparr>)" by (rule rtranclp_trans)
  then show ?thesis by (intro exI [of _ "s2\<lparr>pt_work := None, pt_caller := Idle\<rparr>"]) simp
qed

section \<open>Properties\<close>



text \<open>So what the kernels assume of the pool holds of a call from rest: over \<open>[0, n)\<close> the indices
  come out as some arrangement of \<open>0, ..., n - 1\<close>.\<close>

lemma mset_nat_upto: "mset (List.map nat [0 .. int n - 1]) = mset [0 ..< n]"
proof -
  have "List.map nat [0 .. int n - 1] = [0 ..< n]"
    by (rule nth_equalityI) (simp_all add: nth_upto)
  then show ?thesis by simp
qed

lemma parallel_for_order:
  assumes "at_rest s" and "0 < n" and "pt_reach (pthreads_parallel_for 0 (int n) job s) s'" and "pt_caller s' = Idle"
  shows "mset (List.map nat (indices (drop (length (pt_calls s)) (pt_calls s')))) = mset [0 ..< n]"
proof -
  obtain cs where "pt_calls s' = pt_calls s @ cs" "mset (indices cs) = mset [0 .. int n - 1]"
    using reach_phase [OF assms(1) _ assms(3)] assms(2,4) by (auto simp: phase_def in_call_def after_call_def)
  then show ?thesis using mset_nat_upto [of n] by (metis append_eq_conv_conj mset_map)
qed

text \<open>Shutting down a pool whose workers all wait: the broadcast wakes them, each leaves at its next
  step, and the joins return.\<close>

lemma destroy_joins:
  assumes "set (pt_workers s) \<subseteq> {At_wait, Asleep}" and "t < pt_nthreads s"
  shows "worker_loop t (pthreads_destroy s) = [goto_pc t Exited (pthreads_destroy s)]"
proof -
  have "pt_workers s ! t \<in> {At_wait, Asleep}" using assms nth_mem by blast
  then show ?thesis using assms(2) by (auto simp: worker_loop_def pthreads_destroy_def broadcast_def wake_worker_def)
qed

section \<open>Two calls in a row\<close>

text \<open>\<open>work\<close> stays set until the caller wakes, so a thread that has reported takes part again and is
  counted again; the caller can return while another thread still holds an index that it has not
  compared with \<open>end\<close>.  If the next call comes first, that thread runs the index in the new range,
  which the new range hands out once more.\<close>

datatype pt_move = Move nat | Return

fun schedule :: "pt_move list \<Rightarrow> 'j pthreads \<Rightarrow> 'j pthreads option" where
  "schedule [] s = Some s"
| "schedule (Move t # ms) s =
     (if t < pt_nthreads s then case worker_loop t s of [] \<Rightarrow> None | s' # _ \<Rightarrow> schedule ms s' else None)"
| "schedule (Return # ms) s = (case parallel_for_wait s of [] \<Rightarrow> None | s' # _ \<Rightarrow> schedule ms s')"

lemma schedule_steps: "schedule ms s = Some s' \<Longrightarrow> pt_step\<^sup>*\<^sup>* s s'"
proof (induction ms s rule: schedule.induct)
  case (2 t ms s)
  then obtain x xs where "t < pt_nthreads s" "worker_loop t s = x # xs" "schedule ms x = Some s'"
    by (auto split: if_splits list.splits)
  with 2(1) [of x xs] pt_step.worker [of t s x] show ?case by (simp add: converse_rtranclp_into_rtranclp)
next
  case (3 ms s)
  then obtain x xs where "parallel_for_wait s = x # xs" "schedule ms x = Some s'" by (auto split: list.splits)
  with 3(1) [of x xs] pt_step.caller [of x s] show ?case by (simp add: converse_rtranclp_into_rtranclp)
qed simp

lemma reach_steps: "pt_step\<^sup>*\<^sup>* s s' \<Longrightarrow> pt_reach s s'"
  by (induction rule: rtranclp_induct) (auto intro: pt_reach.intros)

definition two_threads :: "string pthreads" where
  "two_threads = the (pthreads_create (\<lambda>i. True) 2)"

text \<open>Thread 1 claims index 2 of the range \<open>[0, 1)\<close> and is held up; thread 0 reports twice.\<close>

definition first_moves :: "pt_move list" where
  "first_moves = List.map Move [0, 0, 0, 0, 0, 0, 0, 1, 1, 1, 0, 0, 0, 0, 0, 0, 0] @ [Return]"

text \<open>In \<open>[0, 3)\<close> thread 1 runs 2, thread 0 runs 0 and claims 1, thread 1 runs 2 again and reports twice.\<close>

definition second_moves :: "pt_move list" where
  "second_moves = List.map Move [1, 1, 0, 0, 0, 0, 0, 0, 0, 1, 1, 1, 1, 1, 1, 1, 1, 1, 1, 1, 1, 1] @ [Return]"

definition between_calls :: "string pthreads" where
  "between_calls = the (schedule first_moves (pthreads_parallel_for 0 1 ''f'' two_threads))"

definition after_second :: "string pthreads" where
  "after_second = the (schedule second_moves (pthreads_parallel_for 0 3 ''g'' between_calls))"

lemma straggler_states:
  "at_rest two_threads"
  "schedule first_moves (pthreads_parallel_for 0 1 ''f'' two_threads) = Some between_calls"
  "pt_caller between_calls = Idle"
  "schedule second_moves (pthreads_parallel_for 0 3 ''g'' between_calls) = Some after_second"
  "pt_caller after_second = Idle"
  "pt_calls after_second = [(0, 0, Some ''f''), (1, 2, Some ''g''), (0, 0, Some ''g''), (1, 2, Some ''g'')]"
  "List.map pt_calls (worker_loop 0 after_second) = [pt_calls after_second @ [(0, 1, None)]]"
  by code_simp+

text \<open>Both calls return, but in the second index 2 has run twice and index 1 not at all; thread 0
  then calls the work function that the return has set to NULL.\<close>

lemma calls_overlap:
  "\<exists>s1 s2. at_rest two_threads
    \<and> pt_reach (pthreads_parallel_for 0 1 ''f'' two_threads) s1 \<and> pt_caller s1 = Idle
    \<and> pt_reach (pthreads_parallel_for 0 3 ''g'' s1) s2 \<and> pt_caller s2 = Idle
    \<and> pt_calls s2 = pt_calls s1 @ [(1, 2, Some ''g''), (0, 0, Some ''g''), (1, 2, Some ''g'')]
    \<and> (\<exists>s3. pt_step s2 s3 \<and> pt_calls s3 = pt_calls s2 @ [(0, 1, None)])"
proof -
  have c: "pt_calls between_calls = [(0, 0, Some ''f'')]" "0 < pt_nthreads after_second" by code_simp+
  obtain s3 where s3: "worker_loop 0 after_second = [s3]" "pt_calls s3 = pt_calls after_second @ [(0, 1, None)]"
    using straggler_states(7) by (auto simp: map_eq_Cons_conv)
  have "pt_step after_second s3" using s3(1) c(2) pt_step.worker [of 0 after_second s3] by simp
  with c(1) s3(2) show ?thesis using straggler_states reach_steps [OF schedule_steps] by (intro exI [of _ between_calls] exI [of _ after_second]) auto
qed

lemma first_reach: "pt_reach (pthreads_parallel_for 0 1 ''f'' two_threads) between_calls"
  by (rule reach_steps [OF schedule_steps [OF straggler_states(2)]])



end
