(* ===== verification/Spec2Isabelle.thy ===== *)
theory Spec2Isabelle
  imports Prelude CUtils TokenTable GgufCursor GgufModel ModelWeights Vocab Tokenizer ChatPrompt
    HttpJson ServerRequest WorkerPool ClientRead EngineConfig TopSelect Sampler
    GraphCore GraphTyping DenseGraphs HybridGraphs ArenaPlan GraphPlan GraphExec GraphSession
    CpuKernels CpuOps CpuLocal CpuRows CpuRowOps CpuRowRec CpuRowScan CpuMatmul CpuAttn CpuFrame BatchSplit CpuBatch Quants Pthreads
begin

text \<open>
  A verification library for tinyllama.c, an inference engine for language models in GGUF files
  with an HTTP server in front.  All paths below are relative to \<open>src/src\<close>.

  How the program works.  A model file is mapped and parsed (\<open>core.c\<close>): header, metadata and
  tensor table through a bounds-checked cursor, then the weight tables of its architecture and
  the vocabulary.  A session derives the dimensions of the network and how many layers and how
  much context the device holds (\<open>core.c\<close>).  A request arrives at the server (\<open>server.c\<close>),
  is read and queued for a worker, its JSON body is picked apart (\<open>http.c\<close>), laid out by a chat
  template and tokenised (\<open>tokenizer.c\<close>).  The architecture (\<open>model/*.c\<close>) builds a static graph
  of operators once (\<open>graph.c\<close>); the graph is planned (one arena per backend, slots reused) and
  executed for every micro-batch of tokens.  The logits go to the sampler (\<open>sampler.c\<close>), the
  sampled tokens are decoded and streamed back.

  The theories, in the order of the code's layers:

  \<^item> \<open>Prelude\<close>: bytes, wrapping \<open>u64\<close> arithmetic, fatal errors as the left of a sum.
  \<^item> \<open>CUtils\<close>, \<open>TokenTable\<close>: \<open>utils.c\<close>; the open-addressing hash table of \<open>core.c\<close>.
  \<^item> \<open>GgufCursor\<close>, \<open>GgufModel\<close>, \<open>ModelWeights\<close>: the cursor operations, metadata and tensor
    parsing, architecture detection, weight tables and the completeness check.  What loads lies
    inside the file, a printed file loads back, and a complete model fills every required role.
  \<^item> \<open>Vocab\<close>, \<open>Tokenizer\<close>, \<open>ChatPrompt\<close>: vocabulary loaders, byte level BPE and SentencePiece,
    the byte decoder and the chat templates.  Encoding loses nothing within the code's limits;
    templates stay within their buffer.
  \<^item> \<open>HttpJson\<close>, \<open>ServerRequest\<close>, \<open>ClientRead\<close>, \<open>WorkerPool\<close>: JSON helpers, message selection,
    the generation loop and UTF-8 streaming, the connection reader, and the ring of jobs with its
    workers as a step relation with reachability.
  \<^item> \<open>EngineConfig\<close>: dimensions, automatic context size and offload depth.
  \<^item> \<open>TopSelect\<close>, \<open>Sampler\<close>: heap selection of candidates, penalties, filters, the generator.
  \<^item> \<open>GraphCore\<close>: nodes, builders of single nodes and row widths.  \<open>GraphTyping\<close>: when a graph
    is well typed, with one rule per builder.  \<open>DenseGraphs\<close> (Llama, Qwen 2.5, Gemma 3) and
    \<open>HybridGraphs\<close> (Falcon-H1, Qwen 3.5): workspaces and graph builders; each turns a model of
    the right shapes into a complete graph: well typed, with the logits as its only sink.
  \<^item> \<open>ArenaPlan\<close>: sinks, lifetimes and the best-fit sweep; live slots are disjoint.
    \<open>GraphPlan\<close>: backends of the nodes, weights per backend, layout of the K/V caches.
  \<^item> \<open>GraphExec\<close>: the executor.  The locale \<open>slot_store\<close> states what it needs of memory; the
    arena plan is an instance, so execution on reused slots equals evaluation with a private
    buffer per node.  \<open>GraphSession\<close>: planning on demand, the loop over micro-batches, and the
    same refinement for a whole call.

  Conventions.  A C string is a list of bytes without the NUL, a pointer an index with \<open>None\<close>
  for NULL, \<open>slog(ERROR, ...)\<close> ends the process and is \<open>Inl (Fatal message)\<close>.  Counters and
  sizes are natural numbers with the wrap-around of \<open>u64\<close> written out (\<open>add64\<close>, \<open>mul64\<close>) or
  words where the width matters (node parameters and row widths are \<open>u32\<close>).  Loops that might
  not end are partial functions into option, and that they return is proved.  Floats are an
  arbitrary type with its operations as parameters, so nothing depends on rounding; in the
  graph builders they are bit patterns.  Memory allocation on the host succeeds.

  Bounds.  The executor's theorems assume micro-batches below \<open>2 ^ 30\<close> rows and arenas below
  \<open>2 ^ 64\<close> bytes, which keep \<open>size_t\<close> from wrapping; the payload theorem assumes files below
  \<open>2 ^ 63\<close> bytes.  No fuel is used except \<open>max_tokens\<close>, which is the code's own bound.

  Not modelled.  The device backends (CUDA, Metal) and the SIMD kernels behind the operators,
  sockets and the event loop, logging, the vendored \<open>rax.c\<close> and \<open>linenoise.c\<close>, the command line
  front ends, quantised block formats, the MLA cache of an architecture without a graph builder,
  and freeing memory.
\<close>

end
